(* ===== verification/Prelude.thy ===== *)
theory Prelude
  imports Main "HOL-Library.Word" "HOL-Library.Sublist"
begin

text \<open>
  Shared vocabulary of the development: C strings, results of code that can read out of bounds,
  flag words, and the generic list and word facts that the component theories use.

  A NUL-terminated C string is the \<open>string\<close> of the bytes before its terminator: the empty
  list is a pointer to the terminating NUL, and a suffix of the list is a pointer into the string.
  Reading the byte a pointer designates is \<open>deref\<close>.
\<close>

unbundle bit_operations_syntax

named_theorems cstr_simps \<open>facts about C strings and the character tables\<close>
named_theorems flag_simps \<open>facts about flag words\<close>

type_synonym u8 = "8 word"
type_synonym u16 = "16 word"
type_synonym u32 = "32 word"

abbreviation NUL :: char where
  "NUL \<equiv> CHR 0x00"

datatype c_error = OutOfBounds | NullDeref | AssertionFailed

text \<open>The byte a pointer into a C string designates, the terminator included.\<close>

definition deref :: "string \<Rightarrow> char" where
  "deref s = (case s of [] \<Rightarrow> NUL | c # _ \<Rightarrow> c)"

lemma deref_simps [simp]:
  "deref [] = NUL"
  "deref (c # s) = c"
  by (simp_all add: deref_def)

definition cstring :: "string \<Rightarrow> bool" where
  "cstring s \<longleftrightarrow> NUL \<notin> set s"

lemma cstring_simps [simp]:
  "cstring []"
  "cstring (c # s) \<longleftrightarrow> c \<noteq> NUL \<and> cstring s"
  "cstring (s @ t) \<longleftrightarrow> cstring s \<and> cstring t"
  by (auto simp: cstring_def)

lemma cstring_tl [intro]: "cstring s \<Longrightarrow> cstring (tl s)"
  by (cases s) auto

lemma cstring_dropWhile [intro]: "cstring s \<Longrightarrow> cstring (dropWhile P s)"
  by (auto simp: cstring_def dest: set_dropWhileD)

lemma cstring_drop [intro]: "cstring s \<Longrightarrow> cstring (drop k s)"
  by (auto simp: cstring_def dest: in_set_dropD)

lemma cstring_take [intro]: "cstring s \<Longrightarrow> cstring (take k s)"
  by (auto simp: cstring_def dest: in_set_takeD)

section \<open>Finite enumeration of bytes\<close>

lemma all_byte_iff: "(\<forall>n < 256. P n) \<longleftrightarrow> list_all P [0..<256]"
  by (auto simp: list_all_iff)

lemma of_char_less_256 [simp]: "(of_char c :: nat) < 256"
  using nat_of_char_less_256 [of c] by simp

lemma all_char_iff: "(\<forall>c. P (of_char c :: nat)) \<longleftrightarrow> (\<forall>n < 256. P n)"
proof
  assume all: "\<forall>c. P (of_char c :: nat)"
  show "\<forall>n < 256. P n"
  proof (intro allI impI)
    fix n :: nat assume "n < 256"
    then have "of_char (char_of n :: char) = n" by simp
    with all show "P n" by metis
  qed
qed simp

section \<open>Flag words\<close>

definition has_flag :: "u32 \<Rightarrow> u32 \<Rightarrow> bool" where
  "has_flag w f \<longleftrightarrow> w AND f \<noteq> 0"

definition add_flag :: "u32 \<Rightarrow> u32 \<Rightarrow> u32" where
  "add_flag w f = w OR f"

definition del_flag :: "u32 \<Rightarrow> u32 \<Rightarrow> u32" where
  "del_flag w f = w AND NOT f"

lemma has_flag_zero [simp]: "\<not> has_flag 0 f" "\<not> has_flag w 0"
  by (simp_all add: has_flag_def)

lemma has_flag_del_same [simp, flag_simps]: "\<not> has_flag (del_flag w f) f"
  by (simp add: has_flag_def del_flag_def and.assoc)

lemma has_flag_add_same [flag_simps]: "f \<noteq> 0 \<Longrightarrow> has_flag (add_flag w f) f"
  by (simp add: has_flag_def add_flag_def bit.conj_disj_distrib2)

lemma and_not_disjoint:
  assumes "f AND g = 0"
  shows "NOT f AND g = (g :: u32)"
proof (rule bit_word_eqI)
  fix n assume "n < LENGTH(32)"
  moreover have "\<not> bit (f AND g) n" using assms by simp
  ultimately show "bit (NOT f AND g) n = bit g n" by (auto simp: bit_simps)
qed

lemma or_eq_zero_iff: "a OR b = 0 \<longleftrightarrow> a = 0 \<and> b = (0 :: u32)"
  by (rule or_eq_0_iff)

lemma has_flag_or [flag_simps]: "has_flag w (f OR g) \<longleftrightarrow> has_flag w f \<or> has_flag w g"
  by (simp add: has_flag_def bit.conj_disj_distrib or_eq_zero_iff)

lemma has_flag_add_other [flag_simps]: "f AND g = 0 \<Longrightarrow> has_flag (add_flag w f) g = has_flag w g"
  by (simp add: has_flag_def add_flag_def bit.conj_disj_distrib2)

lemma has_flag_del_other [flag_simps]: "f AND g = 0 \<Longrightarrow> has_flag (del_flag w f) g = has_flag w g"
  by (simp add: has_flag_def del_flag_def and.assoc and_not_disjoint)

section \<open>Lists\<close>

lemma suffix_drop_le:
  assumes "suffix t s" "length t \<le> length (drop k s)"
  shows "suffix t (drop k s)"
proof -
  obtain p where p: "s = p @ t" using assms(1) by (auto simp: suffix_def)
  then have "k \<le> length p \<or> t = []" using assms(2) by (cases "k \<le> length s") auto
  then show ?thesis using p by (auto simp: suffix_def)
qed

lemma suffix_append_cases:
  assumes "suffix t (p @ q)"
  shows "suffix t q \<or> (\<exists>r. suffix r p \<and> r \<noteq> [] \<and> t = r @ q)"
  using assms by (metis append_Nil suffix_append suffixI)

section \<open>Runs of operations and simulation\<close>

text \<open>A sequence of operations on a state, each of which may fail.\<close>

fun run_steps :: "('o \<Rightarrow> 's \<Rightarrow> 'e + 's) \<Rightarrow> 'o list \<Rightarrow> 's \<Rightarrow> 'e + 's" where
  "run_steps step [] s = Inr s"
| "run_steps step (x # xs) s = (case step x s of Inl e \<Rightarrow> Inl e | Inr s' \<Rightarrow> run_steps step xs s')"

text \<open>A sequence of operations of a specification; \<open>None\<close> outside an operation's precondition.\<close>

fun run_spec :: "('o \<Rightarrow> 'a \<Rightarrow> 'a option) \<Rightarrow> 'o list \<Rightarrow> 'a \<Rightarrow> 'a option" where
  "run_spec spec [] a = Some a"
| "run_spec spec (x # xs) a = (case spec x a of None \<Rightarrow> None | Some a' \<Rightarrow> run_spec spec xs a')"

locale simulation =
  fixes repr :: "'s \<Rightarrow> 'a \<Rightarrow> bool"
    and step :: "'o \<Rightarrow> 's \<Rightarrow> 'e + 's"
    and spec :: "'o \<Rightarrow> 'a \<Rightarrow> 'a option"
  assumes simulates: "repr s a \<Longrightarrow> spec x a = Some a' \<Longrightarrow> \<exists>s'. step x s = Inr s' \<and> repr s' a'"
begin

lemma run_simulates:
  "repr s a \<Longrightarrow> run_spec spec xs a = Some a' \<Longrightarrow> \<exists>s'. run_steps step xs s = Inr s' \<and> repr s' a'"
proof (induction xs arbitrary: s a)
  case (Cons x xs)
  then obtain b where b: "spec x a = Some b" "run_spec spec xs b = Some a'"
    by (auto split: option.splits)
  then obtain t where "step x s = Inr t" "repr t b" using simulates [OF Cons.prems(1)] by blast
  then show ?case using Cons.IH [of t b] b by simp
qed simp

end

end
