(* ===== verification/CharTable.thy ===== *)
theory CharTable
  imports Prelude
begin

text \<open>
  The character tables of \<open>src/match.c\<close> (\<open>ToLowerTab\<close>, \<open>ToUpperTab\<close>,
  \<open>CharAttrs\<close>) and the classification macros of \<open>include/irc_string.h\<close>.
  The attribute bits of a table entry are the list of their names; rows of equal entries are
  written once with their number. The closed forms of the predicates proved here carry every
  later proof that looks at a character.
\<close>

section \<open>Case folding (RFC 1459)\<close>

definition ToLowerTab :: "nat list" where
  "ToLowerTab = [0..<65] @ [97..<127] @ [95..<256]"

definition ToUpperTab :: "nat list" where
  "ToUpperTab = [0..<97] @ [65..<95] @ [127..<256]"

definition ToLower :: "char \<Rightarrow> char" where
  "ToLower c = char_of (ToLowerTab ! of_char c)"

definition ToUpper :: "char \<Rightarrow> char" where
  "ToUpper c = char_of (ToUpperTab ! of_char c)"

lemma nth_upt3:
  assumes "n < k + l + r"
  shows "([a..<a + k] @ [c..<c + l] @ [e..<e + r]) ! n =
    (if n < k then a + n else if n < k + l then c + (n - k) else e + (n - k - l))"
proof -
  consider "n < k" | i where "n = k + i" "i < l" | i where "n = k + l + i" "i < r"
    using assms by (metis add.assoc add_less_cancel_left le_iff_add not_less)
  then show ?thesis by cases (simp_all add: nth_append)
qed

lemma ToLowerTab_nth: "n < 256 \<Longrightarrow> ToLowerTab ! n = (if 65 \<le> n \<and> n < 95 then n + 32 else n)"
  using nth_upt3 [of n 65 30 161 0 97 95] by (auto simp: ToLowerTab_def simp del: upt_rec_numeral)

lemma ToUpperTab_nth: "n < 256 \<Longrightarrow> ToUpperTab ! n = (if 97 \<le> n \<and> n < 127 then n - 32 else n)"
  using nth_upt3 [of n 97 30 129 0 65 127] by (auto simp: ToUpperTab_def simp del: upt_rec_numeral)

lemma of_char_ToLower:
  "(of_char (ToLower c) :: nat) =
    (if 65 \<le> (of_char c :: nat) \<and> (of_char c :: nat) < 95 then of_char c + 32 else of_char c)"
  by (simp add: ToLower_def ToLowerTab_nth)

lemma of_char_ToUpper:
  "(of_char (ToUpper c) :: nat) =
    (if 97 \<le> (of_char c :: nat) \<and> (of_char c :: nat) < 127 then of_char c - 32 else of_char c)"
  using of_char_less_256 [of c] by (auto simp: ToUpper_def ToUpperTab_nth)

lemma char_eq_of_char_iff: "c = d \<longleftrightarrow> (of_char c :: nat) = of_char d"
  by auto

text \<open>The same by the bits of the character, for evaluation.\<close>

lemma ToLower_code [code]: "ToLower (Char b0 b1 b2 b3 b4 b5 b6 b7) =
    Char b0 b1 b2 b3 b4 (b5 \<or> b6 \<and> \<not> b7 \<and> (b0 \<or> b1 \<or> b2 \<or> b3 \<or> b4) \<and> \<not> (b0 \<and> b1 \<and> b2 \<and> b3 \<and> b4)) b6 b7"
  by (simp only: char_eq_of_char_iff of_char_ToLower)
    (cases b0; cases b1; cases b2; cases b3; cases b4; cases b5; cases b6; cases b7; simp)

lemma ToUpper_code [code]: "ToUpper (Char b0 b1 b2 b3 b4 b5 b6 b7) =
    Char b0 b1 b2 b3 b4 (b5 \<and> \<not> (b6 \<and> \<not> b7 \<and> (b0 \<or> b1 \<or> b2 \<or> b3 \<or> b4) \<and> \<not> (b0 \<and> b1 \<and> b2 \<and> b3 \<and> b4))) b6 b7"
  by (simp only: char_eq_of_char_iff of_char_ToUpper)
    (cases b0; cases b1; cases b2; cases b3; cases b4; cases b5; cases b6; cases b7; simp)

text \<open>The two tables fold the same pairs of characters.\<close>

lemma fold_case_nat:
  fixes m n :: nat
  shows "((if 97 \<le> m \<and> m < 127 then m - 32 else m) = (if 97 \<le> n \<and> n < 127 then n - 32 else n))
     \<longleftrightarrow> ((if 65 \<le> m \<and> m < 95 then m + 32 else m) = (if 65 \<le> n \<and> n < 95 then n + 32 else n))"
  by (auto split: if_split)

lemma ToUpper_eq_iff_ToLower_eq: "ToUpper c = ToUpper d \<longleftrightarrow> ToLower c = ToLower d"
  unfolding char_eq_of_char_iff of_char_ToUpper of_char_ToLower by (rule fold_case_nat)

lemma ToLower_idem [simp]: "ToLower (ToLower c) = ToLower c"
  unfolding char_eq_of_char_iff of_char_ToLower by simp

lemma ToLower_NUL [simp]: "ToLower c = ToLower NUL \<longleftrightarrow> c = NUL" "ToLower NUL = ToLower c \<longleftrightarrow> c = NUL"
  unfolding char_eq_of_char_iff of_char_ToLower by simp_all

lemma ToUpper_NUL [simp]: "ToUpper c = ToUpper NUL \<longleftrightarrow> c = NUL" "ToUpper NUL = ToUpper c \<longleftrightarrow> c = NUL"
  unfolding char_eq_of_char_iff of_char_ToUpper by simp_all

section \<open>Character attributes\<close>

datatype char_attr =
  PRINT_C | CNTRL_C | ALPHA_C | PUNCT_C | DIGIT_C | SPACE_C | NICK_C | CHAN_C | KWILD_C
| CHANPFX_C | USER_C | HOST_C | NONEOS_C | SERV_C | EOL_C | MWILD_C | VCHAN_C

definition CharAttrs_ascii :: "char_attr list list" where
  "CharAttrs_ascii = concat (map (\<lambda>(k, as). replicate k as)
    [
     (1, [CNTRL_C]),
     (1, [CNTRL_C, CHAN_C, VCHAN_C, NONEOS_C]),
     (2, [CNTRL_C, CHAN_C, NONEOS_C]),
     (3, [CNTRL_C, CHAN_C, VCHAN_C, NONEOS_C]),
     (1, [CNTRL_C, NONEOS_C]),
     (1, [CNTRL_C, CHAN_C, VCHAN_C, NONEOS_C]),
     (1, [CNTRL_C, SPACE_C, CHAN_C, VCHAN_C, NONEOS_C]),
     (1, [CNTRL_C, SPACE_C, CHAN_C, VCHAN_C, NONEOS_C, EOL_C]),
     (2, [CNTRL_C, SPACE_C, CHAN_C, VCHAN_C, NONEOS_C]),
     (1, [CNTRL_C, SPACE_C, CHAN_C, VCHAN_C, NONEOS_C, EOL_C]),
     (1, [CNTRL_C, CHAN_C, VCHAN_C, NONEOS_C]),
     (1, [CNTRL_C, CHAN_C, NONEOS_C]),
     (6, [CNTRL_C, CHAN_C, VCHAN_C, NONEOS_C]),
     (1, [CNTRL_C, CHAN_C, NONEOS_C]),
     (6, [CNTRL_C, CHAN_C, VCHAN_C, NONEOS_C]),
     (1, [CNTRL_C, CHAN_C, NONEOS_C]),
     (1, [CNTRL_C, CHAN_C, VCHAN_C, NONEOS_C]),
     (1, [CNTRL_C, CHAN_C, NONEOS_C]),
     (1, [PRINT_C, SPACE_C]),
     (1, [PRINT_C, KWILD_C, CHAN_C, VCHAN_C, NONEOS_C]),
     (1, [PRINT_C, CHAN_C, VCHAN_C, NONEOS_C]),
     (1, [PRINT_C, CHANPFX_C, CHAN_C, VCHAN_C, NONEOS_C]),
     (1, [PRINT_C, CHAN_C, VCHAN_C, NONEOS_C, USER_C]),
     (5, [PRINT_C, CHAN_C, VCHAN_C, NONEOS_C]),
     (1, [PRINT_C, KWILD_C, MWILD_C, CHAN_C, VCHAN_C, NONEOS_C, SERV_C]),
     (1, [PRINT_C, CHAN_C, VCHAN_C, NONEOS_C]),
     (1, [PRINT_C, NONEOS_C]),
     (1, [PRINT_C, NICK_C, CHAN_C, VCHAN_C, NONEOS_C, USER_C, HOST_C]),
     (1, [PRINT_C, KWILD_C, CHAN_C, VCHAN_C, NONEOS_C, USER_C, HOST_C, SERV_C]),
     (1, [PRINT_C, CHAN_C, VCHAN_C, NONEOS_C]),
     (10, [PRINT_C, DIGIT_C, NICK_C, CHAN_C, VCHAN_C, NONEOS_C, USER_C, HOST_C]),
     (1, [PRINT_C, KWILD_C, CHAN_C, VCHAN_C, NONEOS_C, HOST_C]),
     (4, [PRINT_C, CHAN_C, VCHAN_C, NONEOS_C]),
     (1, [PRINT_C, KWILD_C, MWILD_C, CHAN_C, VCHAN_C, NONEOS_C]),
     (1, [PRINT_C, KWILD_C, CHAN_C, VCHAN_C, NONEOS_C]),
     (26, [PRINT_C, ALPHA_C, NICK_C, CHAN_C, VCHAN_C, NONEOS_C, USER_C, HOST_C]),
     (4, [PRINT_C, ALPHA_C, NICK_C, CHAN_C, VCHAN_C, NONEOS_C, USER_C]),
     (2, [PRINT_C, NICK_C, CHAN_C, VCHAN_C, NONEOS_C, USER_C]),
     (26, [PRINT_C, ALPHA_C, NICK_C, CHAN_C, VCHAN_C, NONEOS_C, USER_C, HOST_C]),
     (3, [PRINT_C, ALPHA_C, NICK_C, CHAN_C, VCHAN_C, NONEOS_C, USER_C]),
     (1, [PRINT_C, ALPHA_C, CHAN_C, VCHAN_C, NONEOS_C, USER_C]),
     (1, [CHAN_C, VCHAN_C, NONEOS_C])])"

definition CharAttrs_high :: "char_attr list list" where
  "CharAttrs_high = concat (map (\<lambda>(k, as). replicate k as)
    [
     (32, [CHAN_C, VCHAN_C, NONEOS_C]),
     (1, [CHAN_C, NONEOS_C]),
     (95, [CHAN_C, VCHAN_C, NONEOS_C])])"

definition CharAttrs :: "char_attr list list" where
  "CharAttrs = CharAttrs_ascii @ CharAttrs_high"

definition has_attr :: "char \<Rightarrow> char_attr \<Rightarrow> bool" where
  "has_attr c a \<longleftrightarrow> a \<in> set (CharAttrs ! of_char c)"

definition IsVisibleChanChar :: "char \<Rightarrow> bool" where
  "IsVisibleChanChar c = has_attr c VCHAN_C"

definition IsHostChar :: "char \<Rightarrow> bool" where
  "IsHostChar c = has_attr c HOST_C"

definition IsUserChar :: "char \<Rightarrow> bool" where
  "IsUserChar c = has_attr c USER_C"

definition IsChanPrefix :: "char \<Rightarrow> bool" where
  "IsChanPrefix c = has_attr c CHANPFX_C"

definition IsChanChar :: "char \<Rightarrow> bool" where
  "IsChanChar c = has_attr c CHAN_C"

definition IsKWildChar :: "char \<Rightarrow> bool" where
  "IsKWildChar c = has_attr c KWILD_C"

definition IsMWildChar :: "char \<Rightarrow> bool" where
  "IsMWildChar c = has_attr c MWILD_C"

definition IsNickChar :: "char \<Rightarrow> bool" where
  "IsNickChar c = has_attr c NICK_C"

definition IsServChar :: "char \<Rightarrow> bool" where
  "IsServChar c = (has_attr c NICK_C \<or> has_attr c SERV_C)"

definition IsCntrl :: "char \<Rightarrow> bool" where
  "IsCntrl c = has_attr c CNTRL_C"

definition IsAlpha :: "char \<Rightarrow> bool" where
  "IsAlpha c = has_attr c ALPHA_C"

definition IsSpace :: "char \<Rightarrow> bool" where
  "IsSpace c = has_attr c SPACE_C"

definition IsDigit :: "char \<Rightarrow> bool" where
  "IsDigit c = has_attr c DIGIT_C"

definition IsXDigit :: "char \<Rightarrow> bool" where
  "IsXDigit c = (IsDigit c \<or> (97 \<le> (of_char c :: nat) \<and> (of_char c :: nat) \<le> 102)
                           \<or> (65 \<le> (of_char c :: nat) \<and> (of_char c :: nat) \<le> 70))"

definition IsEol :: "char \<Rightarrow> bool" where
  "IsEol c = has_attr c EOL_C"

lemma replicate_numeral_unfold: "replicate (numeral k) x = x # replicate (pred_numeral k) x"
  by (simp add: numeral_eq_Suc)

lemma upt_256: "[0..<256] = 0 # 1 # [2..<256]"
  by (simp add: upt_rec)

lemmas char_table_defs =
  CharAttrs_def CharAttrs_ascii_def CharAttrs_high_def replicate_numeral_unfold upt_256

lemma length_CharAttrs: "length CharAttrs = 256"
  by (simp add: CharAttrs_def CharAttrs_ascii_def CharAttrs_high_def)

text \<open>A statement about a table lookup holds of every character if it holds of every row.\<close>

lemma has_attr_enum:
  assumes "map (\<lambda>as. a \<in> set as) CharAttrs = map Q [0..<256]"
  shows "has_attr c a = Q (of_char c)"
proof -
  have "map (\<lambda>as. a \<in> set as) CharAttrs ! of_char c = map Q [0..<256] ! of_char c"
    using assms by simp
  then show ?thesis
    by (simp add: has_attr_def length_CharAttrs del: upt_rec_numeral)
qed

lemma has_attr_EOL: "has_attr c EOL_C \<longleftrightarrow> (of_char c :: nat) \<in> {10, 13}"
  by (rule has_attr_enum) (simp add: char_table_defs)

lemma has_attr_MWILD: "has_attr c MWILD_C \<longleftrightarrow> (of_char c :: nat) \<in> {42, 63}"
  by (rule has_attr_enum) (simp add: char_table_defs)

lemma has_attr_CHANPFX: "has_attr c CHANPFX_C \<longleftrightarrow> (of_char c :: nat) \<in> {35}"
  by (rule has_attr_enum) (simp add: char_table_defs)

lemma has_attr_DIGIT: "has_attr c DIGIT_C \<longleftrightarrow> 48 \<le> (of_char c :: nat) \<and> (of_char c :: nat) \<le> 57"
  by (rule has_attr_enum) (simp add: char_table_defs)

lemma has_attr_SPACE: "has_attr c SPACE_C \<longleftrightarrow> (of_char c :: nat) \<in> {9, 10, 11, 12, 13, 32}"
  by (rule has_attr_enum) (simp add: char_table_defs)

lemma has_attr_ALPHA:
  "has_attr c ALPHA_C \<longleftrightarrow> (65 \<le> (of_char c :: nat) \<and> (of_char c :: nat) < 95)
                        \<or> (97 \<le> (of_char c :: nat) \<and> (of_char c :: nat) < 127)"
  by (rule has_attr_enum) (simp add: char_table_defs)

lemma has_attr_CHAN: "has_attr c CHAN_C \<longleftrightarrow> (of_char c :: nat) \<notin> {0, 7, 32, 44}"
  by (rule has_attr_enum) (simp add: char_table_defs)

lemma has_attr_VCHAN:
  "has_attr c VCHAN_C \<longleftrightarrow> (of_char c :: nat) \<notin> {0, 2, 3, 7, 15, 22, 29, 31, 32, 44, 160}"
  by (rule has_attr_enum) (simp add: char_table_defs)

lemmas has_attr_closed =
  has_attr_EOL has_attr_MWILD has_attr_CHANPFX has_attr_DIGIT has_attr_SPACE has_attr_ALPHA
  has_attr_CHAN has_attr_VCHAN

lemma IsEol_iff [cstr_simps]: "IsEol c \<longleftrightarrow> c = CHR 0x0A \<or> c = CHR 0x0D"
  by (simp add: IsEol_def has_attr_closed char_eq_of_char_iff)

lemma IsMWildChar_iff [cstr_simps]: "IsMWildChar c \<longleftrightarrow> c = CHR ''*'' \<or> c = CHR ''?''"
  by (simp add: IsMWildChar_def has_attr_closed char_eq_of_char_iff)

lemma IsChanPrefix_iff [cstr_simps]: "IsChanPrefix c \<longleftrightarrow> c = CHR ''#''"
  by (simp add: IsChanPrefix_def has_attr_closed char_eq_of_char_iff)

lemma IsDigit_iff [cstr_simps]: "IsDigit c \<longleftrightarrow> 48 \<le> (of_char c :: nat) \<and> (of_char c :: nat) \<le> 57"
  by (simp add: IsDigit_def has_attr_closed)

lemma IsSpace_iff [cstr_simps]:
  "IsSpace c \<longleftrightarrow> c = CHR '' '' \<or> (9 \<le> (of_char c :: nat) \<and> (of_char c :: nat) \<le> 13)"
  by (auto simp add: IsSpace_def has_attr_closed char_eq_of_char_iff)

lemma IsChanChar_iff [cstr_simps]:
  "IsChanChar c \<longleftrightarrow> c \<noteq> NUL \<and> c \<noteq> CHR 0x07 \<and> c \<noteq> CHR '' '' \<and> c \<noteq> CHR '',''"
  by (simp add: IsChanChar_def has_attr_closed char_eq_of_char_iff)

lemma IsVisibleChanChar_iff [cstr_simps]:
  "IsVisibleChanChar c \<longleftrightarrow> (of_char c :: nat) \<notin> {0, 2, 3, 7, 15, 22, 29, 31, 32, 44, 160}"
  by (simp only: IsVisibleChanChar_def has_attr_closed)

lemma IsAlpha_iff [cstr_simps]:
  "IsAlpha c \<longleftrightarrow> (65 \<le> (of_char c :: nat) \<and> (of_char c :: nat) < 95)
               \<or> (97 \<le> (of_char c :: nat) \<and> (of_char c :: nat) < 127)"
  by (simp only: IsAlpha_def has_attr_closed)

lemma char_attr_NUL [simp]:
  "\<not> IsEol NUL" "\<not> IsMWildChar NUL" "\<not> IsChanPrefix NUL" "\<not> IsDigit NUL" "\<not> IsSpace NUL"
  "\<not> IsChanChar NUL" "\<not> IsVisibleChanChar NUL" "\<not> IsAlpha NUL"
  by (simp_all add: cstr_simps)

end
