(* ===== verification/Match.thy ===== *)
theory Match
  imports CharTable
begin

text \<open>
  Mask matching and case-insensitive comparison: \<open>match\<close>, \<open>collapse\<close>, \<open>irccmp\<close> and
  \<open>ircncmp\<close> of \<open>src/match.c\<close>.

  \<open>match\<close> is a \<open>while (1)\<close> loop over two pointers with one backtracking point. One
  iteration is \<open>match_step\<close> on the triple of the two pointers and the backtracking point
  (\<open>None\<close> while \<open>m_tmp == mask\<close>); \<open>match_loop\<close> iterates it. The reference
  semantics of a mask is \<open>wild\<close>.
\<close>

section \<open>The model of match\<close>

type_synonym match_state = "string \<times> string \<times> (string \<times> string) option"
type_synonym match_result = "c_error + nat"

text \<open>The loop over a run of wildcards: \<open>None\<close> is \<open>goto backtrack\<close> at the end of the name.\<close>

fun wild_run :: "bool \<Rightarrow> string \<Rightarrow> string \<Rightarrow> (bool \<times> string \<times> string) option" where
  "wild_run star [] n = Some (star, [], n)"
| "wild_run star (c # m) n =
    (if c = CHR ''*'' then wild_run True m n
     else if c = CHR ''?'' then
       (case n of [] \<Rightarrow> None | _ # n' \<Rightarrow> wild_run star m n')
     else Some (star, c # m, n))"

definition backtrack :: "(string \<times> string) option \<Rightarrow> match_result + match_state" where
  "backtrack bt =
    (case bt of
       None \<Rightarrow> Inl (Inr 1)
     | Some (m_tmp, n_tmp) \<Rightarrow>
         (case n_tmp of
            [] \<Rightarrow> Inl (Inl OutOfBounds)
          | _ # n \<Rightarrow> if n = [] then Inl (Inr 1) else Inr (m_tmp, n, Some (m_tmp, n))))"

text \<open>The \<open>default:\<close> label, reached directly or by falling through from the wildcards.\<close>

definition match_default :: "match_state \<Rightarrow> match_result + match_state" where
  "match_default s =
    (case s of (m, n, bt) \<Rightarrow>
      (case n of
         [] \<Rightarrow> Inl (Inr (if m \<noteq> [] then 1 else 0))
       | x # n' \<Rightarrow>
           (case m of
              [] \<Rightarrow> backtrack bt
            | c # m' \<Rightarrow> if ToLower c \<noteq> ToLower x then backtrack bt else Inr (m', n', bt))))"

definition match_star :: "string \<Rightarrow> string \<Rightarrow> match_result + match_state" where
  "match_star m n =
    (case m of
       [] \<Rightarrow> Inl (Inr 0)
     | c # m' \<Rightarrow>
         if c = CHR 0x5C then
           (case m' of
              [] \<Rightarrow> Inl (Inr 1)
            | e # _ \<Rightarrow> match_default (m', dropWhile (\<lambda>x. x \<noteq> e) n, Some (m', n)))
         else match_default (m, dropWhile (\<lambda>x. ToLower x \<noteq> ToLower c) n, Some (m, n)))"

definition match_step :: "match_state \<Rightarrow> match_result + match_state" where
  "match_step s =
    (case s of (m, n, bt) \<Rightarrow>
      (case m of
         [] \<Rightarrow> if n = [] then Inl (Inr 0) else backtrack bt
       | c # m' \<Rightarrow>
           if c = CHR 0x5C then
             (case m' of
                [] \<Rightarrow> if n = [] then Inl (Inl OutOfBounds) else backtrack bt
              | e # m'' \<Rightarrow>
                  (case n of
                     [] \<Rightarrow> backtrack bt
                   | x # n' \<Rightarrow> if e \<noteq> x then backtrack bt else Inr (m'', n', bt)))
           else if c = CHR ''*'' \<or> c = CHR ''?'' then
             (case wild_run False m n of
                None \<Rightarrow> backtrack bt
              | Some (star, m1, n1) \<Rightarrow>
                  if star then match_star m1 n1 else match_default (m1, n1, bt))
           else match_default (m, n, bt)))"

lemma length_wild_run:
  "wild_run star m n = Some (s, m1, n1) \<Longrightarrow> length m1 \<le> length m \<and> length n1 \<le> length n"
  by (induction star m n rule: wild_run.induct) (fastforce split: if_splits list.splits)+

definition match_measure :: "match_state \<Rightarrow> nat \<times> nat \<times> nat" where
  "match_measure s = (case s of (m, n, bt) \<Rightarrow>
     (case bt of None \<Rightarrow> (1, 0, length m)
      | Some (_, n_tmp) \<Rightarrow> (0, max (length n_tmp) (length n), length m)))"

definition match_order :: "(match_state \<times> match_state) set" where
  "match_order = inv_image (less_than <*lex*> less_than <*lex*> less_than) match_measure"

lemma wf_match_order: "wf match_order"
  by (simp add: match_order_def wf_lex_prod)

lemma backtrack_decreases:
  "backtrack bt = Inr s \<Longrightarrow> (s, (m, n, bt)) \<in> match_order"
  by (auto simp: backtrack_def match_order_def match_measure_def split: option.splits list.splits if_splits)

lemma match_default_cases:
  assumes "match_default (m, n, bt) = Inr s"
  shows "backtrack bt = Inr s \<or> (\<exists>c x m' n'. m = c # m' \<and> n = x # n' \<and> s = (m', n', bt))"
  using assms by (auto simp: match_default_def split: list.splits if_splits)

lemma match_star_decreases:
  assumes "match_star m1 n1 = Inr s" "length m1 < length m" "length n1 \<le> length n"
  shows "(s, (m, n, bt)) \<in> match_order"
proof -
  obtain m2 where m2: "length m2 \<le> length m1"
    and d: "\<exists>f. match_default (m2, dropWhile f n1, Some (m2, n1)) = Inr s"
    using assms(1) by (force simp: match_star_def split: list.splits if_splits)
  then obtain f where d: "match_default (m2, dropWhile f n1, Some (m2, n1)) = Inr s" by blast
  have len: "length (dropWhile f n1) \<le> length n1" by (rule length_dropWhile_le)
  from match_default_cases [OF d] show ?thesis
  proof
    assume "backtrack (Some (m2, n1)) = Inr s"
    then show ?thesis using assms(3)
      by (auto simp: backtrack_def match_order_def match_measure_def
          split: option.splits list.splits if_splits)
  next
    assume "\<exists>c x m' n'. m2 = c # m' \<and> dropWhile f n1 = x # n' \<and> s = (m', n', Some (m2, n1))"
    then show ?thesis using assms(2,3) m2 len
      by (auto simp: match_order_def match_measure_def split: option.splits)
  qed
qed

lemma match_step_decreases:
  assumes "match_step s = Inr s'"
  shows "(s', s) \<in> match_order"
proof -
  obtain m n bt where s: "s = (m, n, bt)" by (cases s)
  have default: "(s', s) \<in> match_order"
    if "match_default (m1, n1, bt) = Inr s'" "length m1 \<le> length m" "length n1 \<le> length n" for m1 n1
    using match_default_cases [OF that(1)]
  proof
    assume "backtrack bt = Inr s'"
    then show ?thesis using backtrack_decreases s by blast
  next
    assume "\<exists>c x m' n'. m1 = c # m' \<and> n1 = x # n' \<and> s' = (m', n', bt)"
    then show ?thesis using that(2,3) s
      by (auto simp: match_order_def match_measure_def split: option.splits)
  qed
  show ?thesis
  proof (cases "\<exists>c m'. m = c # m' \<and> (c = CHR ''*'' \<or> c = CHR ''?'')")
    case True
    then obtain c m' where m: "m = c # m'" and c: "c = CHR ''*'' \<or> c = CHR ''?''" by blast
    show ?thesis
    proof (cases "wild_run False m n")
      case None
      then show ?thesis using assms s m c backtrack_decreases [of bt s' m n] by (auto simp: match_step_def)
    next
      case (Some r)
      obtain star m1 n1 where r: "r = (star, m1, n1)" by (cases r)
      have l1: "length m1 \<le> length m'"
        using Some r m c by (auto dest: length_wild_run split: list.splits)
      have l2: "length n1 \<le> length n" using Some r by (auto dest: length_wild_run)
      show ?thesis
        using assms s m c Some r l1 l2 default match_star_decreases [of m1 n1 s' m n bt]
        by (auto simp: match_step_def split: if_splits)
    qed
  next
    case False
    then show ?thesis
      using assms s default [of m n] backtrack_decreases [of bt s' m n]
      by (auto simp: match_step_def match_order_def match_measure_def
          split: list.splits if_splits option.splits)
  qed
qed

function match_loop :: "match_state \<Rightarrow> match_result" where
  "match_loop s = (case match_step s of Inl r \<Rightarrow> r | Inr s' \<Rightarrow> match_loop s')"
  by pat_completeness auto
termination
  by (relation match_order) (auto simp: wf_match_order match_step_decreases)

declare match_loop.simps [simp del]

text \<open>\<open>match(mask, name)\<close>: \<open>Inr 0\<close> on a match, \<open>Inr 1\<close> otherwise, \<open>Inl\<close> when the
  code reads behind the terminator of one of the strings.\<close>

definition match :: "string \<Rightarrow> string \<Rightarrow> match_result" where
  "match m n = match_loop (m, n, None)"

section \<open>The reference semantics of a mask\<close>

fun wild :: "string \<Rightarrow> string \<Rightarrow> bool" where
  "wild [] n = (n = [])"
| "wild (c # m) [] = (c = CHR ''*'' \<and> wild m [])"
| "wild (c # m) (x # n) =
    (if c = CHR ''*'' then wild m (x # n) \<or> wild (c # m) n
     else if c = CHR ''?'' then wild m n
     else ToLower c = ToLower x \<and> wild m n)"

lemma wild_star: "wild (CHR ''*'' # m) n \<longleftrightarrow> (\<exists>t. suffix t n \<and> wild m t)"
proof (induction n)
  case (Cons x n)
  have "(\<exists>t. suffix t (x # n) \<and> wild m t) \<longleftrightarrow> wild m (x # n) \<or> (\<exists>t. suffix t n \<and> wild m t)"
    by (auto simp: suffix_Cons)
  with Cons show ?case by simp
qed simp

lemma wild_star_step:
  "n \<noteq> [] \<Longrightarrow> wild (CHR ''*'' # m) n \<longleftrightarrow> wild m n \<or> wild (CHR ''*'' # m) (tl n)"
  by (cases n) simp_all

definition literal :: "char \<Rightarrow> bool" where
  "literal c \<longleftrightarrow> c \<noteq> CHR ''*'' \<and> c \<noteq> CHR ''?''"

definition starts_literal :: "string \<Rightarrow> bool" where
  "starts_literal m \<longleftrightarrow> m \<noteq> [] \<and> literal (hd m)"

lemma wild_literal_head:
  "starts_literal m \<Longrightarrow> wild m n \<Longrightarrow> n \<noteq> [] \<and> ToLower (hd n) = ToLower (hd m)"
  by (cases m; cases n) (auto simp: literal_def starts_literal_def)

lemma wild_nonstar_prefix:
  "CHR ''*'' \<notin> set seg \<Longrightarrow> wild (seg @ m) n \<Longrightarrow>
    length seg \<le> length n \<and> wild m (drop (length seg) n)"
proof (induction seg arbitrary: n)
  case (Cons c seg)
  then show ?case by (cases n) (auto split: if_splits)
qed simp

lemma wild_questions:
  "set seg \<subseteq> {CHR ''?''} \<Longrightarrow>
    wild (seg @ m) n \<longleftrightarrow> length seg \<le> length n \<and> wild m (drop (length seg) n)"
proof (induction seg arbitrary: n)
  case (Cons c seg)
  then show ?case by (cases n) auto
qed simp

text \<open>A run of wildcards skips one byte per question mark and then, with a star, any number.\<close>

definition wrun :: "string \<Rightarrow> string" where
  "wrun m = takeWhile (\<lambda>c. \<not> literal c) m"

definition wrest :: "string \<Rightarrow> string" where
  "wrest m = dropWhile (\<lambda>c. \<not> literal c) m"

lemma wrun_wrest: "m = wrun m @ wrest m"
  by (simp add: wrun_def wrest_def)

lemma set_wrun: "set (wrun m) \<subseteq> {CHR ''*'', CHR ''?''}"
  by (auto simp: wrun_def literal_def dest: set_takeWhileD)

lemma wrest_literal: "wrest m = [] \<or> literal (hd (wrest m))"
  using hd_dropWhile [of "\<lambda>c. \<not> literal c" m] by (auto simp: wrest_def)

abbreviation questions :: "string \<Rightarrow> nat" where
  "questions m \<equiv> count_list (wrun m) (CHR ''?'')"

lemma wild_run_eq:
  "wild_run star m n =
    (if questions m \<le> length n
     then Some (star \<or> CHR ''*'' \<in> set (wrun m), wrest m, drop (questions m) n) else None)"
proof (induction star m n rule: wild_run.induct)
  case (2 star c m n)
  then show ?case by (cases n) (auto simp: wrun_def wrest_def literal_def)
qed (simp add: wrun_def wrest_def)

lemma ex_suffix_drop:
  "(\<exists>t. suffix t n \<and> k \<le> length t \<and> P (drop k t)) \<longleftrightarrow> k \<le> length n \<and> (\<exists>u. suffix u (drop k n) \<and> P u)"
proof
  assume "\<exists>t. suffix t n \<and> k \<le> length t \<and> P (drop k t)"
  then obtain t where t: "suffix t n" "k \<le> length t" "P (drop k t)" by blast
  have "length t \<le> length n" using t(1) by (rule suffix_length_le)
  moreover have "suffix (drop k t) (drop k n)"
    using t(1) calculation by (intro suffix_drop_le) (auto intro: suffix_order.trans suffix_drop)
  ultimately show "k \<le> length n \<and> (\<exists>u. suffix u (drop k n) \<and> P u)" using t by auto
next
  assume "k \<le> length n \<and> (\<exists>u. suffix u (drop k n) \<and> P u)"
  then obtain u p where u: "k \<le> length n" "drop k n = p @ u" "P u" by (auto simp: suffix_def)
  let ?t = "drop (length p) n"
  have "length n = k + length p + length u" using u(1,2) by (metis add.assoc length_append length_drop le_add_diff_inverse)
  moreover have "drop k ?t = u" using u(2) by (metis append_eq_conv_conj drop_drop add.commute)
  ultimately show "\<exists>t. suffix t n \<and> k \<le> length t \<and> P (drop k t)"
    using u(3) by (intro exI [of _ ?t]) (simp add: suffix_drop)
qed

lemma wild_star_star: "(\<exists>u. suffix u n \<and> wild (CHR ''*'' # m) u) \<longleftrightarrow> wild (CHR ''*'' # m) n"
  by (auto simp: wild_star intro: suffix_order.trans)

lemma wild_wildcards:
  "set run \<subseteq> {CHR ''*'', CHR ''?''} \<Longrightarrow>
    wild (run @ m) n \<longleftrightarrow> count_list run (CHR ''?'') \<le> length n \<and>
      wild (if CHR ''*'' \<in> set run then CHR ''*'' # m else m) (drop (count_list run (CHR ''?'')) n)"
proof (induction run arbitrary: n)
  case (Cons c run)
  show ?case
  proof (cases "c = CHR ''*''")
    case True
    let ?k = "count_list run (CHR ''?'')"
    let ?m = "if CHR ''*'' \<in> set run then CHR ''*'' # m else m"
    have "wild ((c # run) @ m) n \<longleftrightarrow> (\<exists>t. suffix t n \<and> ?k \<le> length t \<and> wild ?m (drop ?k t))"
      using Cons True by (simp add: wild_star [of "run @ m"])
    also have "\<dots> \<longleftrightarrow> ?k \<le> length n \<and> (\<exists>u. suffix u (drop ?k n) \<and> wild ?m u)"
      by (rule ex_suffix_drop)
    also have "\<dots> \<longleftrightarrow> ?k \<le> length n \<and> wild (CHR ''*'' # m) (drop ?k n)"
      by (simp add: wild_star_star wild_star [of m, symmetric] del: wild.simps)
    finally show ?thesis using True by simp
  next
    case False
    then show ?thesis using Cons by (cases n) auto
  qed
qed simp

lemma wild_split:
  "wild m n \<longleftrightarrow> questions m \<le> length n \<and>
     wild (if CHR ''*'' \<in> set (wrun m) then CHR ''*'' # wrest m else wrest m) (drop (questions m) n)"
  using wild_wildcards [OF set_wrun, of m "wrest m" n] wrun_wrest [of m] by simp

section \<open>match computes the reference semantics on masks without a backslash\<close>

text \<open>The answer still to be given in a loop state, and what the loop keeps true of its
  backtracking point: the name from there on is a stretch that cannot start a match of the
  mask behind the star, then the part matched so far, then the rest.\<close>

definition match_answer :: "match_state \<Rightarrow> bool" where
  "match_answer s \<longleftrightarrow> (case s of (m, n, bt) \<Rightarrow>
     wild m n \<or> (case bt of None \<Rightarrow> False | Some (mt, nt) \<Rightarrow> wild (CHR ''*'' # mt) (tl nt)))"

definition match_inv :: "match_state \<Rightarrow> bool" where
  "match_inv s \<longleftrightarrow> (case s of (m, n, bt) \<Rightarrow> CHR 0x5C \<notin> set m \<and>
     (case bt of None \<Rightarrow> True
      | Some (mt, nt) \<Rightarrow> CHR 0x5C \<notin> set mt \<and> starts_literal mt \<and> nt \<noteq> [] \<and>
          (\<exists>seg skip q. mt = seg @ m \<and> CHR ''*'' \<notin> set seg \<and> nt = skip @ q @ n \<and>
             length q = length seg \<and> (\<forall>x \<in> set skip. ToLower x \<noteq> ToLower (hd mt)))))"

lemma match_invE:
  assumes "match_inv (m, n, Some (mt, nt))"
  obtains seg skip q where "mt = seg @ m" "CHR ''*'' \<notin> set seg" "nt = skip @ q @ n"
    "length q = length seg" "\<forall>x \<in> set skip. ToLower x \<noteq> ToLower (hd mt)"
    "starts_literal mt" "nt \<noteq> []" "CHR 0x5C \<notin> set mt"
proof -
  have "CHR 0x5C \<notin> set mt" "starts_literal mt" "nt \<noteq> []"
    "\<exists>seg skip q. mt = seg @ m \<and> CHR ''*'' \<notin> set seg \<and> nt = skip @ q @ n \<and>
       length q = length seg \<and> (\<forall>x \<in> set skip. ToLower x \<noteq> ToLower (hd mt))"
    using assms by (simp_all add: match_inv_def)
  with that show thesis by blast
qed

lemma match_invI:
  assumes "mt = seg @ m" "CHR ''*'' \<notin> set seg" "nt = skip @ q @ n" "length q = length seg"
    "\<forall>x \<in> set skip. ToLower x \<noteq> ToLower (hd mt)" "starts_literal mt" "nt \<noteq> []" "CHR 0x5C \<notin> set mt"
  shows "match_inv (m, n, Some (mt, nt))"
proof -
  have "\<exists>seg skip q. mt = seg @ m \<and> CHR ''*'' \<notin> set seg \<and> nt = skip @ q @ n \<and>
       length q = length seg \<and> (\<forall>x \<in> set skip. ToLower x \<noteq> ToLower (hd mt))"
    using assms(1-5) by blast
  moreover have "CHR 0x5C \<notin> set m" using assms(1,8) by simp
  ultimately show ?thesis using assms(6-8) by (simp add: match_inv_def)
qed

text \<open>A match that starts behind the backtracking point leaves a match of the current mask
  at a suffix of the current name.\<close>

lemma later_match:
  assumes "match_inv (m, n, Some (mt, nt))" "wild (CHR ''*'' # mt) (tl nt)"
  shows "\<exists>t. suffix t n \<and> wild m t"
proof -
  obtain seg skip q where inv: "mt = seg @ m" "CHR ''*'' \<notin> set seg" "nt = skip @ q @ n"
    "length q = length seg" "\<forall>x \<in> set skip. ToLower x \<noteq> ToLower (hd mt)" "starts_literal mt"
    using assms(1) by (elim match_invE) blast
  obtain b where b: "suffix b (tl nt)" "wild mt b" using assms(2) by (auto simp: wild_star)
  then have "suffix b nt" by (metis suffix_order.trans suffix_tl)
  moreover have hb: "b \<noteq> []" "ToLower (hd b) = ToLower (hd mt)"
    using wild_literal_head [OF inv(6) b(2)] by simp_all
  ultimately have "suffix b (q @ n)"
  proof -
    have "\<not> (\<exists>r. suffix r skip \<and> r \<noteq> [] \<and> b = r @ q @ n)"
    proof
      assume "\<exists>r. suffix r skip \<and> r \<noteq> [] \<and> b = r @ q @ n"
      then obtain r where r: "suffix r skip" "r \<noteq> []" "b = r @ q @ n" by blast
      then have "hd b \<in> set skip" by (metis hd_append2 hd_in_set set_mono_suffix subsetD)
      with hb inv(5) show False by blast
    qed
    with \<open>suffix b nt\<close> inv(3) suffix_append_cases [of b skip "q @ n"] show ?thesis by auto
  qed
  then have "suffix (drop (length seg) b) (q @ n)" "length b \<le> length (q @ n)"
    by (auto intro: suffix_order.trans suffix_drop dest: suffix_length_le)
  then have "suffix (drop (length seg) b) (drop (length seg) (q @ n))"
    by (intro suffix_drop_le) auto
  then have "suffix (drop (length seg) b) n" using inv(4) by simp
  moreover have "wild m (drop (length seg) b)"
    using wild_nonstar_prefix [OF inv(2), of m b] b(2) inv(1) by simp
  ultimately show ?thesis by blast
qed

text \<open>What one iteration owes: a final answer, or a next state with the same answer.\<close>

definition match_ok :: "match_state \<Rightarrow> match_result + match_state \<Rightarrow> bool" where
  "match_ok s r \<longleftrightarrow> (case r of Inl res \<Rightarrow> res = Inr (if match_answer s then 0 else 1)
                     | Inr s' \<Rightarrow> match_inv s' \<and> match_answer s' = match_answer s)"

lemma backtrack_ok:
  assumes inv: "match_inv (m, n, bt)" and no: "\<not> wild m n"
  shows "match_ok (m, n, bt) (backtrack bt)"
proof (cases bt)
  case None
  with no show ?thesis by (simp add: match_ok_def backtrack_def match_answer_def)
next
  case (Some p)
  obtain mt nt where p: "p = (mt, nt)" by (cases p)
  from inv Some p have lit: "starts_literal mt" "nt \<noteq> []" "CHR 0x5C \<notin> set mt"
    by (auto simp: match_inv_def)
  then obtain x n' where nt: "nt = x # n'" by (cases nt) auto
  have ans: "match_answer (m, n, bt) = wild (CHR ''*'' # mt) n'"
    using no Some p nt by (simp add: match_answer_def del: wild.simps)
  show ?thesis
  proof (cases "n' = []")
    case True
    have "\<not> wild mt []" using wild_literal_head [OF lit(1)] by blast
    with True show ?thesis using ans Some p nt by (simp add: match_ok_def backtrack_def)
  next
    case False
    have "match_inv (mt, n', Some (mt, n'))" using lit False by (auto simp: match_inv_def)
    moreover have "match_answer (mt, n', Some (mt, n')) = wild (CHR ''*'' # mt) n'"
      using False by (simp add: match_answer_def wild_star_step [of n'] del: wild.simps)
    ultimately show ?thesis using False ans Some p nt by (simp add: match_ok_def backtrack_def)
  qed
qed

lemma no_answer_at_end:
  assumes "match_inv (m, [], bt)" "starts_literal m"
  shows "\<not> match_answer (m, [], bt)"
proof -
  have "\<not> wild m []" using wild_literal_head [OF assms(2)] by blast
  moreover have "\<not> (\<exists>t. suffix t [] \<and> wild m t)" using calculation by simp
  ultimately show ?thesis
    using assms(1) later_match [of m "[]"]
    by (auto simp: match_answer_def simp del: wild.simps split: option.splits)
qed

lemma match_inv_advance:
  assumes "match_inv (c # m, x # n, bt)" "c \<noteq> CHR ''*''"
  shows "match_inv (m, n, bt)"
proof (cases bt)
  case (Some p)
  obtain mt nt where p: "p = (mt, nt)" by (cases p)
  with Some assms(1) obtain seg skip q where inv: "mt = seg @ c # m" "CHR ''*'' \<notin> set seg"
    "nt = skip @ q @ x # n" "length q = length seg"
    "\<forall>x \<in> set skip. ToLower x \<noteq> ToLower (hd mt)" "starts_literal mt" "CHR 0x5C \<notin> set mt"
    by (blast elim: match_invE)
  have "match_inv (m, n, Some (mt, nt))"
    by (rule match_invI [of mt "seg @ [c]" m nt skip "q @ [x]"]) (use inv assms(2) in auto)
  with Some p show ?thesis by simp
qed (use assms in \<open>simp add: match_inv_def\<close>)

lemma match_inv_skip:
  "match_inv (seg @ m, n, bt) \<Longrightarrow> CHR ''*'' \<notin> set seg \<Longrightarrow> length seg \<le> length n \<Longrightarrow>
    match_inv (m, drop (length seg) n, bt)"
proof (induction seg arbitrary: n)
  case (Cons c seg)
  then obtain x n' where n: "n = x # n'" by (cases n) auto
  have "match_inv (seg @ m, n', bt)" using Cons.prems n match_inv_advance [of c "seg @ m" x n' bt] by auto
  then show ?case using Cons n by simp
qed simp

lemma match_default_ok:
  assumes inv: "match_inv (m, n, bt)" and m: "m = [] \<or> literal (hd m)"
  shows "match_ok (m, n, bt) (match_default (m, n, bt))"
proof (cases n)
  case Nil
  show ?thesis
  proof (cases "m = []")
    case True
    with Nil show ?thesis by (simp add: match_ok_def match_default_def match_answer_def)
  next
    case False
    with m have "starts_literal m" by (simp add: starts_literal_def)
    then show ?thesis using no_answer_at_end inv Nil False
      by (simp add: match_ok_def match_default_def)
  qed
next
  case n: (Cons x n')
  show ?thesis
  proof (cases m)
    case Nil
    then show ?thesis using backtrack_ok [OF inv] n by (simp add: match_default_def)
  next
    case mc: (Cons c m')
    with m have c: "c \<noteq> CHR ''*''" "c \<noteq> CHR ''?''" by (auto simp: literal_def)
    show ?thesis
    proof (cases "ToLower c = ToLower x")
      case True
      then show ?thesis using match_inv_advance [of c m' x n' bt] inv c mc n
        by (auto simp: match_ok_def match_default_def match_answer_def)
    next
      case False
      then have "\<not> wild m n" using c mc n by simp
      with backtrack_ok [OF inv] show ?thesis using False mc n by (simp add: match_default_def)
    qed
  qed
qed

lemma match_ok_cong: "match_answer s = match_answer s' \<Longrightarrow> match_ok s r = match_ok s' r"
  by (simp add: match_ok_def split: sum.splits)

lemma star_absorbs_backtrack:
  assumes "match_inv (m, n, bt)" "CHR ''*'' \<in> set (wrun m)"
  shows "match_answer (m, n, bt) = wild m n"
proof -
  have mono: "wild m n" if "suffix t n" "wild m t" for t
  proof -
    have t: "questions m \<le> length t" "wild (CHR ''*'' # wrest m) (drop (questions m) t)"
      using that(2) assms(2) wild_split [of m t] by simp_all
    have len: "length t \<le> length n" using that(1) by (rule suffix_length_le)
    have "suffix (drop (questions m) t) (drop (questions m) n)"
      using that(1) len by (intro suffix_drop_le) (auto intro: suffix_order.trans suffix_drop)
    with t(2) have "wild (CHR ''*'' # wrest m) (drop (questions m) n)"
      using wild_star_star by blast
    then show ?thesis using t(1) len assms(2) wild_split [of m n] by simp
  qed
  show ?thesis
    using mono assms(1) later_match [of m n]
    by (auto simp: match_answer_def simp del: wild.simps split: option.splits)
qed

lemma match_star_ok:
  assumes m: "starts_literal m" "CHR 0x5C \<notin> set m" and ans: "match_answer s = wild (CHR ''*'' # m) n"
  shows "match_ok s (match_star m n)"
proof -
  obtain c m' where c: "m = c # m'" "literal c" "c \<noteq> CHR 0x5C"
    using m by (cases m) (auto simp: starts_literal_def)
  let ?n = "dropWhile (\<lambda>x. ToLower x \<noteq> ToLower c) n"
  have step: "match_star m n = match_default (m, ?n, Some (m, n))" using c by (simp add: match_star_def)
  show ?thesis
  proof (cases "n = []")
    case True
    have "\<not> wild m []" using wild_literal_head [OF m(1)] by blast
    then show ?thesis using True ans step c by (simp add: match_ok_def match_default_def)
  next
    case False
    have inv: "match_inv (m, ?n, Some (m, n))"
      by (rule match_invI [of m "[]" m n "takeWhile (\<lambda>x. ToLower x \<noteq> ToLower c) n" "[]"])
        (use m False c in \<open>auto dest: set_takeWhileD\<close>)
    have "wild m n \<Longrightarrow> ?n = n" using wild_literal_head [OF m(1), of n] c by (cases n) auto
    moreover have "wild m ?n \<Longrightarrow> wild (CHR ''*'' # m) n"
      using suffix_dropWhile by (auto simp: wild_star)
    ultimately have "match_answer (m, ?n, Some (m, n)) = match_answer s"
      using ans False wild_star_step [of n m] by (auto simp: match_answer_def simp del: wild.simps)
    with match_default_ok [OF inv] show ?thesis
      using match_ok_cong step c by (metis list.sel(1))
  qed
qed

lemma match_step_wildcard:
  assumes "m = c # m'" "\<not> literal c"
  shows "match_step (m, n, bt) =
    (if questions m \<le> length n
     then if CHR ''*'' \<in> set (wrun m) then match_star (wrest m) (drop (questions m) n)
          else match_default (wrest m, drop (questions m) n, bt)
     else backtrack bt)"
  using assms by (auto simp: match_step_def wild_run_eq literal_def)

lemma star_run_ok:
  assumes inv: "match_inv (m, n, bt)" and star: "CHR ''*'' \<in> set (wrun m)" "questions m \<le> length n"
  shows "match_ok (m, n, bt) (match_star (wrest m) (drop (questions m) n))"
proof -
  have bs: "CHR 0x5C \<notin> set (wrest m)"
    using inv by (auto simp: match_inv_def wrest_def dest: set_dropWhileD)
  have ans: "match_answer (m, n, bt) = wild (CHR ''*'' # wrest m) (drop (questions m) n)"
    using star_absorbs_backtrack [OF inv star(1)] wild_split [of m n] star by simp
  show ?thesis
  proof (cases "wrest m = []")
    case True
    then have "match_answer (m, n, bt)" using ans by (auto simp: wild_star simp del: wild.simps(2,3))
    then show ?thesis using True by (simp add: match_ok_def match_star_def)
  next
    case False
    then have "starts_literal (wrest m)" using wrest_literal [of m] by (simp add: starts_literal_def)
    then show ?thesis using match_star_ok [OF _ bs ans] by simp
  qed
qed

lemma count_list_all: "\<forall>c \<in> set xs. c = a \<Longrightarrow> count_list xs a = length xs"
  by (induction xs) auto

lemma question_run_ok:
  assumes inv: "match_inv (m, n, bt)" and q: "CHR ''*'' \<notin> set (wrun m)" "questions m \<le> length n"
  shows "match_ok (m, n, bt) (match_default (wrest m, drop (questions m) n, bt))"
proof -
  have "\<forall>c \<in> set (wrun m). c = CHR ''?''" using q set_wrun by fastforce
  then have len: "length (wrun m) = questions m" by (simp add: count_list_all)
  have inv': "match_inv (wrest m, drop (questions m) n, bt)"
    using match_inv_skip [of "wrun m" "wrest m" n bt] inv wrun_wrest [of m] q len by simp
  have "match_answer (wrest m, drop (questions m) n, bt) = match_answer (m, n, bt)"
    using wild_split [of m n] q by (simp add: match_answer_def)
  then show ?thesis using match_default_ok [OF inv' wrest_literal] match_ok_cong by blast
qed

lemma match_step_ok:
  assumes inv: "match_inv (m, n, bt)"
  shows "match_ok (m, n, bt) (match_step (m, n, bt))"
proof -
  consider "m = []" | "starts_literal m" | c m' where "m = c # m'" "\<not> literal c"
    by (cases m) (auto simp: starts_literal_def)
  then show ?thesis
  proof cases
    case 1
    then show ?thesis using backtrack_ok [OF inv]
      by (auto simp: match_step_def match_ok_def match_answer_def)
  next
    case 2
    then have "match_step (m, n, bt) = match_default (m, n, bt)"
      using inv by (cases m) (auto simp: match_step_def starts_literal_def literal_def match_inv_def)
    then show ?thesis using match_default_ok [OF inv] 2 by (simp add: starts_literal_def)
  next
    case 3
    have "\<not> questions m \<le> length n \<Longrightarrow> \<not> wild m n" using wild_split [of m n] by simp
    then show ?thesis
      using match_step_wildcard [OF 3] star_run_ok [OF inv] question_run_ok [OF inv] backtrack_ok [OF inv]
      by simp
  qed
qed

lemma match_loop_ok: "match_inv s \<Longrightarrow> match_loop s = Inr (if match_answer s then 0 else 1)"
proof (induction s rule: match_loop.induct)
  case (1 s)
  have "match_ok s (match_step s)" using match_step_ok 1(2) by (cases s) simp
  with 1(1) show ?case
    by (subst match_loop.simps) (auto simp: match_ok_def split: sum.splits)
qed

lemma match_plain_mask:
  "CHR 0x5C \<notin> set m \<Longrightarrow> match m n = Inr (if wild m n then 0 else 1)"
  using match_loop_ok [of "(m, n, None)"] by (simp add: match_def match_inv_def match_answer_def)

section \<open>No read behind the strings\<close>

text \<open>For any mask that does not end in a backslash, escapes included, the loop stays inside
  both strings.\<close>

definition match_bounded :: "string \<Rightarrow> match_state \<Rightarrow> bool" where
  "match_bounded p s \<longleftrightarrow> (case s of (m, n, bt) \<Rightarrow> suffix m p \<and>
     (case bt of None \<Rightarrow> True | Some (mt, nt) \<Rightarrow> suffix mt p \<and> nt \<noteq> []))"

definition no_overrun :: "string \<Rightarrow> match_result + match_state \<Rightarrow> bool" where
  "no_overrun p r \<longleftrightarrow> (case r of Inl res \<Rightarrow> res = Inr 0 \<or> res = Inr 1 | Inr s \<Rightarrow> match_bounded p s)"

lemma backtrack_bounded: "match_bounded p (m, n, bt) \<Longrightarrow> no_overrun p (backtrack bt)"
  by (auto simp: backtrack_def match_bounded_def no_overrun_def split: option.splits list.splits)

lemma match_default_bounded:
  assumes "suffix m p" "n \<noteq> [] \<longrightarrow> match_bounded p (m, n, bt)"
  shows "no_overrun p (match_default (m, n, bt))"
  using assms backtrack_bounded [of p m n bt]
  by (auto simp: match_default_def no_overrun_def match_bounded_def dest: suffix_ConsD split: list.splits)

lemma match_star_bounded: "suffix m p \<Longrightarrow> no_overrun p (match_star m n)"
proof -
  assume suf: "suffix m p"
  have *: "no_overrun p (match_default (m', dropWhile f n, Some (m', n)))" if "suffix m' p" for m' f
    using that by (intro match_default_bounded) (auto simp: match_bounded_def)
  show ?thesis
    using suf * [OF suf] * [OF suffix_ConsD] by (auto simp: match_star_def no_overrun_def split: list.splits)
qed

lemma wild_run_suffix: "wild_run star m n = Some (s, m1, n1) \<Longrightarrow> suffix m1 m"
  by (induction star m n rule: wild_run.induct) (auto simp: suffix_Cons split: if_splits list.splits)

lemma match_step_bounded:
  assumes "match_bounded p (m, n, bt)" "p = [] \<or> last p \<noteq> CHR 0x5C"
  shows "no_overrun p (match_step (m, n, bt))"
proof -
  have suf: "suffix m p" using assms(1) by (simp add: match_bounded_def)
  have last: "m \<noteq> [CHR 0x5C]" using suf assms(2) by (auto simp: suffix_def)
  have bt: "no_overrun p (backtrack bt)" using assms(1) by (rule backtrack_bounded)
  have adv: "no_overrun p (Inr (m', n', bt))" if "suffix m' m" for m' n'
    using assms(1) that by (auto simp: no_overrun_def match_bounded_def intro: suffix_order.trans)
  have def: "no_overrun p (match_default (m', n', bt))" if "suffix m' m" for m' n'
    using assms(1) that suf by (intro match_default_bounded) (auto simp: match_bounded_def intro: suffix_order.trans)
  have star: "no_overrun p (match_star m' n')" if "suffix m' m" for m' n'
    using that suf by (intro match_star_bounded) (auto intro: suffix_order.trans)
  show ?thesis
    using last bt def [of m] adv [of "drop 2 m"] suffix_drop [of 2 m] def star
    by (auto simp: match_step_def no_overrun_def [of p "Inl _"] suffix_Cons
        dest!: wild_run_suffix split: list.splits option.splits)
qed

lemma match_loop_bounded:
  "match_bounded p s \<Longrightarrow> p = [] \<or> last p \<noteq> CHR 0x5C \<Longrightarrow> match_loop s = Inr 0 \<or> match_loop s = Inr 1"
proof (induction s rule: match_loop.induct)
  case (1 s)
  have "no_overrun p (match_step s)" using match_step_bounded 1(2,3) by (cases s) simp
  with 1 show ?case
    by (subst (1 2) match_loop.simps) (auto simp: no_overrun_def split: sum.splits)
qed

section \<open>collapse\<close>

text \<open>\<open>collapse\<close> rewrites the mask in place; the part behind the write pointer is what
  these functions return. \<open>collapse_scan\<close> is the outer loop, which leaves the mask alone
  until the first star that a wildcard follows, and \<open>collapse_copy\<close> the inner one.\<close>

fun collapse_copy :: "bool \<Rightarrow> string \<Rightarrow> string" where
  "collapse_copy star [] = (if star then ''*'' else [])"
| "collapse_copy star [c] =
    (if c = CHR ''*'' then ''*''
     else if star \<and> c \<noteq> CHR ''?'' then [CHR ''*'', c] else c # collapse_copy star [])"
| "collapse_copy star (c # d # m) =
    (if c = CHR ''*'' then collapse_copy True (d # m)
     else
       (if star \<and> c \<noteq> CHR ''?'' then ''*'' else []) @ c #
         (if c = CHR 0x5C \<and> (d = CHR ''*'' \<or> d = CHR ''?'')
          then d # collapse_copy (star \<and> c = CHR ''?'') m
          else collapse_copy (star \<and> c = CHR ''?'') (d # m)))"

fun collapse_scan :: "string \<Rightarrow> string" where
  "collapse_scan [] = []"
| "collapse_scan [c] = [c]"
| "collapse_scan (c # d # m) =
    (if c = CHR ''*'' \<and> (d = CHR ''*'' \<or> d = CHR ''?'') then collapse_copy False (c # d # m)
     else if c = CHR 0x5C \<and> (d = CHR ''*'' \<or> d = CHR ''?'') then c # d # collapse_scan m
     else c # collapse_scan (d # m))"

definition collapse :: "string \<Rightarrow> string" where
  "collapse m = collapse_scan m"

lemma length_collapse_copy: "length (collapse_copy star m) \<le> length m + (if star then 1 else 0)"
  by (induction star m rule: collapse_copy.induct) auto

lemma length_collapse: "length (collapse m) \<le> length m"
proof -
  have "length (collapse_scan m) \<le> length m"
  proof (induction m rule: collapse_scan.induct)
    case (3 c d m)
    then show ?case using length_collapse_copy [of False "c # d # m"]
      by (auto simp del: collapse_copy.simps)
  qed simp_all
  then show ?thesis by (simp add: collapse_def)
qed

lemma wild_Cons_cong: "(\<And>n. wild a n = wild b n) \<Longrightarrow> wild (c # a) n = wild (c # b) n"
  by (induction n) auto

lemma wild_double_star: "wild (CHR ''*'' # CHR ''*'' # m) n = wild (CHR ''*'' # m) n"
  by (simp add: wild_star [of "CHR ''*'' # m"] wild_star_star del: wild.simps)

lemma wild_star_question:
  "wild (CHR ''*'' # CHR ''?'' # m) n = wild (CHR ''?'' # CHR ''*'' # m) n"
  using wild_wildcards [of "''*?''" m n] wild_wildcards [of "''?*''" m n] by simp

lemma collapse_copy_plain:
  "CHR 0x5C \<notin> set (c # m) \<Longrightarrow> collapse_copy star (c # m) =
    (if c = CHR ''*'' then collapse_copy True m
     else (if star \<and> c \<noteq> CHR ''?'' then ''*'' else []) @ c # collapse_copy (star \<and> c = CHR ''?'') m)"
  by (cases m) auto

lemma wild_collapse_copy:
  "CHR 0x5C \<notin> set m \<Longrightarrow> wild (collapse_copy star m) n = wild ((if star then ''*'' else []) @ m) n"
proof (induction m arbitrary: star n)
  case (Cons c m)
  note plain = collapse_copy_plain [OF Cons.prems, of star]
  have IH: "wild (collapse_copy star' m) n = wild ((if star' then ''*'' else []) @ m) n" for star' n
    using Cons by simp
  consider "c = CHR ''*''" | "star" "c = CHR ''?''" | "c \<noteq> CHR ''*''" "\<not> (star \<and> c = CHR ''?'')" by blast
  then show ?case
  proof cases
    case 1
    then show ?thesis unfolding plain using IH [of True]
      by (simp add: wild_double_star del: wild.simps)
  next
    case 2
    have "wild (c # collapse_copy True m) n = wild (c # CHR ''*'' # m) n" for n
      using IH [of True] by (intro wild_Cons_cong) simp
    then show ?thesis unfolding plain using 2 by (simp add: wild_star_question del: wild.simps)
  next
    case 3
    have "wild (c # collapse_copy False m) n = wild (c # m) n" for n
      using IH [of False] by (intro wild_Cons_cong) simp
    then show ?thesis unfolding plain using 3 wild_Cons_cong [of "c # collapse_copy False m" "c # m"]
      by (auto simp del: wild.simps)
  qed
qed simp

lemma wild_collapse: "CHR 0x5C \<notin> set m \<Longrightarrow> wild (collapse m) n = wild m n"
proof -
  have "CHR 0x5C \<notin> set m \<Longrightarrow> wild (collapse_scan m) n = wild m n"
  proof (induction m arbitrary: n rule: collapse_scan.induct)
    case (3 c d m)
    show ?case
    proof (cases "c = CHR ''*'' \<and> (d = CHR ''*'' \<or> d = CHR ''?'')")
      case True
      then show ?thesis using wild_collapse_copy [OF "3.prems", of False n] by (simp del: wild.simps)
    next
      case False
      then show ?thesis using 3 wild_Cons_cong [of "collapse_scan (d # m)" "d # m" c n] by auto
    qed
  qed simp_all
  then show "CHR 0x5C \<notin> set m \<Longrightarrow> ?thesis" by (simp add: collapse_def)
qed

lemma set_collapse_copy: "set (collapse_copy star m) \<subseteq> insert (CHR ''*'') (set m)"
  by (induction star m rule: collapse_copy.induct) auto

lemma set_collapse: "set (collapse m) \<subseteq> set m"
proof -
  have "set (collapse_scan m) \<subseteq> set m"
  proof (induction m rule: collapse_scan.induct)
    case (3 c d m)
    then show ?case using set_collapse_copy [of False "c # d # m"]
      by (auto simp del: collapse_copy.simps)
  qed simp_all
  then show ?thesis by (simp add: collapse_def)
qed

text \<open>A collapsed mask has no unescaped star in front of another wildcard.\<close>

fun collapsed :: "string \<Rightarrow> bool" where
  "collapsed [] = True"
| "collapsed [c] = True"
| "collapsed (c # d # m) =
    (if c = CHR ''*'' \<and> (d = CHR ''*'' \<or> d = CHR ''?'') then False
     else if c = CHR 0x5C \<and> (d = CHR ''*'' \<or> d = CHR ''?'') then collapsed m
     else collapsed (d # m))"

lemma collapsed_Cons_nonspecial:
  "collapsed m \<Longrightarrow> c \<noteq> CHR ''*'' \<Longrightarrow> c \<noteq> CHR 0x5C \<Longrightarrow> collapsed (c # m)"
  by (cases m) auto

lemma collapse_copy_False_head:
  "literal d \<Longrightarrow> hd (collapse_copy False (d # m)) = d"
  by (cases m) (auto simp: literal_def)

lemma collapsed_Cons_literal:
  "collapsed m \<Longrightarrow> \<not> (m \<noteq> [] \<and> \<not> literal (hd m)) \<Longrightarrow> collapsed (c # m)"
  by (cases m) (auto simp: literal_def)

lemma collapsed_copy: "collapsed (collapse_copy star m)"
proof (induction star m rule: collapse_copy.induct)
  case (3 star c d m)
  show ?case
  proof (cases "literal c")
    case False
    then show ?thesis using 3 by (auto simp: literal_def intro: collapsed_Cons_nonspecial)
  next
    case True
    have "collapsed (c # collapse_copy False (d # m))"
      if "\<not> (c = CHR 0x5C \<and> (d = CHR ''*'' \<or> d = CHR ''?''))"
    proof (cases "c = CHR 0x5C")
      case True
      then show ?thesis using 3 that collapse_copy_False_head [of d m]
        by (intro collapsed_Cons_literal) (auto simp: literal_def simp del: collapse_copy.simps)
    next
      case False
      then show ?thesis using 3 True that
        by (intro collapsed_Cons_nonspecial) (auto simp: literal_def simp del: collapse_copy.simps)
    qed
    then show ?thesis using 3 True by (auto simp: literal_def)
  qed
qed auto

lemma collapsed_collapse: "collapsed (collapse m)"
proof -
  have hd: "hd (collapse_scan (d # m)) = d" if "literal d" for d m
    using that by (cases m) (auto simp: literal_def)

  have "collapsed (collapse_scan m)"
  proof (induction m rule: collapse_scan.induct)
    case (3 c d m)
    then show ?case
      using collapsed_copy [of False "c # d # m"] hd [of d m]
        collapsed_Cons_literal [of "collapse_scan (d # m)" c]
        collapsed_Cons_nonspecial [of "collapse_scan (d # m)" c]
      by (auto simp: literal_def simp del: collapse_copy.simps)
  qed simp_all
  then show ?thesis by (simp add: collapse_def)
qed

lemma collapse_fixpoint: "collapsed m \<Longrightarrow> collapse m = m"
proof -
  have "collapsed m \<Longrightarrow> collapse_scan m = m"
    by (induction m rule: collapse_scan.induct) (auto split: if_splits)
  then show "collapsed m \<Longrightarrow> ?thesis" by (simp add: collapse_def)
qed

section \<open>Case-insensitive comparison\<close>

text \<open>The character after the last one of a string is its NUL, which only NUL folds to, so the
  comparison with a shorter string stops there with a difference.\<close>

fun irccmp :: "string \<Rightarrow> string \<Rightarrow> nat" where
  "irccmp [] [] = 0"
| "irccmp (a # s1) (b # s2) = (if ToUpper a = ToUpper b then irccmp s1 s2 else 1)"
| "irccmp _ _ = 1"

fun ircncmp :: "string \<Rightarrow> string \<Rightarrow> nat \<Rightarrow> nat" where
  "ircncmp s1 s2 0 = 0"
| "ircncmp [] [] (Suc n) = 0"
| "ircncmp (a # s1) (b # s2) (Suc n) =
    (if ToUpper a = ToUpper b then (if n = 0 then 0 else ircncmp s1 s2 n) else 1)"
| "ircncmp _ _ (Suc n) = 1"

lemma irccmp_zero_iff: "irccmp s1 s2 = 0 \<longleftrightarrow> map ToLower s1 = map ToLower s2"
  by (induction s1 s2 rule: irccmp.induct) (auto simp: ToUpper_eq_iff_ToLower_eq)

lemma irccmp_values: "irccmp s1 s2 = 0 \<or> irccmp s1 s2 = 1"
  by (induction s1 s2 rule: irccmp.induct) auto

lemma irccmp_refl [simp]: "irccmp s s = 0"
  by (simp add: irccmp_zero_iff)

lemma irccmp_sym: "irccmp s1 s2 = 0 \<Longrightarrow> irccmp s2 s1 = 0"
  by (simp add: irccmp_zero_iff)

lemma irccmp_trans: "irccmp s1 s2 = 0 \<Longrightarrow> irccmp s2 s3 = 0 \<Longrightarrow> irccmp s1 s3 = 0"
  by (simp add: irccmp_zero_iff)

lemma ircncmp_take: "ircncmp s1 s2 n = irccmp (take n s1) (take n s2)"
  by (induction s1 s2 n rule: ircncmp.induct) auto

text \<open>Folding the case of mask or name does not change what a mask matches.\<close>

lemma wild_fold_case: "map ToLower n = map ToLower n' \<Longrightarrow> wild m n = wild m n'"
proof (induction m n arbitrary: n' rule: wild.induct)
  case (1 n)
  then show ?case by auto
next
  case (3 c m x n)
  then obtain x' t where "n' = x' # t" "ToLower x = ToLower x'" "map ToLower n = map ToLower t"
    by (cases n') auto
  then show ?case using "3.IH"(1) [of n'] "3.IH"(2-4) [of t] "3.prems" by auto
qed simp

lemma wild_irccmp: "irccmp n n' = 0 \<Longrightarrow> wild m n = wild m n'"
  by (rule wild_fold_case) (simp add: irccmp_zero_iff)

section \<open>Escapes\<close>

lemma match_loop_literal_prefix:
  "\<forall>c \<in> set s. literal c \<and> c \<noteq> CHR 0x5C \<Longrightarrow>
    match_loop (s @ m, s @ n, bt) = match_loop (m, n, bt)"
proof (induction s)
  case (Cons c s)
  then show ?case
    by (subst match_loop.simps) (simp add: match_step_def match_default_def literal_def)
qed simp

section \<open>Properties\<close>

text \<open>C16: for a mask without a backslash, \<open>match\<close> returns 0 exactly when the mask matches the
  name by the wildcard semantics (a star stands for any string, a question mark for any one byte,
  any other byte for itself up to RFC 1459 case folding), and 1 otherwise: the single
  backtracking point of the loop loses no match, and the loop ends.\<close>

theorem match_decides_wildcards:
  assumes "CHR 0x5C \<notin> set m"
  shows "match m n = Inr (if wild m n then 0 else 1)"
  using assms by (rule match_plain_mask)

theorem match_decides_wildcards_witness:
  "match ''*a*?.Net'' ''xxABcc.net'' = Inr 0 \<and> match ''a*b'' ''abc'' = Inr 1"
proof -
  have "match ''*a*?.Net'' ''xxABcc.net'' = Inr (if wild ''*a*?.Net'' ''xxABcc.net'' then 0 else 1)"
    by (rule match_decides_wildcards) simp
  moreover have "wild ''*a*?.Net'' ''xxABcc.net''"
    by (simp add: char_eq_of_char_iff of_char_ToLower)
  moreover have "match ''a*b'' ''abc'' = Inr (if wild ''a*b'' ''abc'' then 0 else 1)"
    by (rule match_decides_wildcards) simp
  moreover have "\<not> wild ''a*b'' ''abc''"
    by (simp add: char_eq_of_char_iff of_char_ToLower)
  ultimately show ?thesis by simp
qed

text \<open>C29: a mask that does not end in a backslash, escapes included, never makes \<open>match\<close> read
  behind the terminator of mask or name.\<close>

theorem match_in_bounds:
  assumes "m = [] \<or> last m \<noteq> CHR 0x5C"
  shows "match m n = Inr 0 \<or> match m n = Inr 1"
  using match_loop_bounded [of m "(m, n, None)"] assms by (simp add: match_def match_bounded_def)

theorem match_in_bounds_witness:
  "match [CHR ''*'', CHR 0x5C, CHR ''*''] ''ab*'' = Inr 0 \<or> match [CHR ''*'', CHR 0x5C, CHR ''*''] ''ab*'' = Inr 1"
  by (rule match_in_bounds) simp

text \<open>A mask that ends in a backslash makes \<open>match\<close> read behind both strings as soon as the
  name is the literal text before the backslash: the escape case compares the two terminators
  and steps over them.\<close>

lemma match_trailing_escape_overruns:
  assumes "\<forall>c \<in> set s. literal c \<and> c \<noteq> CHR 0x5C"
  shows "match (s @ [CHR 0x5C]) s = Inl OutOfBounds"
  using match_loop_literal_prefix [OF assms, of "[CHR 0x5C]" "[]" None]
  by (simp add: match_def match_loop.simps [of "([CHR 0x5C], [], None)"] match_step_def)

text \<open>An escape right behind a question mark is not honoured: the mask \<open>?\c\<close> does not match
  a two-byte name that ends in \<open>c\<close>, because the fall-through to the default case compares the
  backslash itself.\<close>

lemma match_escape_after_question:
  assumes "ToLower c \<noteq> ToLower (CHR 0x5C)"
  shows "match [CHR ''?'', CHR 0x5C, c] [x, c] = Inr 1"
  using assms
  by (simp add: match_def match_loop.simps [of "([CHR ''?'', CHR 0x5C, c], [x, c], None)"]
      match_step_def match_default_def backtrack_def)

text \<open>C30: \<open>collapse\<close> never lengthens a mask, so that it can work in place, leaves a mask it has
  produced alone, and does not change what a mask without backslashes matches.\<close>

theorem collapse_preserves_match:
  "length (collapse m) \<le> length m \<and> collapse (collapse m) = collapse m \<and>
   (CHR 0x5C \<notin> set m \<longrightarrow> match (collapse m) n = match m n)"
proof -
  have "match (collapse m) n = match m n" if "CHR 0x5C \<notin> set m"
  proof -
    have "CHR 0x5C \<notin> set (collapse m)" using that set_collapse [of m] by blast
    then show ?thesis using that by (simp add: match_plain_mask wild_collapse)
  qed
  then show ?thesis by (simp add: length_collapse collapse_fixpoint collapsed_collapse)
qed

theorem collapse_preserves_match_witness:
  "collapse ''a**?b'' = ''a?*b'' \<and> match ''a?*b'' ''axyb'' = match ''a**?b'' ''axyb''"
  using collapse_preserves_match [of "''a**?b''" "''axyb''"] by (simp add: collapse_def)

text \<open>\<open>irccmp\<close> decides equality up to RFC 1459 case folding, by either of the two tables,
  \<open>ircncmp\<close> that of the first \<open>n\<close> bytes, and two names that compare equal are matched by the
  same masks.\<close>

lemma irccmp_decides_case_folding:
  "(irccmp s1 s2 = 0 \<longleftrightarrow> map ToLower s1 = map ToLower s2) \<and>
   (irccmp s1 s2 = 0 \<longleftrightarrow> map ToUpper s1 = map ToUpper s2) \<and>
   ircncmp s1 s2 k = irccmp (take k s1) (take k s2) \<and>
   (irccmp s1 s2 = 0 \<longrightarrow> wild m s1 = wild m s2)"
proof -
  have "map ToUpper s1 = map ToUpper s2 \<longleftrightarrow> map ToLower s1 = map ToLower s2"
    by (auto simp: list_eq_iff_nth_eq ToUpper_eq_iff_ToLower_eq)
  then show ?thesis by (intro conjI impI ircncmp_take wild_irccmp) (simp_all add: irccmp_zero_iff)
qed

end
