(* ===== verification/IrcString.thy ===== *)
theory IrcString
  imports Match
begin

text \<open>
  The string helpers of \<open>src/irc_string.c\<close>. The functions that write into a caller's buffer
  (\<open>strip_tabs\<close>, \<open>strlcpy\<close>, \<open>strlcat\<close>) are modelled on the buffer itself, a list of
  bytes of which the caller states a size, so that a write outside it is an error value.
  The functions that cut a string into tokens work on the string and return the pieces.
\<close>

section \<open>Buffers\<close>

definition buf_write :: "char list \<Rightarrow> nat \<Rightarrow> char \<Rightarrow> c_error + char list" where
  "buf_write buf i c = (if i < length buf then Inr (buf[i := c]) else Inl OutOfBounds)"

text \<open>The C string a buffer holds: the bytes before its first NUL.\<close>

definition buf_str :: "char list \<Rightarrow> string" where
  "buf_str buf = takeWhile (\<lambda>c. c \<noteq> NUL) buf"

section \<open>has_wildcards and strip_tabs\<close>

fun has_wildcards :: "string \<Rightarrow> bool" where
  "has_wildcards [] = False"
| "has_wildcards [c] = (if c = CHR 0x5C then False else IsMWildChar c)"
| "has_wildcards (c # d # s) =
    (if c = CHR 0x5C then has_wildcards s
     else if IsMWildChar c then True else has_wildcards (d # s))"

fun strip_tabs_loop :: "char list \<Rightarrow> nat \<Rightarrow> string \<Rightarrow> nat \<Rightarrow> c_error + char list" where
  "strip_tabs_loop buf d src len =
    (if len - 1 = 0 then buf_write buf d NUL
     else case src of
       [] \<Rightarrow> buf_write buf d NUL
     | c # src' \<Rightarrow>
         (case buf_write buf d (if c = CHR 0x09 then CHR '' '' else c) of
            Inl e \<Rightarrow> Inl e
          | Inr buf' \<Rightarrow> strip_tabs_loop buf' (Suc d) src' (len - 1)))"

declare strip_tabs_loop.simps [simp del]

definition strip_tabs :: "char list \<Rightarrow> string \<Rightarrow> nat \<Rightarrow> c_error + char list" where
  "strip_tabs dest src len = strip_tabs_loop dest 0 src len"

section \<open>strlcpy and strlcat\<close>

text \<open>The copying loop: buffer, write position, rest of the source (\<open>None\<close> behind its NUL), number
  of source bytes stepped over, and the room left.\<close>

fun strlcpy_copy :: "char list \<Rightarrow> nat \<Rightarrow> string \<Rightarrow> nat \<Rightarrow> nat
    \<Rightarrow> c_error + (char list \<times> nat \<times> string option \<times> nat \<times> nat)" where
  "strlcpy_copy buf d [] k n =
    (case buf_write buf d NUL of
       Inl e \<Rightarrow> Inl e
     | Inr buf' \<Rightarrow> Inr (buf', Suc d, None, Suc k, n))"
| "strlcpy_copy buf d (c # s) k n =
    (case buf_write buf d c of
       Inl e \<Rightarrow> Inl e
     | Inr buf' \<Rightarrow>
         if n - 1 = 0 then Inr (buf', Suc d, Some s, Suc k, 0)
         else strlcpy_copy buf' (Suc d) s (Suc k) (n - 1))"

definition strlcpy :: "char list \<Rightarrow> string \<Rightarrow> nat \<Rightarrow> c_error + (char list \<times> nat)" where
  "strlcpy dst src siz =
    (case (if siz \<noteq> 0 \<and> siz - 1 \<noteq> 0 then strlcpy_copy dst 0 src 0 (siz - 1)
           else Inr (dst, 0, Some src, 0, 0)) of
       Inl e \<Rightarrow> Inl e
     | Inr (buf, d, s, k, n) \<Rightarrow>
         if n = 0 then
           (case (if siz \<noteq> 0 then buf_write buf d NUL else Inr buf) of
              Inl e \<Rightarrow> Inl e
            | Inr buf' \<Rightarrow>
                Inr (buf', (case s of None \<Rightarrow> k | Some r \<Rightarrow> k + length r + 1) - 1))
         else Inr (buf, k - 1))"

fun strlcat_find :: "char list \<Rightarrow> nat \<Rightarrow> nat \<Rightarrow> c_error + nat" where
  "strlcat_find buf d 0 = Inr d"
| "strlcat_find buf d (Suc n) =
    (if d < length buf then (if buf ! d \<noteq> NUL then strlcat_find buf (Suc d) n else Inr d)
     else Inl OutOfBounds)"

fun strlcat_copy :: "char list \<Rightarrow> nat \<Rightarrow> string \<Rightarrow> nat \<Rightarrow> c_error + char list" where
  "strlcat_copy buf d [] n = buf_write buf d NUL"
| "strlcat_copy buf d (c # s) n =
    (if n \<noteq> 1 then
       (case buf_write buf d c of
          Inl e \<Rightarrow> Inl e
        | Inr buf' \<Rightarrow> strlcat_copy buf' (Suc d) s (n - 1))
     else strlcat_copy buf d s n)"

definition strlcat :: "char list \<Rightarrow> string \<Rightarrow> nat \<Rightarrow> c_error + (char list \<times> nat)" where
  "strlcat dst src siz =
    (case strlcat_find dst 0 siz of
       Inl e \<Rightarrow> Inl e
     | Inr dlen \<Rightarrow>
         if siz - dlen = 0 then Inr (dst, dlen + length src)
         else (case strlcat_copy dst dlen src (siz - dlen) of
                 Inl e \<Rightarrow> Inl e
               | Inr buf \<Rightarrow> Inr (buf, dlen + length src)))"

section \<open>Tokens\<close>

text \<open>\<open>strtoken\<close>: the position kept in \<open>*save\<close> is \<open>None\<close> for the null pointer.\<close>

definition strtoken :: "string option \<Rightarrow> string option \<Rightarrow> string \<Rightarrow> string option \<times> string option" where
  "strtoken save str fs =
    (let pos = (case str of None \<Rightarrow> save | Some s \<Rightarrow> Some s)
     in case pos of
          None \<Rightarrow> (None, None)
        | Some s \<Rightarrow>
            (case dropWhile (\<lambda>c. c \<in> set fs) s of
               [] \<Rightarrow> (None, None)
             | p \<Rightarrow>
                 (let tmp = takeWhile (\<lambda>c. c \<notin> set fs) p;
                      rest = dropWhile (\<lambda>c. c \<notin> set fs) p
                  in (Some tmp, case rest of [] \<Rightarrow> None | _ # r \<Rightarrow> Some r))))"

text \<open>The idiom \<open>for (t = strtoken(&p, s, fs); t; t = strtoken(&p, NULL, fs))\<close>.\<close>

function strtoken_all :: "string option \<Rightarrow> string \<Rightarrow> string list" where
  "strtoken_all save fs =
    (case strtoken save None fs of
       (None, _) \<Rightarrow> []
     | (Some t, save') \<Rightarrow> t # strtoken_all save' fs)"
  by pat_completeness auto
termination
proof (relation "measure (\<lambda>(save, fs). case save of None \<Rightarrow> 0 | Some s \<Rightarrow> Suc (length s))", simp, goal_cases)
  case (1 save fs t save' x)
  then obtain s where s: "save = Some s" by (auto simp: strtoken_def split: option.splits)
  define p where "p = dropWhile (\<lambda>c. c \<in> set fs) s"
  have lp: "length p \<le> length s" by (simp add: p_def length_dropWhile_le)
  have "length (dropWhile (\<lambda>c. c \<notin> set fs) p) \<le> length p" by (rule length_dropWhile_le)
  with 1 s lp show ?case
    by (auto simp: strtoken_def Let_def p_def split: list.splits)
qed

declare strtoken_all.simps [simp del]

text \<open>\<open>token_vector\<close>: the last element is the piece that still runs on when the loop starts.\<close>

function token_vector_loop :: "string \<Rightarrow> char \<Rightarrow> nat \<Rightarrow> nat \<Rightarrow> string list" where
  "token_vector_loop start token count sz =
    (if token \<in> set start then
       (let piece = takeWhile (\<lambda>c. c \<noteq> token) start;
            rest = tl (dropWhile (\<lambda>c. c \<noteq> token) start)
        in if rest \<noteq> [] then
             (if Suc count < sz then piece # token_vector_loop rest token (Suc count) sz
              else [piece, rest])
           else [piece])
     else [start])"
  by pat_completeness auto
termination
proof (relation "measure (\<lambda>(start, _). length start)", simp, goal_cases)
  case (1 start token count sz piece rest)
  have "length (dropWhile (\<lambda>c. c \<noteq> token) start) \<le> length start" by (rule length_dropWhile_le)
  moreover have "dropWhile (\<lambda>c. c \<noteq> token) start \<noteq> []" using 1 by (auto simp: dropWhile_eq_Nil_conv)
  ultimately show ?case using 1 by (cases "dropWhile (\<lambda>c. c \<noteq> token) start") auto
qed

declare token_vector_loop.simps [simp del]

definition token_vector :: "string \<Rightarrow> char \<Rightarrow> nat \<Rightarrow> string list" where
  "token_vector names token sz = token_vector_loop names token 1 sz"

definition libio_basename :: "string \<Rightarrow> string" where
  "libio_basename path = rev (takeWhile (\<lambda>c. c \<noteq> CHR ''/'') (rev path))"

section \<open>Facts about the buffer functions\<close>

definition buf_put :: "char list \<Rightarrow> nat \<Rightarrow> string \<Rightarrow> char list" where
  "buf_put buf d xs = take d buf @ xs @ drop (d + length xs) buf"

lemma length_buf_put [simp]: "d + length xs \<le> length buf \<Longrightarrow> length (buf_put buf d xs) = length buf"
  by (simp add: buf_put_def)

lemma buf_put_Nil [simp]: "buf_put buf d [] = buf"
  by (simp add: buf_put_def)

lemma buf_write_put: "d < length buf \<Longrightarrow> buf_write buf d c = Inr (buf_put buf d [c])"
  by (simp add: buf_write_def buf_put_def upd_conv_take_nth_drop)

lemma buf_put_put:
  "d + length xs + length ys \<le> length buf \<Longrightarrow>
    buf_put (buf_put buf d xs) (d + length xs) ys = buf_put buf d (xs @ ys)"
  by (auto simp: buf_put_def ac_simps)

lemma buf_put_Cons:
  "d + Suc (length ys) \<le> length buf \<Longrightarrow> buf_put (buf_put buf d [c]) (Suc d) ys = buf_put buf d (c # ys)"
  using buf_put_put [of d "[c]" ys buf] by simp

lemma buf_str_put: "cstring xs \<Longrightarrow> buf_str (buf_put buf 0 (xs @ [NUL])) = xs"
  by (auto simp: buf_str_def buf_put_def cstring_def takeWhile_append)

lemma drop_buf_put: "d + length xs \<le> k \<Longrightarrow> k \<le> length buf \<Longrightarrow> drop k (buf_put buf d xs) = drop k buf"
  by (simp add: buf_put_def)

lemma strlcpy_copy_eq:
  assumes "0 < n" "d + n < length buf"
  shows "strlcpy_copy buf d s k n =
    (if length s < n then Inr (buf_put buf d (s @ [NUL]), d + Suc (length s), None, k + Suc (length s), n - length s)
     else Inr (buf_put buf d (take n s), d + n, Some (drop n s), k + n, 0))"
  using assms
proof (induction s arbitrary: buf d k n)
  case Nil
  then show ?case by (simp add: buf_write_put)
next
  case (Cons c s)
  obtain n' where n: "n = Suc n'" using Cons.prems by (cases n) auto
  show ?case
  proof (cases n')
    case 0
    then show ?thesis using n Cons.prems by (simp add: buf_write_put)
  next
    case (Suc n'')
    then show ?thesis using n Cons.prems Cons.IH [of n' "Suc d" "buf_put buf d [c]" "Suc k"]
      by (auto simp: buf_write_put buf_put_Cons min_def)
  qed
qed

lemma strlcpy_eq:
  assumes "0 < siz" "siz \<le> length dst"
  shows "strlcpy dst src siz = Inr (buf_put dst 0 (take (siz - 1) src @ [NUL]), length src)"
proof (cases "siz = 1")
  case True
  then show ?thesis using assms buf_write_put [of 0 dst NUL] by (simp add: strlcpy_def Suc_le_eq)
next
  case False
  then obtain n where n: "siz = Suc (Suc n)" using assms(1) by (cases siz; cases "siz - 1") auto
  then have c: "strlcpy_copy dst 0 src 0 (Suc n) =
      (if length src < Suc n
       then Inr (buf_put dst 0 (src @ [NUL]), Suc (length src), None, Suc (length src), Suc n - length src)
       else Inr (buf_put dst 0 (take (Suc n) src), Suc n, Some (drop (Suc n) src), Suc n, 0))"
    using assms(2) by (subst strlcpy_copy_eq) auto
  show ?thesis
  proof (cases "length src < Suc n")
    case True
    then show ?thesis using n by (simp add: strlcpy_def c)
  next
    case long: False
    have "buf_put (buf_put dst 0 (take (Suc n) src)) (Suc n) [NUL] = buf_put dst 0 (take (Suc n) src @ [NUL])"
    proof -
      have "length (take (Suc n) src) = Suc n" using long by simp
      then show ?thesis using buf_put_put [of 0 "take (Suc n) src" "[NUL]" dst] n assms(2) by simp
    qed
    then show ?thesis using n assms(2) long
      by (simp add: strlcpy_def c buf_write_put)
  qed
qed

text \<open>What a component that calls \<open>strlcpy(dst, src, sizeof(dst))\<close> finds in \<open>dst\<close>.\<close>

definition strlcpy_str :: "string \<Rightarrow> nat \<Rightarrow> string" where
  "strlcpy_str src siz = take (siz - 1) src"

lemma length_strlcpy_str: "0 < siz \<Longrightarrow> length (strlcpy_str src siz) < siz"
  by (simp add: strlcpy_str_def)

lemma strlcpy_str_id: "length src < siz \<Longrightarrow> strlcpy_str src siz = src"
  by (simp add: strlcpy_str_def)

lemma strlcat_find_eq:
  "d + n \<le> length buf \<Longrightarrow>
    strlcat_find buf d n = Inr (d + length (takeWhile (\<lambda>c. c \<noteq> NUL) (take n (drop d buf))))"
proof (induction n arbitrary: d)
  case (Suc n)
  then have "drop d buf = buf ! d # drop (Suc d) buf" by (simp add: Cons_nth_drop_Suc)
  then show ?case using Suc by simp
qed simp

lemma strlcat_copy_eq:
  "0 < n \<Longrightarrow> d + n \<le> length buf \<Longrightarrow>
    strlcat_copy buf d s n = Inr (buf_put buf d (take (n - 1) s @ [NUL]))"
proof (induction s arbitrary: buf d n)
  case Nil
  then show ?case by (simp add: buf_write_put)
next
  case (Cons c s)
  show ?case
  proof (cases "n = 1")
    case True
    then show ?thesis using Cons.IH [of 1 d buf] Cons.prems by simp
  next
    case False
    then obtain n' where n: "n = Suc (Suc n')" using Cons.prems by (cases n; cases "n - 1") auto
    then show ?thesis using Cons.prems Cons.IH [of "Suc n'" "Suc d" "buf_put buf d [c]"]
      by (simp add: buf_write_put buf_put_Cons)
  qed
qed

section \<open>Facts about tokens\<close>

text \<open>The fields of a string between separators, the empty ones included.\<close>

fun fields :: "(char \<Rightarrow> bool) \<Rightarrow> string \<Rightarrow> string list" where
  "fields P [] = [[]]"
| "fields P (c # s) =
    (if P c then [] # fields P s
     else (case fields P s of [] \<Rightarrow> [[c]] | f # r \<Rightarrow> (c # f) # r))"

lemma fields_unfold:
  "fields P s = takeWhile (\<lambda>c. \<not> P c) s #
     (case dropWhile (\<lambda>c. \<not> P c) s of [] \<Rightarrow> [] | _ # r \<Rightarrow> fields P r)"
  by (induction s) (auto split: list.splits)

lemma nonempty_fields_dropWhile:
  "filter (\<lambda>f. f \<noteq> []) (fields P (dropWhile P s)) = filter (\<lambda>f. f \<noteq> []) (fields P s)"
  by (induction s) auto

lemma strtoken_None [simp]: "strtoken None None fs = (None, None)"
  by (simp add: strtoken_def)

lemma strtoken_all_fields:
  "strtoken_all save fs =
    (case save of None \<Rightarrow> [] | Some s \<Rightarrow> filter (\<lambda>f. f \<noteq> []) (fields (\<lambda>c. c \<in> set fs) s))"
proof (induction save fs rule: strtoken_all.induct)
  case (1 save fs)
  show ?case
  proof (cases save)
    case None
    then show ?thesis by (simp add: strtoken_all.simps [of None])
  next
    case (Some s)
    define p where "p = dropWhile (\<lambda>c. c \<in> set fs) s"
    have nf: "filter (\<lambda>f. f \<noteq> []) (fields (\<lambda>c. c \<in> set fs) s)
        = filter (\<lambda>f. f \<noteq> []) (fields (\<lambda>c. c \<in> set fs) p)"
      by (simp add: p_def nonempty_fields_dropWhile)
    show ?thesis
    proof (cases p)
      case Nil
      then have "strtoken save None fs = (None, None)"
        using Some by (simp add: strtoken_def p_def [symmetric])
      then have "strtoken_all save fs = []" by (subst strtoken_all.simps) simp
      then show ?thesis using Some nf Nil by simp
    next
      case (Cons c q)
      let ?t = "takeWhile (\<lambda>c. c \<notin> set fs) p"
      let ?save = "case dropWhile (\<lambda>c. c \<notin> set fs) p of [] \<Rightarrow> None | _ # r \<Rightarrow> Some r"
      have "c \<notin> set fs" using Cons hd_dropWhile [of "\<lambda>c. c \<in> set fs" s] p_def by auto
      then have ne: "?t \<noteq> []" using Cons by simp
      have st: "strtoken save None fs = (Some ?t, ?save)"
        using Some Cons p_def by (simp add: strtoken_def Let_def)
      have "strtoken_all save fs = ?t # strtoken_all ?save fs"
        by (subst strtoken_all.simps) (simp add: st)
      moreover have "strtoken_all ?save fs
          = (case ?save of None \<Rightarrow> [] | Some s \<Rightarrow> filter (\<lambda>f. f \<noteq> []) (fields (\<lambda>c. c \<in> set fs) s))"
        using "1.IH" [OF st [symmetric]] by blast
      ultimately show ?thesis
        using Some nf ne fields_unfold [of "\<lambda>c. c \<in> set fs" p]
        by (cases "dropWhile (\<lambda>c. c \<notin> set fs) p") simp_all
    qed
  qed
qed

lemma strtoken_all_members:
  "t \<in> set (strtoken_all save fs) \<Longrightarrow> t \<noteq> [] \<and> set t \<inter> set fs = {}"
proof -
  have "f \<in> set (fields P s) \<Longrightarrow> \<forall>c \<in> set f. \<not> P c" for f P s
    by (induction s arbitrary: f) (fastforce split: if_splits list.splits)+
  then show "t \<in> set (strtoken_all save fs) \<Longrightarrow> ?thesis"
    by (fastforce simp: strtoken_all_fields split: option.splits)
qed

lemma length_token_vector: "0 < count \<Longrightarrow> count < sz \<Longrightarrow>
   length (token_vector_loop start token count sz) + count \<le> Suc sz"
proof (induction start token count sz rule: token_vector_loop.induct)
  case (1 start token count sz)
  then show ?case
    by (subst token_vector_loop.simps) (auto simp: Let_def)
qed

section \<open>Properties\<close>

lemma takeWhile_take_short:
  "length (takeWhile P xs) < n \<Longrightarrow> takeWhile P (take n xs) = takeWhile P xs"
proof (induction xs arbitrary: n)
  case (Cons x xs)
  then show ?case by (cases n) auto
qed simp

lemma strlcat_eq:
  assumes "length (buf_str dst) < siz" "siz \<le> length dst"
  shows "strlcat dst src siz =
    Inr (buf_put dst 0 (take (siz - 1) (buf_str dst @ src) @ [NUL]), length (buf_str dst) + length src)"
proof -
  let ?d = "length (buf_str dst)"
  have "strlcat_find dst 0 siz = Inr ?d"
    using assms by (simp add: strlcat_find_eq takeWhile_take_short buf_str_def)
  moreover have "strlcat_copy dst ?d src (siz - ?d) = Inr (buf_put dst ?d (take (siz - ?d - 1) src @ [NUL]))"
    using assms by (intro strlcat_copy_eq) auto
  moreover have "take ?d dst = buf_str dst" by (simp add: buf_str_def takeWhile_eq_take [symmetric])
  then have "buf_put dst ?d xs = buf_put dst 0 (buf_str dst @ xs)" for xs
    by (simp add: buf_put_def)
  ultimately show ?thesis using assms by (simp add: strlcat_def)
qed

text \<open>Called with the size of the destination, \<open>strlcpy\<close> stays inside it, leaves the longest
  prefix of the source that fits with its NUL there, touches no byte behind the stated size and
  returns the length of the source; \<open>strlcat\<close> appends in the same way to what the destination
  holds.\<close>

lemma strlcpy_strlcat_bounded:
  assumes "siz \<le> length dst" "cstring src" "length (buf_str dst) < siz"
  shows "(\<exists>buf. strlcpy dst src siz = Inr (buf, length src) \<and> length buf = length dst \<and>
           buf_str buf = take (siz - 1) src \<and> drop siz buf = drop siz dst) \<and>
         (\<exists>buf. strlcat dst src siz = Inr (buf, length (buf_str dst) + length src) \<and>
           length buf = length dst \<and> buf_str buf = take (siz - 1) (buf_str dst @ src) \<and>
           drop siz buf = drop siz dst)"
proof -
  have siz: "0 < siz" using assms(3) by simp
  have put: "length (buf_put dst 0 (take (siz - 1) xs @ [NUL])) = length dst \<and>
      buf_str (buf_put dst 0 (take (siz - 1) xs @ [NUL])) = take (siz - 1) xs \<and>
      drop siz (buf_put dst 0 (take (siz - 1) xs @ [NUL])) = drop siz dst" if "cstring xs" for xs
  proof -
    have "length (take (siz - 1) xs @ [NUL]) \<le> siz" using siz by auto
    then show ?thesis
      using assms(1) that buf_str_put [OF cstring_take [OF that], of dst "siz - 1"]
        length_buf_put [of 0 "take (siz - 1) xs @ [NUL]" dst] drop_buf_put [of 0 "take (siz - 1) xs @ [NUL]" siz dst]
      by simp
  qed
  have "cstring (buf_str dst)" by (auto simp: cstring_def buf_str_def dest: set_takeWhileD)
  then have "cstring (buf_str dst @ src)" using assms(2) by simp
  then show ?thesis
    using strlcpy_eq [OF siz assms(1), of src] strlcat_eq [OF assms(3,1), of src]
      put [OF assms(2)] put by blast
qed

text \<open>The token loop over \<open>strtoken\<close>, which the channel commands run on their target lists,
  visits exactly the non-empty fields between separators, in order, and ends.\<close>

lemma strtoken_enumerates_fields:
  "strtoken_all (Some s) fs = filter (\<lambda>f. f \<noteq> []) (fields (\<lambda>c. c \<in> set fs) s)"
  by (simp add: strtoken_all_fields)

text \<open>\<open>token_vector\<close> fills at most \<open>size\<close> slots, and does not drop an empty token at the start
  or between two separators as its comment says: the empty pieces are stored.\<close>

lemma token_vector_slots:
  "(1 < sz \<longrightarrow> length (token_vector names token sz) \<le> sz) \<and>
   token_vector ''a::b'' (CHR '':'') 4 = [''a'', [], ''b''] \<and>
   token_vector '':b'' (CHR '':'') 4 = [[], ''b'']"
  using length_token_vector [of 1 sz names token]
  by (auto simp: token_vector_def token_vector_loop.simps)

end
