(* ===== verification/Dlink.thy ===== *)
theory Dlink
  imports Prelude
begin

text \<open>
  The doubly linked lists of \<open>src/list.c\<close>, on an explicit store of nodes. Nodes live inside other
  structures and are shared by address, so the operations rewrite a heap from addresses to nodes
  and the header of the list. A dereference of the null pointer and a failed \<open>assert\<close> are error
  values. \<open>dl_repr\<close> relates heap and header to the sequence of node addresses the list stands for;
  every operation is shown to implement the corresponding operation on sequences and to leave all
  other nodes alone. The locale \<open>dlink_ops\<close> is the interface the rest of the server relies on
  when it treats a \<open>dlink_list\<close> as a sequence.
\<close>

section \<open>Nodes, lists and the operations of list.c\<close>

type_synonym addr = nat

record 'd dlink_node =
  nd_data :: 'd
  nd_prev :: "addr option"
  nd_next :: "addr option"

record dlink_list =
  dl_head :: "addr option"
  dl_tail :: "addr option"
  dl_length :: u32

type_synonym 'd heap = "addr \<Rightarrow> 'd dlink_node"

definition set_prev :: "addr \<Rightarrow> addr option \<Rightarrow> 'd heap \<Rightarrow> 'd heap" where
  "set_prev a p h = h(a := (h a)\<lparr>nd_prev := p\<rparr>)"

definition set_next :: "addr \<Rightarrow> addr option \<Rightarrow> 'd heap \<Rightarrow> 'd heap" where
  "set_next a n h = h(a := (h a)\<lparr>nd_next := n\<rparr>)"

text \<open>The part of \<open>dlinkAdd\<close> behind the assignment of the data, which \<open>dlink_move_node\<close> repeats.\<close>

definition dlink_push :: "addr \<Rightarrow> 'd heap \<Rightarrow> dlink_list \<Rightarrow> 'd heap \<times> dlink_list" where
  "dlink_push m h l =
    (let h1 = set_next m (dl_head l) (set_prev m None h);
         h2 = (case dl_head l of Some a \<Rightarrow> set_prev a (Some m) h1 | None \<Rightarrow> h1);
         l1 = (if dl_head l = None \<and> dl_tail l = None then l\<lparr>dl_tail := Some m\<rparr> else l)
     in (h2, l1\<lparr>dl_head := Some m, dl_length := dl_length l + 1\<rparr>))"

definition dlinkAdd :: "'d \<Rightarrow> addr \<Rightarrow> 'd heap \<Rightarrow> dlink_list \<Rightarrow> 'd heap \<times> dlink_list" where
  "dlinkAdd d m h l = dlink_push m (h(m := (h m)\<lparr>nd_data := d\<rparr>)) l"

definition dlinkAddBefore :: "addr \<Rightarrow> 'd \<Rightarrow> addr \<Rightarrow> 'd heap \<Rightarrow> dlink_list \<Rightarrow> c_error + 'd heap \<times> dlink_list" where
  "dlinkAddBefore b d m h l =
    (if Some b = dl_head l then Inr (dlinkAdd d m h l)
     else
       (let h1 = h(m := (h m)\<lparr>nd_data := d\<rparr>)
        in case nd_prev (h1 b) of
             None \<Rightarrow> Inl NullDeref
           | Some p \<Rightarrow>
               (let h2 = set_next p (Some m) h1;
                    h3 = set_prev m (nd_prev (h2 b)) h2;
                    h4 = set_prev b (Some m) h3;
                    h5 = set_next m (Some b) h4
                in Inr (h5, l\<lparr>dl_length := dl_length l + 1\<rparr>))))"

definition dlinkAddTail :: "'d \<Rightarrow> addr \<Rightarrow> 'd heap \<Rightarrow> dlink_list \<Rightarrow> 'd heap \<times> dlink_list" where
  "dlinkAddTail d m h l =
    (let h1 = set_prev m (dl_tail l) (set_next m None (h(m := (h m)\<lparr>nd_data := d\<rparr>)));
         h2 = (case dl_tail l of Some a \<Rightarrow> set_next a (Some m) h1 | None \<Rightarrow> h1);
         l1 = (if dl_tail l = None \<and> dl_head l = None then l\<lparr>dl_head := Some m\<rparr> else l)
     in (h2, l1\<lparr>dl_tail := Some m, dl_length := dl_length l + 1\<rparr>))"

text \<open>Unlinking a node from its neighbours or from the ends of the list.\<close>

definition dlink_unlink :: "addr \<Rightarrow> 'd heap \<Rightarrow> dlink_list \<Rightarrow> c_error + 'd heap \<times> dlink_list" where
  "dlink_unlink m h l =
    (case (case nd_next (h m) of
             Some n \<Rightarrow> Inr (set_prev n (nd_prev (h m)) h, l)
           | None \<Rightarrow> if dl_tail l = Some m then Inr (h, l\<lparr>dl_tail := nd_prev (h m)\<rparr>)
                     else Inl AssertionFailed) of
       Inl e \<Rightarrow> Inl e
     | Inr (h1, l1) \<Rightarrow>
         (case nd_prev (h1 m) of
            Some p \<Rightarrow> Inr (set_next p (nd_next (h1 m)) h1, l1)
          | None \<Rightarrow> if dl_head l1 = Some m then Inr (h1, l1\<lparr>dl_head := nd_next (h1 m)\<rparr>)
                    else Inl AssertionFailed))"

definition dlinkDelete :: "addr \<Rightarrow> 'd heap \<Rightarrow> dlink_list \<Rightarrow> c_error + 'd heap \<times> dlink_list" where
  "dlinkDelete m h l =
    (case dlink_unlink m h l of
       Inl e \<Rightarrow> Inl e
     | Inr (h1, l1) \<Rightarrow>
         Inr (set_next m None (set_prev m None h1), l1\<lparr>dl_length := dl_length l1 - 1\<rparr>))"

text \<open>\<open>DLINK_FOREACH\<close> with a search for the data: \<open>None\<close> when the walk does not end.\<close>

partial_function (option) dlinkFind_from :: "'d heap \<Rightarrow> 'd \<Rightarrow> addr option \<Rightarrow> addr option option" where
  "dlinkFind_from h d node =
    (case node of
       None \<Rightarrow> Some None
     | Some a \<Rightarrow> if nd_data (h a) = d then Some (Some a) else dlinkFind_from h d (nd_next (h a)))"

definition dlinkFind :: "'d heap \<Rightarrow> dlink_list \<Rightarrow> 'd \<Rightarrow> addr option option" where
  "dlinkFind h l d = dlinkFind_from h d (dl_head l)"

definition dlinkMoveList :: "'d heap \<Rightarrow> dlink_list \<Rightarrow> dlink_list
    \<Rightarrow> c_error + 'd heap \<times> dlink_list \<times> dlink_list" where
  "dlinkMoveList h from to =
    (case dl_head from of
       None \<Rightarrow> Inr (h, from, to)
     | Some fh \<Rightarrow>
         (case dl_head to of
            None \<Rightarrow>
              Inr (h, from\<lparr>dl_head := None, dl_tail := None, dl_length := 0\<rparr>,
                   to\<lparr>dl_head := dl_head from, dl_tail := dl_tail from, dl_length := dl_length from\<rparr>)
          | Some th \<Rightarrow>
              (case dl_tail from of
                 None \<Rightarrow> Inl NullDeref
               | Some ft \<Rightarrow>
                   (let h1 = set_next ft (dl_head to) h;
                        h2 = set_prev fh (nd_prev (h1 th)) h1;
                        h3 = set_prev th (dl_tail from) h2
                    in Inr (h3, from\<lparr>dl_head := None, dl_tail := None, dl_length := 0\<rparr>,
                            to\<lparr>dl_head := dl_head from, dl_length := dl_length to + dl_length from\<rparr>)))))"

definition dlink_move_node :: "addr \<Rightarrow> 'd heap \<Rightarrow> dlink_list \<Rightarrow> dlink_list
    \<Rightarrow> c_error + 'd heap \<times> dlink_list \<times> dlink_list" where
  "dlink_move_node m h list_del list_add =
    (case dlink_unlink m h list_del of
       Inl e \<Rightarrow> Inl e
     | Inr (h1, del1) \<Rightarrow>
         (case dlink_push m h1 list_add of
            (h2, add1) \<Rightarrow> Inr (h2, del1\<lparr>dl_length := dl_length del1 - 1\<rparr>, add1)))"

definition dlinkFindDelete :: "'d heap \<Rightarrow> dlink_list \<Rightarrow> 'd
    \<Rightarrow> (c_error + 'd heap \<times> dlink_list \<times> addr option) option" where
  "dlinkFindDelete h l d =
    (case dlinkFind h l d of
       None \<Rightarrow> None
     | Some None \<Rightarrow> Some (Inr (h, l, None))
     | Some (Some m) \<Rightarrow>
         Some (case dlinkDelete m h l of
                 Inl e \<Rightarrow> Inl e
               | Inr (h', l') \<Rightarrow> Inr (h', l', Some m)))"

section \<open>The sequence a list stands for\<close>

definition first_of :: "addr list \<Rightarrow> addr option \<Rightarrow> addr option" where
  "first_of xs n = (case xs of [] \<Rightarrow> n | x # _ \<Rightarrow> Some x)"

definition last_of :: "addr option \<Rightarrow> addr list \<Rightarrow> addr option" where
  "last_of p xs = (if xs = [] then p else Some (last xs))"

lemma first_of_simps [simp]:
  "first_of [] n = n" "first_of (x # xs) n = Some x"
  "first_of (xs @ ys) n = first_of xs (first_of ys n)"
  by (simp_all add: first_of_def split: list.splits)

lemma last_of_simps [simp]:
  "last_of p [] = p" "last_of p (x # xs) = last_of (Some x) xs"
  "last_of p (xs @ ys) = last_of (last_of p xs) ys"
  by (auto simp: last_of_def)

text \<open>\<open>dseg h p xs n\<close>: the nodes \<open>xs\<close> are linked in order, from \<open>p\<close> before them to \<open>n\<close> behind.\<close>

fun dseg :: "'d heap \<Rightarrow> addr option \<Rightarrow> addr list \<Rightarrow> addr option \<Rightarrow> bool" where
  "dseg h p [] n = True"
| "dseg h p (x # xs) n =
    (nd_prev (h x) = p \<and> nd_next (h x) = first_of xs n \<and> dseg h (Some x) xs n)"

definition dl_repr :: "'d heap \<Rightarrow> dlink_list \<Rightarrow> addr list \<Rightarrow> bool" where
  "dl_repr h l xs \<longleftrightarrow> distinct xs \<and> dseg h None xs None \<and> dl_head l = first_of xs None \<and>
     dl_tail l = last_of None xs \<and> dl_length l = of_nat (length xs)"

lemma dseg_append [simp]:
  "dseg h p (xs @ ys) n \<longleftrightarrow> dseg h p xs (first_of ys n) \<and> dseg h (last_of p xs) ys n"
  by (induction xs arbitrary: p) auto

lemma dseg_frame:
  "(\<And>a. a \<in> set xs \<Longrightarrow> nd_prev (h' a) = nd_prev (h a) \<and> nd_next (h' a) = nd_next (h a)) \<Longrightarrow>
    dseg h' p xs n = dseg h p xs n"
  by (induction xs arbitrary: p) auto

lemma dl_repr_frame:
  "(\<And>a. a \<in> set xs \<Longrightarrow> h' a = h a) \<Longrightarrow> dl_repr h' l xs = dl_repr h l xs"
  by (simp add: dl_repr_def dseg_frame [of xs h' h])

section \<open>The operations implement those of sequences\<close>

lemma set_prev_simps [simp]:
  "nd_prev (set_prev a p h b) = (if b = a then p else nd_prev (h b))"
  "nd_next (set_prev a p h b) = nd_next (h b)"
  "nd_data (set_prev a p h b) = nd_data (h b)"
  "b \<noteq> a \<Longrightarrow> set_prev a p h b = h b"
  by (simp_all add: set_prev_def)

lemma set_next_simps [simp]:
  "nd_next (set_next a n h b) = (if b = a then n else nd_next (h b))"
  "nd_prev (set_next a n h b) = nd_prev (h b)"
  "nd_data (set_next a n h b) = nd_data (h b)"
  "b \<noteq> a \<Longrightarrow> set_next a n h b = h b"
  by (simp_all add: set_next_def)

lemma dseg_set_prev [simp]: "a \<notin> set xs \<Longrightarrow> dseg (set_prev a q h) p xs n = dseg h p xs n"
  by (rule dseg_frame) auto

lemma dseg_set_next [simp]: "a \<notin> set xs \<Longrightarrow> dseg (set_next a q h) p xs n = dseg h p xs n"
  by (rule dseg_frame) auto

lemma dseg_data [simp]: "dseg (h(a := (h a)\<lparr>nd_data := d\<rparr>)) p xs n = dseg h p xs n"
  by (rule dseg_frame) auto

lemma first_of_SomeD: "first_of xs n = Some b \<Longrightarrow> b \<in> set xs \<or> n = Some b"
  by (cases xs) auto

lemma last_of_None_Some: "last_of None xs = Some p \<longleftrightarrow> (\<exists>ys. xs = ys @ [p])"
  by (cases xs rule: rev_cases) auto

lemma last_of_eq_None: "last_of None xs = None \<longleftrightarrow> xs = []"
  by (simp add: last_of_def)

text \<open>What an operation may change: the nodes of a given set, and of those not the data.\<close>

definition dl_frame :: "addr set \<Rightarrow> 'd heap \<Rightarrow> 'd heap \<Rightarrow> bool" where
  "dl_frame A h h' \<longleftrightarrow> (\<forall>a. a \<notin> A \<longrightarrow> h' a = h a) \<and> (\<forall>a. nd_data (h' a) = nd_data (h a))"

lemma dlink_push_repr:
  assumes "dl_repr h l xs" "m \<notin> set xs" "dlink_push m h l = (h', l')"
  shows "dl_repr h' l' (m # xs) \<and> dl_frame (insert m (set xs)) h h'"
  using assms
  by (cases xs) (auto simp: dlink_push_def dl_repr_def dl_frame_def Let_def)

lemma dl_repr_data [simp]: "dl_repr (h(a := (h a)\<lparr>nd_data := d\<rparr>)) l xs = dl_repr h l xs"
  by (simp add: dl_repr_def)

lemma dlinkAdd_repr:
  assumes "dl_repr h l xs" "m \<notin> set xs" "dlinkAdd d m h l = (h', l')"
  shows "dl_repr h' l' (m # xs)" "dl_frame (insert m (set xs)) (h(m := (h m)\<lparr>nd_data := d\<rparr>)) h'"
  using assms dlink_push_repr [of "h(m := (h m)\<lparr>nd_data := d\<rparr>)" l xs m h' l']
  by (simp_all add: dlinkAdd_def)

lemma dlinkAddTail_repr:
  assumes "dl_repr h l xs" "m \<notin> set xs" "dlinkAddTail d m h l = (h', l')"
  shows "dl_repr h' l' (xs @ [m])" "dl_frame (insert m (set xs)) (h(m := (h m)\<lparr>nd_data := d\<rparr>)) h'"
  using assms
  by (cases xs rule: rev_cases; auto simp: dlinkAddTail_def dl_repr_def dl_frame_def Let_def)+

lemma dlinkAddBefore_repr:
  assumes "dl_repr h l (as @ b # bs)" "m \<notin> set (as @ b # bs)"
  shows "\<exists>h' l'. dlinkAddBefore b d m h l = Inr (h', l') \<and> dl_repr h' l' (as @ m # b # bs) \<and>
    dl_frame (insert m (set (as @ b # bs))) (h(m := (h m)\<lparr>nd_data := d\<rparr>)) h'"
proof (cases as rule: rev_cases)
  case Nil
  obtain h' l' where a: "dlinkAdd d m h l = (h', l')" by fastforce
  show ?thesis
    using assms Nil a dlinkAdd_repr [of h l "b # bs" m d h' l']
    by (auto simp: dlinkAddBefore_def dl_repr_def)
next
  case (snoc as' p)
  then have "Some b \<noteq> dl_head l"
    using assms by (auto simp: dl_repr_def dest!: sym [of "Some b"] first_of_SomeD)
  then show ?thesis
    using assms snoc by (auto simp: dlinkAddBefore_def dl_repr_def dl_frame_def Let_def)
qed

lemma dlink_unlink_repr:
  assumes "dl_repr h l (as @ m # bs)"
  shows "\<exists>h' l'. dlink_unlink m h l = Inr (h', l') \<and> dl_length l' = dl_length l \<and>
    distinct (as @ bs) \<and> dseg h' None (as @ bs) None \<and>
    dl_head l' = first_of (as @ bs) None \<and> dl_tail l' = last_of None (as @ bs) \<and>
    dl_frame (set (as @ bs)) h h' \<and> nd_prev (h' m) = nd_prev (h m) \<and> nd_next (h' m) = nd_next (h m)"
proof (cases as rule: rev_cases)
  case Nil
  then show ?thesis using assms
    by (cases bs) (auto simp: dlink_unlink_def dl_repr_def dl_frame_def)
next
  case (snoc as' p)
  then show ?thesis using assms
    by (cases bs) (auto simp: dlink_unlink_def dl_repr_def dl_frame_def)
qed

lemma dlinkDelete_repr:
  assumes "dl_repr h l (as @ m # bs)"
  shows "\<exists>h' l'. dlinkDelete m h l = Inr (h', l') \<and> dl_repr h' l' (as @ bs) \<and>
    dl_frame (set (as @ m # bs)) h h' \<and> nd_prev (h' m) = None \<and> nd_next (h' m) = None"
proof -
  obtain h1 l1 where u: "dlink_unlink m h l = Inr (h1, l1)" "dl_length l1 = dl_length l"
    "distinct (as @ bs)" "dseg h1 None (as @ bs) None" "dl_head l1 = first_of (as @ bs) None"
    "dl_tail l1 = last_of None (as @ bs)" "dl_frame (set (as @ bs)) h h1"
    using dlink_unlink_repr [OF assms] by blast
  have m: "m \<notin> set (as @ bs)" and len: "dl_length l = of_nat (length (as @ bs)) + 1"
    using assms by (auto simp: dl_repr_def)
  have "dl_repr (set_next m None (set_prev m None h1)) (l1\<lparr>dl_length := dl_length l1 - 1\<rparr>) (as @ bs)"
    using u m len by (simp add: dl_repr_def)
  moreover have "dl_frame (set (as @ m # bs)) h (set_next m None (set_prev m None h1))"
    using u(7) by (auto simp: dl_frame_def)
  ultimately show ?thesis using u(1) by (auto simp: dlinkDelete_def)
qed

lemma dlinkFind_from_repr:
  "dseg h p xs None \<Longrightarrow> dlinkFind_from h d (first_of xs None) = Some (find (\<lambda>a. nd_data (h a) = d) xs)"
proof (induction xs arbitrary: p)
  case Nil
  then show ?case by (simp add: dlinkFind_from.simps [of h d None])
next
  case (Cons x xs)
  then have "dlinkFind_from h d (first_of xs None) = Some (find (\<lambda>a. nd_data (h a) = d) xs)" by auto
  then show ?case using Cons.prems by (simp add: dlinkFind_from.simps [of h d "Some x"])
qed

lemma dlinkFind_repr:
  "dl_repr h l xs \<Longrightarrow> dlinkFind h l d = Some (find (\<lambda>a. nd_data (h a) = d) xs)"
  by (auto simp: dl_repr_def dlinkFind_def dlinkFind_from_repr)

lemma dlinkFindDelete_repr:
  assumes "dl_repr h l xs"
  shows "(d \<notin> nd_data ` h ` set xs \<and> dlinkFindDelete h l d = Some (Inr (h, l, None))) \<or>
    (\<exists>as m bs h' l'. xs = as @ m # bs \<and> d \<notin> nd_data ` h ` set as \<and> nd_data (h m) = d \<and>
       dlinkFindDelete h l d = Some (Inr (h', l', Some m)) \<and> dl_repr h' l' (as @ bs) \<and>
       dl_frame (set xs) h h')"
proof (cases "find (\<lambda>a. nd_data (h a) = d) xs")
  case None
  then have "d \<notin> nd_data ` h ` set xs" by (auto simp: find_None_iff)
  then show ?thesis using None dlinkFind_repr [OF assms] by (auto simp: dlinkFindDelete_def)
next
  case (Some m)
  then obtain i where i: "i < length xs" "nd_data (h (xs ! i)) = d" "m = xs ! i"
    "\<forall>j < i. nd_data (h (xs ! j)) \<noteq> d" by (auto simp: find_Some_iff)
  then have xs: "xs = take i xs @ m # drop (Suc i) xs" by (simp add: id_take_nth_drop)
  have "nd_data (h a) \<noteq> d" if "a \<in> set (take i xs)" for a
    using that i(4) by (auto simp: in_set_conv_nth)
  then have "d \<notin> nd_data ` h ` set (take i xs)" by auto
  moreover obtain h' l' where "dlinkDelete m h l = Inr (h', l')"
    "dl_repr h' l' (take i xs @ drop (Suc i) xs)" "dl_frame (set xs) h h'"
    using dlinkDelete_repr [of h l "take i xs" m "drop (Suc i) xs"] assms xs by metis
  moreover from this have "dlinkFindDelete h l d = Some (Inr (h', l', Some m))"
    using Some dlinkFind_repr [OF assms, of d] by (simp add: dlinkFindDelete_def)
  ultimately show ?thesis using i(2,3) xs by blast
qed

lemma dlinkMoveList_repr:
  assumes "dl_repr h from xs" "dl_repr h to ys" "set xs \<inter> set ys = {}"
  shows "\<exists>h' from' to'. dlinkMoveList h from to = Inr (h', from', to') \<and> dl_repr h' from' [] \<and>
    dl_repr h' to' (xs @ ys) \<and> dl_frame (set xs \<union> set ys) h h'"
proof (cases xs)
  case Nil
  then show ?thesis using assms by (auto simp: dlinkMoveList_def dl_repr_def dl_frame_def)
next
  case (Cons x xs1)
  note xs = this
  show ?thesis
  proof (cases ys)
    case Nil
    then show ?thesis using assms xs by (auto simp: dlinkMoveList_def dl_repr_def dl_frame_def)
  next
    case (Cons y ys1)
    then show ?thesis using assms xs
      by (cases xs1 rule: rev_cases) (auto simp: dlinkMoveList_def dl_repr_def dl_frame_def Let_def)
  qed
qed

lemma dlink_move_node_repr:
  assumes "dl_repr h l (as @ m # bs)" "dl_repr h k ys" "set (as @ m # bs) \<inter> set ys = {}"
  shows "\<exists>h' l' k'. dlink_move_node m h l k = Inr (h', l', k') \<and> dl_repr h' l' (as @ bs) \<and>
    dl_repr h' k' (m # ys) \<and> dl_frame (set (as @ m # bs) \<union> set ys) h h'"
proof -
  obtain h1 l1 where u: "dlink_unlink m h l = Inr (h1, l1)" "dl_length l1 = dl_length l"
    "distinct (as @ bs)" "dseg h1 None (as @ bs) None" "dl_head l1 = first_of (as @ bs) None"
    "dl_tail l1 = last_of None (as @ bs)" "dl_frame (set (as @ bs)) h h1"
    using dlink_unlink_repr [OF assms(1)] by blast
  obtain h2 k1 where p: "dlink_push m h1 k = (h2, k1)" by fastforce
  have "dl_repr h1 k ys"
    using assms(2,3) u(7) by (subst dl_repr_frame [of ys h1 h]) (auto simp: dl_frame_def)
  then have r: "dl_repr h2 k1 (m # ys)" "dl_frame (insert m (set ys)) h1 h2"
    using dlink_push_repr [of h1 k ys m h2 k1] p assms(3) by auto
  have "dl_repr h1 (l1\<lparr>dl_length := dl_length l1 - 1\<rparr>) (as @ bs)"
    using u assms(1) by (simp add: dl_repr_def)
  moreover have "h2 a = h1 a" if "a \<in> set (as @ bs)" for a
    using that r(2) assms(1,3) by (auto simp: dl_frame_def dl_repr_def)
  ultimately have "dl_repr h2 (l1\<lparr>dl_length := dl_length l1 - 1\<rparr>) (as @ bs)"
    using dl_repr_frame [of "as @ bs" h2 h1] by blast
  moreover have "dl_frame (set (as @ m # bs) \<union> set ys) h h2"
    using u(7) r(2) by (auto simp: dl_frame_def)
  ultimately show ?thesis using u(1) p r(1) by (auto simp: dlink_move_node_def)
qed

section \<open>Any sequence of list operations\<close>

datatype 'd dlink_op = Add 'd addr | AddBefore addr 'd addr | AddTail 'd addr | Delete addr

fun dlink_exec :: "'d dlink_op \<Rightarrow> 'd heap \<times> dlink_list \<Rightarrow> c_error + 'd heap \<times> dlink_list" where
  "dlink_exec (Add d m) (h, l) = Inr (dlinkAdd d m h l)"
| "dlink_exec (AddBefore b d m) (h, l) = dlinkAddBefore b d m h l"
| "dlink_exec (AddTail d m) (h, l) = Inr (dlinkAddTail d m h l)"
| "dlink_exec (Delete m) (h, l) = dlinkDelete m h l"

text \<open>The same operations on the sequence of pairs of node address and data. A node that is
  already linked must not be linked again, and a node to delete or to insert before must be linked.\<close>

fun seq_exec :: "'d dlink_op \<Rightarrow> (addr \<times> 'd) list \<Rightarrow> (addr \<times> 'd) list option" where
  "seq_exec (Add d m) s = (if m \<in> fst ` set s then None else Some ((m, d) # s))"
| "seq_exec (AddBefore b d m) s =
    (if m \<in> fst ` set s \<or> b \<notin> fst ` set s then None
     else Some (takeWhile (\<lambda>x. fst x \<noteq> b) s @ (m, d) # dropWhile (\<lambda>x. fst x \<noteq> b) s))"
| "seq_exec (AddTail d m) s = (if m \<in> fst ` set s then None else Some (s @ [(m, d)]))"
| "seq_exec (Delete m) s =
    (if m \<in> fst ` set s then Some (filter (\<lambda>x. fst x \<noteq> m) s) else None)"

definition dl_stands_for :: "'d heap \<times> dlink_list \<Rightarrow> (addr \<times> 'd) list \<Rightarrow> bool" where
  "dl_stands_for hl s \<longleftrightarrow> dl_repr (fst hl) (snd hl) (map fst s) \<and>
     (\<forall>(a, d) \<in> set s. nd_data (fst hl a) = d)"

lemma split_at_key:
  assumes "b \<in> fst ` set s"
  obtains as d bs where "s = as @ (b, d) # bs" "b \<notin> fst ` set as"
    "takeWhile (\<lambda>x. fst x \<noteq> b) s = as" "dropWhile (\<lambda>x. fst x \<noteq> b) s = (b, d) # bs"
proof -
  let ?P = "\<lambda>x. fst x \<noteq> b"
  have ne: "dropWhile ?P s \<noteq> []" using assms by (auto simp: dropWhile_eq_Nil_conv)
  then obtain d bs where dw: "dropWhile ?P s = (b, d) # bs"
    using hd_dropWhile [OF ne] by (cases "dropWhile ?P s") auto
  have "b \<notin> fst ` set (takeWhile ?P s)" by (auto dest: set_takeWhileD)
  then show ?thesis using that [of "takeWhile ?P s" d bs] dw takeWhile_dropWhile_id [of ?P s] by auto
qed

lemma dl_stands_forI:
  assumes "dl_repr h' l' (map fst s)" "dl_frame A h h'" "\<forall>(a, d) \<in> set s. nd_data (h a) = d"
  shows "dl_stands_for (h', l') s"
  using assms by (auto simp: dl_stands_for_def dl_frame_def)

lemma data_update_other:
  assumes "\<forall>(a, d) \<in> set s. nd_data (h a) = d" "m \<notin> set (map fst s)"
  shows "\<forall>(a, d) \<in> set s. nd_data ((h(m := (h m)\<lparr>nd_data := e\<rparr>)) a) = d"
  using assms by (intro ballI) (auto simp: split_beta image_iff)

lemma dlink_exec_simulates:
  assumes "dl_stands_for hl s" "seq_exec x s = Some s'"
  shows "\<exists>hl'. dlink_exec x hl = Inr hl' \<and> dl_stands_for hl' s'"
proof -
  obtain h l where hl: "hl = (h, l)" by (cases hl)
  have r: "dl_repr h l (map fst s)" and dat: "\<forall>(a, d) \<in> set s. nd_data (h a) = d"
    using assms(1) hl by (auto simp: dl_stands_for_def)
  show ?thesis
  proof (cases x)
    case (Add d m)
    obtain h' l' where a: "dlinkAdd d m h l = (h', l')" by fastforce
    have m: "m \<notin> set (map fst s)" "s' = (m, d) # s" using assms(2) Add by (auto split: if_splits)
    have "dl_stands_for (h', l') s'"
      using dlinkAdd_repr [OF r m(1) a] m(2) data_update_other [OF dat m(1), of d]
      by (intro dl_stands_forI) auto
    then show ?thesis using a Add hl by simp
  next
    case (AddBefore b d m)
    have m: "m \<notin> set (map fst s)" "b \<in> fst ` set s" using assms(2) AddBefore by (auto split: if_splits)
    obtain as e bs where s: "s = as @ (b, e) # bs" "b \<notin> fst ` set as"
      "takeWhile (\<lambda>x. fst x \<noteq> b) s = as" "dropWhile (\<lambda>x. fst x \<noteq> b) s = (b, e) # bs"
      by (rule split_at_key [OF m(2)])
    have s': "s' = as @ (m, d) # (b, e) # bs" using assms(2) AddBefore s(3,4) m by (auto split: if_splits)
    have "\<exists>h' l'. dlinkAddBefore b d m h l = Inr (h', l') \<and>
        dl_repr h' l' (map fst as @ m # b # map fst bs) \<and>
        dl_frame (insert m (set (map fst as @ b # map fst bs))) (h(m := (h m)\<lparr>nd_data := d\<rparr>)) h'"
      using r m(1) s(1) by (intro dlinkAddBefore_repr) auto
    then obtain h' l' where a: "dlinkAddBefore b d m h l = Inr (h', l')"
        "dl_repr h' l' (map fst as @ m # b # map fst bs)"
        "dl_frame (insert m (set (map fst as @ b # map fst bs))) (h(m := (h m)\<lparr>nd_data := d\<rparr>)) h'"
      by blast
    have "dl_stands_for (h', l') s'"
      using a(2) s' s(1) data_update_other [OF dat m(1), of d]
      by (intro dl_stands_forI [OF _ a(3)]) auto
    then show ?thesis using a(1) AddBefore hl by simp
  next
    case (AddTail d m)
    obtain h' l' where a: "dlinkAddTail d m h l = (h', l')" by fastforce
    have m: "m \<notin> set (map fst s)" "s' = s @ [(m, d)]" using assms(2) AddTail by (auto split: if_splits)
    have "dl_stands_for (h', l') s'"
      using dlinkAddTail_repr [OF r m(1) a] m(2) data_update_other [OF dat m(1), of d]
      by (intro dl_stands_forI) auto
    then show ?thesis using a AddTail hl by simp
  next
    case (Delete m)
    have "m \<in> fst ` set s" using assms(2) Delete by (auto split: if_splits)
    then obtain as e bs where s: "s = as @ (m, e) # bs" using split_at_key by metis
    have "distinct (map fst s)" using r by (simp add: dl_repr_def)
    then have s': "s' = as @ bs" using assms(2) Delete s
      by (auto split: if_splits intro!: arg_cong2 [of _ _ _ _ append] filter_True simp: image_iff)
    have "\<exists>h' l'. dlinkDelete m h l = Inr (h', l') \<and> dl_repr h' l' (map fst as @ map fst bs) \<and>
        dl_frame (set (map fst as @ m # map fst bs)) h h' \<and> nd_prev (h' m) = None \<and> nd_next (h' m) = None"
      using r s by (intro dlinkDelete_repr) simp
    then obtain h' l' where a: "dlinkDelete m h l = Inr (h', l')"
      "dl_repr h' l' (map fst as @ map fst bs)" "dl_frame (set (map fst as @ m # map fst bs)) h h'"
      by blast
    have "dl_stands_for (h', l') s'"
      using a(2) s' s dat by (intro dl_stands_forI [OF _ a(3)]) auto
    then show ?thesis using a(1) Delete hl by simp
  qed
qed

interpretation dlink: simulation dl_stands_for dlink_exec seq_exec
  by unfold_locales (rule dlink_exec_simulates)

text \<open>C19: Any run of \<open>dlinkAdd\<close>, \<open>dlinkAddBefore\<close>, \<open>dlinkAddTail\<close> and \<open>dlinkDelete\<close> that a caller
  may make on an empty list ends without a null dereference or a failed assertion, and the
  list it leaves stands for the sequence the same operations build: links in both directions, head,
  tail and length agree with it, and \<open>dlinkFind\<close> ends with the first node that holds the data
  searched for, or the null pointer when no node does.\<close>

theorem dlink_run_refines_sequence:
  assumes "run_spec seq_exec ops [] = Some s"
  shows "\<exists>h' l'. run_steps dlink_exec ops (h, \<lparr>dl_head = None, dl_tail = None, dl_length = 0\<rparr>) = Inr (h', l') \<and>
    dl_stands_for (h', l') s \<and> dl_length l' = of_nat (length s) \<and>
    (\<forall>d. dlinkFind h' l' d = Some (map_option fst (find (\<lambda>x. snd x = d) s)))"
proof -
  let ?i = "(h, \<lparr>dl_head = None, dl_tail = None, dl_length = 0\<rparr>)"
  have "dl_stands_for ?i []" by (simp add: dl_stands_for_def dl_repr_def)
  then obtain h' l' where r: "run_steps dlink_exec ops ?i = Inr (h', l')" "dl_stands_for (h', l') s"
    using dlink.run_simulates [OF _ assms] by fastforce
  have "dlinkFind h' l' d = Some (map_option fst (find (\<lambda>x. snd x = d) s))" for d
  proof -
    have "find (\<lambda>a. nd_data (h' a) = d) (map fst t) = map_option fst (find (\<lambda>x. snd x = d) t)"
      if "\<forall>(a, d) \<in> set t. nd_data (h' a) = d" for t
      using that by (induction t) auto
    then show ?thesis using r(2) dlinkFind_repr [of h' l' "map fst s" d] by (simp add: dl_stands_for_def)
  qed
  then show ?thesis using r by (auto simp: dl_stands_for_def dl_repr_def)
qed

theorem dlink_run_refines_sequence_witness:
  "\<exists>h' l'. run_steps dlink_exec [Add ''a'' 1, AddTail ''b'' 2, AddBefore 2 ''c'' 3, Delete 1]
      ((\<lambda>_. \<lparr>nd_data = [], nd_prev = None, nd_next = None\<rparr>), \<lparr>dl_head = None, dl_tail = None, dl_length = 0\<rparr>)
      = Inr (h', l') \<and> dl_stands_for (h', l') [(3, ''c''), (2, ''b'')] \<and> dlinkFind h' l' ''b'' = Some (Some 2)"
  using dlink_run_refines_sequence [of "[Add ''a'' 1, AddTail ''b'' 2, AddBefore 2 ''c'' 3, Delete 1]"
      "[(3, ''c''), (2, ''b'')]" "\<lambda>_. \<lparr>nd_data = [], nd_prev = None, nd_next = None\<rparr>"]
  by auto

text \<open>Moving. \<open>dlinkMoveList\<close> puts the nodes of one list in front of another and empties the
  first; \<open>dlink_move_node\<close> takes one node out of a list and puts it at the head of another. Neither
  fails, and neither changes the data of a node or a node outside the two lists.\<close>

lemma dlink_moves:
  assumes "dl_repr h l (as @ m # bs)" "dl_repr h k ys" "set (as @ m # bs) \<inter> set ys = {}"
  shows "(\<exists>h' l' k'. dlinkMoveList h l k = Inr (h', l', k') \<and> dl_repr h' l' [] \<and>
      dl_repr h' k' (as @ m # bs @ ys) \<and> dl_frame (set (as @ m # bs) \<union> set ys) h h') \<and>
    (\<exists>h' l' k'. dlink_move_node m h l k = Inr (h', l', k') \<and> dl_repr h' l' (as @ bs) \<and>
      dl_repr h' k' (m # ys) \<and> dl_frame (set (as @ m # bs) \<union> set ys) h h')"
  using dlinkMoveList_repr [OF assms] dlink_move_node_repr [OF assms] by simp

end
