(* ===== verification/Dbuf.thy ===== *)
theory Dbuf
  imports IrcString Dlink
begin

text \<open>
  The dynamic buffers of \<open>src/dbuf.c\<close>: blocks of \<open>DBUF_BLOCK_SIZE\<close> bytes with a
  reference count, allocated in a store that all queues share, and queues of blocks. A message
  sent to many clients is one block that many send queues refer to; data read from a socket is
  copied into blocks of one receive queue. The list \<open>blocks\<close> of a queue is the sequence of
  block addresses its \<open>dlink_list\<close> stands for (theory \<open>Dlink\<close>). Use of a released block is an
  error value.

  \<open>q_bytes\<close> is the byte sequence a queue stands for. The locale \<open>byte_queue\<close> is the
  interface the packet code relies on: putting appends bytes, deleting drops them from the front.
\<close>

section \<open>Blocks and queues\<close>

definition DBUF_BLOCK_SIZE :: nat where
  "DBUF_BLOCK_SIZE = 1024"

record dbuf_block =
  refs :: int
  bsize :: nat
  bdata :: "char list"

record dbuf_queue =
  blocks :: "addr list"
  total_size :: nat
  pos :: nat

text \<open>The block store: \<open>None\<close> for an address that holds no live block, and the next address the
  pool hands out.\<close>

record pool =
  mem :: "addr \<Rightarrow> dbuf_block option"
  nextb :: addr

text \<open>Subtraction of \<open>size_t\<close> values.\<close>

definition size_sub :: "nat \<Rightarrow> nat \<Rightarrow> nat" where
  "size_sub a b = (if b \<le> a then a - b else a + 2 ^ 64 - b)"

definition dbuf_alloc :: "pool \<Rightarrow> pool \<times> addr" where
  "dbuf_alloc p =
    (p\<lparr>mem := (mem p)(nextb p \<mapsto> \<lparr>refs = 1, bsize = 0, bdata = replicate DBUF_BLOCK_SIZE NUL\<rparr>),
       nextb := Suc (nextb p)\<rparr>, nextb p)"

definition dbuf_ref_free :: "addr \<Rightarrow> pool \<Rightarrow> c_error + pool" where
  "dbuf_ref_free a p =
    (case mem p a of
       None \<Rightarrow> Inl OutOfBounds
     | Some b \<Rightarrow>
         (let b' = b\<lparr>refs := refs b - 1\<rparr>
          in Inr (if refs b' \<le> 0 then p\<lparr>mem := (mem p)(a := None)\<rparr>
                  else p\<lparr>mem := (mem p)(a \<mapsto> b')\<rparr>)))"

definition dbuf_add :: "dbuf_queue \<Rightarrow> addr \<Rightarrow> pool \<Rightarrow> c_error + pool \<times> dbuf_queue" where
  "dbuf_add q a p =
    (case mem p a of
       None \<Rightarrow> Inl OutOfBounds
     | Some b \<Rightarrow>
         Inr (p\<lparr>mem := (mem p)(a \<mapsto> b\<lparr>refs := refs b + 1\<rparr>)\<rparr>,
              q\<lparr>blocks := blocks q @ [a], total_size := total_size q + bsize b\<rparr>))"

definition dbuf_length :: "dbuf_queue \<Rightarrow> nat" where
  "dbuf_length q = total_size q"

function (sequential) dbuf_delete :: "dbuf_queue \<Rightarrow> nat \<Rightarrow> pool \<Rightarrow> c_error + pool \<times> dbuf_queue" where
  "dbuf_delete q count p =
    (if 0 < count \<and> 0 < dbuf_length q then
       (case blocks q of
          [] \<Rightarrow> Inl NullDeref
        | a # as \<Rightarrow>
            (case mem p a of
               None \<Rightarrow> Inl OutOfBounds
             | Some b \<Rightarrow>
                 (let avail = size_sub (bsize b) (pos q)
                  in if avail \<le> count then
                       (case dbuf_ref_free a p of
                          Inl e \<Rightarrow> Inl e
                        | Inr p' \<Rightarrow>
                            dbuf_delete (q\<lparr>blocks := as, total_size := size_sub (total_size q) avail, pos := 0\<rparr>)
                              (count - avail) p')
                     else
                       dbuf_delete (q\<lparr>pos := pos q + count, total_size := size_sub (total_size q) count\<rparr>)
                         (count - count) p)))
     else Inr (p, q))"
  by pat_completeness auto
termination
  by (relation "measure (\<lambda>(q, count, p). length (blocks q) + count)") auto

declare dbuf_delete.simps [simp del]

definition dbuf_clear :: "dbuf_queue \<Rightarrow> pool \<Rightarrow> c_error + pool \<times> dbuf_queue" where
  "dbuf_clear q p = dbuf_delete q (dbuf_length q) p"

text \<open>\<open>memcpy\<close> into the data of a block.\<close>

definition copy_at :: "char list \<Rightarrow> nat \<Rightarrow> char list \<Rightarrow> char list" where
  "copy_at d i xs = take i d @ xs @ drop (i + length xs) d"

text \<open>\<open>vsnprintf\<close> writes the formatted text, cut to what fits with a NUL behind it, and returns the
  length of the whole text. The text itself depends on the caller's format and is an argument.\<close>

definition dbuf_put_args :: "addr \<Rightarrow> string \<Rightarrow> pool \<Rightarrow> c_error + pool" where
  "dbuf_put_args a text p =
    (case mem p a of
       None \<Rightarrow> Inl OutOfBounds
     | Some b \<Rightarrow>
         if refs b \<noteq> 1 then Inl AssertionFailed
         else
           (let room = size_sub (length (bdata b)) (bsize b);
                d = (if room = 0 then bdata b
                     else copy_at (bdata b) (bsize b) (take (room - 1) text @ [NUL]));
                n = bsize b + length text;
                n' = (if n > length (bdata b) then length (bdata b) else n)
            in Inr (p\<lparr>mem := (mem p)(a \<mapsto> b\<lparr>bsize := n', bdata := d\<rparr>)\<rparr>)))"

text \<open>One round of the copying loop: the block to fill and the pool and queue with it.\<close>

definition dbuf_put_block :: "dbuf_queue \<Rightarrow> pool \<Rightarrow> c_error + pool \<times> dbuf_queue \<times> addr" where
  "dbuf_put_block q p =
    (if dbuf_length q \<noteq> 0 then
       (if blocks q = [] then Inl NullDeref
        else case mem p (last (blocks q)) of
               None \<Rightarrow> Inl OutOfBounds
             | Some b \<Rightarrow>
                 if size_sub (length (bdata b)) (bsize b) = 0 then
                   (case dbuf_alloc p of (p', a) \<Rightarrow> Inr (p', q\<lparr>blocks := blocks q @ [a]\<rparr>, a))
                 else Inr (p, q, last (blocks q)))
     else (case dbuf_alloc p of (p', a) \<Rightarrow> Inr (p', q\<lparr>blocks := blocks q @ [a]\<rparr>, a)))"

text \<open>A block without room would keep the loop of \<open>dbuf_put\<close> going without progress; it is the
  \<open>OutOfBounds\<close> value here, and \<open>dbuf_put_ok\<close> below shows that it does not occur.\<close>

function (sequential) dbuf_put :: "dbuf_queue \<Rightarrow> char list \<Rightarrow> pool \<Rightarrow> c_error + pool \<times> dbuf_queue" where
  "dbuf_put q buf p =
    (if buf = [] then Inr (p, q)
     else
       (case dbuf_put_block q p of
          Inl e \<Rightarrow> Inl e
        | Inr (p1, q1, a) \<Rightarrow>
            (case mem p1 a of
               None \<Rightarrow> Inl OutOfBounds
             | Some b \<Rightarrow>
                 (let avail = min (size_sub (length (bdata b)) (bsize b)) (length buf)
                  in if avail = 0 then Inl OutOfBounds
                     else
                       dbuf_put (q1\<lparr>total_size := total_size q1 + avail\<rparr>) (drop avail buf)
                         (p1\<lparr>mem := (mem p1)(a \<mapsto>
                            b\<lparr>bsize := bsize b + avail, bdata := copy_at (bdata b) (bsize b) (take avail buf)\<rparr>)\<rparr>)))))"
  by pat_completeness auto
termination
  by (relation "measure (\<lambda>(q, buf, p). length buf)") auto

declare dbuf_put.simps [simp del]

section \<open>The bytes a queue stands for and the invariant of the reference counts\<close>

definition blk_bytes :: "dbuf_block \<Rightarrow> char list" where
  "blk_bytes b = take (bsize b) (bdata b)"

definition bytes_at :: "pool \<Rightarrow> addr \<Rightarrow> char list" where
  "bytes_at p a = (case mem p a of None \<Rightarrow> [] | Some b \<Rightarrow> blk_bytes b)"

definition q_bytes :: "pool \<Rightarrow> dbuf_queue \<Rightarrow> char list" where
  "q_bytes p q = drop (pos q) (concat (map (bytes_at p) (blocks q)))"

definition blk_ok :: "dbuf_block \<Rightarrow> bool" where
  "blk_ok b \<longleftrightarrow> length (bdata b) = DBUF_BLOCK_SIZE \<and> bsize b \<le> DBUF_BLOCK_SIZE"

text \<open>\<open>ext a\<close> is the number of references to block \<open>a\<close> held elsewhere: by other queues and by the
  code that is building a message.\<close>

definition refs_ok :: "(addr \<Rightarrow> nat) \<Rightarrow> pool \<Rightarrow> addr list \<Rightarrow> bool" where
  "refs_ok ext p as \<longleftrightarrow>
     (\<forall>a. 0 < count_list as a + ext a \<longrightarrow>
        (\<exists>b. mem p a = Some b \<and> blk_ok b \<and> refs b = int (count_list as a + ext a))) \<and>
     (\<forall>a. nextb p \<le> a \<longrightarrow> mem p a = None)"

definition queue_ok :: "(addr \<Rightarrow> nat) \<Rightarrow> pool \<Rightarrow> dbuf_queue \<Rightarrow> bool" where
  "queue_ok ext p q \<longleftrightarrow> refs_ok ext p (blocks q) \<and> total_size q = length (q_bytes p q) \<and>
     (case blocks q of [] \<Rightarrow> pos q = 0 | a # _ \<Rightarrow> pos q \<le> length (bytes_at p a))"

text \<open>No other holder of a reference sees a change of its blocks.\<close>

definition others_kept :: "(addr \<Rightarrow> nat) \<Rightarrow> pool \<Rightarrow> pool \<Rightarrow> bool" where
  "others_kept ext p p' \<longleftrightarrow> (\<forall>a. 0 < ext a \<longrightarrow> mem p' a \<noteq> None \<and> bytes_at p' a = bytes_at p a)"

lemma refs_okD:
  assumes "refs_ok ext p as" "0 < count_list as a + ext a"
  obtains b where "mem p a = Some b" "blk_ok b" "refs b = int (count_list as a + ext a)"
  using assms by (auto simp: refs_ok_def)

lemma length_blk_bytes [simp]: "blk_ok b \<Longrightarrow> length (blk_bytes b) = bsize b"
  by (simp add: blk_ok_def blk_bytes_def)

lemma bytes_at_Some [simp]: "mem p a = Some b \<Longrightarrow> bytes_at p a = blk_bytes b"
  by (simp add: bytes_at_def)

lemma others_kept_refl: "refs_ok ext p as \<Longrightarrow> others_kept ext p p"
  by (auto simp: others_kept_def refs_ok_def)

lemma others_kept_trans: "others_kept ext p p' \<Longrightarrow> others_kept ext p' p'' \<Longrightarrow> others_kept ext p p''"
  by (simp add: others_kept_def)

lemma dbuf_ref_free_ok:
  assumes "refs_ok ext p (a # as)"
  shows "\<exists>p'. dbuf_ref_free a p = Inr p' \<and> refs_ok ext p' as \<and> others_kept ext p p' \<and>
    (\<forall>c \<in> set as. bytes_at p' c = bytes_at p c)"
proof -
  obtain b where b: "mem p a = Some b" "blk_ok b" "refs b = int (Suc (count_list as a) + ext a)"
    using refs_okD [OF assms, of a] by auto
  have o: "\<exists>b. mem p c = Some b \<and> blk_ok b \<and> refs b = int (count_list as c + ext c)"
    if "c \<noteq> a" "0 < count_list as c + ext c" for c
    using refs_okD [OF assms, of c] that by auto
  have k: "mem p c \<noteq> None" if "0 < ext c" for c using refs_okD [OF assms, of c] that by auto
  have fr: "\<forall>c. nextb p \<le> c \<longrightarrow> mem p c = None" using assms by (simp add: refs_ok_def)
  show ?thesis
  proof (cases "count_list as a + ext a = 0")
    case True
    then have "a \<notin> set as" "ext a = 0" by (auto simp: count_list_0_iff)
    moreover have "refs_ok ext (p\<lparr>mem := (mem p)(a := None)\<rparr>) as"
      using o fr True by (auto simp: refs_ok_def count_list_0_iff)
    ultimately show ?thesis using b k
      by (auto simp: dbuf_ref_free_def others_kept_def bytes_at_def)
  next
    case False
    then have "refs_ok ext (p\<lparr>mem := (mem p)(a \<mapsto> b\<lparr>refs := refs b - 1\<rparr>)\<rparr>) as"
      using o fr b by (auto simp: refs_ok_def blk_ok_def)
    then show ?thesis using b k False
      by (auto simp: dbuf_ref_free_def others_kept_def bytes_at_def blk_bytes_def)
  qed
qed

lemma dbuf_delete_ok:
  "queue_ok ext p q \<Longrightarrow> \<exists>p' q'. dbuf_delete q n p = Inr (p', q') \<and> queue_ok ext p' q' \<and>
    q_bytes p' q' = drop n (q_bytes p q) \<and> others_kept ext p p' \<and> suffix (blocks q') (blocks q)"
proof (induction q n p rule: dbuf_delete.induct)
  case (1 q n p)
  show ?case
  proof (cases "0 < n \<and> 0 < total_size q")
    case False
    then have "drop n (q_bytes p q) = q_bytes p q" using "1.prems" by (auto simp: queue_ok_def)
    then show ?thesis using False "1.prems" others_kept_refl [of ext p "blocks q"]
      by (auto simp: dbuf_delete.simps dbuf_length_def queue_ok_def)
  next
    case True
    then obtain a as where bl: "blocks q = a # as"
      using "1.prems" by (cases "blocks q") (auto simp: queue_ok_def q_bytes_def)
    then have r: "refs_ok ext p (a # as)" using "1.prems" by (simp add: queue_ok_def)
    obtain b where b: "mem p a = Some b" "blk_ok b" using refs_okD [OF r, of a] by auto
    have pos: "pos q \<le> bsize b" using "1.prems" bl b by (simp add: queue_ok_def)
    then have av: "size_sub (bsize b) (pos q) = bsize b - pos q" by (simp add: size_sub_def)
    let ?rest = "concat (map (bytes_at p) as)"
    have qb: "q_bytes p q = drop (pos q) (blk_bytes b) @ ?rest" using bl b pos by (simp add: q_bytes_def)
    have tot: "total_size q = bsize b - pos q + length ?rest"
      using "1.prems" qb b by (simp add: queue_ok_def)
    show ?thesis
    proof (cases "bsize b - pos q \<le> n")
      case le: True
      obtain p1 where f: "dbuf_ref_free a p = Inr p1" "refs_ok ext p1 as" "others_kept ext p p1"
        "\<forall>c \<in> set as. bytes_at p1 c = bytes_at p c" using dbuf_ref_free_ok [OF r] by blast
      let ?q = "q\<lparr>blocks := as, total_size := length ?rest, pos := 0\<rparr>"
      have rest: "concat (map (bytes_at p1) as) = ?rest" using f(4) by (simp cong: map_cong)
      have sub: "size_sub (total_size q) (bsize b - pos q) = length ?rest" using tot by (simp add: size_sub_def)
      have ok: "queue_ok ext p1 ?q" using f(2) rest
        by (auto simp: queue_ok_def q_bytes_def split: list.splits)
      have "\<exists>p' q'. dbuf_delete ?q (n - (bsize b - pos q)) p1 = Inr (p', q') \<and> queue_ok ext p' q' \<and>
          q_bytes p' q' = drop (n - (bsize b - pos q)) (q_bytes p1 ?q) \<and> others_kept ext p1 p' \<and>
          suffix (blocks q') (blocks ?q)"
        using "1.IH"(1) [of a as b "bsize b - pos q" p1] True bl b av le f(1) ok sub
        by (simp add: dbuf_length_def)
      then obtain p' q' where d: "dbuf_delete ?q (n - (bsize b - pos q)) p1 = Inr (p', q')"
        "queue_ok ext p' q'" "q_bytes p' q' = drop (n - (bsize b - pos q)) (q_bytes p1 ?q)"
        "others_kept ext p1 p'" "suffix (blocks q') as" by auto
      have "q_bytes p' q' = drop n (q_bytes p q)" using d(3) rest qb le b
        by (simp add: q_bytes_def)
      moreover have "dbuf_delete q n p = Inr (p', q')"
        using True bl b av le f(1) d(1) sub
        by (subst dbuf_delete.simps) (simp add: dbuf_length_def)
      ultimately show ?thesis using d(2,4,5) f(3) bl others_kept_trans by (auto simp: suffix_Cons)
    next
      case gt: False
      let ?q = "q\<lparr>pos := pos q + n, total_size := size_sub (total_size q) n\<rparr>"
      have sub: "size_sub (total_size q) n = total_size q - n" using gt tot by (simp add: size_sub_def)
      have "dbuf_delete q n p = Inr (p, ?q)"
        using True bl b av gt by (subst dbuf_delete.simps) (simp add: dbuf_length_def dbuf_delete.simps [of _ 0])
      moreover have "q_bytes p ?q = drop n (q_bytes p q)"
        by (simp add: q_bytes_def add.commute)
      moreover have "queue_ok ext p ?q" using "1.prems" sub calculation(2) bl b gt
        by (simp add: queue_ok_def)
      ultimately show ?thesis using others_kept_refl [OF r] by simp
    qed
  qed
qed

lemma pos_le: "queue_ok ext p q \<Longrightarrow> pos q \<le> length (concat (map (bytes_at p) (blocks q)))"
  by (auto simp: queue_ok_def split: list.splits)

lemma count_last: "as \<noteq> [] \<Longrightarrow> 0 < count_list as (last as)"
  by (metis count_list_0_iff last_in_set neq0_conv)

lemma queue_ok_snoc:
  assumes "queue_ok ext p q" "refs_ok ext p' (blocks q @ [a])" "bytes_at p' = bytes_at p"
    "blocks q' = blocks q @ [a]" "pos q' = pos q" "total_size q' = total_size q + length (bytes_at p a)"
  shows "queue_ok ext p' q' \<and> q_bytes p' q' = q_bytes p q @ bytes_at p a"
proof -
  have "q_bytes p' q' = q_bytes p q @ bytes_at p a"
    using pos_le [OF assms(1)] by (simp add: q_bytes_def assms(3-5))
  then show ?thesis using assms by (auto simp: queue_ok_def split: list.splits)
qed

lemma dbuf_add_ok:
  assumes "queue_ok ext p q" "0 < ext a"
  shows "\<exists>p' q'. dbuf_add q a p = Inr (p', q') \<and> queue_ok ext p' q' \<and>
    q_bytes p' q' = q_bytes p q @ bytes_at p a \<and> others_kept ext p p'"
proof -
  have r: "refs_ok ext p (blocks q)" using assms(1) by (simp add: queue_ok_def)
  obtain b where b: "mem p a = Some b" "blk_ok b" "refs b = int (count_list (blocks q) a + ext a)"
    using refs_okD [OF r, of a] assms(2) by auto
  let ?p = "p\<lparr>mem := (mem p)(a \<mapsto> b\<lparr>refs := refs b + 1\<rparr>)\<rparr>"
  let ?q = "q\<lparr>blocks := blocks q @ [a], total_size := total_size q + bsize b\<rparr>"
  have bya: "bytes_at ?p = bytes_at p" using b by (auto simp: bytes_at_def blk_bytes_def fun_eq_iff)
  have "blk_ok (b\<lparr>refs := refs b + 1\<rparr>)" using b(2) by (simp add: blk_ok_def)
  then have "refs_ok ext ?p (blocks q @ [a])" using r b
    by (auto simp: refs_ok_def)
  then have "queue_ok ext ?p ?q \<and> q_bytes ?p ?q = q_bytes p q @ bytes_at p a"
    using b by (intro queue_ok_snoc [OF assms(1) _ bya]) auto
  moreover have "others_kept ext p ?p" using r bya by (auto simp: others_kept_def refs_ok_def)
  ultimately show ?thesis using b by (simp add: dbuf_add_def)
qed

text \<open>A receive queue: nothing else refers to its blocks.\<close>

definition recv_ok :: "(addr \<Rightarrow> nat) \<Rightarrow> pool \<times> dbuf_queue \<Rightarrow> bool" where
  "recv_ok ext s \<longleftrightarrow> (case s of (p, q) \<Rightarrow>
     queue_ok ext p q \<and> distinct (blocks q) \<and> (\<forall>a \<in> set (blocks q). ext a = 0))"

lemma dbuf_alloc_ok:
  assumes "queue_ok ext p q" "dbuf_alloc p = (p', a)"
  shows "queue_ok ext p' (q\<lparr>blocks := blocks q @ [a]\<rparr>) \<and>
    q_bytes p' (q\<lparr>blocks := blocks q @ [a]\<rparr>) = q_bytes p q \<and> others_kept ext p p' \<and>
    a \<notin> set (blocks q) \<and> ext a = 0 \<and> (\<exists>b. mem p' a = Some b \<and> blk_ok b \<and> bsize b = 0)"
proof -
  let ?b = "\<lparr>refs = 1, bsize = 0, bdata = replicate DBUF_BLOCK_SIZE NUL\<rparr>"
  let ?q = "q\<lparr>blocks := blocks q @ [a]\<rparr>"
  have p': "a = nextb p" "p' = p\<lparr>mem := (mem p)(a \<mapsto> ?b), nextb := Suc a\<rparr>"
    using assms(2) by (auto simp: dbuf_alloc_def)
  have r: "refs_ok ext p (blocks q)" using assms(1) by (simp add: queue_ok_def)
  then have "mem p a = None" using p'(1) by (simp add: refs_ok_def)
  then have z: "count_list (blocks q) a + ext a = 0" using refs_okD [OF r, of a] by (cases "count_list (blocks q) a + ext a") auto
  then have a: "a \<notin> set (blocks q)" "ext a = 0" by (auto simp: count_list_0_iff)
  have bya: "bytes_at p' = bytes_at p"
    using p'(2) \<open>mem p a = None\<close> by (auto simp: bytes_at_def blk_bytes_def fun_eq_iff)
  have e: "bytes_at p a = []" using \<open>mem p a = None\<close> by (simp add: bytes_at_def)
  have rp: "refs_ok ext p' (blocks q @ [a])" using r a p' by (auto simp: refs_ok_def blk_ok_def count_list_0_iff)
  then have "queue_ok ext p' ?q \<and> q_bytes p' ?q = q_bytes p q @ bytes_at p a"
    using e by (intro queue_ok_snoc [OF assms(1) _ bya]) auto
  moreover have "others_kept ext p p'" using rp bya by (auto simp: others_kept_def refs_ok_def)
  ultimately show ?thesis using e a p' by (simp add: blk_ok_def)
qed

lemma dbuf_put_block_ok:
  assumes "recv_ok ext (p, q)"
  shows "\<exists>p1 q1 b. dbuf_put_block q p = Inr (p1, q1, last (blocks q1)) \<and> recv_ok ext (p1, q1) \<and>
    blocks q1 \<noteq> [] \<and> q_bytes p1 q1 = q_bytes p q \<and> others_kept ext p p1 \<and>
    mem p1 (last (blocks q1)) = Some b \<and> blk_ok b \<and> bsize b < DBUF_BLOCK_SIZE"
proof -
  have ok: "queue_ok ext p q" using assms by (simp add: recv_ok_def)
  obtain p' a where al: "dbuf_alloc p = (p', a)" by fastforce
  note new = dbuf_alloc_ok [OF ok al]
  have alloc: "recv_ok ext (p', q\<lparr>blocks := blocks q @ [a]\<rparr>)" using new assms by (auto simp: recv_ok_def)
  show ?thesis
  proof (cases "total_size q = 0")
    case True
    then show ?thesis using new alloc al by (auto simp: dbuf_put_block_def dbuf_length_def DBUF_BLOCK_SIZE_def)
  next
    case False
    then have ne: "blocks q \<noteq> []" using ok by (auto simp: queue_ok_def q_bytes_def)
    have r: "refs_ok ext p (blocks q)" using ok by (simp add: queue_ok_def)
    obtain b where b: "mem p (last (blocks q)) = Some b" "blk_ok b"
      using refs_okD [OF r, of "last (blocks q)"] count_last [OF ne] by auto
    show ?thesis
    proof (cases "bsize b = DBUF_BLOCK_SIZE")
      case True
      then show ?thesis using new alloc al b ne False
        by (auto simp: dbuf_put_block_def dbuf_length_def size_sub_def blk_ok_def DBUF_BLOCK_SIZE_def)
    next
      case lt: False
      then show ?thesis using b ne False assms others_kept_refl [OF r]
        by (auto simp: dbuf_put_block_def dbuf_length_def size_sub_def blk_ok_def)
    qed
  qed
qed

lemma blk_bytes_fill:
  assumes "blk_ok b" "bsize b + length xs \<le> DBUF_BLOCK_SIZE"
  shows "blk_bytes (b\<lparr>bsize := bsize b + length xs, bdata := copy_at (bdata b) (bsize b) xs\<rparr>) = blk_bytes b @ xs"
    and "blk_ok (b\<lparr>bsize := bsize b + length xs, bdata := copy_at (bdata b) (bsize b) xs\<rparr>)"
  using assms by (auto simp: blk_bytes_def blk_ok_def copy_at_def)

lemma fill_tail_ok:
  assumes "recv_ok ext (p, q)" "blocks q \<noteq> []" "a = last (blocks q)" "mem p a = Some b"
    "bsize b + length xs \<le> DBUF_BLOCK_SIZE"
  defines "p' \<equiv> p\<lparr>mem := (mem p)(a \<mapsto> b\<lparr>bsize := bsize b + length xs, bdata := copy_at (bdata b) (bsize b) xs\<rparr>)\<rparr>"
  defines "q' \<equiv> q\<lparr>total_size := total_size q + length xs\<rparr>"
  shows "recv_ok ext (p', q') \<and> q_bytes p' q' = q_bytes p q @ xs \<and> others_kept ext p p'"
proof -
  have ok: "queue_ok ext p q" using assms(1) by (simp add: recv_ok_def)
  then have r: "refs_ok ext p (blocks q)" by (simp add: queue_ok_def)
  have bl: "blocks q = butlast (blocks q) @ [a]" using assms(2,3) by simp
  have "distinct (butlast (blocks q) @ [a])" using assms(1) bl [symmetric] by (simp add: recv_ok_def)
  then have dist: "a \<notin> set (butlast (blocks q))" by simp
  have ea: "ext a = 0" using assms(1-3) by (auto simp: recv_ok_def)
  have bo: "blk_ok b" and br: "refs b = int (count_list (blocks q) a + ext a)"
    using refs_okD [OF r, of a] count_last [OF assms(2)] assms(3,4) by auto
  note fill = blk_bytes_fill [OF bo assms(5)]
  have bya: "bytes_at p' c = (if c = a then bytes_at p a @ xs else bytes_at p c)" for c
    using fill assms(4) by (auto simp: p'_def bytes_at_def)
  have map: "map (bytes_at p') (butlast (blocks q)) = map (bytes_at p) (butlast (blocks q))"
    using dist by (auto simp: bya)
  have "concat (map (bytes_at p') (butlast (blocks q) @ [a])) =
      concat (map (bytes_at p) (butlast (blocks q) @ [a])) @ xs" by (simp add: map bya)
  then have cat: "concat (map (bytes_at p') (blocks q)) = concat (map (bytes_at p) (blocks q)) @ xs"
    using bl by metis
  have qb: "q_bytes p' q' = q_bytes p q @ xs"
    using pos_le [OF ok] cat by (simp add: q_bytes_def q'_def)
  have rp: "refs_ok ext p' (blocks q)" using r br assms(4) fill(2) by (auto simp: refs_ok_def p'_def)
  have "queue_ok ext p' q'" using ok rp qb by (auto simp: queue_ok_def q'_def bya split: list.splits)
  moreover have "others_kept ext p p'" using rp ea
    by (auto simp: others_kept_def bya refs_ok_def)
  ultimately show ?thesis using qb assms(1) by (simp add: recv_ok_def q'_def)
qed

lemma dbuf_put_ok:
  "recv_ok ext (p, q) \<Longrightarrow> \<exists>p' q'. dbuf_put q xs p = Inr (p', q') \<and> recv_ok ext (p', q') \<and>
    q_bytes p' q' = q_bytes p q @ xs \<and> others_kept ext p p'"
proof (induction q xs p rule: dbuf_put.induct)
  case (1 q xs p)
  show ?case
  proof (cases "xs = []")
    case True
    then show ?thesis using "1.prems" others_kept_refl [of ext p "blocks q"]
      by (auto simp: dbuf_put.simps recv_ok_def queue_ok_def)
  next
    case False
    obtain p1 q1 b where s: "dbuf_put_block q p = Inr (p1, q1, last (blocks q1))" "recv_ok ext (p1, q1)"
      "blocks q1 \<noteq> []" "q_bytes p1 q1 = q_bytes p q" "others_kept ext p p1"
      "mem p1 (last (blocks q1)) = Some b" "blk_ok b" "bsize b < DBUF_BLOCK_SIZE"
      using dbuf_put_block_ok [OF "1.prems"] by blast
    define n where "n = min (size_sub (length (bdata b)) (bsize b)) (length xs)"
    have n: "n \<noteq> 0" "bsize b + length (take n xs) \<le> DBUF_BLOCK_SIZE" "length (take n xs) = n"
      using s(7,8) False by (auto simp: blk_ok_def size_sub_def n_def)
    let ?p = "p1\<lparr>mem := (mem p1)(last (blocks q1) \<mapsto>
      b\<lparr>bsize := bsize b + n, bdata := copy_at (bdata b) (bsize b) (take n xs)\<rparr>)\<rparr>"
    let ?q = "q1\<lparr>total_size := total_size q1 + n\<rparr>"
    have f: "recv_ok ext (?p, ?q)" "q_bytes ?p ?q = q_bytes p1 q1 @ take n xs" "others_kept ext p1 ?p"
      using fill_tail_ok [OF s(2,3) refl s(6) n(2)] unfolding n(3) by blast+
    have eq: "dbuf_put q xs p = dbuf_put ?q (drop n xs) ?p"
      using False s(1,6) n(1) by (subst dbuf_put.simps) (simp add: Let_def n_def [symmetric])
    have "\<exists>p' q'. dbuf_put ?q (drop n xs) ?p = Inr (p', q') \<and> recv_ok ext (p', q') \<and>
        q_bytes p' q' = q_bytes ?p ?q @ drop n xs \<and> others_kept ext ?p p'"
      using "1.IH" [OF False s(1) refl refl s(6) n_def n(1) f(1)] .
    then obtain p' q' where d: "dbuf_put ?q (drop n xs) ?p = Inr (p', q')" "recv_ok ext (p', q')"
        "q_bytes p' q' = q_bytes ?p ?q @ drop n xs" "others_kept ext ?p p'" by blast
    have "q_bytes p' q' = q_bytes p q @ xs" using d(3) f(2) s(4) by simp
    moreover have "others_kept ext p p'" using s(5) f(3) d(4) by (blast intro: others_kept_trans)
    ultimately show ?thesis using eq d(1,2) by simp
  qed
qed

section \<open>The interface of a byte queue\<close>

locale byte_queue =
  fixes ok :: "'s \<Rightarrow> bool"
    and contents :: "'s \<Rightarrow> char list"
    and put :: "char list \<Rightarrow> 's \<Rightarrow> 'e + 's"
    and delete :: "nat \<Rightarrow> 's \<Rightarrow> 'e + 's"
    and size_of :: "'s \<Rightarrow> nat"
  assumes put_law: "ok s \<Longrightarrow> \<exists>s'. put xs s = Inr s' \<and> ok s' \<and> contents s' = contents s @ xs"
    and delete_law: "ok s \<Longrightarrow> \<exists>s'. delete n s = Inr s' \<and> ok s' \<and> contents s' = drop n (contents s)"
    and size_law: "ok s \<Longrightarrow> size_of s = length (contents s)"
begin

text \<open>How the bytes are cut into pieces on the way in does not matter.\<close>

lemma put_all_contents:
  "ok s \<Longrightarrow> \<exists>s'. run_steps put xss s = Inr s' \<and> ok s' \<and> contents s' = contents s @ concat xss"
proof (induction xss arbitrary: s)
  case (Cons xs xss)
  obtain s1 where s1: "put xs s = Inr s1" "ok s1" "contents s1 = contents s @ xs"
    using put_law [OF Cons.prems] by blast
  then show ?case using Cons.IH [OF s1(2)] by auto
qed simp

lemma clear_empties: "ok s \<Longrightarrow> \<exists>s'. delete (size_of s) s = Inr s' \<and> ok s' \<and> contents s' = [] \<and> size_of s' = 0"
  using delete_law [of s "size_of s"] size_law by fastforce

text \<open>First in, first out: behind a queue that holds \<open>xs\<close> come the bytes put next.\<close>

lemma fifo:
  assumes "ok s"
  shows "\<exists>s1 s2. put ys s = Inr s1 \<and> delete (length (contents s)) s1 = Inr s2 \<and> ok s2 \<and> contents s2 = ys"
proof -
  obtain s1 where s1: "put ys s = Inr s1" "ok s1" "contents s1 = contents s @ ys"
    using put_law [OF assms] by blast
  then show ?thesis using delete_law [OF s1(2), of "length (contents s)"] by auto
qed

end

definition recv_put :: "char list \<Rightarrow> pool \<times> dbuf_queue \<Rightarrow> c_error + pool \<times> dbuf_queue" where
  "recv_put xs s = dbuf_put (snd s) xs (fst s)"

definition recv_delete :: "nat \<Rightarrow> pool \<times> dbuf_queue \<Rightarrow> c_error + pool \<times> dbuf_queue" where
  "recv_delete n s = dbuf_delete (snd s) n (fst s)"

definition recv_bytes :: "pool \<times> dbuf_queue \<Rightarrow> char list" where
  "recv_bytes s = q_bytes (fst s) (snd s)"

lemma recv_delete_ok:
  assumes "recv_ok ext (p, q)"
  shows "\<exists>p' q'. dbuf_delete q n p = Inr (p', q') \<and> recv_ok ext (p', q') \<and>
    q_bytes p' q' = drop n (q_bytes p q) \<and> others_kept ext p p'"
proof -
  obtain p' q' where d: "dbuf_delete q n p = Inr (p', q')" "queue_ok ext p' q'"
    "q_bytes p' q' = drop n (q_bytes p q)" "others_kept ext p p'" "suffix (blocks q') (blocks q)"
    using dbuf_delete_ok [of ext p q n] assms by (auto simp: recv_ok_def)
  have "distinct (blocks q')" "set (blocks q') \<subseteq> set (blocks q)"
    using d(5) assms by (auto simp: recv_ok_def suffix_def)
  then show ?thesis using d assms by (auto simp: recv_ok_def)
qed

interpretation recvq: byte_queue "recv_ok ext" recv_bytes recv_put recv_delete "\<lambda>s. dbuf_length (snd s)"
  for ext
proof
  show "\<exists>s'. recv_put xs s = Inr s' \<and> recv_ok ext s' \<and> recv_bytes s' = recv_bytes s @ xs"
    if "recv_ok ext s" for s xs
    using that dbuf_put_ok [of ext "fst s" "snd s" xs] by (auto simp: recv_put_def recv_bytes_def)
  show "\<exists>s'. recv_delete n s = Inr s' \<and> recv_ok ext s' \<and> recv_bytes s' = drop n (recv_bytes s)"
    if "recv_ok ext s" for s n
    using that recv_delete_ok [of ext "fst s" "snd s" n] by (auto simp: recv_delete_def recv_bytes_def)
  show "dbuf_length (snd s) = length (recv_bytes s)" if "recv_ok ext s" for s
    using that by (auto simp: recv_ok_def queue_ok_def dbuf_length_def recv_bytes_def)
qed

section \<open>Properties\<close>

definition empty_queue :: dbuf_queue where
  "empty_queue = \<lparr>blocks = [], total_size = 0, pos = 0\<rparr>"

lemma recv_ok_empty: "recv_ok ext (p, empty_queue) \<longleftrightarrow> refs_ok ext p []"
  by (auto simp: recv_ok_def queue_ok_def empty_queue_def q_bytes_def)

text \<open>C20: A receive queue is a byte FIFO. Whatever sizes the pieces have in which data is put in,
  the queue holds their concatenation behind what it held, in blocks of at most 1024 bytes, its length
  is the number of bytes, and deleting any number of bytes drops that many from the front. No
  released block is used, no loop runs out of room, and no block that something else refers to is changed.\<close>

theorem dbuf_is_byte_fifo:
  assumes "recv_ok ext (p, q)"
  shows "\<exists>p1 q1 p2 q2. run_steps recv_put xss (p, q) = Inr (p1, q1) \<and>
    q_bytes p1 q1 = q_bytes p q @ concat xss \<and> dbuf_length q1 = length (q_bytes p q @ concat xss) \<and>
    dbuf_delete q1 n p1 = Inr (p2, q2) \<and> recv_ok ext (p2, q2) \<and>
    q_bytes p2 q2 = drop n (q_bytes p q @ concat xss) \<and> others_kept ext p1 p2"
proof -
  obtain p1 q1 where s: "run_steps recv_put xss (p, q) = Inr (p1, q1)" "recv_ok ext (p1, q1)"
    "q_bytes p1 q1 = q_bytes p q @ concat xss"
    using recvq.put_all_contents [OF assms, of xss] by (auto simp: recv_bytes_def)
  moreover have "dbuf_length q1 = length (q_bytes p1 q1)"
    using recvq.size_law [OF s(2)] by (simp add: recv_bytes_def)
  ultimately show ?thesis using recv_delete_ok [OF s(2), of n] by fastforce
qed

theorem dbuf_is_byte_fifo_witness:
  "\<exists>p1 q1 p2 q2. run_steps recv_put [''NICK '', ''a'']
      (\<lparr>mem = (\<lambda>_. None), nextb = 0\<rparr>, empty_queue) = Inr (p1, q1) \<and>
    dbuf_delete q1 5 p1 = Inr (p2, q2) \<and> q_bytes p2 q2 = ''a''"
proof -
  let ?p = "\<lparr>mem = (\<lambda>_. None), nextb = 0\<rparr>"
  have "recv_ok (\<lambda>_. 0) (?p, empty_queue)" by (simp add: recv_ok_empty refs_ok_def)
  moreover have "q_bytes ?p empty_queue = []" by (simp add: empty_queue_def q_bytes_def)
  ultimately show ?thesis
    using dbuf_is_byte_fifo [of "\<lambda>_. 0" ?p empty_queue "[''NICK '', ''a'']" 5]
    unfolding \<open>q_bytes ?p empty_queue = []\<close> by (simp del: run_steps.simps) blast
qed

text \<open>C21: A block shared by several send queues is released only when no queue and no sender refers to
  it any more. Adding a block to a queue appends its bytes; deleting from one queue, in part or
  altogether, drops bytes from the front of that queue and leaves every block that is referred to from
  elsewhere allocated and unchanged; clearing a queue empties it. None of them touches a released block.\<close>

theorem dbuf_shared_blocks_survive:
  assumes "queue_ok ext p q" "0 < ext a"
  shows "(\<exists>p' q'. dbuf_add q a p = Inr (p', q') \<and> queue_ok ext p' q' \<and>
      q_bytes p' q' = q_bytes p q @ bytes_at p a \<and> others_kept ext p p') \<and>
    (\<exists>p' q'. dbuf_delete q n p = Inr (p', q') \<and> queue_ok ext p' q' \<and>
      q_bytes p' q' = drop n (q_bytes p q) \<and> others_kept ext p p') \<and>
    (\<exists>p' q'. dbuf_clear q p = Inr (p', q') \<and> queue_ok ext p' q' \<and> q_bytes p' q' = [] \<and> others_kept ext p p')"
  using dbuf_add_ok [OF assms] dbuf_delete_ok [OF assms(1), of n]
    dbuf_delete_ok [OF assms(1), of "dbuf_length q"] assms(1)
  by (fastforce simp: dbuf_clear_def dbuf_length_def queue_ok_def)

theorem dbuf_shared_blocks_survive_witness:
  "let b = \<lparr>refs = 1, bsize = 0, bdata = replicate DBUF_BLOCK_SIZE NUL\<rparr>;
       p = \<lparr>mem = [0 \<mapsto> b], nextb = 1\<rparr>
   in (\<exists>p' q'. dbuf_add empty_queue 0 p = Inr (p', q') \<and> queue_ok (\<lambda>a. if a = 0 then 1 else 0) p' q')"
proof -
  let ?b = "\<lparr>refs = 1, bsize = 0, bdata = replicate DBUF_BLOCK_SIZE NUL\<rparr>"
  let ?p = "\<lparr>mem = [0 \<mapsto> ?b], nextb = 1\<rparr>"
  have "queue_ok (\<lambda>a. if a = 0 then 1 else 0) ?p empty_queue"
    by (auto simp: queue_ok_def refs_ok_def empty_queue_def q_bytes_def blk_ok_def)
  then show ?thesis
    using dbuf_shared_blocks_survive [of "\<lambda>a. if a = 0 then 1 else 0" ?p empty_queue 0 0]
    by (simp add: Let_def) blast
qed

end
