(* ===== verification/Packet.thy ===== *)
theory Packet
  imports Dbuf
begin

text \<open>
  The receive path of \<open>src/packet.c\<close>: cutting lines out of a receive queue, the loops that feed them
  to the parser under flood control, the once-a-second recalculation of the flood limit and the read
  callback. The parser is an argument of the loops (its own model is theory \<open>Parse\<close>): it maps a
  line and the state of the connection to the new state. The socket is the list of the results of
  \<open>recv\<close>. The loops without a bound of their own are partial functions, \<open>None\<close> when they do not end.

  The specification is a set of total functions on the byte sequence in the queue (\<open>next_line\<close>,
  \<open>server_feed\<close>, \<open>client_feed\<close>), and the loops over the block lists are shown to implement them.
\<close>

section \<open>Connections\<close>

definition IRCD_BUFSIZE :: nat where "IRCD_BUFSIZE = 512"
definition READBUF_SIZE :: nat where "READBUF_SIZE = 16384"
definition MAX_FLOOD :: nat where "MAX_FLOOD = 5"

datatype client_status =
  STAT_CONNECTING | STAT_HANDSHAKE | STAT_ME | STAT_UNKNOWN | STAT_SERVER | STAT_CLIENT

definition FLAGS_PINGSENT :: u32 where "FLAGS_PINGSENT = 0x1"
definition FLAGS_DEADSOCKET :: u32 where "FLAGS_DEADSOCKET = 0x2"
definition FLAGS_KILLED :: u32 where "FLAGS_KILLED = 0x4"
definition FLAGS_CLOSING :: u32 where "FLAGS_CLOSING = 0x8"
definition FLAGS_CANFLOOD :: u32 where "FLAGS_CANFLOOD = 0x100"
definition FLAGS_FLOODDONE :: u32 where "FLAGS_FLOODDONE = 0x2000"
definition UMODE_OPER :: u32 where "UMODE_OPER = 0x100000"

record conn =
  status :: client_status
  flags :: u32
  umodes :: u32
  allow_read :: int
  sent_parsed :: int
  recv_messages :: nat
  recv_nbytes :: nat
  me_messages :: nat
  me_nbytes :: nat
  lasttime :: nat
  since :: nat

definition IsUnknown :: "'a conn_scheme \<Rightarrow> bool" where "IsUnknown c = (status c = STAT_UNKNOWN)"
definition IsServer :: "'a conn_scheme \<Rightarrow> bool" where "IsServer c = (status c = STAT_SERVER)"
definition IsConnecting :: "'a conn_scheme \<Rightarrow> bool" where "IsConnecting c = (status c = STAT_CONNECTING)"
definition IsHandshake :: "'a conn_scheme \<Rightarrow> bool" where "IsHandshake c = (status c = STAT_HANDSHAKE)"
definition IsClient :: "'a conn_scheme \<Rightarrow> bool" where "IsClient c = (status c = STAT_CLIENT)"
definition IsClosing :: "'a conn_scheme \<Rightarrow> bool" where "IsClosing c = has_flag (flags c) FLAGS_CLOSING"
definition IsCanFlood :: "'a conn_scheme \<Rightarrow> bool" where "IsCanFlood c = has_flag (flags c) FLAGS_CANFLOOD"
definition IsFloodDone :: "'a conn_scheme \<Rightarrow> bool" where "IsFloodDone c = has_flag (flags c) FLAGS_FLOODDONE"
definition IsDefunct :: "'a conn_scheme \<Rightarrow> bool" where
  "IsDefunct c = has_flag (flags c) (FLAGS_DEADSOCKET OR FLAGS_CLOSING OR FLAGS_KILLED)"

section \<open>Cutting one line out of the queue\<close>

text \<open>The inner loop of \<open>extract_one_line\<close> over the bytes of a block; the flag says that it left the
  whole scan.\<close>

fun scan_block :: "char list \<Rightarrow> nat \<Rightarrow> nat \<Rightarrow> char list \<Rightarrow> bool \<times> nat \<times> nat \<times> char list" where
  "scan_block [] line_bytes eol_bytes buffer = (False, line_bytes, eol_bytes, buffer)"
| "scan_block (c # cs) line_bytes eol_bytes buffer =
    (if IsEol c then
       (if Suc eol_bytes = 2 then (True, line_bytes, Suc eol_bytes, buffer)
        else scan_block cs line_bytes (Suc eol_bytes) buffer)
     else if eol_bytes \<noteq> 0 then (True, line_bytes, eol_bytes, buffer)
     else scan_block cs (Suc line_bytes) eol_bytes
            (if line_bytes < IRCD_BUFSIZE - 2 then buffer @ [c] else buffer))"

fun scan_blocks :: "pool \<Rightarrow> addr list \<Rightarrow> nat \<Rightarrow> nat \<Rightarrow> nat \<Rightarrow> char list \<Rightarrow> c_error + nat \<times> nat \<times> char list" where
  "scan_blocks p [] idx line_bytes eol_bytes buffer = Inr (line_bytes, eol_bytes, buffer)"
| "scan_blocks p (a # as) idx line_bytes eol_bytes buffer =
    (case mem p a of
       None \<Rightarrow> Inl OutOfBounds
     | Some b \<Rightarrow>
         (case scan_block (drop idx (take (bsize b) (bdata b))) line_bytes eol_bytes buffer of
            (out, l, e, buf) \<Rightarrow> if out then Inr (l, e, buf) else scan_blocks p as 0 l e buf))"

text \<open>The result: the length returned, the bytes written to the buffer, and pool and queue.\<close>

definition extract_one_line :: "pool \<times> dbuf_queue \<Rightarrow> c_error + nat \<times> string \<times> (pool \<times> dbuf_queue)" where
  "extract_one_line s =
    (case s of (p, q) \<Rightarrow>
      (case scan_blocks p (blocks q) (pos q) 0 0 [] of
         Inl e \<Rightarrow> Inl e
       | Inr (l, eol_bytes, buffer) \<Rightarrow>
           (let line_bytes = (if eol_bytes \<noteq> 0 then l else 0)
            in case dbuf_delete q (line_bytes + eol_bytes) p of
                 Inl e \<Rightarrow> Inl e
               | Inr s' \<Rightarrow> Inr (min line_bytes (IRCD_BUFSIZE - 2), buffer, s'))))"

section \<open>Feeding lines to the parser\<close>

type_synonym 'a parser = "string \<Rightarrow> 'a conn_scheme \<Rightarrow> 'a conn_scheme"

definition client_dopacket :: "'a parser \<Rightarrow> string \<Rightarrow> 'a conn_scheme \<Rightarrow> 'a conn_scheme" where
  "client_dopacket parse buffer c =
    parse buffer (c\<lparr>me_messages := me_messages c + 1, recv_messages := recv_messages c + 1,
      recv_nbytes := recv_nbytes c + length buffer, me_nbytes := me_nbytes c + length buffer\<rparr>)"

text \<open>A handler that makes the client exit closes its connection, and that empties the queue.\<close>

definition close_recvq :: "'a conn_scheme \<Rightarrow> 'a conn_scheme \<Rightarrow> pool \<times> dbuf_queue \<Rightarrow> c_error + pool \<times> dbuf_queue" where
  "close_recvq c c' s = (if IsClosing c' \<and> \<not> IsClosing c then dbuf_clear (snd s) (fst s) else Inr s)"

datatype loop_exit = Return | Break

function unknown_loop :: "'a parser \<Rightarrow> nat \<Rightarrow> 'a conn_scheme \<Rightarrow> pool \<times> dbuf_queue
    \<Rightarrow> c_error + loop_exit \<times> 'a conn_scheme \<times> (pool \<times> dbuf_queue)" where
  "unknown_loop parse i c s =
    (if IsDefunct c then Inr (Return, c, s)
     else if MAX_FLOOD \<le> i then Inr (Break, c, s)
     else
       (case extract_one_line s of
          Inl e \<Rightarrow> Inl e
        | Inr (dolen, readBuf, s1) \<Rightarrow>
            if dolen = 0 then Inr (Break, c, s1)
            else
              (let c' = client_dopacket parse readBuf c
               in case close_recvq c c' s1 of
                    Inl e \<Rightarrow> Inl e
                  | Inr s2 \<Rightarrow>
                      if \<not> IsUnknown c' then Inr (Break, c', s2)
                      else unknown_loop parse (Suc i) c' s2)))"
  by pat_completeness auto
termination
  by (relation "measure (\<lambda>(parse, i, c, s). MAX_FLOOD - i)") auto

declare unknown_loop.simps [simp del]

partial_function (option) server_loop :: "'a parser \<Rightarrow> 'a conn_scheme \<Rightarrow> pool \<times> dbuf_queue
    \<Rightarrow> (c_error + 'a conn_scheme \<times> (pool \<times> dbuf_queue)) option" where
  "server_loop parse c s =
    (if IsDefunct c then Some (Inr (c, s))
     else
       (case extract_one_line s of
          Inl e \<Rightarrow> Some (Inl e)
        | Inr (dolen, readBuf, s1) \<Rightarrow>
            if dolen = 0 then Some (Inr (c, s1))
            else
              (let c' = client_dopacket parse readBuf c
               in case close_recvq c c' s1 of
                    Inl e \<Rightarrow> Some (Inl e)
                  | Inr s2 \<Rightarrow> server_loop parse c' s2)))"

partial_function (option) client_loop :: "'a parser \<Rightarrow> bool \<Rightarrow> 'a conn_scheme \<Rightarrow> pool \<times> dbuf_queue
    \<Rightarrow> (c_error + 'a conn_scheme \<times> (pool \<times> dbuf_queue)) option" where
  "client_loop parse checkflood c s =
    (if IsDefunct c then Some (Inr (c, s))
     else if checkflood \<and> allow_read c \<le> sent_parsed c then Some (Inr (c, s))
     else
       (case extract_one_line s of
          Inl e \<Rightarrow> Some (Inl e)
        | Inr (dolen, readBuf, s1) \<Rightarrow>
            if dolen = 0 then Some (Inr (c, s1))
            else
              (let c' = client_dopacket parse readBuf c
               in case close_recvq c c' s1 of
                    Inl e \<Rightarrow> Some (Inl e)
                  | Inr s2 \<Rightarrow> client_loop parse checkflood (c'\<lparr>sent_parsed := sent_parsed c' + 1\<rparr>) s2)))"

definition needs_flood_check :: "bool \<Rightarrow> 'a conn_scheme \<Rightarrow> bool" where
  "needs_flood_check no_oper_flood c =
    (if no_oper_flood \<and> has_flag (umodes c) UMODE_OPER then False
     else if IsCanFlood c then False else True)"

definition parse_client_queued :: "'a parser \<Rightarrow> bool \<Rightarrow> 'a conn_scheme \<Rightarrow> pool \<times> dbuf_queue
    \<Rightarrow> (c_error + 'a conn_scheme \<times> (pool \<times> dbuf_queue)) option" where
  "parse_client_queued parse no_oper_flood c0 s0 =
    (case (if IsUnknown c0 then unknown_loop parse 0 c0 s0 else Inr (Break, c0, s0)) of
       Inl e \<Rightarrow> Some (Inl e)
     | Inr (Return, c, s) \<Rightarrow> Some (Inr (c, s))
     | Inr (Break, c, s) \<Rightarrow>
         if IsServer c \<or> IsConnecting c \<or> IsHandshake c then server_loop parse c s
         else if IsClient c then client_loop parse (needs_flood_check no_oper_flood c) c s
         else Some (Inr (c, s)))"

definition flood_endgrace :: "'a conn_scheme \<Rightarrow> 'a conn_scheme" where
  "flood_endgrace c = c\<lparr>flags := add_flag (flags c) FLAGS_FLOODDONE, allow_read := int MAX_FLOOD, sent_parsed := 0\<rparr>"

text \<open>The penalty part of \<open>flood_recalc\<close>, then the callback; the flag says whether the flush timer is
  set again.\<close>

definition flood_penalty :: "'a conn_scheme \<Rightarrow> 'a conn_scheme" where
  "flood_penalty c =
    (let c1 = (if IsFloodDone c then c\<lparr>sent_parsed := sent_parsed c - 2\<rparr> else c\<lparr>sent_parsed := 0\<rparr>)
     in if sent_parsed c1 < 0 then c1\<lparr>sent_parsed := 0\<rparr> else c1)"


section \<open>Reading from the socket\<close>

text \<open>What \<open>recv\<close> returned: data, an error that \<open>ignoreErrno\<close> accepts, or the end of the
  connection (the result handed to \<open>dead_link_on_read\<close>).\<close>

datatype recv_result = Received string | WouldBlock | Failed int

datatype read_outcome = Defunct | Reselect | DeadLink int | ExcessFlood

definition touch_times :: "nat \<Rightarrow> 'a conn_scheme \<Rightarrow> 'a conn_scheme" where
  "touch_times CurrentTime c =
    (let c1 = (if lasttime c < CurrentTime then c\<lparr>lasttime := CurrentTime\<rparr> else c);
         c2 = (if since c1 < lasttime c1 then c1\<lparr>since := CurrentTime\<rparr> else c1)
     in c2\<lparr>flags := del_flag (flags c2) FLAGS_PINGSENT\<rparr>)"

fun read_loop :: "'a parser \<Rightarrow> bool \<Rightarrow> nat \<Rightarrow> nat \<Rightarrow> recv_result list \<Rightarrow> 'a conn_scheme \<Rightarrow> pool \<times> dbuf_queue
    \<Rightarrow> (c_error + read_outcome \<times> 'a conn_scheme \<times> (pool \<times> dbuf_queue)) option" where
  "read_loop parse nof recvq now [] c s = Some (Inr (Reselect, c, s))"
| "read_loop parse nof recvq now (WouldBlock # rs) c s = Some (Inr (Reselect, c, s))"
| "read_loop parse nof recvq now (Failed n # rs) c s = Some (Inr (DeadLink n, c, s))"
| "read_loop parse nof recvq now (Received xs # rs) c s =
    (case dbuf_put (snd s) xs (fst s) of
       Inl e \<Rightarrow> Some (Inl e)
     | Inr s1 \<Rightarrow>
         (case parse_client_queued parse nof (touch_times now c) s1 of
            None \<Rightarrow> None
          | Some (Inl e) \<Rightarrow> Some (Inl e)
          | Some (Inr (c', s2)) \<Rightarrow>
              if IsDefunct c' then Some (Inr (Defunct, c', s2))
              else if \<not> (IsServer c' \<or> IsHandshake c' \<or> IsConnecting c') \<and> recvq < dbuf_length (snd s2)
              then Some (Inr (ExcessFlood, c', s2))
              else if length xs = READBUF_SIZE then read_loop parse nof recvq now rs c' s2
              else Some (Inr (Reselect, c', s2))))"

definition read_packet :: "'a parser \<Rightarrow> bool \<Rightarrow> nat \<Rightarrow> nat \<Rightarrow> recv_result list \<Rightarrow> 'a conn_scheme \<Rightarrow> pool \<times> dbuf_queue
    \<Rightarrow> (c_error + read_outcome \<times> 'a conn_scheme \<times> (pool \<times> dbuf_queue)) option" where
  "read_packet parse nof recvq now rs c s =
    (if IsDefunct c then Some (Inr (Defunct, c, s)) else read_loop parse nof recvq now rs c s)"

section \<open>Lines of a byte sequence\<close>

declare split_paired_Ex [simp del] split_paired_All [simp del]

definition eols :: "char list \<Rightarrow> nat" where
  "eols r = min 2 (length (takeWhile IsEol r))"

text \<open>The length reported, the line, and the bytes left in the queue.\<close>

definition next_line :: "char list \<Rightarrow> nat \<times> string \<times> char list" where
  "next_line b =
    (let line = takeWhile (\<lambda>c. \<not> IsEol c) b; r = dropWhile (\<lambda>c. \<not> IsEol c) b
     in if r = [] then (0, [], b)
        else (min (length line) (IRCD_BUFSIZE - 2), take (IRCD_BUFSIZE - 2) line, drop (eols r) r))"

lemma scan_block_append:
  "scan_block (xs @ ys) l e buf =
    (case scan_block xs l e buf of
       (out, l', e', buf') \<Rightarrow> if out then (True, l', e', buf') else scan_block ys l' e' buf')"
  by (induction xs l e buf rule: scan_block.induct) auto

lemma scan_blocks_bytes:
  assumes "\<forall>a \<in> set as. mem p a \<noteq> None" "as \<noteq> [] \<Longrightarrow> idx \<le> length (bytes_at p (hd as))"
  shows "scan_blocks p as idx l e buf =
    Inr (snd (scan_block (drop idx (concat (map (bytes_at p) as))) l e buf))"
  using assms
proof (induction as arbitrary: idx l e buf)
  case (Cons a as)
  then obtain b where b: "mem p a = Some b" by auto
  have le: "idx \<le> length (blk_bytes b)" using Cons.prems(2) b by simp
  obtain out l' e' buf' where s: "scan_block (drop idx (blk_bytes b)) l e buf = (out, l', e', buf')"
    by (cases "scan_block (drop idx (blk_bytes b)) l e buf") auto
  have "scan_blocks p as 0 l' e' buf' = Inr (snd (scan_block (concat (map (bytes_at p) as)) l' e' buf'))"
    using Cons.IH [of 0 l' e' buf'] Cons.prems(1) by simp
  then show ?case using b le s by (simp add: scan_block_append) (simp add: blk_bytes_def)
qed simp

lemma scan_block_line:
  "scan_block b l 0 buf = scan_block (dropWhile (\<lambda>c. \<not> IsEol c) b) (l + length (takeWhile (\<lambda>c. \<not> IsEol c) b)) 0
     (buf @ take (IRCD_BUFSIZE - 2 - l) (takeWhile (\<lambda>c. \<not> IsEol c) b))"
proof (induction b arbitrary: l buf)
  case (Cons c b)
  show ?case
  proof (cases "l < IRCD_BUFSIZE - 2")
    case True
    then have "IRCD_BUFSIZE - 2 - l = Suc (IRCD_BUFSIZE - 2 - Suc l)" by simp
    then show ?thesis using Cons True by simp
  next
    case False
    then show ?thesis using Cons by simp
  qed
qed simp

lemma scan_block_eols:
  assumes "r = [] \<or> IsEol (hd r)"
  shows "snd (scan_block r l 0 buf) = (l, eols r, buf)"
proof (cases r)
  case (Cons c r1)
  then show ?thesis using assms by (cases r1) (auto simp: eols_def)
qed (simp add: eols_def)

lemma eols_eq_0: "eols r = 0 \<longleftrightarrow> r = [] \<or> \<not> IsEol (hd r)"
  by (cases r) (auto simp: eols_def)

lemma dropWhile_hd: "dropWhile P b = [] \<or> \<not> P (hd (dropWhile P b))"
  using hd_dropWhile by blast

lemma extract_one_line_ok:
  assumes "recv_ok ext s"
  shows "\<exists>buf s'. extract_one_line s = Inr (fst (next_line (recv_bytes s)), buf, s') \<and> recv_ok ext s' \<and>
    recv_bytes s' = snd (snd (next_line (recv_bytes s))) \<and>
    (fst (next_line (recv_bytes s)) \<noteq> 0 \<longrightarrow> buf = fst (snd (next_line (recv_bytes s))))"
proof -
  obtain p q where s: "s = (p, q)" by (cases s)
  have r: "refs_ok ext p (blocks q)" and ok: "queue_ok ext p q"
    using assms s by (auto simp: recv_ok_def queue_ok_def)
  have "\<forall>a \<in> set (blocks q). mem p a \<noteq> None"
    using refs_okD [OF r] by (metis add_gr_0 count_list_0_iff neq0_conv option.distinct(1))
  moreover have "blocks q \<noteq> [] \<Longrightarrow> pos q \<le> length (bytes_at p (hd (blocks q)))"
    using ok by (auto simp: queue_ok_def split: list.splits)
  ultimately have sc: "scan_blocks p (blocks q) (pos q) 0 0 [] = Inr (snd (scan_block (recv_bytes s) 0 0 []))"
    using s by (simp add: scan_blocks_bytes recv_bytes_def q_bytes_def)
  let ?l = "takeWhile (\<lambda>c. \<not> IsEol c) (recv_bytes s)" and ?r = "dropWhile (\<lambda>c. \<not> IsEol c) (recv_bytes s)"
  have "snd (scan_block (recv_bytes s) 0 0 []) = (length ?l, eols ?r, take (IRCD_BUFSIZE - 2) ?l)"
    by (subst scan_block_line)
      (use scan_block_eols [of ?r] dropWhile_hd [of "\<lambda>c. \<not> IsEol c" "recv_bytes s"] in simp)
  note sc = sc [unfolded this]
  have z: "eols ?r = 0 \<longleftrightarrow> ?r = []"
    using dropWhile_hd [of "\<lambda>c. \<not> IsEol c" "recv_bytes s"] eols_eq_0 [of ?r] by blast
  have d: "\<exists>s'. recv_delete n s = Inr s' \<and> recv_ok ext s' \<and> recv_bytes s' = drop n (recv_bytes s)" for n
    using recvq.delete_law [OF assms] .
  show ?thesis
  proof (cases "?r = []")
    case True
    then show ?thesis using d [of 0] sc s z
      by (auto simp: extract_one_line_def next_line_def recv_delete_def)
  next
    case False
    have "drop (length ?l + eols ?r) (recv_bytes s) = drop (eols ?r) ?r"
      by (metis add.commute drop_drop dropWhile_eq_drop)
    then show ?thesis using d [of "length ?l + eols ?r"] sc s z False
      by (auto simp: extract_one_line_def next_line_def recv_delete_def Let_def)
  qed
qed

lemma next_line_shrinks:
  assumes "fst (next_line b) \<noteq> 0"
  shows "length (snd (snd (next_line b))) < length b"
proof -
  let ?l = "takeWhile (\<lambda>c. \<not> IsEol c) b" and ?r = "dropWhile (\<lambda>c. \<not> IsEol c) b"
  have "length b = length ?l + length ?r" by (metis length_append takeWhile_dropWhile_id)
  moreover have "0 < length ?l" using assms by (auto simp: next_line_def Let_def split: if_splits)
  ultimately have "length (drop k ?r) < length b" for k unfolding length_drop by linarith
  then show ?thesis using assms by (simp add: next_line_def Let_def split: if_splits)
qed

section \<open>The loops on the byte sequence\<close>

definition kept :: "'a conn_scheme \<Rightarrow> 'a conn_scheme \<Rightarrow> char list \<Rightarrow> char list" where
  "kept c c' b = (if IsClosing c' \<and> \<not> IsClosing c then [] else b)"

lemma length_kept: "length (kept c c' b) \<le> length b"
  by (simp add: kept_def)

lemma next_line_kept: "next_line b = (n, line, b1) \<Longrightarrow> 0 < n \<Longrightarrow> length (kept c c' b1) < length b"
  using next_line_shrinks [of b] length_kept [of c c' b1] by simp

fun unknown_feed :: "'a parser \<Rightarrow> nat \<Rightarrow> 'a conn_scheme \<Rightarrow> char list \<Rightarrow> loop_exit \<times> 'a conn_scheme \<times> char list" where
  "unknown_feed parse 0 c b = (if IsDefunct c then Return else Break, c, b)"
| "unknown_feed parse (Suc n) c b =
    (if IsDefunct c then (Return, c, b)
     else
       (case next_line b of (dolen, line, b1) \<Rightarrow>
          if dolen = 0 then (Break, c, b1)
          else
            (let c' = client_dopacket parse line c
             in if \<not> IsUnknown c' then (Break, c', kept c c' b1) else unknown_feed parse n c' (kept c c' b1))))"

function server_feed :: "'a parser \<Rightarrow> 'a conn_scheme \<Rightarrow> char list \<Rightarrow> 'a conn_scheme \<times> char list" where
  "server_feed parse c b =
    (if IsDefunct c then (c, b)
     else
       (case next_line b of (dolen, line, b1) \<Rightarrow>
          if dolen = 0 then (c, b1)
          else server_feed parse (client_dopacket parse line c) (kept c (client_dopacket parse line c) b1)))"
  by pat_completeness auto
termination
  by (relation "measure (\<lambda>(parse, c, b). length b)") (auto intro: next_line_kept [OF sym])

declare server_feed.simps [simp del]

function client_feed :: "'a parser \<Rightarrow> bool \<Rightarrow> 'a conn_scheme \<Rightarrow> char list \<Rightarrow> 'a conn_scheme \<times> char list" where
  "client_feed parse checkflood c b =
    (if IsDefunct c then (c, b)
     else if checkflood \<and> allow_read c \<le> sent_parsed c then (c, b)
     else
       (case next_line b of (dolen, line, b1) \<Rightarrow>
          if dolen = 0 then (c, b1)
          else
            (let c' = client_dopacket parse line c
             in client_feed parse checkflood (c'\<lparr>sent_parsed := sent_parsed c' + 1\<rparr>) (kept c c' b1))))"
  by pat_completeness auto
termination
  by (relation "measure (\<lambda>(parse, f, c, b). length b)") (auto intro: next_line_kept [OF sym])

declare client_feed.simps [simp del]

definition queued_feed :: "'a parser \<Rightarrow> bool \<Rightarrow> 'a conn_scheme \<Rightarrow> char list \<Rightarrow> 'a conn_scheme \<times> char list" where
  "queued_feed parse no_oper_flood c0 b0 =
    (case (if IsUnknown c0 then unknown_feed parse MAX_FLOOD c0 b0 else (Break, c0, b0)) of
       (Return, c, b) \<Rightarrow> (c, b)
     | (Break, c, b) \<Rightarrow>
         if IsServer c \<or> IsConnecting c \<or> IsHandshake c then server_feed parse c b
         else if IsClient c then client_feed parse (needs_flood_check no_oper_flood c) c b
         else (c, b))"

text \<open>A state of the queue that stands for a byte sequence.\<close>

definition holds :: "(addr \<Rightarrow> nat) \<Rightarrow> pool \<times> dbuf_queue \<Rightarrow> char list \<Rightarrow> bool" where
  "holds ext s b \<longleftrightarrow> recv_ok ext s \<and> recv_bytes s = b"

lemma holds_extract:
  assumes "holds ext s b" "next_line b = (n, line, b1)"
  obtains buf s1 where "extract_one_line s = Inr (n, buf, s1)" "holds ext s1 b1" "n \<noteq> 0 \<longrightarrow> buf = line"
  using extract_one_line_ok [of ext s] assms by (auto simp: holds_def)

lemma holds_close:
  assumes "holds ext s b"
  obtains s' where "close_recvq c c' s = Inr s'" "holds ext s' (kept c c' b)"
proof (cases "IsClosing c' \<and> \<not> IsClosing c")
  case True
  obtain s' where "recv_delete (dbuf_length (snd s)) s = Inr s'" "recv_ok ext s'" "recv_bytes s' = []"
    using recvq.clear_empties [of ext s] assms by (auto simp: holds_def)
  then show ?thesis using that [of s'] True
    by (simp add: close_recvq_def kept_def holds_def recv_delete_def dbuf_clear_def)
next
  case False
  then have "close_recvq c c' s = Inr s" "kept c c' b = b" by (auto simp: close_recvq_def kept_def)
  then show ?thesis using that [of s] assms by simp
qed

lemma unknown_loop_feed:
  assumes "holds ext s b" "i + n = MAX_FLOOD"
  shows "\<exists>s'. unknown_loop parse i c s = Inr (fst (unknown_feed parse n c b), fst (snd (unknown_feed parse n c b)), s') \<and>
    holds ext s' (snd (snd (unknown_feed parse n c b)))"
  using assms
proof (induction n arbitrary: i c s b)
  case 0
  then show ?case by (simp add: unknown_loop.simps)
next
  case (Suc n)
  obtain d line b1 where l: "next_line b = (d, line, b1)" by (cases "next_line b") auto
  obtain buf s1 where e: "extract_one_line s = Inr (d, buf, s1)" "holds ext s1 b1" "d \<noteq> 0 \<longrightarrow> buf = line"
    by (rule holds_extract [OF Suc.prems(1) l])
  let ?c = "client_dopacket parse line c"
  obtain s2 where k: "close_recvq c ?c s1 = Inr s2" "holds ext s2 (kept c ?c b1)"
    by (rule holds_close [OF e(2)])
  show ?case using Suc.IH [OF k(2), of "Suc i" ?c] Suc.prems l e k
    by (subst unknown_loop.simps) (auto simp: Let_def)
qed

lemma server_loop_feed:
  "holds ext s b \<Longrightarrow> \<exists>s'. server_loop parse c s = Some (Inr (fst (server_feed parse c b), s')) \<and>
    holds ext s' (snd (server_feed parse c b))"
proof (induction parse c b arbitrary: s rule: server_feed.induct)
  case (1 parse c b)
  obtain d line b1 where l: "next_line b = (d, line, b1)" by (cases "next_line b") auto
  obtain buf s1 where e: "extract_one_line s = Inr (d, buf, s1)" "holds ext s1 b1" "d \<noteq> 0 \<longrightarrow> buf = line"
    by (rule holds_extract [OF "1.prems" l])
  let ?c = "client_dopacket parse line c"
  obtain s2 where k: "close_recvq c ?c s1 = Inr s2" "holds ext s2 (kept c ?c b1)"
    by (rule holds_close [OF e(2)])
  show ?case
  proof (cases "IsDefunct c \<or> d = 0")
    case True
    then show ?thesis using "1.prems" l e(1,2)
      by (auto simp: server_loop.simps [of _ c s] server_feed.simps [of _ c b])
  next
    case False
    then show ?thesis using "1.IH" [OF _ l [symmetric] refl _ k(2)] l e(1,3) k(1)
      by (simp add: server_loop.simps [of _ c s] server_feed.simps [of _ c b] Let_def)
  qed
qed

lemma client_loop_feed:
  "holds ext s b \<Longrightarrow> \<exists>s'. client_loop parse f c s = Some (Inr (fst (client_feed parse f c b), s')) \<and>
    holds ext s' (snd (client_feed parse f c b))"
proof (induction parse f c b arbitrary: s rule: client_feed.induct)
  case (1 parse f c b)
  obtain d line b1 where l: "next_line b = (d, line, b1)" by (cases "next_line b") auto
  obtain buf s1 where e: "extract_one_line s = Inr (d, buf, s1)" "holds ext s1 b1" "d \<noteq> 0 \<longrightarrow> buf = line"
    by (rule holds_extract [OF "1.prems" l])
  let ?c = "client_dopacket parse line c"
  obtain s2 where k: "close_recvq c ?c s1 = Inr s2" "holds ext s2 (kept c ?c b1)"
    by (rule holds_close [OF e(2)])
  show ?case
  proof (cases "IsDefunct c \<or> (f \<and> allow_read c \<le> sent_parsed c) \<or> d = 0")
    case True
    then show ?thesis using "1.prems" l e(1,2)
      by (auto simp: client_loop.simps [of _ _ c s] client_feed.simps [of _ _ c b])
  next
    case False
    then show ?thesis using "1.IH" [OF _ _ l [symmetric] refl _ refl k(2)] l e(1,3) k(1)
      by (auto simp: client_loop.simps [of _ _ c s] client_feed.simps [of _ _ c b] Let_def)
  qed
qed

lemma parse_client_queued_feed:
  assumes "holds ext s b"
  shows "\<exists>s'. parse_client_queued parse nof c s = Some (Inr (fst (queued_feed parse nof c b), s')) \<and>
    holds ext s' (snd (queued_feed parse nof c b))"
proof (cases "IsUnknown c")
  case False
  then show ?thesis
    using assms server_loop_feed [OF assms, of parse c]
      client_loop_feed [OF assms, of parse "needs_flood_check nof c" c]
    by (simp add: parse_client_queued_def queued_feed_def)
next
  case True
  obtain x c1 b1 where u: "unknown_feed parse MAX_FLOOD c b = (x, c1, b1)"
    by (cases "unknown_feed parse MAX_FLOOD c b") auto
  obtain s1 where s1: "unknown_loop parse 0 c s = Inr (x, c1, s1)" "holds ext s1 b1"
    using unknown_loop_feed [OF assms, of 0 MAX_FLOOD parse c] u by auto
  show ?thesis
    using True u s1 server_loop_feed [OF s1(2), of parse c1]
      client_loop_feed [OF s1(2), of parse "needs_flood_check nof c1" c1]
    by (cases x) (simp_all add: parse_client_queued_def queued_feed_def)
qed

section \<open>Flood control\<close>




lemma flood_penalty_fields [simp]:
  "status (flood_penalty c) = status c" "flags (flood_penalty c) = flags c"
  "umodes (flood_penalty c) = umodes c" "allow_read (flood_penalty c) = allow_read c"
  "recv_messages (flood_penalty c) = recv_messages c"
  by (simp_all add: flood_penalty_def Let_def)


section \<open>Properties\<close>

text \<open>C23: When the receive queue starts with a line and its terminator (at most two end-of-line bytes),
  \<open>extract_one_line\<close> returns the line, cut to 510 bytes, and its length, removes exactly the line and
  the terminator from the queue, however the bytes are spread over the blocks, and keeps the queue sound.\<close>

theorem extract_one_line_takes_first_line:
  assumes "recv_ok ext s" "recv_bytes s = line @ eol @ rest" "\<forall>c \<in> set line. \<not> IsEol c"
    "\<forall>c \<in> set eol. IsEol c" "length eol = 2 \<or> length eol = 1 \<and> (rest = [] \<or> \<not> IsEol (hd rest))"
    "line \<noteq> []"
  shows "\<exists>s'. extract_one_line s = Inr (min (length line) 510, take 510 line, s') \<and> recv_ok ext s' \<and>
    recv_bytes s' = rest"
proof -
  obtain e es where eol: "eol = e # es" "IsEol e" using assms(4,5) by (cases eol) auto
  have "takeWhile (\<lambda>c. \<not> IsEol c) (recv_bytes s) = line" "dropWhile (\<lambda>c. \<not> IsEol c) (recv_bytes s) = eol @ rest"
    using assms(2,3) eol by (auto simp: takeWhile_append dropWhile_append)
  moreover have "eols (eol @ rest) = length eol"
    using assms(4,5) eol by (cases es; cases rest) (auto simp: eols_def)
  ultimately have "next_line (recv_bytes s) = (min (length line) 510, take 510 line, rest)"
    using eol by (simp add: next_line_def IRCD_BUFSIZE_def)
  then show ?thesis using extract_one_line_ok [OF assms(1)] assms(6) by fastforce
qed

abbreviation empty_pool :: pool where
  "empty_pool \<equiv> \<lparr>mem = (\<lambda>_. None), nextb = 0\<rparr>"

lemma recv_put_fresh:
  "\<exists>s. recv_put xs (empty_pool, empty_queue) = Inr s \<and> recv_ok (\<lambda>_. 0) s \<and> recv_bytes s = xs"
  using recvq.put_law [of "\<lambda>_. 0" "(empty_pool, empty_queue)" xs]
  by (simp add: recv_ok_empty refs_ok_def recv_bytes_def) (simp add: q_bytes_def empty_queue_def)

theorem extract_one_line_takes_first_line_witness:
  "\<exists>s s'. recv_put (''PING'' @ [CHR 0x0D, CHR 0x0A] @ ''X'') (empty_pool, empty_queue) = Inr s \<and>
     extract_one_line s = Inr (4, ''PING'', s') \<and> recv_bytes s' = ''X''"
proof -
  let ?b = "''PING'' @ [CHR 0x0D, CHR 0x0A] @ ''X''"
  obtain s where s: "recv_put ?b (empty_pool, empty_queue) = Inr s" "recv_ok (\<lambda>_. 0) s" "recv_bytes s = ?b"
    using recv_put_fresh by blast
  have "\<exists>s'. extract_one_line s = Inr (min (length ''PING'') 510, take 510 ''PING'', s') \<and>
      recv_ok (\<lambda>_. 0) s' \<and> recv_bytes s' = ''X''"
    by (rule extract_one_line_takes_first_line [OF s(2,3)]) (simp_all add: cstr_simps)
  then show ?thesis using s(1) by auto
qed

text \<open>C17: \<open>parse_client_queued\<close> ends, never reads a released block, and does to the connection and the
  queued bytes what the loops over the plain byte sequence do: up to \<open>MAX_FLOOD\<close> lines of an unregistered
  connection, all complete lines of a server, and the lines the flood limit allows of a client.\<close>

theorem parse_client_queued_refines_byte_stream:
  assumes "recv_ok ext s"
  shows "\<exists>s'. parse_client_queued parse no_oper_flood c s =
      Some (Inr (fst (queued_feed parse no_oper_flood c (recv_bytes s)), s')) \<and> recv_ok ext s' \<and>
    recv_bytes s' = snd (queued_feed parse no_oper_flood c (recv_bytes s))"
  using parse_client_queued_feed [of ext s "recv_bytes s" parse no_oper_flood c] assms
  by (simp add: holds_def)

definition sample_conn :: "client_status \<Rightarrow> conn" where
  "sample_conn st = \<lparr>status = st, flags = FLAGS_FLOODDONE, umodes = 0, allow_read = 5, sent_parsed = 5, recv_messages = 0,
     recv_nbytes = 0, me_messages = 0, me_nbytes = 0, lasttime = 0, since = 0\<rparr>"

theorem parse_client_queued_refines_byte_stream_witness:
  "\<exists>s s'. recv_put ''NICK x'' (empty_pool, empty_queue) = Inr s \<and>
     parse_client_queued (\<lambda>l c. c) False (sample_conn STAT_ME) s = Some (Inr (sample_conn STAT_ME, s')) \<and>
     recv_bytes s' = ''NICK x''"
proof -
  obtain s where s: "recv_put ''NICK x'' (empty_pool, empty_queue) = Inr s" "recv_ok (\<lambda>_. 0) s"
    "recv_bytes s = ''NICK x''" using recv_put_fresh by blast
  have "queued_feed (\<lambda>l c. c) False (sample_conn STAT_ME) b = (sample_conn STAT_ME, b)" for b
    by (simp add: queued_feed_def sample_conn_def IsUnknown_def IsServer_def IsConnecting_def
        IsHandshake_def IsClient_def)
  then show ?thesis
    using s parse_client_queued_refines_byte_stream [OF s(2), of "\<lambda>l c. c" False "sample_conn STAT_ME"] by auto
qed

lemma next_line_crlf:
  assumes "\<forall>c \<in> set l. \<not> IsEol c"
  shows "next_line (l @ CHR 0x0D # CHR 0x0A # r) = (min (length l) 510, take 510 l, r)"
  using assms by (simp add: next_line_def takeWhile_append dropWhile_append eols_def IRCD_BUFSIZE_def cstr_simps)

lemma next_line_partial: "\<forall>c \<in> set r. \<not> IsEol c \<Longrightarrow> next_line r = (0, [], r)"
  by (simp add: next_line_def)

definition crlf :: "string \<Rightarrow> string" where
  "crlf l = l @ [CHR 0x0D, CHR 0x0A]"

lemma server_feed_lines:
  assumes "\<forall>l \<in> set ls. l \<noteq> [] \<and> length l \<le> 510 \<and> (\<forall>c \<in> set l. \<not> IsEol c)" "\<forall>c \<in> set r. \<not> IsEol c"
    "\<forall>k \<le> length ls. \<not> IsDefunct (fold (client_dopacket parse) (take k ls) c)"
  shows "server_feed parse c (concat (map crlf ls) @ r) = (fold (client_dopacket parse) ls c, r)"
  using assms
proof (induction ls arbitrary: c)
  case Nil
  then show ?case by (simp add: server_feed.simps next_line_partial)
next
  case (Cons l ls)
  let ?c = "client_dopacket parse l c"
  have nd: "\<not> IsDefunct c" "\<not> IsDefunct ?c" using Cons.prems(3) [rule_format, of 0] Cons.prems(3) [rule_format, of 1] by auto
  have "\<not> IsClosing ?c" using nd(2) by (auto simp: IsClosing_def IsDefunct_def flag_simps)
  then have k: "kept c ?c b = b" for b by (simp add: kept_def)
  have nl: "next_line (concat (map crlf (l # ls)) @ r) = (length l, l, concat (map crlf ls) @ r)"
    using Cons.prems(1) next_line_crlf [of l "concat (map crlf ls) @ r"] by (simp add: crlf_def)
  have "\<not> IsDefunct (fold (client_dopacket parse) (take k ls) ?c)" if "k \<le> length ls" for k
    using Cons.prems(3) [rule_format, of "Suc k"] that by simp
  then have "server_feed parse ?c (concat (map crlf ls) @ r) = (fold (client_dopacket parse) ls ?c, r)"
    using Cons.IH [of ?c] Cons.prems(1,2) by auto
  then show ?case using nl nd(1) k Cons.prems(1) by (subst server_feed.simps) simp
qed

text \<open>A server's complete lines reach the parser in the order they were sent, each exactly once,
  however they were cut into reads, as long as no handler makes the connection defunct; an unfinished line
  stays in the queue.\<close>

lemma server_lines_parsed_in_order:
  assumes "recv_ok ext s" "run_steps recv_put pieces s = Inr s1"
    "recv_bytes s @ concat pieces = concat (map crlf ls) @ rest"
    "IsServer c" "\<forall>l \<in> set ls. l \<noteq> [] \<and> length l \<le> 510 \<and> (\<forall>x \<in> set l. \<not> IsEol x)"
    "\<forall>x \<in> set rest. \<not> IsEol x"
    "\<forall>k \<le> length ls. \<not> IsDefunct (fold (client_dopacket parse) (take k ls) c)"
  shows "\<exists>s'. parse_client_queued parse nof c s1 = Some (Inr (fold (client_dopacket parse) ls c, s')) \<and>
    recv_ok ext s' \<and> recv_bytes s' = rest"
proof -
  have h: "holds ext s1 (concat (map crlf ls) @ rest)"
    using recvq.put_all_contents [OF assms(1), of pieces] assms(2,3) by (auto simp: holds_def)
  have "queued_feed parse nof c (concat (map crlf ls) @ rest) = (fold (client_dopacket parse) ls c, rest)"
    using assms(4) server_feed_lines [OF assms(5-7)] by (simp add: queued_feed_def IsServer_def IsUnknown_def)
  then show ?thesis using parse_client_queued_feed [OF h, of parse nof c] by (simp add: holds_def)
qed

text \<open>C25: A line without text ends the loop: when the next byte in the queue is an end of line,
  \<open>parse_client_queued\<close> drops the blank line and returns without parsing, and the complete lines
  behind it wait for the next call.\<close>

theorem blank_line_ends_the_loop:
  assumes "recv_ok ext s" "recv_bytes s = [CHR 0x0A] @ crlf l @ rest" "l \<noteq> []" "\<not> IsEol (hd l)"
    "IsServer c" "\<not> IsDefunct c"
  shows "\<exists>s'. parse_client_queued parse nof c s = Some (Inr (c, s')) \<and> recv_ok ext s' \<and>
    recv_bytes s' = crlf l @ rest"
proof -
  have "next_line (recv_bytes s) = (0, [], crlf l @ rest)"
    using assms(2-4) by (cases l) (simp_all add: next_line_def eols_def crlf_def cstr_simps)
  then have "queued_feed parse nof c (recv_bytes s) = (c, crlf l @ rest)"
    using assms(5,6) by (simp add: queued_feed_def IsServer_def IsUnknown_def server_feed.simps)
  then show ?thesis using parse_client_queued_feed [of ext s "recv_bytes s" parse nof c] assms(1)
    by (simp add: holds_def)
qed

lemma sample_not_defunct: "\<not> IsDefunct (sample_conn st)"
  by (simp add: IsDefunct_def sample_conn_def has_flag_def FLAGS_FLOODDONE_def FLAGS_DEADSOCKET_def
      FLAGS_CLOSING_def FLAGS_KILLED_def)

theorem blank_line_ends_the_loop_witness:
  "\<exists>s s'. recv_put ([CHR 0x0A] @ crlf ''PING'' @ []) (empty_pool, empty_queue) = Inr s \<and>
     parse_client_queued (\<lambda>l c. c) False (sample_conn STAT_SERVER) s = Some (Inr (sample_conn STAT_SERVER, s')) \<and>
     recv_bytes s' = crlf ''PING''"
proof -
  let ?b = "[CHR 0x0A] @ crlf ''PING'' @ []"
  obtain s where s: "recv_put ?b (empty_pool, empty_queue) = Inr s" "recv_ok (\<lambda>_. 0) s" "recv_bytes s = ?b"
    using recv_put_fresh by blast
  have "\<exists>s'. parse_client_queued (\<lambda>l c. c) False (sample_conn STAT_SERVER) s = Some (Inr (sample_conn STAT_SERVER, s')) \<and>
      recv_ok (\<lambda>_. 0) s' \<and> recv_bytes s' = crlf ''PING'' @ []"
    by (rule blank_line_ends_the_loop [OF s(2,3)])
      (simp_all add: sample_not_defunct cstr_simps, simp add: sample_conn_def IsServer_def)
  then show ?thesis using s(1) by auto
qed



definition is_link :: "'a conn_scheme \<Rightarrow> bool" where
  "is_link c \<longleftrightarrow> IsServer c \<or> IsHandshake c \<or> IsConnecting c"

lemma touch_times_status [simp]: "status (touch_times now c) = status c"
  by (simp add: touch_times_def Let_def)

lemma read_loop_bounded:
  assumes "recv_ok ext s" "is_link c \<or> dbuf_length (snd s) \<le> recvq"
  shows "\<exists>out c' s'. read_loop parse nof recvq now rs c s = Some (Inr (out, c', s')) \<and> recv_ok ext s' \<and>
    (out = Reselect \<longrightarrow> is_link c' \<or> dbuf_length (snd s') \<le> recvq)"
  using assms
proof (induction rs arbitrary: c s)
  case (Cons r rs)
  show ?case
  proof (cases r)
    case (Received xs)
    obtain s1 where s1: "dbuf_put (snd s) xs (fst s) = Inr s1" "recv_ok ext s1"
      using recvq.put_law [OF Cons.prems(1), of xs] by (auto simp: recv_put_def)
    obtain c' s2 where p: "parse_client_queued parse nof (touch_times now c) s1 = Some (Inr (c', s2))" "recv_ok ext s2"
      using parse_client_queued_feed [of ext s1 "recv_bytes s1" parse nof "touch_times now c"] s1(2)
      by (auto simp: holds_def)
    then show ?thesis using Received s1 Cons.IH [OF p(2), of c'] by (auto simp: is_link_def)
  qed (use Cons.prems in auto)
qed auto

text \<open>C24: The read callback ends, keeps the receive queue sound and enforces the receive limit: if a
  client's queue was within the limit when it was called, then either the callback reports excess flood (or a dead
  or defunct connection) or the queue is within the limit again when it asks for more data.\<close>

theorem read_packet_bounds_recvq:
  assumes "recv_ok ext s" "is_link c \<or> dbuf_length (snd s) \<le> recvq"
  shows "\<exists>out c' s'. read_packet parse nof recvq now rs c s = Some (Inr (out, c', s')) \<and> recv_ok ext s' \<and>
    (out = Reselect \<longrightarrow> is_link c' \<or> dbuf_length (snd s') \<le> recvq)"
  using read_loop_bounded [OF assms, of parse nof now rs] assms by (auto simp: read_packet_def)

theorem read_packet_bounds_recvq_witness:
  "\<exists>out c' s'. read_packet (\<lambda>l c. c) False 3 7 [Received ''NICK''] (sample_conn STAT_CLIENT) (empty_pool, empty_queue)
     = Some (Inr (out, c', s')) \<and> (out = Reselect \<longrightarrow> is_link c' \<or> dbuf_length (snd s') \<le> 3)"
proof -
  have "recv_ok (\<lambda>_. 0) (empty_pool, empty_queue)" by (simp add: recv_ok_empty refs_ok_def)
  moreover have "dbuf_length (snd (empty_pool, empty_queue)) \<le> 3" by (simp add: dbuf_length_def empty_queue_def)
  ultimately show ?thesis
    using read_packet_bounds_recvq [of "\<lambda>_. 0" "(empty_pool, empty_queue)" "sample_conn STAT_CLIENT" 3
        "\<lambda>l c. c" False 7 "[Received ''NICK'']"] by blast
qed

end
