(* ===== verification/Hash.thy ===== *)
theory Hash
  imports IrcString Dlink "HOL-Library.Multiset"
begin

text \<open>
  The hash tables of \<open>src/hash.c\<close>: the string hash, the chains of the id, client, channel and
  user@host tables with their insertion, removal and self-organising search (a hit moves to the front
  of its chain), and the per-user@host connection counters. A chain is the sequence of the entries its
  links run through; entries of the first three tables are addresses whose names are read from a store.

  The locale \<open>hash_table\<close> is the interface of a chained table: entries hash to the chain they are in,
  and the comparison of keys respects the hash. What lookup returns after insertion, removal and
  lookup is proved there once and interpreted for each of the tables.
\<close>

section \<open>strhash\<close>

definition FNV1_32_INIT :: u32 where "FNV1_32_INIT = 0x811c9dc5"
definition FNV1_32_BITS :: nat where "FNV1_32_BITS = 16"
definition HASHSIZE :: nat where "HASHSIZE = 2 ^ FNV1_32_BITS"

definition strhash_step :: "u32 \<Rightarrow> u32 \<Rightarrow> char \<Rightarrow> u32" where
  "strhash_step hashf_xor_key hval c =
    (let hval = hval + (push_bit 1 hval + push_bit 4 hval + push_bit 7 hval + push_bit 8 hval + push_bit 24 hval)
     in hval XOR (of_char (ToLower c) XOR hashf_xor_key))"

definition strhash :: "u32 \<Rightarrow> string \<Rightarrow> u32" where
  "strhash hashf_xor_key name =
    (if name = [] then 0
     else
       (let hval = foldl (strhash_step hashf_xor_key) FNV1_32_INIT name
        in drop_bit FNV1_32_BITS hval XOR (hval AND (push_bit FNV1_32_BITS 1 - 1))))"

section \<open>Chains\<close>

fun chain_del :: "'a \<Rightarrow> 'a list \<Rightarrow> 'a list" where
  "chain_del x [] = []"
| "chain_del x (tmp # rest) = (if tmp = x then rest else tmp # chain_del x rest)"

text \<open>The walk of a search: the entry found and the chain without it.\<close>

fun chain_walk :: "('a \<Rightarrow> bool) \<Rightarrow> 'a list \<Rightarrow> ('a \<times> 'a list) option" where
  "chain_walk hit [] = None"
| "chain_walk hit (x # rest) =
    (if hit x then Some (x, rest)
     else (case chain_walk hit rest of None \<Rightarrow> None | Some (y, rest') \<Rightarrow> Some (y, x # rest')))"

definition chain_find :: "('a \<Rightarrow> bool) \<Rightarrow> 'a list \<Rightarrow> 'a option \<times> 'a list" where
  "chain_find hit ch =
    (case ch of
       [] \<Rightarrow> (None, [])
     | x # rest \<Rightarrow>
         if hit x then (Some x, ch)
         else (case chain_walk hit rest of
                 None \<Rightarrow> (None, ch)
               | Some (y, rest') \<Rightarrow> (Some y, y # x # rest')))"

type_synonym 'a table = "u32 \<Rightarrow> 'a list"

section \<open>The tables\<close>

record name_host =
  nh_name :: string
  gcount :: int
  lcount :: int
  icount :: int

record user_host =
  uh_host :: string
  uh_list :: "name_host list"

record hash_tables =
  hashf_xor_key :: u32
  idTable :: "addr table"
  clientTable :: "addr table"
  channelTable :: "addr table"
  userhostTable :: "user_host table"

text \<open>What the tables read of the objects they link: names, ids and whether a client is a server.\<close>

record objects =
  cl_name :: "addr \<Rightarrow> string"
  cl_id :: "addr \<Rightarrow> string"
  cl_server :: "addr \<Rightarrow> bool"
  ch_name :: "addr \<Rightarrow> string"

definition hash_add_client :: "objects \<Rightarrow> addr \<Rightarrow> hash_tables \<Rightarrow> hash_tables" where
  "hash_add_client ob c t =
    (let hashv = strhash (hashf_xor_key t) (cl_name ob c)
     in t\<lparr>clientTable := (clientTable t)(hashv := c # clientTable t hashv)\<rparr>)"

definition hash_add_channel :: "objects \<Rightarrow> addr \<Rightarrow> hash_tables \<Rightarrow> hash_tables" where
  "hash_add_channel ob c t =
    (let hashv = strhash (hashf_xor_key t) (ch_name ob c)
     in t\<lparr>channelTable := (channelTable t)(hashv := c # channelTable t hashv)\<rparr>)"

definition hash_add_userhost :: "user_host \<Rightarrow> hash_tables \<Rightarrow> hash_tables" where
  "hash_add_userhost u t =
    (let hashv = strhash (hashf_xor_key t) (uh_host u)
     in t\<lparr>userhostTable := (userhostTable t)(hashv := u # userhostTable t hashv)\<rparr>)"

definition hash_add_id :: "objects \<Rightarrow> addr \<Rightarrow> hash_tables \<Rightarrow> hash_tables" where
  "hash_add_id ob c t =
    (let hashv = strhash (hashf_xor_key t) (cl_id ob c)
     in t\<lparr>idTable := (idTable t)(hashv := c # idTable t hashv)\<rparr>)"

definition hash_del_id :: "objects \<Rightarrow> addr \<Rightarrow> hash_tables \<Rightarrow> hash_tables" where
  "hash_del_id ob c t =
    (let hashv = strhash (hashf_xor_key t) (cl_id ob c)
     in t\<lparr>idTable := (idTable t)(hashv := chain_del c (idTable t hashv))\<rparr>)"

definition hash_del_client :: "objects \<Rightarrow> addr \<Rightarrow> hash_tables \<Rightarrow> hash_tables" where
  "hash_del_client ob c t =
    (let hashv = strhash (hashf_xor_key t) (cl_name ob c)
     in t\<lparr>clientTable := (clientTable t)(hashv := chain_del c (clientTable t hashv))\<rparr>)"

definition hash_del_userhost :: "user_host \<Rightarrow> hash_tables \<Rightarrow> hash_tables" where
  "hash_del_userhost u t =
    (let hashv = strhash (hashf_xor_key t) (uh_host u)
     in t\<lparr>userhostTable := (userhostTable t)(hashv := chain_del u (userhostTable t hashv))\<rparr>)"

definition hash_del_channel :: "objects \<Rightarrow> addr \<Rightarrow> hash_tables \<Rightarrow> hash_tables" where
  "hash_del_channel ob c t =
    (let hashv = strhash (hashf_xor_key t) (ch_name ob c)
     in t\<lparr>channelTable := (channelTable t)(hashv := chain_del c (channelTable t hashv))\<rparr>)"

definition hash_find_client :: "objects \<Rightarrow> string \<Rightarrow> hash_tables \<Rightarrow> addr option \<times> hash_tables" where
  "hash_find_client ob name t =
    (let hashv = strhash (hashf_xor_key t) name
     in case chain_find (\<lambda>c. irccmp name (cl_name ob c) = 0) (clientTable t hashv) of
          (r, ch) \<Rightarrow> (r, t\<lparr>clientTable := (clientTable t)(hashv := ch)\<rparr>))"

definition hash_find_id :: "objects \<Rightarrow> string \<Rightarrow> hash_tables \<Rightarrow> addr option \<times> hash_tables" where
  "hash_find_id ob name t =
    (let hashv = strhash (hashf_xor_key t) name
     in case chain_find (\<lambda>c. name = cl_id ob c) (idTable t hashv) of
          (r, ch) \<Rightarrow> (r, t\<lparr>idTable := (idTable t)(hashv := ch)\<rparr>))"

definition IRC_MAXSID :: nat where "IRC_MAXSID = 3"

definition hash_find_server :: "objects \<Rightarrow> string \<Rightarrow> hash_tables \<Rightarrow> addr option \<times> hash_tables" where
  "hash_find_server ob name t =
    (if IsDigit (deref name) \<and> length name = IRC_MAXSID then hash_find_id ob name t
     else
       (let hashv = strhash (hashf_xor_key t) name
        in case chain_find (\<lambda>c. cl_server ob c \<and> irccmp name (cl_name ob c) = 0) (clientTable t hashv) of
             (r, ch) \<Rightarrow> (r, t\<lparr>clientTable := (clientTable t)(hashv := ch)\<rparr>)))"

definition hash_find_channel :: "objects \<Rightarrow> string \<Rightarrow> hash_tables \<Rightarrow> addr option \<times> hash_tables" where
  "hash_find_channel ob name t =
    (let hashv = strhash (hashf_xor_key t) name
     in case chain_find (\<lambda>c. irccmp name (ch_name ob c) = 0) (channelTable t hashv) of
          (r, ch) \<Rightarrow> (r, t\<lparr>channelTable := (channelTable t)(hashv := ch)\<rparr>))"

definition hash_find_userhost :: "string \<Rightarrow> hash_tables \<Rightarrow> user_host option \<times> hash_tables" where
  "hash_find_userhost host t =
    (let hashv = strhash (hashf_xor_key t) host
     in case chain_find (\<lambda>u. irccmp host (uh_host u) = 0) (userhostTable t hashv) of
          (r, ch) \<Rightarrow> (r, t\<lparr>userhostTable := (userhostTable t)(hashv := ch)\<rparr>))"

section \<open>Connection counters of user@host\<close>

definition USERLEN :: nat where "USERLEN = 40"
definition HOSTLEN :: nat where "HOSTLEN = 63"

text \<open>After a successful search the entry found is the head of its chain, and after
  \<open>hash_add_userhost\<close> so is the new one; \<open>set_userhost\<close> writes that entry back after an update
  through the pointer returned.\<close>

definition set_userhost :: "u32 \<Rightarrow> user_host \<Rightarrow> hash_tables \<Rightarrow> hash_tables" where
  "set_userhost hashv u t = t\<lparr>userhostTable := (userhostTable t)(hashv := u # tl (userhostTable t hashv))\<rparr>"

definition find_or_add_userhost :: "string \<Rightarrow> hash_tables \<Rightarrow> user_host \<times> hash_tables" where
  "find_or_add_userhost host t =
    (case hash_find_userhost host t of
       (Some u, t') \<Rightarrow> (u, t')
     | (None, t') \<Rightarrow>
         (let u = \<lparr>uh_host = strlcpy_str host (HOSTLEN + 1), uh_list = []\<rparr>
          in (u, hash_add_userhost u t')))"

definition strip_ident :: "string \<Rightarrow> bool \<times> string" where
  "strip_ident user = (if deref user = CHR ''~'' then (False, tl user) else (True, user))"

text \<open>The walk over the names of a host; \<open>None\<close> when no name matches.\<close>

definition name_up :: "bool \<Rightarrow> bool \<Rightarrow> name_host \<Rightarrow> name_host" where
  "name_up hasident global n =
    (let n1 = n\<lparr>gcount := gcount n + 1\<rparr>
     in if global then n1
        else (let n2 = (if hasident then n1\<lparr>icount := icount n1 + 1\<rparr> else n1)
              in n2\<lparr>lcount := lcount n2 + 1\<rparr>))"

fun bump_name :: "bool \<Rightarrow> bool \<Rightarrow> string \<Rightarrow> name_host list \<Rightarrow> name_host list option" where
  "bump_name hasident global user [] = None"
| "bump_name hasident global user (n # ns) =
    (if irccmp user (nh_name n) = 0 then Some (name_up hasident global n # ns)
     else map_option ((#) n) (bump_name hasident global user ns))"

definition add_user_host :: "string \<Rightarrow> string \<Rightarrow> bool \<Rightarrow> hash_tables \<Rightarrow> hash_tables" where
  "add_user_host user0 host global t =
    (let (hasident, user) = strip_ident user0;
         (u, t1) = find_or_add_userhost host t;
         hashv = strhash (hashf_xor_key t1) (uh_host u)
     in case bump_name hasident global user (uh_list u) of
          Some ns \<Rightarrow> set_userhost hashv (u\<lparr>uh_list := ns\<rparr>) t1
        | None \<Rightarrow>
            (let n = \<lparr>nh_name = strlcpy_str user (USERLEN + 1), gcount = 1,
                      lcount = (if global then 0 else 1),
                      icount = (if \<not> global \<and> hasident then 1 else 0)\<rparr>
             in set_userhost hashv (u\<lparr>uh_list := n # uh_list u\<rparr>) t1))"

definition name_down :: "bool \<Rightarrow> bool \<Rightarrow> name_host \<Rightarrow> name_host" where
  "name_down hasident global n =
    (let n1 = (if 0 < gcount n then n\<lparr>gcount := gcount n - 1\<rparr> else n)
     in if global then n1
        else (let n2 = (if 0 < lcount n1 then n1\<lparr>lcount := lcount n1 - 1\<rparr> else n1)
              in if hasident \<and> 0 < icount n2 then n2\<lparr>icount := icount n2 - 1\<rparr> else n2))"

fun drop_name :: "bool \<Rightarrow> bool \<Rightarrow> string \<Rightarrow> name_host list \<Rightarrow> name_host list option" where
  "drop_name hasident global user [] = None"
| "drop_name hasident global user (n # ns) =
    (if irccmp user (nh_name n) = 0 then
       (let n' = name_down hasident global n
        in Some (if gcount n' = 0 \<and> lcount n' = 0 then ns else n' # ns))
     else map_option ((#) n) (drop_name hasident global user ns))"

definition delete_user_host :: "string \<Rightarrow> string \<Rightarrow> bool \<Rightarrow> hash_tables \<Rightarrow> hash_tables" where
  "delete_user_host user0 host global t =
    (let (hasident, user) = strip_ident user0
     in case hash_find_userhost host t of
          (None, t1) \<Rightarrow> t1
        | (Some u, t1) \<Rightarrow>
            (case drop_name hasident global user (uh_list u) of
               None \<Rightarrow> t1
             | Some ns \<Rightarrow>
                 (let hashv = strhash (hashf_xor_key t1) (uh_host u);
                      u' = u\<lparr>uh_list := ns\<rparr>;
                      t2 = set_userhost hashv u' t1
                  in if ns = [] then hash_del_userhost u' t2 else t2)))"

text \<open>The counters reported, \<open>None\<close> when they are left as the caller set them.\<close>

definition count_user_host :: "string \<Rightarrow> string \<Rightarrow> hash_tables \<Rightarrow> (int \<times> int \<times> int) option \<times> hash_tables" where
  "count_user_host user host t =
    (case hash_find_userhost host t of
       (None, t1) \<Rightarrow> (None, t1)
     | (Some u, t1) \<Rightarrow>
         (map_option (\<lambda>n. (gcount n, lcount n, icount n)) (find (\<lambda>n. irccmp user (nh_name n) = 0) (uh_list u)), t1))"

section \<open>The hash respects the comparison\<close>

lemma strhash_fold_case:
  assumes "irccmp s1 s2 = 0"
  shows "strhash k s1 = strhash k s2"
proof -
  have eq: "map ToLower s1 = map ToLower s2" using assms by (simp add: irccmp_zero_iff)
  have "foldl (strhash_step k) h s1 = foldl (strhash_step k) h s2" for h
    using eq
  proof (induction s1 arbitrary: s2 h)
    case (Cons c s1)
    then obtain d s3 where "s2 = d # s3" "ToLower c = ToLower d" "map ToLower s1 = map ToLower s3"
      by (cases s2) auto
    then show ?case using Cons.IH by (simp add: strhash_step_def)
  qed simp
  moreover have "s1 = [] \<longleftrightarrow> s2 = []" using eq by (cases s1; cases s2) auto
  ultimately show ?thesis by (simp add: strhash_def)
qed

lemma strhash_bound: "unat (strhash k s) < HASHSIZE"
proof -
  have m: "push_bit FNV1_32_BITS 1 - 1 = (mask 16 :: u32)"
    by (simp add: FNV1_32_BITS_def mask_eq_exp_minus_1)
  have "take_bit 16 (strhash k s) = strhash k s"
    unfolding strhash_def m
    by (rule bit_word_eqI) (auto simp: FNV1_32_BITS_def Let_def bit_simps dest: bit_imp_le_length)
  then have "unat (strhash k s) = take_bit 16 (unat (strhash k s))" by (metis unsigned_take_bit_eq)
  then show ?thesis using take_bit_nat_less_exp [of 16 "unat (strhash k s)"]
    by (simp add: HASHSIZE_def FNV1_32_BITS_def)
qed

section \<open>The interface of a chained table\<close>

lemma chain_walk_Some:
  "chain_walk hit ch = Some (y, ch') \<Longrightarrow> hit y \<and> mset ch = add_mset y (mset ch')"
  by (induction ch arbitrary: ch') (auto split: if_splits option.splits)

lemma chain_walk_None: "chain_walk hit ch = None \<longleftrightarrow> (\<forall>x \<in> set ch. \<not> hit x)"
  by (induction ch) (auto split: option.splits)

lemma chain_find_mset: "chain_find hit ch = (r, ch') \<Longrightarrow> mset ch' = mset ch"
  by (cases ch) (auto simp: chain_find_def split: if_splits option.splits dest!: chain_walk_Some)

lemma chain_find_result:
  assumes "chain_find hit ch = (r, ch')"
  shows "(r = None \<longleftrightarrow> (\<forall>x \<in> set ch. \<not> hit x)) \<and> (\<forall>x. r = Some x \<longrightarrow> x \<in> set ch \<and> hit x \<and> (\<exists>rest. ch' = x # rest))"
proof (cases ch)
  case (Cons x rest)
  show ?thesis
  proof (cases "hit x")
    case False
    show ?thesis
    proof (cases "chain_walk hit rest")
      case None
      moreover from None have "\<forall>x \<in> set rest. \<not> hit x" by (simp add: chain_walk_None)
      ultimately show ?thesis using assms Cons False by (auto simp: chain_find_def)
    next
      case (Some p)
      obtain y rest' where p: "p = (y, rest')" by fastforce
      have "hit y" "mset rest = add_mset y (mset rest')"
        using chain_walk_Some [of hit rest y rest'] Some p by simp_all
      then have "hit y" "y \<in> set rest" by (auto simp flip: set_mset_mset)
      then show ?thesis using assms Cons False Some p by (auto simp: chain_find_def)
    qed
  qed (use assms Cons in \<open>auto simp: chain_find_def\<close>)
qed (use assms in \<open>auto simp: chain_find_def\<close>)

lemma chain_del_remove1: "chain_del x ch = remove1 x ch"
  by (induction ch) auto

locale hash_table =
  fixes hash :: "'k \<Rightarrow> u32"
    and same :: "'k \<Rightarrow> 'k \<Rightarrow> bool"
    and key :: "'a \<Rightarrow> 'k"
  assumes same_hash: "same k1 k2 \<Longrightarrow> hash k1 = hash k2"
    and same_sym: "same k1 k2 \<Longrightarrow> same k2 k1"
    and same_trans: "same k1 k2 \<Longrightarrow> same k2 k3 \<Longrightarrow> same k1 k3"
begin

text \<open>A table holds a set of entries: each entry is in the chain of its key, once.\<close>

definition table_holds :: "'a table \<Rightarrow> 'a set \<Rightarrow> bool" where
  "table_holds t S \<longleftrightarrow> (\<forall>h. distinct (t h) \<and> set (t h) = {x \<in> S. hash (key x) = h})"

lemma holds_empty: "table_holds (\<lambda>_. []) {}"
  by (simp add: table_holds_def)

lemma holds_add: "table_holds t S \<Longrightarrow> x \<notin> S \<Longrightarrow>
    table_holds (t(hash (key x) := x # t (hash (key x)))) (insert x S)"
  by (auto simp: table_holds_def)

lemma holds_del: "table_holds t S \<Longrightarrow>
    table_holds (t(hash (key x) := chain_del x (t (hash (key x))))) (S - {x})"
  by (auto simp: table_holds_def chain_del_remove1)

lemma holds_find:
  assumes "table_holds t S" "chain_find hit (t h) = (r, ch)"
  shows "table_holds (t(h := ch)) S"
proof -
  have "mset ch = mset (t h)" by (rule chain_find_mset [OF assms(2)])
  then have "set ch = set (t h)" "distinct ch = distinct (t h)"
    by (metis set_mset_mset, metis mset_eq_imp_distinct_iff)
  then show ?thesis using assms(1) by (simp add: table_holds_def)
qed

lemma holds_replace:
  assumes "table_holds t S" "t (hash (key u)) = u # rest" "key v = key u" "v \<notin> S - {u}"
  shows "table_holds (t(hash (key u) := v # rest)) (insert v (S - {u}))"
proof -
  have at: "distinct (t h)" "set (t h) = {x \<in> S. hash (key x) = h}" for h
    using assms(1) by (auto simp: table_holds_def)
  have u: "u \<notin> set rest" "distinct rest" "insert u (set rest) = {x \<in> S. hash (key x) = hash (key u)}"
    using at [of "hash (key u)"] assms(2) by auto
  then have r: "set rest = {x \<in> S - {u}. hash (key x) = hash (key u)}" by blast
  have o: "set (t h) = {x \<in> insert v (S - {u}). hash (key x) = h}" if "h \<noteq> hash (key u)" for h
    unfolding at(2) using that assms(3) by auto
  have "v \<notin> set rest" using r assms(4) by simp
  moreover have "insert v (set rest) = {x \<in> insert v (S - {u}). hash (key x) = hash (key u)}"
    unfolding r using assms(3) by auto
  ultimately show ?thesis unfolding table_holds_def using at(1) u(2) o by simp
qed

text \<open>The keys of the entries differ, so that a lookup has one answer.\<close>

definition keys_differ :: "'a set \<Rightarrow> bool" where
  "keys_differ S \<longleftrightarrow> (\<forall>x \<in> S. \<forall>y \<in> S. same (key x) (key y) \<longrightarrow> x = y)"

lemma keys_differ_insert:
  "keys_differ S \<Longrightarrow> \<forall>y \<in> S. \<not> same (key x) (key y) \<Longrightarrow> keys_differ (insert x S)"
  by (auto simp: keys_differ_def dest: same_sym)

lemma find_iff:
  assumes "table_holds t S" "keys_differ S"
    "chain_find (\<lambda>x. P x \<and> same k (key x)) (t (hash k)) = (r, ch)"
  shows "r = Some x \<longleftrightarrow> x \<in> S \<and> P x \<and> same k (key x)"
proof -
  note res = chain_find_result [OF assms(3)]
  have iS: "y \<in> set (t (hash k)) \<longleftrightarrow> y \<in> S" if "same k (key y)" for y
    using assms(1) same_hash [OF that] by (auto simp: table_holds_def)
  show ?thesis
  proof
    assume "r = Some x"
    then show "x \<in> S \<and> P x \<and> same k (key x)" using res iS by blast
  next
    assume x: "x \<in> S \<and> P x \<and> same k (key x)"
    then have "r \<noteq> None" using res iS by blast
    then obtain y where "r = Some y" by blast
    then have y: "y \<in> S" "same k (key y)" using res iS by blast+
    then have "same (key x) (key y)" using x same_sym same_trans by blast
    then have "x = y" using assms(2) x y(1) by (auto simp: keys_differ_def)
    then show "r = Some x" using \<open>r = Some y\<close> by simp
  qed
qed

end

interpretation by_name: hash_table "strhash k" "\<lambda>a b. irccmp a b = 0" key for k key
  by unfold_locales (auto intro: strhash_fold_case irccmp_sym irccmp_trans)

interpretation by_id: hash_table "strhash k" "(=)" key for k key
  by unfold_locales auto

section \<open>Runs of table operations\<close>

datatype hash_op =
    AddClient addr | DelClient addr | FindClient string | FindServer string
  | AddId addr | DelId addr | FindId string
  | AddChannel addr | DelChannel addr | FindChannel string

fun hash_exec :: "objects \<Rightarrow> hash_op \<Rightarrow> hash_tables \<Rightarrow> c_error + hash_tables" where
  "hash_exec ob (AddClient c) t = Inr (hash_add_client ob c t)"
| "hash_exec ob (DelClient c) t = Inr (hash_del_client ob c t)"
| "hash_exec ob (FindClient n) t = Inr (snd (hash_find_client ob n t))"
| "hash_exec ob (FindServer n) t = Inr (snd (hash_find_server ob n t))"
| "hash_exec ob (AddId c) t = Inr (hash_add_id ob c t)"
| "hash_exec ob (DelId c) t = Inr (hash_del_id ob c t)"
| "hash_exec ob (FindId n) t = Inr (snd (hash_find_id ob n t))"
| "hash_exec ob (AddChannel c) t = Inr (hash_add_channel ob c t)"
| "hash_exec ob (DelChannel c) t = Inr (hash_del_channel ob c t)"
| "hash_exec ob (FindChannel n) t = Inr (snd (hash_find_channel ob n t))"

record hashed =
  h_clients :: "addr set"
  h_ids :: "addr set"
  h_channels :: "addr set"

text \<open>The sets of clients, ids and channels entered; a name or id may be entered only while no
  entry of the table has it.\<close>

fun hash_spec :: "objects \<Rightarrow> hash_op \<Rightarrow> hashed \<Rightarrow> hashed option" where
  "hash_spec ob (AddClient c) a =
    (if \<exists>x \<in> h_clients a. irccmp (cl_name ob c) (cl_name ob x) = 0 then None
     else Some (a\<lparr>h_clients := insert c (h_clients a)\<rparr>))"
| "hash_spec ob (DelClient c) a = Some (a\<lparr>h_clients := h_clients a - {c}\<rparr>)"
| "hash_spec ob (AddId c) a =
    (if \<exists>x \<in> h_ids a. cl_id ob c = cl_id ob x then None else Some (a\<lparr>h_ids := insert c (h_ids a)\<rparr>))"
| "hash_spec ob (DelId c) a = Some (a\<lparr>h_ids := h_ids a - {c}\<rparr>)"
| "hash_spec ob (AddChannel c) a =
    (if \<exists>x \<in> h_channels a. irccmp (ch_name ob c) (ch_name ob x) = 0 then None
     else Some (a\<lparr>h_channels := insert c (h_channels a)\<rparr>))"
| "hash_spec ob (DelChannel c) a = Some (a\<lparr>h_channels := h_channels a - {c}\<rparr>)"
| "hash_spec ob _ a = Some a"

definition tables_hold :: "objects \<Rightarrow> hash_tables \<Rightarrow> hashed \<Rightarrow> bool" where
  "tables_hold ob t a \<longleftrightarrow>
     by_name.table_holds (hashf_xor_key t) (cl_name ob) (clientTable t) (h_clients a) \<and>
     by_name.keys_differ (cl_name ob) (h_clients a) \<and>
     by_id.table_holds (hashf_xor_key t) (cl_id ob) (idTable t) (h_ids a) \<and>
     by_id.keys_differ (cl_id ob) (h_ids a) \<and>
     by_name.table_holds (hashf_xor_key t) (ch_name ob) (channelTable t) (h_channels a) \<and>
     by_name.keys_differ (ch_name ob) (h_channels a)"

lemma keys_differ_delete:
  "by_name.keys_differ key S \<Longrightarrow> by_name.keys_differ key (S - {x})"
  "by_id.keys_differ key' S' \<Longrightarrow> by_id.keys_differ key' (S' - {x'})"
  by (auto simp: by_name.keys_differ_def by_id.keys_differ_def)

lemma tables_hold_find:
  assumes "tables_hold ob t a"
  shows "tables_hold ob (snd (hash_find_client ob n t)) a" "tables_hold ob (snd (hash_find_id ob n t)) a"
    "tables_hold ob (snd (hash_find_channel ob n t)) a" "tables_hold ob (snd (hash_find_server ob n t)) a"
  using assms
  by (auto simp: tables_hold_def hash_find_client_def hash_find_id_def hash_find_channel_def
      hash_find_server_def Let_def split: prod.split intro: by_name.holds_find by_id.holds_find)

lemma hash_exec_simulates:
  assumes "tables_hold ob t a" "hash_spec ob x a = Some a'"
  shows "\<exists>t'. hash_exec ob x t = Inr t' \<and> tables_hold ob t' a'"
proof (cases x)
  case (AddClient c)
  then have n: "\<forall>y \<in> h_clients a. irccmp (cl_name ob c) (cl_name ob y) \<noteq> 0"
    "a' = a\<lparr>h_clients := insert c (h_clients a)\<rparr>" using assms(2) by (auto split: if_splits)
  then have "c \<notin> h_clients a" by fastforce
  then show ?thesis using assms(1) n AddClient
    by (auto simp: tables_hold_def hash_add_client_def Let_def
        intro: by_name.holds_add by_name.keys_differ_insert)
next
  case (AddId c)
  then have n: "\<forall>y \<in> h_ids a. cl_id ob c \<noteq> cl_id ob y"
    "a' = a\<lparr>h_ids := insert c (h_ids a)\<rparr>" using assms(2) by (auto split: if_splits)
  then have "c \<notin> h_ids a" by fastforce
  then show ?thesis using assms(1) n AddId
    by (auto simp: tables_hold_def hash_add_id_def Let_def intro: by_id.holds_add by_id.keys_differ_insert)
next
  case (AddChannel c)
  then have n: "\<forall>y \<in> h_channels a. irccmp (ch_name ob c) (ch_name ob y) \<noteq> 0"
    "a' = a\<lparr>h_channels := insert c (h_channels a)\<rparr>" using assms(2) by (auto split: if_splits)
  then have "c \<notin> h_channels a" by fastforce
  then show ?thesis using assms(1) n AddChannel
    by (auto simp: tables_hold_def hash_add_channel_def Let_def
        intro: by_name.holds_add by_name.keys_differ_insert)
next
  case (DelClient c)
  then show ?thesis using assms
    by (auto simp: tables_hold_def hash_del_client_def Let_def intro: by_name.holds_del keys_differ_delete)
next
  case (DelId c)
  then show ?thesis using assms
    by (auto simp: tables_hold_def hash_del_id_def Let_def intro: by_id.holds_del keys_differ_delete)
next
  case (DelChannel c)
  then show ?thesis using assms
    by (auto simp: tables_hold_def hash_del_channel_def Let_def intro: by_name.holds_del keys_differ_delete)
qed (use assms tables_hold_find in auto)

interpretation hash_run: simulation "tables_hold ob" "hash_exec ob" "hash_spec ob" for ob
  by unfold_locales (rule hash_exec_simulates)

lemma find_client_iff:
  assumes "tables_hold ob t a"
  shows "fst (hash_find_client ob n t) = Some c \<longleftrightarrow> c \<in> h_clients a \<and> irccmp n (cl_name ob c) = 0"
  using by_name.find_iff [of "hashf_xor_key t" "cl_name ob" "clientTable t" "h_clients a" "\<lambda>_. True" n _ _ c] assms
  by (auto simp: tables_hold_def hash_find_client_def Let_def split: prod.splits)

lemma find_id_iff:
  assumes "tables_hold ob t a"
  shows "fst (hash_find_id ob n t) = Some c \<longleftrightarrow> c \<in> h_ids a \<and> n = cl_id ob c"
  using by_id.find_iff [of "hashf_xor_key t" "cl_id ob" "idTable t" "h_ids a" "\<lambda>_. True" n _ _ c] assms
  by (auto simp: tables_hold_def hash_find_id_def Let_def split: prod.splits)

lemma find_channel_iff:
  assumes "tables_hold ob t a"
  shows "fst (hash_find_channel ob n t) = Some c \<longleftrightarrow> c \<in> h_channels a \<and> irccmp n (ch_name ob c) = 0"
  using by_name.find_iff [of "hashf_xor_key t" "ch_name ob" "channelTable t" "h_channels a" "\<lambda>_. True" n _ _ c] assms
  by (auto simp: tables_hold_def hash_find_channel_def Let_def split: prod.splits)

lemma find_server_iff:
  assumes "tables_hold ob t a" "\<not> (IsDigit (deref n) \<and> length n = IRC_MAXSID)"
  shows "fst (hash_find_server ob n t) = Some c \<longleftrightarrow> c \<in> h_clients a \<and> cl_server ob c \<and> irccmp n (cl_name ob c) = 0"
  using by_name.find_iff [of "hashf_xor_key t" "cl_name ob" "clientTable t" "h_clients a" "cl_server ob" n _ _ c] assms
  by (auto simp: tables_hold_def hash_find_server_def Let_def split: prod.splits)

section \<open>The counters\<close>

definition uh_ok :: "hash_tables \<Rightarrow> user_host set \<Rightarrow> bool" where
  "uh_ok t S \<longleftrightarrow> by_name.table_holds (hashf_xor_key t) uh_host (userhostTable t) S \<and> by_name.keys_differ uh_host S"

definition uh_of :: "string \<Rightarrow> hash_tables \<Rightarrow> user_host option" where
  "uh_of h t = fst (hash_find_userhost h t)"

lemma uh_of_iff: "uh_ok t S \<Longrightarrow> uh_of h t = Some u \<longleftrightarrow> u \<in> S \<and> irccmp h (uh_host u) = 0"
  using by_name.find_iff [of "hashf_xor_key t" uh_host "userhostTable t" S "\<lambda>_. True" h _ _ u]
  by (auto simp: uh_ok_def uh_of_def hash_find_userhost_def Let_def split: prod.splits)

lemma hash_find_userhost_ok:
  assumes "uh_ok t S" "hash_find_userhost h t = (r, t')"
  shows "uh_ok t' S \<and> hashf_xor_key t' = hashf_xor_key t \<and> r = uh_of h t \<and>
    (\<forall>u. r = Some u \<longrightarrow> (\<exists>rest. userhostTable t' (strhash (hashf_xor_key t) (uh_host u)) = u # rest))"
proof -
  obtain ch where c: "chain_find (\<lambda>u. irccmp h (uh_host u) = 0) (userhostTable t (strhash (hashf_xor_key t) h)) = (r, ch)"
    "t' = t\<lparr>userhostTable := (userhostTable t)(strhash (hashf_xor_key t) h := ch)\<rparr>"
    using assms(2) by (auto simp: hash_find_userhost_def Let_def split: prod.splits)
  have "\<exists>rest. ch = u # rest" "irccmp h (uh_host u) = 0" if "r = Some u" for u
    using chain_find_result [OF c(1)] that by auto
  then show ?thesis using assms c by_name.holds_find
    by (auto simp: uh_ok_def uh_of_def strhash_fold_case [of h])
qed

lemma uh_ok_same: "uh_ok t S \<Longrightarrow> u \<in> S \<Longrightarrow> irccmp (uh_host u) (uh_host v) = 0 \<Longrightarrow> v \<in> S \<Longrightarrow> v = u"
  by (auto simp: uh_ok_def by_name.keys_differ_def)

text \<open>Replacing the head of its chain replaces the entry of that host.\<close>

lemma set_userhost_ok:
  assumes "uh_ok t S" "u \<in> S" "userhostTable t (strhash (hashf_xor_key t) (uh_host u)) = u # rest" "uh_host v = uh_host u"
  shows "uh_ok (set_userhost (strhash (hashf_xor_key t) (uh_host u)) v t) (insert v (S - {u}))"
proof -
  have "v \<notin> S - {u}" using uh_ok_same [OF assms(1,2)] assms(4) by auto
  moreover have "by_name.keys_differ uh_host (insert v (S - {u}))"
    using assms(1,2,4) unfolding uh_ok_def by_name.keys_differ_def by (metis Diff_iff insert_iff irccmp_sym)
  ultimately show ?thesis using assms(1,3,4) by_name.holds_replace [of _ uh_host _ S u rest v]
    by (simp add: uh_ok_def set_userhost_def)
qed

lemma uh_of_update:
  assumes "uh_ok t S" "uh_ok t' (insert v (S - {u}))" "u \<in> S" "uh_host v = uh_host u"
  shows "uh_of h t' = (if irccmp h (uh_host u) = 0 then Some v else uh_of h t)"
proof (cases "irccmp h (uh_host u) = 0")
  case True
  then show ?thesis using uh_of_iff [OF assms(2), of h v] assms(4) by simp
next
  case False
  then have "uh_of h t' = Some x \<longleftrightarrow> uh_of h t = Some x" for x
    using uh_of_iff [OF assms(2), of h x] uh_of_iff [OF assms(1), of h x] assms(4) by auto
  then show ?thesis using False by (metis not_Some_eq)
qed

definition counts :: "string \<Rightarrow> name_host list \<Rightarrow> (int \<times> int \<times> int) option" where
  "counts user ns = map_option (\<lambda>n. (gcount n, lcount n, icount n)) (find (\<lambda>n. irccmp user (nh_name n) = 0) ns)"

lemma count_user_host_eq:
  "fst (count_user_host user host t) = Option.bind (uh_of host t) (\<lambda>u. counts user (uh_list u))"
  by (auto simp: count_user_host_def uh_of_def counts_def split: prod.splits option.splits)

text \<open>The effect of one connection on the counters of its user@host.\<close>

definition count_up :: "bool \<Rightarrow> bool \<Rightarrow> (int \<times> int \<times> int) option \<Rightarrow> int \<times> int \<times> int" where
  "count_up hasident global c =
    (let (g, l, i) = (case c of None \<Rightarrow> (0, 0, 0) | Some x \<Rightarrow> x)
     in (g + 1, l + (if global then 0 else 1), i + (if \<not> global \<and> hasident then 1 else 0)))"

lemma irccmp_cong: "irccmp a b = 0 \<Longrightarrow> (irccmp x a = 0) = (irccmp x b = 0)"
  by (auto simp: irccmp_zero_iff)

lemma bump_name_None: "bump_name i g user ns = None \<longleftrightarrow> counts user ns = None"
  by (induction ns) (auto simp: counts_def)

lemma name_up_counts [simp]:
  "nh_name (name_up i g n) = nh_name n"
  "gcount (name_up i g n) = gcount n + 1"
  "lcount (name_up i g n) = lcount n + (if g then 0 else 1)"
  "icount (name_up i g n) = icount n + (if \<not> g \<and> i then 1 else 0)"
  by (simp_all add: name_up_def Let_def)

lemma bump_name_counts:
  "bump_name i g user ns = Some ns' \<Longrightarrow>
    counts u ns' = (if irccmp u user = 0 then Some (count_up i g (counts user ns)) else counts u ns)"
proof (induction ns arbitrary: ns')
  case (Cons n ns)
  show ?case
  proof (cases "irccmp user (nh_name n) = 0")
    case True
    then show ?thesis using Cons.prems irccmp_cong [OF True, of u]
      by (auto simp: counts_def count_up_def Let_def)
  next
    case False
    then obtain ms where ms: "bump_name i g user ns = Some ms" "ns' = n # ms" using Cons.prems by auto
    have "irccmp u (nh_name n) \<noteq> 0" if "irccmp u user = 0"
      using False that by (auto simp: irccmp_zero_iff)
    then show ?thesis using Cons.IH [OF ms(1)] ms(2) False by (auto simp: counts_def)
  qed
qed simp

lemma find_or_add_userhost_ok:
  assumes "uh_ok t S" "find_or_add_userhost host t = (u, t')" "length host \<le> HOSTLEN"
  shows "\<exists>rest. uh_ok t' (insert u S) \<and> hashf_xor_key t' = hashf_xor_key t \<and> irccmp host (uh_host u) = 0 \<and>
    userhostTable t' (strhash (hashf_xor_key t) (uh_host u)) = u # rest \<and>
    Option.bind (uh_of h t') (\<lambda>u. counts x (uh_list u)) = Option.bind (uh_of h t) (\<lambda>u. counts x (uh_list u)) \<and>
    counts x (uh_list u) = Option.bind (uh_of host t) (\<lambda>u. counts x (uh_list u))"
proof -
  obtain r t1 where f: "hash_find_userhost host t = (r, t1)" by fastforce
  note fok = hash_find_userhost_ok [OF assms(1) f]
  have same: "uh_of h t1 = uh_of h t" for h
    using uh_of_iff [of t1 S h] uh_of_iff [OF assms(1), of h] fok by (metis not_Some_eq)
  show ?thesis
  proof (cases r)
    case (Some v)
    then have v: "u = v" "t' = t1" using assms(2) f by (auto simp: find_or_add_userhost_def)
    then have "v \<in> S" "irccmp host (uh_host v) = 0" using uh_of_iff [OF assms(1), of host v] fok Some by auto
    moreover have "uh_of host t = Some v" using fok Some by simp
    ultimately show ?thesis using v fok Some same by (auto simp: insert_absorb)
  next
    case None
    then have u: "u = \<lparr>uh_host = host, uh_list = []\<rparr>" "t' = hash_add_userhost u t1"
      using assms(2,3) f by (auto simp: find_or_add_userhost_def Let_def strlcpy_str_id)
    have none: "\<forall>y \<in> S. irccmp host (uh_host y) \<noteq> 0"
      using uh_of_iff [OF assms(1), of host] fok None by auto
    then have "u \<notin> S" using u(1) by auto
    then have "by_name.table_holds (hashf_xor_key t1) uh_host (userhostTable t') (insert u S)"
      using by_name.holds_add [of "hashf_xor_key t1" uh_host "userhostTable t1" S u] fok [THEN conjunct1]
      by (simp add: uh_ok_def u(2) hash_add_userhost_def Let_def)
    moreover have "by_name.keys_differ uh_host (insert u S)"
      using fok none u(1) by (intro by_name.keys_differ_insert) (auto simp: uh_ok_def)
    ultimately have ok: "uh_ok t' (insert u S)" by (simp add: uh_ok_def u(2) hash_add_userhost_def Let_def)
    have "Option.bind (uh_of h t') (\<lambda>u. counts x (uh_list u)) = Option.bind (uh_of h t) (\<lambda>u. counts x (uh_list u))"
    proof (cases "irccmp h host = 0")
      case True
      then have "uh_of h t' = Some u" using uh_of_iff [OF ok, of h u] u(1) by simp
      moreover have "uh_of h t = None"
      proof (rule ccontr)
        assume "uh_of h t \<noteq> None"
        then obtain y where "y \<in> S" "irccmp h (uh_host y) = 0" using uh_of_iff [OF assms(1), of h] by auto
        then show False using none True by (metis irccmp_sym irccmp_trans)
      qed
      ultimately show ?thesis using u(1) by (simp add: counts_def)
    next
      case False
      then have "uh_of h t' = uh_of h t"
        using uh_of_iff [OF ok, of h] uh_of_iff [OF assms(1), of h] u(1) by (metis insert_iff not_Some_eq user_host.select_convs(1))
      then show ?thesis by simp
    qed
    moreover have "uh_of host t = None" using fok None by simp
    ultimately show ?thesis using u fok ok by (auto simp: counts_def hash_add_userhost_def Let_def)
  qed
qed

definition names_differ :: "name_host list \<Rightarrow> bool" where
  "names_differ ns = sorted_wrt (\<lambda>a b. irccmp a b \<noteq> 0) (map nh_name ns)"

definition uh_inv :: "hash_tables \<Rightarrow> bool" where
  "uh_inv t \<longleftrightarrow> (\<exists>S. uh_ok t S \<and> (\<forall>u \<in> S. names_differ (uh_list u)))"

definition count_down :: "bool \<Rightarrow> bool \<Rightarrow> int \<times> int \<times> int \<Rightarrow> (int \<times> int \<times> int) option" where
  "count_down hasident global c =
    (let (g, l, i) = c;
         g' = (if 0 < g then g - 1 else g);
         l' = (if \<not> global \<and> 0 < l then l - 1 else l);
         i' = (if \<not> global \<and> hasident \<and> 0 < i then i - 1 else i)
     in if g' = 0 \<and> l' = 0 then None else Some (g', l', i'))"

lemma names_differ_map:
  "map nh_name ns' = map nh_name ns \<Longrightarrow> names_differ ns' = names_differ ns"
  by (simp add: names_differ_def)

lemma bump_name_names: "bump_name i g user ns = Some ns' \<Longrightarrow> map nh_name ns' = map nh_name ns"
  by (induction ns arbitrary: ns') (auto split: if_splits)

lemma name_down_counts [simp]:
  "nh_name (name_down i g n) = nh_name n"
  "gcount (name_down i g n) = (if 0 < gcount n then gcount n - 1 else gcount n)"
  "lcount (name_down i g n) = (if \<not> g \<and> 0 < lcount n then lcount n - 1 else lcount n)"
  "icount (name_down i g n) = (if \<not> g \<and> i \<and> 0 < icount n then icount n - 1 else icount n)"
  by (simp_all add: name_down_def Let_def)

lemma drop_name_hit:
  "drop_name i g user (n # ns) = Some ns' \<Longrightarrow> irccmp user (nh_name n) = 0 \<Longrightarrow> ns' = ns \<or> ns' = name_down i g n # ns"
  by (simp add: Let_def del: name_down_counts split: if_split_asm)

lemma drop_name_subset: "drop_name i g user ns = Some ns' \<Longrightarrow> nh_name ` set ns' \<subseteq> nh_name ` set ns"
proof (induction ns arbitrary: ns')
  case (Cons n ns)
  show ?case
  proof (cases "irccmp user (nh_name n) = 0")
    case True
    then have "ns' = ns \<or> ns' = name_down i g n # ns" using drop_name_hit Cons.prems by blast
    then show ?thesis by auto
  next
    case False
    then obtain ms where ms: "drop_name i g user ns = Some ms" "ns' = n # ms" using Cons.prems by auto
    then show ?thesis using Cons.IH [OF ms(1)] by (simp add: subset_insertI2)
  qed
qed simp

lemma drop_name_differ: "drop_name i g user ns = Some ns' \<Longrightarrow> names_differ ns \<Longrightarrow> names_differ ns'"
proof (induction ns arbitrary: ns')
  case (Cons n ns)
  show ?case
  proof (cases "irccmp user (nh_name n) = 0")
    case True
    then have "ns' = ns \<or> ns' = name_down i g n # ns" using drop_name_hit Cons.prems by blast
    then show ?thesis using Cons.prems(2) by (auto simp: names_differ_def)
  next
    case False
    then obtain ms where ms: "drop_name i g user ns = Some ms" "ns' = n # ms" using Cons.prems by auto
    then show ?thesis using Cons.IH [OF ms(1)] Cons.prems(2) drop_name_subset [OF ms(1)]
      by (auto simp: names_differ_def)
  qed
qed simp

lemma counts_None: "counts u ns = None \<longleftrightarrow> (\<forall>n \<in> set ns. irccmp u (nh_name n) \<noteq> 0)"
  by (auto simp: counts_def find_None_iff)

lemma drop_name_None: "drop_name i g user ns = None \<longleftrightarrow> counts user ns = None"
  by (induction ns) (auto simp: counts_def Let_def)

lemma count_down_name:
  "count_down i g (gcount n, lcount n, icount n) =
    (let n' = name_down i g n in if gcount n' = 0 \<and> lcount n' = 0 then None else Some (gcount n', lcount n', icount n'))"
  by (simp add: count_down_def Let_def)

lemma drop_name_counts:
  "drop_name i g user ns = Some ns' \<Longrightarrow> names_differ ns \<Longrightarrow>
    counts u ns' = (if irccmp u user = 0 then Option.bind (counts user ns) (count_down i g) else counts u ns)"
proof (induction ns arbitrary: ns')
  case (Cons n ns)
  show ?case
  proof (cases "irccmp user (nh_name n) = 0")
    case True
    have "irccmp u (nh_name m) \<noteq> 0" if "irccmp u (nh_name n) = 0" "m \<in> set ns" for m
    proof -
      have "irccmp (nh_name n) (nh_name m) \<noteq> 0" using Cons.prems(2) that(2) by (auto simp: names_differ_def)
      then show ?thesis using irccmp_trans [OF irccmp_sym [OF that(1)], of "nh_name m"] by argo
    qed
    then have none: "counts u ns = None" if "irccmp u user = 0"
      using that irccmp_cong [OF True, of u] by (simp add: counts_None)
    have c: "counts u (m # ns) = (if irccmp u user = 0 then Some (gcount m, lcount m, icount m) else counts u ns)"
      if "nh_name m = nh_name n" for m using that irccmp_cong [OF True, of u] by (simp add: counts_def)
    have cu: "counts user (n # ns) = Some (gcount n, lcount n, icount n)" using True by (simp add: counts_def)
    let ?m = "name_down i g n"
    show ?thesis
    proof (cases "gcount ?m = 0 \<and> lcount ?m = 0")
      case z: True
      then have "ns' = ns" using Cons.prems(1) True by (simp add: Let_def del: name_down_counts)
      then show ?thesis using none c [of n] cu z by (auto simp: count_down_name Let_def simp del: name_down_counts)
    next
      case nz: False
      then have "ns' = ?m # ns" using Cons.prems(1) True by (auto simp: Let_def simp del: name_down_counts)
      then show ?thesis using c [of n] c [of ?m] cu nz by (auto simp: count_down_name Let_def simp del: name_down_counts(2-))
    qed
  next
    case False
    then obtain ms where ms: "drop_name i g user ns = Some ms" "ns' = n # ms" using Cons.prems by auto
    have "irccmp u (nh_name n) \<noteq> 0" if "irccmp u user = 0"
      using False that by (auto simp: irccmp_zero_iff)
    then show ?thesis using Cons.IH [OF ms(1)] Cons.prems(2) ms(2) False
      by (auto simp: counts_def names_differ_def)
  qed
qed simp

lemma add_user_host_counts:
  assumes "uh_inv t" "length host \<le> HOSTLEN" "strip_ident user0 = (i, user)" "length user \<le> USERLEN"
  shows "uh_inv (add_user_host user0 host g t) \<and>
    fst (count_user_host u h (add_user_host user0 host g t)) =
      (if irccmp u user = 0 \<and> irccmp h host = 0 then Some (count_up i g (fst (count_user_host u h t)))
       else fst (count_user_host u h t))"
proof -
  obtain S where S: "uh_ok t S" "\<forall>u \<in> S. names_differ (uh_list u)" using assms(1) by (auto simp: uh_inv_def)
  obtain w t1 where f: "find_or_add_userhost host t = (w, t1)" by fastforce
  have F: "\<exists>rest. uh_ok t1 (insert w S) \<and> hashf_xor_key t1 = hashf_xor_key t \<and> irccmp host (uh_host w) = 0 \<and>
      userhostTable t1 (strhash (hashf_xor_key t) (uh_host w)) = w # rest \<and>
      Option.bind (uh_of h t1) (\<lambda>u. counts x (uh_list u)) = Option.bind (uh_of h t) (\<lambda>u. counts x (uh_list u)) \<and>
      counts x (uh_list w) = Option.bind (uh_of host t) (\<lambda>u. counts x (uh_list u))" for h x
    by (rule find_or_add_userhost_ok [OF S(1) f assms(2)])
  then obtain rest where ok1: "uh_ok t1 (insert w S)" "hashf_xor_key t1 = hashf_xor_key t" "irccmp host (uh_host w) = 0"
    "userhostTable t1 (strhash (hashf_xor_key t1) (uh_host w)) = w # rest" by metis
  define ns where "ns = (case bump_name i g user (uh_list w) of Some ns \<Rightarrow> ns
    | None \<Rightarrow> \<lparr>nh_name = user, gcount = 1, lcount = (if g then 0 else 1), icount = (if \<not> g \<and> i then 1 else 0)\<rparr> # uh_list w)"
  let ?v = "w\<lparr>uh_list := ns\<rparr>"
  let ?t = "set_userhost (strhash (hashf_xor_key t1) (uh_host w)) ?v t1"
  have t: "add_user_host user0 host g t = ?t" using assms(3,4) f
    by (auto simp: add_user_host_def ns_def strlcpy_str_id split: option.splits)
  have ok2: "uh_ok ?t (insert ?v (insert w S - {w}))" using set_userhost_ok [OF ok1(1) _ ok1(4), of ?v] by simp
  have cnt: "counts u ns = (if irccmp u user = 0 then Some (count_up i g (counts user (uh_list w))) else counts u (uh_list w))"
  proof (cases "bump_name i g user (uh_list w)")
    case None
    then have "counts user (uh_list w) = None" by (simp add: bump_name_None)
    then show ?thesis using None by (simp add: ns_def counts_def count_up_def)
  next
    case (Some ms)
    then show ?thesis using bump_name_counts [OF Some, of u] by (simp add: ns_def)
  qed
  have nd: "names_differ (uh_list w)"
  proof (cases "w \<in> S")
    case False
    then have "hash_find_userhost host t \<noteq> (Some w, t1)" using uh_of_iff [OF S(1), of host w] by (auto simp: uh_of_def)
    then have "uh_list w = []" using f by (auto simp: find_or_add_userhost_def Let_def split: prod.splits option.splits)
    then show ?thesis by (simp add: names_differ_def)
  qed (use S in auto)
  have "names_differ ns"
  proof (cases "bump_name i g user (uh_list w)")
    case None
    then have "\<forall>n \<in> set (uh_list w). irccmp user (nh_name n) \<noteq> 0" by (simp add: bump_name_None counts_None)
    then show ?thesis using None nd by (auto simp: ns_def names_differ_def)
  next
    case (Some ms)
    then show ?thesis using nd names_differ_map [OF bump_name_names [OF Some]] by (simp add: ns_def)
  qed
  then have inv: "uh_inv ?t" using ok2 S(2) nd unfolding uh_inv_def
    by (intro exI [of _ "insert ?v (insert w S - {w})"]) auto
  have same: "irccmp h (uh_host w) = 0 \<longleftrightarrow> irccmp h host = 0" using irccmp_cong [OF ok1(3), of h] by simp
  have up: "uh_of h ?t = (if irccmp h host = 0 then Some ?v else uh_of h t1)"
    using uh_of_update [OF ok1(1) ok2, of h] same by simp
  have "fst (count_user_host u h ?t) =
      (if irccmp u user = 0 \<and> irccmp h host = 0 then Some (count_up i g (fst (count_user_host u h t)))
       else fst (count_user_host u h t))"
  proof (cases "irccmp h host = 0")
    case False
    then show ?thesis using up F [of h u] by (auto simp: count_user_host_eq)
  next
    case True
    have "uh_of h t = uh_of host t"
      using uh_of_iff [OF S(1)] True by (metis irccmp_sym irccmp_trans not_Some_eq)
    moreover have "counts u (uh_list w) = counts user (uh_list w)" if "irccmp u user = 0"
      using that unfolding counts_def by (metis (no_types, lifting) irccmp_sym irccmp_trans)
    ultimately show ?thesis using up True F [of h u] F [of h user] cnt
      by (auto simp: count_user_host_eq)
  qed
  then show ?thesis using inv t by simp
qed

lemma delete_user_host_counts:
  assumes "uh_inv t" "strip_ident user0 = (i, user)"
  shows "uh_inv (delete_user_host user0 host g t) \<and>
    fst (count_user_host u h (delete_user_host user0 host g t)) =
      (if irccmp u user = 0 \<and> irccmp h host = 0 then Option.bind (fst (count_user_host u h t)) (count_down i g)
       else fst (count_user_host u h t))"
proof -
  obtain S where S: "uh_ok t S" "\<forall>u \<in> S. names_differ (uh_list u)" using assms(1) by (auto simp: uh_inv_def)
  obtain r t1 where f: "hash_find_userhost host t = (r, t1)" by fastforce
  note fok = hash_find_userhost_ok [OF S(1) f]
  have same: "uh_of h t1 = uh_of h t" for h
    using uh_of_iff [of t1 S h] uh_of_iff [OF S(1), of h] fok by (metis not_Some_eq)
  have hh: "uh_of h t = uh_of host t" if "irccmp h host = 0"
    using uh_of_iff [OF S(1)] that by (metis irccmp_sym irccmp_trans not_Some_eq)
  have inv1: "uh_inv t1" using fok S(2) by (auto simp: uh_inv_def)
  have cc: "counts u ns = counts user ns" if "irccmp u user = 0" for ns
    using that unfolding counts_def by (metis (no_types, lifting) irccmp_sym irccmp_trans)
  show ?thesis
  proof (cases "\<exists>w ns. r = Some w \<and> drop_name i g user (uh_list w) = Some ns")
    case False
    then have t: "delete_user_host user0 host g t = t1"
      using assms(2) f by (auto simp: delete_user_host_def split: option.splits)
    have "fst (count_user_host u h t) = None" if "irccmp u user = 0" "irccmp h host = 0"
      using False hh that cc fok by (auto simp: count_user_host_eq drop_name_None simp flip: not_None_eq split: bind_splits)
    then show ?thesis using t inv1 same by (auto simp: count_user_host_eq)
  next
    case True
    then obtain w ns where w: "r = Some w" "drop_name i g user (uh_list w) = Some ns" by blast
    then have wS: "w \<in> S" "irccmp host (uh_host w) = 0" "uh_of host t = Some w"
      using fok uh_of_iff [OF S(1), of host w] by auto
    obtain rest where rest: "userhostTable t1 (strhash (hashf_xor_key t1) (uh_host w)) = w # rest" using fok w(1) by auto
    let ?v = "w\<lparr>uh_list := ns\<rparr>"
    let ?t = "set_userhost (strhash (hashf_xor_key t1) (uh_host w)) ?v t1"
    have ok2: "uh_ok ?t (insert ?v (S - {w}))" using set_userhost_ok [OF _ wS(1) rest, of ?v] fok by simp
    have nd: "names_differ ns" using drop_name_differ [OF w(2)] S(2) wS(1) by simp
    have sm: "irccmp h (uh_host w) = 0 \<longleftrightarrow> irccmp h host = 0" for h using irccmp_cong [OF wS(2), of h] by simp
    have up: "uh_of h ?t = (if irccmp h host = 0 then Some ?v else uh_of h t)"
      using uh_of_update [OF _ ok2 wS(1), of t1 h] fok same sm by simp
    have cnt: "counts u ns = (if irccmp u user = 0 then Option.bind (counts user (uh_list w)) (count_down i g) else counts u (uh_list w))"
      using drop_name_counts [OF w(2)] S(2) wS(1) by simp
    have res: "fst (count_user_host u h ?t) =
        (if irccmp u user = 0 \<and> irccmp h host = 0 then Option.bind (fst (count_user_host u h t)) (count_down i g)
         else fst (count_user_host u h t))"
      using up hh wS(3) cnt cc by (auto simp: count_user_host_eq)
    show ?thesis
    proof (cases "ns = []")
      case False
      have "uh_inv ?t" using ok2 S(2) nd unfolding uh_inv_def by (intro exI [of _ "insert ?v (S - {w})"]) auto
      moreover have "delete_user_host user0 host g t = ?t"
        using assms(2) f w False by (simp add: delete_user_host_def Let_def)
      ultimately show ?thesis using res by simp
    next
      case True
      let ?t2 = "hash_del_userhost ?v ?t"
      have t: "delete_user_host user0 host g t = ?t2"
        using assms(2) f w True by (simp add: delete_user_host_def Let_def)
      have ok3: "uh_ok ?t2 (insert ?v (S - {w}) - {?v})"
        using ok2 keys_differ_delete(1) [of uh_host "insert ?v (S - {w})" ?v]
          by_name.holds_del [of "hashf_xor_key ?t" uh_host "userhostTable ?t" "insert ?v (S - {w})" ?v]
        unfolding uh_ok_def hash_del_userhost_def Let_def by simp
      have "uh_inv ?t2" using ok3 S(2) unfolding uh_inv_def by (intro exI [of _ "insert ?v (S - {w}) - {?v}"]) auto
      moreover have "uh_of h ?t2 = (if irccmp h host = 0 then None else uh_of h ?t)"
      proof (cases "irccmp h host = 0")
        case False
        then have "irccmp h (uh_host ?v) \<noteq> 0" using sm by simp
        then have "uh_of h ?t2 = Some x \<longleftrightarrow> uh_of h ?t = Some x" for x
          unfolding uh_of_iff [OF ok3] uh_of_iff [OF ok2] by blast
        then show ?thesis using False by (metis not_Some_eq)
      next
        case t: True
        have "x \<notin> S - {w}" if "irccmp h (uh_host x) = 0" for x
        proof -
          have "irccmp h (uh_host w) = 0" using sm [of h] t by simp
          then have "irccmp (uh_host w) (uh_host x) = 0" using that irccmp_sym irccmp_trans by metis
          then show ?thesis using uh_ok_same [OF S(1) wS(1)] by auto
        qed
        then have "uh_of h ?t2 \<noteq> Some x" for x unfolding uh_of_iff [OF ok3] by blast
        then show ?thesis using t by (metis not_Some_eq)
      qed
      moreover have "counts x ns = None" for x using True by (simp add: counts_def)
      ultimately show ?thesis using res t up by (auto simp: count_user_host_eq)
    qed
  qed
qed

section \<open>Properties\<close>

definition empty_tables :: "u32 \<Rightarrow> hash_tables" where
  "empty_tables k = \<lparr>hashf_xor_key = k, idTable = (\<lambda>_. []), clientTable = (\<lambda>_. []), channelTable = (\<lambda>_. []),
     userhostTable = (\<lambda>_. [])\<rparr>"

lemma tables_hold_empty: "tables_hold ob (empty_tables k) \<lparr>h_clients = {}, h_ids = {}, h_channels = {}\<rparr>"
  by (simp add: tables_hold_def empty_tables_def by_name.table_holds_def by_id.table_holds_def
      by_name.keys_differ_def by_id.keys_differ_def)

text \<open>\<open>strhash\<close> yields a bucket number within the tables, and names that \<open>irccmp\<close> identifies have the
  same hash, so that a search looks in the right chain whatever the case of the name.\<close>

lemma strhash_in_range_and_case_blind:
  "unat (strhash k s1) < HASHSIZE \<and> (irccmp s1 s2 = 0 \<longrightarrow> strhash k s1 = strhash k s2)"
  using strhash_bound strhash_fold_case by simp

text \<open>C18: After any run of insertions, removals and (reordering) searches from empty tables in which no name
  is entered twice, each table answers a search with exactly the entry of that name: clients and channels up
  to case, ids exactly, servers only among the entries that are servers; and a search changes no later answer.\<close>

theorem hash_tables_implement_sets:
  assumes "run_spec (hash_spec ob) ops \<lparr>h_clients = {}, h_ids = {}, h_channels = {}\<rparr> = Some a"
  shows "\<exists>t. run_steps (hash_exec ob) ops (empty_tables k) = Inr t \<and>
    (\<forall>n c. (fst (hash_find_client ob n t) = Some c \<longleftrightarrow> c \<in> h_clients a \<and> irccmp n (cl_name ob c) = 0) \<and>
      (fst (hash_find_id ob n t) = Some c \<longleftrightarrow> c \<in> h_ids a \<and> n = cl_id ob c) \<and>
      (fst (hash_find_channel ob n t) = Some c \<longleftrightarrow> c \<in> h_channels a \<and> irccmp n (ch_name ob c) = 0) \<and>
      (\<not> (IsDigit (deref n) \<and> length n = IRC_MAXSID) \<longrightarrow>
        (fst (hash_find_server ob n t) = Some c \<longleftrightarrow> c \<in> h_clients a \<and> cl_server ob c \<and> irccmp n (cl_name ob c) = 0)))"
proof -
  obtain t where "run_steps (hash_exec ob) ops (empty_tables k) = Inr t" "tables_hold ob t a"
    using hash_run.run_simulates [OF tables_hold_empty assms, of k] by blast
  then show ?thesis
    by (simp add: find_client_iff find_id_iff find_channel_iff find_server_iff)
qed

theorem hash_tables_implement_sets_witness:
  "let ob = \<lparr>cl_name = (\<lambda>c. if c = 1 then ''alice'' else ''bob''), cl_id = (\<lambda>_. []), cl_server = (\<lambda>_. False), ch_name = (\<lambda>_. [])\<rparr>
   in \<exists>t. run_steps (hash_exec ob) [AddClient 1, AddClient 2, FindClient ''ALICE'', DelClient 2] (empty_tables 0) = Inr t \<and>
      fst (hash_find_client ob ''Alice'' t) = Some 1 \<and> fst (hash_find_client ob ''bob'' t) \<noteq> Some 2"
proof -
  let ?ob = "\<lparr>cl_name = (\<lambda>c. if c = 1 then ''alice'' else ''bob''), cl_id = (\<lambda>_ :: nat. []), cl_server = (\<lambda>_. False), ch_name = (\<lambda>_. [])\<rparr>"
  let ?ops = "[AddClient 1, AddClient 2, FindClient ''ALICE'', DelClient 2]"
  have "irccmp ''bob'' ''alice'' \<noteq> 0"
    unfolding irccmp_zero_iff by (simp add: char_eq_of_char_iff of_char_ToLower)
  let ?a = "\<lparr>h_clients = {1}, h_ids = {}, h_channels = {}\<rparr>"
  from \<open>irccmp ''bob'' ''alice'' \<noteq> 0\<close> have s: "run_spec (hash_spec ?ob) ?ops \<lparr>h_clients = {}, h_ids = {}, h_channels = {}\<rparr> = Some ?a"
    by (simp del: irccmp.simps)
  obtain t where t: "run_steps (hash_exec ?ob) ?ops (empty_tables 0) = Inr t"
    and q: "\<And>n c. (fst (hash_find_client ?ob n t) = Some c) = (c \<in> h_clients ?a \<and> irccmp n (cl_name ?ob c) = 0)"
    using hash_tables_implement_sets [OF s, of 0] by blast
  have "irccmp ''Alice'' ''alice'' = 0"
    unfolding irccmp_zero_iff by (simp add: char_eq_of_char_iff of_char_ToLower)
  then have "fst (hash_find_client ?ob ''Alice'' t) = Some 1" using q [of "''Alice''" 1] by (simp del: irccmp.simps)
  moreover have "fst (hash_find_client ?ob ''bob'' t) \<noteq> Some 2" using q [of "''bob''" 2] by (simp del: irccmp.simps)
  ultimately show ?thesis using t unfolding Let_def by blast
qed

text \<open>C28: The connection counters. \<open>add_user_host\<close> raises the global counter of its user@host by one, and for
  a local connection the local and (with ident) the ident counter, and leaves every other user@host alone;
  \<open>delete_user_host\<close> takes the same back and forgets a user@host without connections, so that a connection that
  comes and goes leaves all counters as they were. Names are compared up to case, without the leading tilde.\<close>

theorem user_host_counters:
  assumes "uh_inv t" "length host \<le> HOSTLEN" "strip_ident user0 = (hasident, user)" "length user \<le> USERLEN"
  shows "uh_inv (add_user_host user0 host global t) \<and>
    fst (count_user_host u h (add_user_host user0 host global t)) =
      (if irccmp u user = 0 \<and> irccmp h host = 0 then Some (count_up hasident global (fst (count_user_host u h t)))
       else fst (count_user_host u h t)) \<and>
    fst (count_user_host u h (delete_user_host user0 host global t)) =
      (if irccmp u user = 0 \<and> irccmp h host = 0 then Option.bind (fst (count_user_host u h t)) (count_down hasident global)
       else fst (count_user_host u h t)) \<and>
    ((\<forall>g l i. fst (count_user_host u h t) = Some (g, l, i) \<longrightarrow> 0 < g \<and> 0 \<le> l \<and> 0 \<le> i) \<longrightarrow>
      fst (count_user_host u h (delete_user_host user0 host global (add_user_host user0 host global t))) =
        fst (count_user_host u h t))"
proof -
  note add = add_user_host_counts [OF assms, of global u h]
  note del = delete_user_host_counts [OF conjunct1 [OF add] assms(3), of host global u h]
  have "Option.bind (Some (count_up hasident global c)) (count_down hasident global) = c"
    if "\<forall>g l i. c = Some (g, l, i) \<longrightarrow> 0 < g \<and> 0 \<le> l \<and> 0 \<le> i" for c
    using that by (cases c) (auto simp: count_up_def count_down_def)
  then show ?thesis using add del delete_user_host_counts [OF assms(1,3), of host global u h] by simp
qed

theorem user_host_counters_witness:
  "fst (count_user_host ''JOE'' ''h'' (add_user_host ''~joe'' ''H'' False (empty_tables 0))) = Some (1, 1, 0)"
proof -
  have "uh_ok (empty_tables 0) {}"
    by (simp add: uh_ok_def empty_tables_def by_name.table_holds_def by_name.keys_differ_def)
  then have inv: "uh_inv (empty_tables 0)" by (auto simp: uh_inv_def)
  have none: "fst (count_user_host ''JOE'' ''h'' (empty_tables 0)) = None"
    by (simp add: count_user_host_def hash_find_userhost_def empty_tables_def chain_find_def)
  have "irccmp ''JOE'' ''joe'' = 0" "irccmp ''h'' ''H'' = 0"
    unfolding irccmp_zero_iff by (simp_all add: char_eq_of_char_iff of_char_ToLower)
  then show ?thesis
    using user_host_counters [OF inv, of "''H''" "''~joe''" False "''joe''" False "''JOE''" "''h''"] none
    by (simp add: strip_ident_def HOSTLEN_def USERLEN_def count_up_def del: irccmp.simps)
qed

end
