(* ===== verification/Parse.thy ===== *)
theory Parse
  imports Packet Hash
begin

text \<open>
  The parser of \<open>src/parse.c\<close>: the trie that holds the commands, loading and unloading of commands, and
  \<open>parse\<close> itself, from the prefix over the command and its parameters to the handler. The vector of parameters is
  an array of \<open>MAXPARA + 2\<close> pointers with its bounds. What the parser sends or calls is the list of events it
  returns. Strings that point into the line are lists; the parameters are the pieces between the NULs that
  the parser writes over blanks.

  \<open>cmd_trie\<close> interprets the locale \<open>command_table\<close>: to the loader of modules and to the parser the trie is
  a finite map from command names, up to case, to messages.
\<close>

section \<open>The command trie\<close>

definition MAXPTRLEN :: nat where "MAXPTRLEN = 32"
definition MAXPARA :: nat where "MAXPARA = 15"

text \<open>A node has \<open>MAXPTRLEN\<close> = 32 pointers; its index type has exactly as many values.\<close>

datatype mtree = MTree (links: int) (mt_msg: "addr option") (pointers: "5 word \<Rightarrow> mtree option")

definition empty_tree :: mtree where
  "empty_tree = MTree 0 None (\<lambda>_. None)"

text \<open>The index \<open>*cmd & (MAXPTRLEN - 1)\<close>.\<close>

definition slot :: "char \<Rightarrow> 5 word" where
  "slot c = of_nat (of_char c)"

fun add_msg_element :: "mtree \<Rightarrow> addr \<Rightarrow> string \<Rightarrow> mtree" where
  "add_msg_element (MTree l m ps) msg_p [] = MTree (l + 1) (Some msg_p) ps"
| "add_msg_element (MTree l m ps) msg_p (c # cmd) =
    (case ps (slot c) of
       None \<Rightarrow> MTree (l + 1) m (ps(slot c \<mapsto> add_msg_element empty_tree msg_p cmd))
     | Some t \<Rightarrow> MTree l m (ps(slot c \<mapsto> add_msg_element t msg_p cmd)))"

fun del_msg_element :: "mtree \<Rightarrow> string \<Rightarrow> c_error + mtree" where
  "del_msg_element (MTree l m ps) [] =
    (if m \<noteq> None then Inr (MTree (l - 1) None ps)
     else case ps (slot NUL) of None \<Rightarrow> Inr (MTree l m ps) | Some _ \<Rightarrow> Inl OutOfBounds)"
| "del_msg_element (MTree l m ps) (c # cmd) =
    (case ps (slot c) of
       None \<Rightarrow> Inr (MTree l m ps)
     | Some t \<Rightarrow>
         (case del_msg_element t cmd of
            Inl e \<Rightarrow> Inl e
          | Inr t' \<Rightarrow>
              Inr (if links t' = 0 then MTree (l - 1) m (ps(slot c := None))
                   else MTree l m (ps(slot c \<mapsto> t')))))"

fun msg_tree_walk :: "mtree \<Rightarrow> string \<Rightarrow> addr option" where
  "msg_tree_walk t [] = None"
| "msg_tree_walk t (c # cmd) =
    (if IsAlpha c then
       (case pointers t (slot c) of
          None \<Rightarrow> None
        | Some t' \<Rightarrow> if cmd = [] then mt_msg t' else msg_tree_walk t' cmd)
     else None)"

definition msg_tree_parse :: "mtree \<Rightarrow> string \<Rightarrow> c_error + addr option" where
  "msg_tree_parse t cmd = (if cmd = [] then Inl AssertionFailed else Inr (msg_tree_walk t cmd))"

definition find_command :: "mtree \<Rightarrow> string \<Rightarrow> c_error + addr option" where
  "find_command t cmd = msg_tree_parse t cmd"

datatype handler_type =
  UNREGISTERED_HANDLER | CLIENT_HANDLER | SERVER_HANDLER | ENCAP_HANDLER | OPER_HANDLER | DUMMY_HANDLER

record message =
  mcmd :: string
  extra :: addr
  mcount :: u32
  rcount :: u32
  args_min :: nat
  args_max :: nat
  mflags :: u32
  mbytes :: "64 word"
  handlers :: "handler_type \<Rightarrow> addr"

definition MFLG_EXTRA :: u32 where "MFLG_EXTRA = 2"

definition mod_add_cmd :: "(addr \<Rightarrow> message) \<Rightarrow> addr \<Rightarrow> mtree \<Rightarrow> c_error + mtree" where
  "mod_add_cmd msgs a t =
    (case msg_tree_parse t (mcmd (msgs a)) of
       Inl e \<Rightarrow> Inl e
     | Inr (Some _) \<Rightarrow> Inr t
     | Inr None \<Rightarrow> Inr (add_msg_element t a (mcmd (msgs a))))"

definition mod_del_cmd :: "(addr \<Rightarrow> message) \<Rightarrow> addr \<Rightarrow> mtree \<Rightarrow> c_error + mtree" where
  "mod_del_cmd msgs a t =
    (case msg_tree_parse t (mcmd (msgs a)) of
       Inl e \<Rightarrow> Inl e
     | Inr None \<Rightarrow> Inr t
     | Inr (Some _) \<Rightarrow> del_msg_element t (mcmd (msgs a)))"

text \<open>The messages reported, in the order of the trie.\<close>

definition slots :: "5 word list" where
  "slots = map of_nat [0..<MAXPTRLEN]"

primrec recurse_report_messages :: "mtree \<Rightarrow> addr list" where
  "recurse_report_messages (MTree l m ps) =
    (case m of None \<Rightarrow> [] | Some a \<Rightarrow> [a]) @
    concat (map (\<lambda>i. case map_option recurse_report_messages (ps i) of None \<Rightarrow> [] | Some r \<Rightarrow> r) slots)"

definition report_messages :: "mtree \<Rightarrow> addr list" where
  "report_messages t = concat (map (\<lambda>i. case pointers t i of None \<Rightarrow> [] | Some t' \<Rightarrow> recurse_report_messages t') slots)"

section \<open>The trie is a map on paths\<close>

fun tget :: "mtree \<Rightarrow> 5 word list \<Rightarrow> addr option" where
  "tget t [] = mt_msg t"
| "tget t (i # is) = (case pointers t i of None \<Rightarrow> None | Some t' \<Rightarrow> tget t' is)"

text \<open>The reference count of a node is the number of its pointers, the message included, and only the
  root may have none.\<close>

inductive wf_tree :: "mtree \<Rightarrow> bool" where
  node: "l = (if m = None then 0 else 1) + int (card (dom ps)) \<Longrightarrow>
    (\<And>i t. ps i = Some t \<Longrightarrow> wf_tree t) \<Longrightarrow> (\<And>i t. ps i = Some t \<Longrightarrow> links t \<noteq> 0) \<Longrightarrow> wf_tree (MTree l m ps)"

inductive_simps wf_tree_iff: "wf_tree (MTree l m ps)"

lemma wf_empty: "wf_tree empty_tree"
  by (simp add: empty_tree_def wf_tree_iff)

lemma tget_empty [simp]: "tget empty_tree is = None"
  by (cases "is") (auto simp: empty_tree_def)

lemma finite_slots [simp]: "finite (A :: 5 word set)"
  by simp

lemma wf_links_zero:
  assumes "wf_tree t" "links t = 0"
  shows "tget t is = None"
proof -
  obtain l m ps where t: "t = MTree l m ps" by (cases t)
  have "m = None" "dom ps = {}" using assms t by (auto simp: wf_tree_iff split: if_splits)
  then show ?thesis using t by (cases "is") auto
qed

lemma wf_links_nonneg: "wf_tree t \<Longrightarrow> 0 \<le> links t"
  by (induction rule: wf_tree.induct) simp

lemma tget_add: "tget (add_msg_element t a cmd) is = (if is = map slot cmd then Some a else tget t is)"
proof (induction t a cmd arbitrary: "is" rule: add_msg_element.induct)
  case (1 l m ps a)
  then show ?case by (cases "is") auto
next
  case (2 l m ps a c cmd)
  show ?case
  proof (cases "is")
    case (Cons i js)
    then show ?thesis using 2 by (cases "ps (slot c)") auto
  qed (auto split: option.splits)
qed

lemma card_dom_add: "ps i = None \<Longrightarrow> card (dom (ps(i \<mapsto> t))) = Suc (card (dom (ps :: 5 word \<Rightarrow> mtree option)))"
  by (simp add: domIff)

lemma card_dom_upd: "ps i = Some t \<Longrightarrow> card (dom (ps(i \<mapsto> t'))) = card (dom (ps :: 5 word \<Rightarrow> mtree option))"
  by (simp add: domI insert_absorb)

lemma card_dom_del: "ps i = Some t \<Longrightarrow> int (card (dom (ps(i := None)))) = int (card (dom (ps :: 5 word \<Rightarrow> mtree option))) - 1"
  using card_gt_0_iff [of "dom ps"] by (auto simp: domI card_Diff_singleton of_nat_diff)

lemma wf_add:
  "wf_tree t \<Longrightarrow> tget t (map slot cmd) = None \<Longrightarrow>
    wf_tree (add_msg_element t a cmd) \<and> links (add_msg_element t a cmd) \<noteq> 0"
proof (induction t a cmd rule: add_msg_element.induct)
  case (1 l m ps a)
  then show ?case by (simp add: wf_tree_iff)
next
  case (2 l m ps a c cmd)
  note w = "2.prems"(1) [unfolded wf_tree_iff]
  show ?case
  proof (cases "ps (slot c)")
    case None
    have "wf_tree (add_msg_element empty_tree a cmd)" "links (add_msg_element empty_tree a cmd) \<noteq> 0"
      using "2.IH"(1) [OF None wf_empty] by auto
    then show ?thesis using w None card_dom_add [of ps "slot c", OF None]
      by (simp add: wf_tree_iff)
  next
    case (Some t)
    have "wf_tree t" "links t \<noteq> 0" using w Some by auto
    then have "wf_tree (add_msg_element t a cmd)" "links (add_msg_element t a cmd) \<noteq> 0"
      using "2.IH"(2) [OF Some] "2.prems"(2) Some by auto
    moreover have "l \<noteq> 0" using w Some by (cases m) auto
    ultimately show ?thesis using w Some card_dom_upd [of ps "slot c", OF Some]
      by (simp add: wf_tree_iff)
  qed
qed

lemma del_ok:
  "wf_tree t \<Longrightarrow> tget t (map slot cmd) \<noteq> None \<Longrightarrow>
    \<exists>t'. del_msg_element t cmd = Inr t' \<and> wf_tree t' \<and>
      (\<forall>is. tget t' is = (if is = map slot cmd then None else tget t is))"
proof (induction t cmd rule: del_msg_element.induct)
  case (1 l m ps)
  then have "wf_tree (MTree (l - 1) None ps)" by (auto simp: wf_tree_iff)
  moreover have "tget (MTree (l - 1) None ps) is = (if is = [] then None else tget (MTree l m ps) is)" for "is"
    by (cases "is") auto
  ultimately show ?case using 1 by auto
next
  case (2 l m ps c cmd)
  note w = "2.prems"(1) [unfolded wf_tree_iff]
  obtain t where t: "ps (slot c) = Some t" "tget t (map slot cmd) \<noteq> None"
    using "2.prems"(2) by (auto split: option.splits)
  obtain t' where t': "del_msg_element t cmd = Inr t'" "wf_tree t'"
    "\<forall>is. tget t' is = (if is = map slot cmd then None else tget t is)"
    using "2.IH" [OF t(1) _ t(2)] w t(1) by blast
  show ?case
  proof (cases "links t' = 0")
    case True
    have "wf_tree (MTree (l - 1) m (ps(slot c := None)))"
      using w card_dom_del [of ps "slot c" t, OF t(1)] by (simp add: wf_tree_iff)
    moreover have "tget (MTree (l - 1) m (ps(slot c := None))) is =
        (if is = map slot (c # cmd) then None else tget (MTree l m ps) is)" for "is"
    proof (cases "is")
      case (Cons i js)
      have "tget t js = None" if "js \<noteq> map slot cmd"
        using wf_links_zero [OF t'(2) True, of js] t'(3) that by simp
      then show ?thesis using Cons t(1) by auto
    qed simp
    ultimately show ?thesis using t t'(1) True by auto
  next
    case False
    have "wf_tree (MTree l m (ps(slot c \<mapsto> t')))"
      using w card_dom_upd [of ps "slot c" t, OF t(1)] t'(2) False by (simp add: wf_tree_iff)
    moreover have "tget (MTree l m (ps(slot c \<mapsto> t'))) is =
        (if is = map slot (c # cmd) then None else tget (MTree l m ps) is)" for "is"
    proof (cases "is")
      case (Cons i js)
      then show ?thesis using t(1) t'(3) by auto
    qed simp
    ultimately show ?thesis using t t'(1) False by auto
  qed
qed

section \<open>The command table\<close>

text \<open>Names of commands: letters only, as the comment above the trie demands.\<close>

definition cmd_name :: "string \<Rightarrow> bool" where
  "cmd_name s \<longleftrightarrow> s \<noteq> [] \<and> list_all IsAlpha s"

lemma mod32:
  assumes "IsAlpha c"
  shows "(of_char c :: nat) mod 32 = (if (of_char c :: nat) < 95 then of_char c - 64 else of_char c - 96)"
proof -
  have "x mod 32 = (if x < 95 then x - 64 else x - 96)" if "65 \<le> x \<and> x < 95 \<or> 97 \<le> x \<and> x < 127" for x :: nat
    using that by (auto simp: le_mod_geq)
  then show ?thesis using assms unfolding IsAlpha_iff .
qed

lemma slot_eq_iff:
  assumes "IsAlpha c" "IsAlpha d"
  shows "slot c = slot d \<longleftrightarrow> ToLower c = ToLower d"
proof -
  let ?c = "of_char c :: nat" and ?d = "of_char d :: nat"
  have "slot c = slot d \<longleftrightarrow> ?c mod 32 = ?d mod 32"
    unfolding slot_def
    using word_of_nat_eq_iff [where 'a = 5, of ?c ?d] by (simp add: take_bit_eq_mod)
  moreover have "?c mod 32 = ?d mod 32 \<longleftrightarrow>
      (if 65 \<le> ?c \<and> ?c < 95 then ?c + 32 else ?c) = (if 65 \<le> ?d \<and> ?d < 95 then ?d + 32 else ?d)"
  proof -
    have "(if x < 95 then x - 64 else x - 96) = (if y < 95 then y - 64 else y - 96) \<longleftrightarrow>
        (if 65 \<le> x \<and> x < 95 then x + 32 else x) = (if 65 \<le> y \<and> y < 95 then y + 32 else y)"
      if "65 \<le> x \<and> x < 95 \<or> 97 \<le> x \<and> x < 127" "65 \<le> y \<and> y < 95 \<or> 97 \<le> y \<and> y < 127" for x y :: nat
      using that by auto
    then show ?thesis using assms unfolding mod32 [OF assms(1)] mod32 [OF assms(2)] IsAlpha_iff .
  qed
  ultimately show ?thesis unfolding char_eq_of_char_iff [of "ToLower c"] of_char_ToLower by simp
qed

lemma map_slot_eq_iff:
  "list_all IsAlpha s1 \<Longrightarrow> list_all IsAlpha s2 \<Longrightarrow> map slot s1 = map slot s2 \<longleftrightarrow> irccmp s1 s2 = 0"
  unfolding irccmp_zero_iff
proof (induction s1 arbitrary: s2)
  case (Cons c s1)
  then show ?case by (cases s2) (auto simp: slot_eq_iff)
qed simp

lemma msg_tree_walk_tget:
  "cmd \<noteq> [] \<Longrightarrow> msg_tree_walk t cmd = (if list_all IsAlpha cmd then tget t (map slot cmd) else None)"
proof (induction t cmd rule: msg_tree_walk.induct)
  case (2 t c cmd)
  then show ?case by (cases "cmd = []") (auto split: option.splits)
qed simp

locale command_table =
  fixes ok :: "'t \<Rightarrow> bool"
    and look :: "'t \<Rightarrow> string \<Rightarrow> 'm option"
    and load :: "'m \<Rightarrow> 't \<Rightarrow> 'e + 't"
    and unload :: "'m \<Rightarrow> 't \<Rightarrow> 'e + 't"
    and name :: "'m \<Rightarrow> string"
    and valid :: "string \<Rightarrow> bool"
  assumes load_law: "ok t \<Longrightarrow> valid (name m) \<Longrightarrow> \<exists>t'. load m t = Inr t' \<and> ok t' \<and>
      (\<forall>s. look t' s = (if valid s \<and> irccmp s (name m) = 0 \<and> look t s = None then Some m else look t s))"
    and unload_law: "ok t \<Longrightarrow> valid (name m) \<Longrightarrow> \<exists>t'. unload m t = Inr t' \<and> ok t' \<and>
      (\<forall>s. look t' s = (if irccmp s (name m) = 0 then None else look t s))"
    and look_valid: "look t s \<noteq> None \<Longrightarrow> valid s"
    and look_case: "valid s \<Longrightarrow> valid s' \<Longrightarrow> irccmp s s' = 0 \<Longrightarrow> look t s = look t s'"
begin

text \<open>Loading a module's commands in any order gives the same table when their names differ.\<close>

lemma load_all:
  assumes "ok t" "\<forall>m \<in> set ms. valid (name m)"
    "\<forall>m \<in> set ms. look t (name m) = None" "sorted_wrt (\<lambda>m n. irccmp (name m) (name n) \<noteq> 0) ms"
  shows "\<exists>t'. run_steps load ms t = Inr t' \<and> ok t' \<and>
    (\<forall>s. valid s \<longrightarrow> look t' s = (case find (\<lambda>m. irccmp s (name m) = 0) ms of Some m \<Rightarrow> Some m | None \<Rightarrow> look t s))"
  using assms
proof (induction ms arbitrary: t)
  case (Cons m ms)
  obtain t1 where t1: "load m t = Inr t1" "ok t1"
    "\<forall>s. look t1 s = (if valid s \<and> irccmp s (name m) = 0 \<and> look t s = None then Some m else look t s)"
    using load_law [OF Cons.prems(1), of m] Cons.prems(2) by auto
  have d: "irccmp (name m) (name n) \<noteq> 0" if "n \<in> set ms" for n using Cons.prems(4) that by auto
  have "irccmp (name n) (name m) \<noteq> 0" if "n \<in> set ms" for n using d [OF that] irccmp_sym [of "name n" "name m"] by argo
  then have "\<forall>n \<in> set ms. look t1 (name n) = None" using t1(3) Cons.prems(3) by simp
  then obtain t2 where t2: "run_steps load ms t1 = Inr t2" "ok t2"
    "\<forall>s. valid s \<longrightarrow> look t2 s = (case find (\<lambda>m. irccmp s (name m) = 0) ms of Some m \<Rightarrow> Some m | None \<Rightarrow> look t1 s)"
    using Cons.IH [OF t1(2)] Cons.prems(2,4) by auto
  have "look t2 s = (case find (\<lambda>m. irccmp s (name m) = 0) (m # ms) of Some m \<Rightarrow> Some m | None \<Rightarrow> look t s)"
    if v: "valid s" for s
  proof (cases "irccmp s (name m) = 0")
    case True
    have "irccmp s (name n) \<noteq> 0" if "n \<in> set ms" for n
      using d [OF that] irccmp_trans [OF irccmp_sym [OF True], of "name n"] by argo
    then have "find (\<lambda>m. irccmp s (name m) = 0) ms = None" by (auto simp: find_None_iff)
    moreover have "look t s = None"
      using look_case [OF v _ True, of t] Cons.prems(2,3) by simp
    ultimately show ?thesis using t2(3) t1(3) v True by simp
  next
    case False
    then show ?thesis using t2(3) t1(3) v by (simp split: option.splits)
  qed
  then show ?case using t1(1) t2(1,2) by simp
qed simp

text \<open>Unloading a command that was loaded into a table without it gives the table back.\<close>

lemma load_unload:
  assumes "ok t" "valid (name m)" "look t (name m) = None"
  shows "\<exists>t1 t2. load m t = Inr t1 \<and> look t1 (name m) = Some m \<and> unload m t1 = Inr t2 \<and> ok t2 \<and> look t2 = look t"
proof -
  obtain t1 where t1: "load m t = Inr t1" "ok t1"
    "\<forall>s. look t1 s = (if valid s \<and> irccmp s (name m) = 0 \<and> look t s = None then Some m else look t s)"
    using load_law [OF assms(1,2)] by auto
  obtain t2 where t2: "unload m t1 = Inr t2" "ok t2" "\<forall>s. look t2 s = (if irccmp s (name m) = 0 then None else look t1 s)"
    using unload_law [OF t1(2) assms(2)] by auto
  have "look t s = None" if "irccmp s (name m) = 0" for s
    using look_case [of s "name m" t] look_valid [of t s] that assms(2,3) by (cases "look t s") auto
  then have "look t2 s = look t s" for s using t2(3) t1(3) by auto
  then show ?thesis using t1 t2 assms(2,3) by auto
qed

end

definition look_cmd :: "mtree \<Rightarrow> string \<Rightarrow> addr option" where
  "look_cmd t s = (case find_command t s of Inl _ \<Rightarrow> None | Inr r \<Rightarrow> r)"

lemma look_cmd_tget: "look_cmd t s = (if cmd_name s then tget t (map slot s) else None)"
  by (simp add: look_cmd_def find_command_def msg_tree_parse_def msg_tree_walk_tget cmd_name_def)

interpretation cmd_trie: command_table wf_tree look_cmd "mod_add_cmd msgs" "mod_del_cmd msgs" "\<lambda>a. mcmd (msgs a)" cmd_name
  for msgs
proof
  fix t m s s'
  show "cmd_name s" if "look_cmd t s \<noteq> None" using that by (simp add: look_cmd_tget split: if_splits)
  show "look_cmd t s = look_cmd t s'" if "cmd_name s" "cmd_name s'" "irccmp s s' = 0"
    using that map_slot_eq_iff [of s s'] by (simp add: look_cmd_tget cmd_name_def)
  assume wf: "wf_tree t" and v: "cmd_name (mcmd (msgs m))"
  have p: "msg_tree_parse t (mcmd (msgs m)) = Inr (tget t (map slot (mcmd (msgs m))))"
    using v by (simp add: msg_tree_parse_def msg_tree_walk_tget cmd_name_def)
  have eq: "map slot s = map slot (mcmd (msgs m)) \<longleftrightarrow> irccmp s (mcmd (msgs m)) = 0" if "cmd_name s" for s
    using that v by (simp add: map_slot_eq_iff cmd_name_def)
  show "\<exists>t'. mod_add_cmd msgs m t = Inr t' \<and> wf_tree t' \<and> (\<forall>s. look_cmd t' s =
      (if cmd_name s \<and> irccmp s (mcmd (msgs m)) = 0 \<and> look_cmd t s = None then Some m else look_cmd t s))"
  proof (cases "tget t (map slot (mcmd (msgs m)))")
    case None
    then have "tget t (map slot s) = None" if "cmd_name s" "irccmp s (mcmd (msgs m)) = 0" for s
      using eq [OF that(1)] that(2) by metis
    then show ?thesis using None p eq wf_add [OF wf None] by (auto simp: mod_add_cmd_def look_cmd_tget tget_add)
  next
    case (Some a)
    then have "tget t (map slot s) = Some a" if "cmd_name s" "irccmp s (mcmd (msgs m)) = 0" for s
      using eq [OF that(1)] that(2) by metis
    then show ?thesis using Some p wf by (auto simp: mod_add_cmd_def look_cmd_tget)
  qed
  show "\<exists>t'. mod_del_cmd msgs m t = Inr t' \<and> wf_tree t' \<and> (\<forall>s. look_cmd t' s =
      (if irccmp s (mcmd (msgs m)) = 0 then None else look_cmd t s))"
  proof (cases "tget t (map slot (mcmd (msgs m)))")
    case None
    then have "tget t (map slot s) = None" if "cmd_name s" "irccmp s (mcmd (msgs m)) = 0" for s
      using eq [OF that(1)] that(2) by metis
    then show ?thesis using None p wf by (auto simp: mod_del_cmd_def look_cmd_tget)
  next
    case (Some a)
    then have "tget t (map slot (mcmd (msgs m))) \<noteq> None" by simp
    then obtain t' where "del_msg_element t (mcmd (msgs m)) = Inr t'" "wf_tree t'"
      "\<forall>is. tget t' is = (if is = map slot (mcmd (msgs m)) then None else tget t is)"
      using del_ok [OF wf] by blast
    then show ?thesis using p eq Some by (auto simp: mod_del_cmd_def look_cmd_tget)
  qed
qed

section \<open>The state of the parser\<close>

text \<open>A pointer of the parameter vector: a string, the \<open>extra\<close> pointer of a message, or NULL.\<close>

datatype para_ptr = PStr string | PExtra addr | PNull

record pstate =
  msg_tree :: mtree
  messages :: "addr \<Rightarrow> message"
  tables :: hash_tables
  objs :: objects
  cl_from :: "addr \<Rightarrow> addr"
  cl_status :: "addr \<Rightarrow> client_status"
  cl_flags :: "addr \<Rightarrow> u32"
  cl_umodes :: "addr \<Rightarrow> u32"
  cl_handler :: "addr \<Rightarrow> handler_type"
  my_connect :: "addr \<Rightarrow> bool"
  fd_open :: "addr \<Rightarrow> bool"
  hide_servers :: bool
  is_unpf :: nat
  is_wrdi :: nat
  is_empt :: nat
  is_num :: nat
  is_unco :: nat

datatype parse_event =
    UnknownPrefixSquit addr string string
  | UnknownPrefixKill addr string
  | FakeDirection addr addr
  | UnknownCommand addr string
  | NeedMoreParams addr string
  | Handle addr addr addr nat "para_ptr list"
  | NumericTo addr "addr option" nat para_ptr
  | NumericToChannel addr addr nat para_ptr

definition FLAGS_HIDDEN :: u32 where "FLAGS_HIDDEN = 0x8000"

definition is_server :: "pstate \<Rightarrow> addr \<Rightarrow> bool" where
  "is_server st c = (cl_status st c = STAT_SERVER)"

definition is_client :: "pstate \<Rightarrow> addr \<Rightarrow> bool" where
  "is_client st c = (cl_status st c = STAT_CLIENT)"

definition is_defunct :: "pstate \<Rightarrow> addr \<Rightarrow> bool" where
  "is_defunct st c = has_flag (cl_flags st c) (FLAGS_DEADSOCKET OR FLAGS_CLOSING OR FLAGS_KILLED)"

definition find_person :: "pstate \<Rightarrow> addr \<Rightarrow> string \<Rightarrow> addr option \<times> pstate" where
  "find_person st source name =
    (let (r, t) = (if IsDigit (deref name) then
                     (if is_server st (cl_from st source) then hash_find_id (objs st) name (tables st)
                      else (None, tables st))
                   else hash_find_client (objs st) name (tables st))
     in (case r of None \<Rightarrow> None | Some c \<Rightarrow> if is_client st c then Some c else None, st\<lparr>tables := t\<rparr>))"

definition parse_remove_unknown :: "addr \<Rightarrow> string \<Rightarrow> string \<Rightarrow> parse_event" where
  "parse_remove_unknown client lsender lbuffer =
    (if IsDigit (deref lsender) \<and> length lsender \<le> IRC_MAXSID \<or> CHR ''.'' \<in> set lsender
     then UnknownPrefixSquit client lsender lbuffer
     else UnknownPrefixKill client lsender)"

text \<open>The sender of a forwarded numeric is \<open>None\<close> when this server stands in for it.\<close>

definition parse_handle_numeric :: "nat \<Rightarrow> addr \<Rightarrow> nat \<Rightarrow> para_ptr list \<Rightarrow> pstate
    \<Rightarrow> c_error + pstate \<times> parse_event list" where
  "parse_handle_numeric numeric source parc parv st =
    (if parc < 2 \<or> \<not> is_server st source then Inr (st, [])
     else case parv ! 1 of
       PStr name \<Rightarrow>
         (let (chptr, target, st1) =
              (if IsChanPrefix (deref name) then
                 (case hash_find_channel (objs st) name (tables st) of (r, t) \<Rightarrow> (r, None, st\<lparr>tables := t\<rparr>))
               else (case find_person st source name of (r, st') \<Rightarrow> (None, r, st')));
              numeric' = (if numeric < 100 then numeric + 100 else numeric)
          in case target of
               Some t \<Rightarrow>
                 if cl_from st1 t = cl_from st1 source \<and> chptr = None then Inr (st1, [])
                 else if (hide_servers st1 \<or> has_flag (cl_flags st1 source) FLAGS_HIDDEN) \<and> my_connect st1 t \<and>
                         \<not> has_flag (cl_umodes st1 t) UMODE_OPER
                 then Inr (st1, [NumericTo t None numeric' (parv ! 2)])
                 else Inr (st1, [NumericTo t (Some source) numeric' (parv ! 2)])
             | None \<Rightarrow>
                 (case chptr of
                    None \<Rightarrow> Inr (st1, [])
                  | Some ch \<Rightarrow> Inr (st1, [NumericToChannel source ch numeric' (parv ! 2)])))
     | _ \<Rightarrow> Inl NullDeref)"

definition parse_handle_command :: "addr \<Rightarrow> addr \<Rightarrow> nat \<Rightarrow> para_ptr list \<Rightarrow> pstate \<Rightarrow> pstate \<times> parse_event list" where
  "parse_handle_command m source i para st =
    (let msg = messages st m;
         msg1 = (if is_server st (cl_from st source) then msg\<lparr>rcount := rcount msg + 1\<rparr> else msg);
         msg2 = msg1\<lparr>mcount := mcount msg1 + 1\<rparr>;
         st' = st\<lparr>messages := (messages st)(m := msg2)\<rparr>
     in if i < args_min msg2 then (st', [NeedMoreParams source (mcmd msg2)])
        else (st', [Handle (handlers msg2 (cl_handler st (cl_from st source))) m source i para]))"

section \<open>Splitting a line\<close>

definition para_write :: "para_ptr list \<Rightarrow> nat \<Rightarrow> para_ptr \<Rightarrow> c_error + para_ptr list" where
  "para_write para i v = (if i < length para then Inr (para[i := v]) else Inl OutOfBounds)"

abbreviation is_blank :: "char \<Rightarrow> bool" where
  "is_blank c \<equiv> c = CHR '' ''"

lemma next_word_shrinks:
  assumes "\<exists>c \<in> set s. \<not> is_blank c"
  shows "length (dropWhile (\<lambda>c. \<not> is_blank c) (dropWhile is_blank s)) < length s"
proof -
  have ne: "dropWhile is_blank s \<noteq> []" using assms by (simp add: dropWhile_eq_Nil_conv)
  then obtain c r where "dropWhile is_blank s = c # r" "\<not> is_blank c"
    using hd_dropWhile [OF ne] by (cases "dropWhile is_blank s") auto
  then show ?thesis
    using length_dropWhile_le [of is_blank s] length_dropWhile_le [of "\<lambda>c. \<not> is_blank c" r] by simp
qed

text \<open>The loop over the parameters.\<close>

function parse_params :: "nat \<Rightarrow> nat \<Rightarrow> string \<Rightarrow> nat \<Rightarrow> para_ptr list \<Rightarrow> c_error + nat \<times> para_ptr list" where
  "parse_params numeric paramcount s parc para =
    (let s1 = dropWhile is_blank s
     in if s1 = [] then Inr (parc, para)
        else if hd s1 = CHR '':'' then
          (case para_write para (Suc parc) (PStr (if numeric = 0 then tl s1 else s1)) of
             Inl e \<Rightarrow> Inl e
           | Inr para' \<Rightarrow> Inr (Suc parc, para'))
        else if paramcount \<le> Suc parc then
          (case para_write para (Suc parc) (PStr s1) of
             Inl e \<Rightarrow> Inl e
           | Inr para' \<Rightarrow> Inr (Suc parc, para'))
        else
          (case para_write para (Suc parc) (PStr (takeWhile (\<lambda>c. \<not> is_blank c) s1)) of
             Inl e \<Rightarrow> Inl e
           | Inr para' \<Rightarrow>
               parse_params numeric paramcount (dropWhile (\<lambda>c. \<not> is_blank c) s1) (Suc parc) para'))"
  by pat_completeness auto
termination
  by (relation "measure (\<lambda>(n, k, s, p, v). length s)") (auto simp: next_word_shrinks)

declare parse_params.simps [simp del]

datatype prefix_result = Stop pstate "parse_event list" | Go pstate addr string

text \<open>From the start of the line to the command: the prefix and who the message is from.\<close>

definition parse_prefix :: "addr \<Rightarrow> string \<Rightarrow> pstate \<Rightarrow> prefix_result" where
  "parse_prefix client pbuffer st =
    (let ch = dropWhile is_blank pbuffer
     in if deref ch \<noteq> CHR '':'' then Go st client ch
        else
          (let ch1 = tl ch;
               sender = takeWhile (\<lambda>c. \<not> is_blank c) ch1;
               cut = (CHR '' '' \<in> set ch1);
               ch2 = (if cut then tl (dropWhile (\<lambda>c. \<not> is_blank c) ch1) else ch1);
               lbuffer = (if cut then take (length pbuffer - length ch2 - 1) pbuffer else pbuffer);
               ch3 = dropWhile is_blank ch2
           in if sender \<noteq> [] \<and> is_server st client then
                (case (case hash_find_id (objs st) sender (tables st) of
                         (Some c, t) \<Rightarrow> (Some c, t)
                       | (None, t) \<Rightarrow> hash_find_client (objs st) sender t) of
                   (None, t) \<Rightarrow>
                     Stop (st\<lparr>tables := t, is_unpf := is_unpf st + 1\<rparr>) [parse_remove_unknown client sender lbuffer]
                 | (Some from, t) \<Rightarrow>
                     if cl_from st from \<noteq> client then
                       Stop (st\<lparr>tables := t, is_wrdi := is_wrdi st + 1\<rparr>) [FakeDirection from client]
                     else Go (st\<lparr>tables := t\<rparr>) from ch3)
              else Go st client ch3))"

definition digit_value :: "char \<Rightarrow> nat" where
  "digit_value c = of_char c - 48"

text \<open>A command that starts with three digits and a blank.\<close>

fun numeric_command :: "string \<Rightarrow> (nat \<times> string \<times> string) option" where
  "numeric_command (a # b # c # d # s) =
    (if is_blank d \<and> IsDigit a \<and> IsDigit b \<and> IsDigit c
     then Some (digit_value a * 100 + digit_value b * 10 + digit_value c, [a, b, c], s) else None)"
| "numeric_command _ = None"

definition para_init :: "para_ptr list" where
  "para_init = replicate (MAXPARA + 2) PNull"

text \<open>The part behind the recognition of the command: fill the vector and close it with NULL.\<close>

definition parse_vector :: "nat \<Rightarrow> addr option \<Rightarrow> nat \<Rightarrow> string \<Rightarrow> string option \<Rightarrow> c_error + nat \<times> para_ptr list" where
  "parse_vector numeric ext paramcount ch s =
    (case para_write para_init 0 (PStr ch) of
       Inl e \<Rightarrow> Inl e
     | Inr p0 \<Rightarrow>
         (case (case ext of
                  None \<Rightarrow> Inr (0, p0)
                | Some x \<Rightarrow> (case para_write p0 1 (PExtra x) of Inl e \<Rightarrow> Inl e | Inr p1 \<Rightarrow> Inr (1, p1))) of
            Inl e \<Rightarrow> Inl e
          | Inr (parc, p1) \<Rightarrow>
              (case (case s of
                       None \<Rightarrow> Inr (parc, p1)
                     | Some s' \<Rightarrow> parse_params numeric (min paramcount MAXPARA) s' parc p1) of
                 Inl e \<Rightarrow> Inl e
               | Inr (parc2, p2) \<Rightarrow>
                   (case para_write p2 (Suc parc2) PNull of Inl e \<Rightarrow> Inl e | Inr p3 \<Rightarrow> Inr (Suc parc2, p3)))))"

definition parse_command :: "addr \<Rightarrow> string \<Rightarrow> nat \<Rightarrow> addr \<Rightarrow> string \<Rightarrow> pstate \<Rightarrow> c_error + pstate \<times> parse_event list" where
  "parse_command client pbuffer buflen from ch st =
    (case numeric_command ch of
       Some (numeric, num, s) \<Rightarrow>
         (case parse_vector numeric None 2 num (Some s) of
            Inl e \<Rightarrow> Inl e
          | Inr (parc, para) \<Rightarrow> parse_handle_numeric numeric from parc para (st\<lparr>is_num := is_num st + 1\<rparr>))
     | None \<Rightarrow>
         (let cmd = takeWhile (\<lambda>c. \<not> is_blank c) ch;
              s = (if CHR '' '' \<in> set ch then Some (tl (dropWhile (\<lambda>c. \<not> is_blank c) ch)) else None)
          in case find_command (msg_tree st) cmd of
               Inl e \<Rightarrow> Inl e
             | Inr None \<Rightarrow>
                 Inr (st\<lparr>is_unco := is_unco st + 1\<rparr>,
                      if pbuffer \<noteq> [] \<and> is_client st from then [UnknownCommand from cmd] else [])
             | Inr (Some m) \<Rightarrow>
                 (let msg = messages st m;
                      rest = (case s of None \<Rightarrow> ch | Some s' \<Rightarrow> s');
                      len = buflen - (length pbuffer - length rest);
                      st1 = st\<lparr>messages := (messages st)(m := msg\<lparr>mbytes := mbytes msg + of_nat len\<rparr>)\<rparr>
                  in case parse_vector 0 (if has_flag (mflags msg) MFLG_EXTRA then Some (extra msg) else None)
                            (args_max msg) cmd s of
                       Inl e \<Rightarrow> Inl e
                     | Inr (parc, para) \<Rightarrow> Inr (parse_handle_command m from parc para st1))))"

text \<open>\<open>parse\<close> on the bytes of a line; the C string in the buffer ends at its first NUL.\<close>

definition parse :: "addr \<Rightarrow> char list \<Rightarrow> pstate \<Rightarrow> c_error + pstate \<times> parse_event list" where
  "parse client line st =
    (if is_defunct st client then Inr (st, [])
     else if \<not> fd_open st client \<or> \<not> length line < IRCD_BUFSIZE then Inl AssertionFailed
     else
       (case parse_prefix client (buf_str line) st of
          Stop st' evs \<Rightarrow> Inr (st', evs)
        | Go st' from ch \<Rightarrow>
            if ch = [] then Inr (st'\<lparr>is_empt := is_empt st' + 1\<rparr>, [])
            else parse_command client (buf_str line) (length line) from ch st'))"

section \<open>The parameter vector\<close>

lemma parse_params_ok:
  assumes "length para = 17" "parc \<le> 14" "paramcount \<le> 15"
  shows "\<exists>parc' para'. parse_params numeric paramcount s parc para = Inr (parc', para') \<and>
    parc \<le> parc' \<and> parc' \<le> 15 \<and> length para' = 17 \<and> (\<forall>i. i \<le> parc \<longrightarrow> para' ! i = para ! i) \<and>
    (\<forall>i. parc < i \<and> i \<le> parc' \<longrightarrow> (\<exists>w. para' ! i = PStr w)) \<and> (\<forall>i. parc' < i \<longrightarrow> para' ! i = para ! i)"
  using assms
proof (induction numeric paramcount s parc para rule: parse_params.induct)
  case (1 numeric paramcount s parc para)
  let ?s = "dropWhile is_blank s"
  have w: "para_write para (Suc parc) v = Inr (para[Suc parc := v])" for v
    using "1.prems" by (simp add: para_write_def)
  have one: ?case if "parse_params numeric paramcount s parc para = Inr (Suc parc, para[Suc parc := PStr v])" for v
    using that "1.prems" by (auto simp: nth_list_update)
  consider (a) "?s = []" | (b) "?s \<noteq> []" "hd ?s = CHR '':''" | (c) "?s \<noteq> []" "hd ?s \<noteq> CHR '':''" "paramcount \<le> Suc parc"
    | (d) "?s \<noteq> []" "hd ?s \<noteq> CHR '':''" "\<not> paramcount \<le> Suc parc" by blast
  then show ?case
  proof cases
    case a
    then have "parse_params numeric paramcount s parc para = Inr (parc, para)"
      by (subst parse_params.simps) (simp add: Let_def)
    then show ?thesis using "1.prems" by auto
  next
    case b
    then have "parse_params numeric paramcount s parc para = Inr (Suc parc, para[Suc parc := PStr (if numeric = 0 then tl ?s else ?s)])"
      by (subst parse_params.simps) (simp add: w Let_def del: dropWhile_eq_Nil_conv)
    then show ?thesis by (rule one)
  next
    case c
    then have "parse_params numeric paramcount s parc para = Inr (Suc parc, para[Suc parc := PStr ?s])"
      by (subst parse_params.simps) (simp add: w Let_def del: dropWhile_eq_Nil_conv)
    then show ?thesis by (rule one)
  next
    case d
    let ?w = "takeWhile (\<lambda>c. \<not> is_blank c) ?s" and ?r = "dropWhile (\<lambda>c. \<not> is_blank c) ?s"
    have eq: "parse_params numeric paramcount s parc para = parse_params numeric paramcount ?r (Suc parc) (para[Suc parc := PStr ?w])"
      using d by (subst parse_params.simps) (simp add: w Let_def del: dropWhile_eq_Nil_conv)
    obtain parc' para' where r: "parse_params numeric paramcount ?r (Suc parc) (para[Suc parc := PStr ?w]) = Inr (parc', para')"
      "Suc parc \<le> parc'" "parc' \<le> 15" "length para' = 17"
      "\<forall>i. i \<le> Suc parc \<longrightarrow> para' ! i = para[Suc parc := PStr ?w] ! i"
      "\<forall>i. Suc parc < i \<and> i \<le> parc' \<longrightarrow> (\<exists>w. para' ! i = PStr w)"
      "\<forall>i. parc' < i \<longrightarrow> para' ! i = para[Suc parc := PStr ?w] ! i"
      using "1.IH" [OF refl d w] "1.prems" d(3) by auto
    have "\<exists>w. para' ! i = PStr w" if "parc < i" "i \<le> parc'" for i
      using r(5,6) that "1.prems" by (cases "i = Suc parc") (auto simp: nth_list_update)
    then show ?thesis using eq r "1.prems" by (auto simp: nth_list_update)
  qed
qed

text \<open>What a handler may rely on, from the comment in \<open>include/parse.h\<close>: the command first, then the
  parameters, none of them NULL, and NULL behind the last.\<close>

definition vector_ok :: "string \<Rightarrow> nat \<Rightarrow> para_ptr list \<Rightarrow> bool" where
  "vector_ok ch parc para \<longleftrightarrow> length para = MAXPARA + 2 \<and> 0 < parc \<and> parc \<le> MAXPARA + 1 \<and> para ! 0 = PStr ch \<and>
     (\<forall>i < parc. para ! i \<noteq> PNull) \<and> para ! parc = PNull"

lemma parse_vector_ok: "\<exists>parc para. parse_vector numeric ext paramcount ch s = Inr (parc, para) \<and> vector_ok ch parc para"
proof -
  define p0 where "p0 = para_init[0 := PStr ch]"
  have p0: "length p0 = 17" "p0 ! 0 = PStr ch" "\<forall>i. 0 < i \<and> i < 17 \<longrightarrow> p0 ! i = PNull"
    by (auto simp: p0_def para_init_def MAXPARA_def nth_list_update nth_Cons split: nat.splits)
  define q where "q = (case ext of None \<Rightarrow> (0, p0) | Some x \<Rightarrow> (1 :: nat, p0[1 := PExtra x]))"
  obtain k p1 where kp: "q = (k, p1)" by fastforce
  have p1: "length p1 = 17" "k \<le> 1" "p1 ! 0 = PStr ch" "\<forall>i \<le> k. p1 ! i \<noteq> PNull" "\<forall>i. k < i \<and> i < 17 \<longrightarrow> p1 ! i = PNull"
    using kp p0 by (auto simp: q_def nth_list_update le_Suc_eq split: option.splits)
  have w0: "para_write para_init 0 (PStr ch) = Inr p0"
    by (simp add: para_write_def p0_def para_init_def MAXPARA_def)
  have w1: "(case ext of None \<Rightarrow> Inr (0, p0)
      | Some x \<Rightarrow> (case para_write p0 1 (PExtra x) of Inl e \<Rightarrow> Inl e | Inr p1 \<Rightarrow> Inr (1, p1))) = Inr (k, p1)"
    using kp p0(1) by (auto simp: q_def para_write_def split: option.splits)
  define r where "r = (case s of None \<Rightarrow> Inr (k, p1) | Some s' \<Rightarrow> parse_params numeric (min paramcount MAXPARA) s' k p1)"
  have "\<exists>k2 p2. r = Inr (k2, p2) \<and> k \<le> k2 \<and> k2 \<le> 15 \<and> length p2 = 17 \<and> (\<forall>i. i \<le> k \<longrightarrow> p2 ! i = p1 ! i) \<and>
      (\<forall>i. k < i \<and> i \<le> k2 \<longrightarrow> (\<exists>w. p2 ! i = PStr w)) \<and> (\<forall>i. k2 < i \<longrightarrow> p2 ! i = p1 ! i)"
  proof (cases s)
    case None
    then show ?thesis using p1 by (auto simp: r_def)
  next
    case (Some s')
    then show ?thesis
      using parse_params_ok [of p1 k "min paramcount MAXPARA" numeric s'] p1 by (auto simp: r_def MAXPARA_def)
  qed
  then obtain k2 p2 where p2: "r = Inr (k2, p2)" "k \<le> k2" "k2 \<le> 15" "length p2 = 17" "\<forall>i. i \<le> k \<longrightarrow> p2 ! i = p1 ! i"
    "\<forall>i. k < i \<and> i \<le> k2 \<longrightarrow> (\<exists>w. p2 ! i = PStr w)" by blast
  have "parse_vector numeric ext paramcount ch s = Inr (Suc k2, p2[Suc k2 := PNull])"
    using w0 w1 p2(1,3,4) by (simp add: parse_vector_def r_def para_write_def)
  moreover have "p2 ! i \<noteq> PNull" if le: "i \<le> k2" for i
  proof (cases "i \<le> k")
    case True
    then show ?thesis using p2(5) p1(4) by simp
  next
    case False
    then obtain w where "p2 ! i = PStr w" using p2(6) le by (meson not_le)
    then show ?thesis by simp
  qed
  ultimately show ?thesis using p2(3,4,5) p1(3)
    by (auto simp: vector_ok_def MAXPARA_def nth_list_update less_Suc_eq_le)
qed

lemma parse_prefix_from:
  assumes "parse_prefix client pb st = Go st' from ch"
  shows "(from = client \<or> is_server st client \<and> cl_from st from = client) \<and>
    (\<exists>t. st' = st\<lparr>tables := t\<rparr>) \<and> (ch = [] \<or> \<not> is_blank (hd ch))"
proof -
  have b: "dropWhile is_blank x = [] \<or> \<not> is_blank (hd (dropWhile is_blank x))" for x
    by (rule dropWhile_hd)
  have st: "\<exists>t. st = st\<lparr>tables := t\<rparr>" by (rule exI [of _ "tables st"]) simp
  show ?thesis
  proof (cases "deref (dropWhile is_blank pb) = CHR '':''")
    case False
    then have "st' = st" "from = client" "ch = dropWhile is_blank pb"
      using assms by (auto simp: parse_prefix_def Let_def)
    then show ?thesis using b st by auto
  next
    case True
    then show ?thesis using assms b st
      by (fastforce simp: parse_prefix_def Let_def simp del: dropWhile_eq_Nil_conv
          split: if_splits prod.splits option.splits)
  qed
qed

section \<open>What parse calls\<close>

text \<open>An event of \<open>parse\<close> that the handlers' contract allows: the source is the connection itself or a client
  behind the server it belongs to, and the vector of parameters is well formed.\<close>

definition event_ok :: "pstate \<Rightarrow> addr \<Rightarrow> parse_event \<Rightarrow> bool" where
  "event_ok st client e \<longleftrightarrow>
    (case e of
       Handle h m source parc para \<Rightarrow>
         (source = client \<or> is_server st client \<and> cl_from st source = client) \<and>
         args_min (messages st m) \<le> parc \<and> h = handlers (messages st m) (cl_handler st (cl_from st source)) \<and>
         (\<exists>c. vector_ok c parc para \<and> look_cmd (msg_tree st) c = Some m)
     | NumericTo t s n p \<Rightarrow> is_server st client
     | NumericToChannel s c n p \<Rightarrow> is_server st client
     | _ \<Rightarrow> True)"

definition clients_are_own :: "pstate \<Rightarrow> addr \<Rightarrow> bool" where
  "clients_are_own st client \<longleftrightarrow> cl_from st client = client"

lemma find_command_cmd:
  assumes "ch \<noteq> []" "\<not> is_blank (hd ch)"
  shows "\<exists>r. find_command t (takeWhile (\<lambda>c. \<not> is_blank c) ch) = Inr r \<and>
    r = look_cmd t (takeWhile (\<lambda>c. \<not> is_blank c) ch)"
  using assms by (cases ch) (auto simp: find_command_def look_cmd_def msg_tree_parse_def)

lemma parse_handle_numeric_ok:
  assumes "vector_ok ch parc para" "\<forall>i. 1 \<le> i \<and> i < parc \<longrightarrow> (\<exists>w. para ! i = PStr w)"
  shows "\<exists>st' evs. parse_handle_numeric numeric source parc para st = Inr (st', evs) \<and>
    (\<forall>e \<in> set evs. is_server st source \<and> (\<forall>h m s n p. e \<noteq> Handle h m s n p))"
proof (cases "parc < 2 \<or> \<not> is_server st source")
  case False
  then obtain w where w: "para ! 1 = PStr w" using assms(2) by auto
  show ?thesis
    using False w by (auto simp: parse_handle_numeric_def Let_def split: option.split prod.split)
qed (simp add: parse_handle_numeric_def)

lemma parse_vector_numeric:
  assumes "parse_vector numeric None k ch (Some s) = Inr (parc, para)"
  shows "\<forall>i. 1 \<le> i \<and> i < parc \<longrightarrow> (\<exists>w. para ! i = PStr w)"
proof -
  let ?p = "para_init[0 := PStr ch]"
  have l: "length ?p = 17" by (simp add: para_init_def MAXPARA_def)
  obtain k2 p2 where p: "parse_params numeric (min k MAXPARA) s 0 ?p = Inr (k2, p2)" "length p2 = 17" "k2 \<le> 15"
    "\<forall>i. 0 < i \<and> i \<le> k2 \<longrightarrow> (\<exists>w. p2 ! i = PStr w)"
    using parse_params_ok [OF l, of 0 "min k MAXPARA" numeric s] by (auto simp: MAXPARA_def)
  then have "parc = Suc k2" "para = p2[Suc k2 := PNull]"
    using assms l by (auto simp: parse_vector_def para_write_def para_init_def MAXPARA_def)
  then show ?thesis using p by (auto simp: nth_list_update)
qed

lemma parse_command_ok:
  assumes "ch \<noteq> []" "\<not> is_blank (hd ch)" "from = client \<or> is_server st client \<and> cl_from st from = client"
    "cl_status st client \<noteq> STAT_SERVER \<Longrightarrow> from = client"
  shows "\<exists>st' evs. parse_command client pb n from ch st = Inr (st', evs) \<and> (\<forall>e \<in> set evs. event_ok st client e)"
proof (cases "numeric_command ch")
  case (Some x)
  obtain numeric num s where x: "x = (numeric, num, s)" by (cases x)
  obtain parc para where v: "parse_vector numeric None 2 num (Some s) = Inr (parc, para)" "vector_ok num parc para"
    using parse_vector_ok by blast
  obtain st' evs where h: "parse_handle_numeric numeric from parc para (st\<lparr>is_num := is_num st + 1\<rparr>) = Inr (st', evs)"
    "\<forall>e \<in> set evs. is_server st from \<and> (\<forall>h m s n p. e \<noteq> Handle h m s n p)"
    using parse_handle_numeric_ok [OF v(2) parse_vector_numeric [OF v(1)], of numeric "from" "st\<lparr>is_num := is_num st + 1\<rparr>"]
    by (auto simp: is_server_def)
  have "is_server st client" if "e \<in> set evs" for e
    using h(2) that assms(4) by (auto simp: is_server_def)
  then have "event_ok st client e" if "e \<in> set evs" for e
    using h(2) that by (auto simp: event_ok_def split: parse_event.splits)
  then show ?thesis using Some x v(1) h(1) by (simp add: parse_command_def)
next
  case None
  let ?c = "takeWhile (\<lambda>c. \<not> is_blank c) ch"
  obtain r where r: "find_command (msg_tree st) ?c = Inr r" "r = look_cmd (msg_tree st) ?c"
    using find_command_cmd [OF assms(1,2)] by blast
  show ?thesis
  proof (cases r)
    case n: None
    then show ?thesis using None r(1) by (simp add: parse_command_def Let_def event_ok_def)
  next
    case (Some m)
    let ?ext = "if has_flag (mflags (messages st m)) MFLG_EXTRA then Some (extra (messages st m)) else None"
    let ?s = "if CHR '' '' \<in> set ch then Some (tl (dropWhile (\<lambda>c. \<not> is_blank c) ch)) else None"
    obtain parc para where v: "parse_vector 0 ?ext (args_max (messages st m)) ?c ?s = Inr (parc, para)" "vector_ok ?c parc para"
      using parse_vector_ok by blast
    have "event_ok st client e" if "e \<in> set (snd (parse_handle_command m from parc para st1))"
      "\<exists>b. st1 = st\<lparr>messages := (messages st)(m := (messages st m)\<lparr>mbytes := b\<rparr>)\<rparr>" for e st1
      using that v(2) r(2) Some assms(3)
      by (auto simp: parse_handle_command_def Let_def event_ok_def is_server_def split: if_splits)
    moreover obtain b where "parse_command client pb n from ch st =
        Inr (parse_handle_command m from parc para (st\<lparr>messages := (messages st)(m := (messages st m)\<lparr>mbytes := b\<rparr>)\<rparr>))"
      using None r(1) Some v(1) unfolding parse_command_def by (simp add: Let_def)
    ultimately show ?thesis by (metis prod.collapse)
  qed
qed

section \<open>Properties\<close>


definition sample_msg :: "string \<Rightarrow> message" where
  "sample_msg s = \<lparr>mcmd = s, extra = 0, mcount = 0, rcount = 0, args_min = 0, args_max = 3, mflags = 0, mbytes = 0,
     handlers = (\<lambda>_. 7)\<rparr>"


text \<open>C33: Unloading a command that was loaded gives the table it was loaded into back: the command is found
  in between, not after, all other commands are found as before, and the walk never runs behind the name.\<close>

theorem command_load_unload_roundtrip:
  assumes "wf_tree t" "cmd_name (mcmd (msgs m))" "look_cmd t (mcmd (msgs m)) = None"
  shows "\<exists>t1 t2. mod_add_cmd msgs m t = Inr t1 \<and> find_command t1 (mcmd (msgs m)) = Inr (Some m) \<and>
    mod_del_cmd msgs m t1 = Inr t2 \<and> wf_tree t2 \<and> (\<forall>s. find_command t2 s = find_command t s)"
proof -
  have f: "find_command t s = (if s = [] then Inl AssertionFailed else Inr (look_cmd t s))" for t s
    by (simp add: look_cmd_def find_command_def msg_tree_parse_def)
  then show ?thesis using cmd_trie.load_unload [of t msgs m, OF assms] assms(2) by (auto simp: cmd_name_def)
qed

theorem command_load_unload_roundtrip_witness:
  "\<exists>t1 t2. mod_add_cmd (\<lambda>_. sample_msg ''QUIT'') 5 empty_tree = Inr t1 \<and> find_command t1 ''QUIT'' = Inr (Some 5) \<and>
    mod_del_cmd (\<lambda>_. sample_msg ''QUIT'') 5 t1 = Inr t2 \<and> find_command t2 ''QUIT'' = Inr None"
proof -
  have "cmd_name (mcmd (sample_msg ''QUIT''))" "look_cmd empty_tree (mcmd (sample_msg ''QUIT'')) = None"
    by (simp_all add: cmd_name_def sample_msg_def IsAlpha_iff look_cmd_tget empty_tree_def)
  moreover have "find_command empty_tree ''QUIT'' = Inr None"
    by (simp add: find_command_def msg_tree_parse_def empty_tree_def IsAlpha_iff)
  ultimately show ?thesis
    using command_load_unload_roundtrip [OF wf_empty, of "\<lambda>_. sample_msg ''QUIT''" 5] by (auto simp: sample_msg_def)
qed

text \<open>C31: \<open>parse\<close> is safe and keeps its contract with the handlers, for every line of less than 512 bytes: it
  ends without writing outside the parameter vector and without a failed assertion; a handler is called only
  for a loaded command, with at least the parameters it asks for, with a vector that starts with the command, has
  no NULL before its end and NULL at its end; and only for a source that is the connection itself or
  a client reached through that server. Numerics are forwarded for servers only.\<close>

theorem parse_keeps_handler_contract:
  assumes "length line < 512" "fd_open st client"
  shows "\<exists>st' evs. parse client line st = Inr (st', evs) \<and> (\<forall>e \<in> set evs. event_ok st client e)"
proof (cases "is_defunct st client")
  case True
  then show ?thesis by (simp add: parse_def)
next
  case False
  show ?thesis
  proof (cases "parse_prefix client (buf_str line) st")
    case (Stop st' evs)
    have "\<forall>e \<in> set evs. event_ok st client e"
      using Stop by (auto simp: parse_prefix_def Let_def event_ok_def parse_remove_unknown_def
          split: if_splits prod.splits option.splits)
    then show ?thesis using False assms Stop by (simp add: parse_def IRCD_BUFSIZE_def)
  next
    case (Go st' "from" ch)
    note g = parse_prefix_from [OF Go]
    then obtain t where t: "st' = st\<lparr>tables := t\<rparr>" by blast
    have ev: "event_ok st' client e = event_ok st client e" for e
      by (simp add: t event_ok_def is_server_def split: parse_event.splits)
    show ?thesis
    proof (cases "ch = []")
      case True
      then show ?thesis using False assms Go by (simp add: parse_def IRCD_BUFSIZE_def)
    next
      case ne: False
      have "\<exists>st'' evs. parse_command client (buf_str line) (length line) from ch st' = Inr (st'', evs) \<and>
          (\<forall>e \<in> set evs. event_ok st' client e)"
        using g ne by (intro parse_command_ok) (auto simp: t is_server_def)
      then show ?thesis using False assms Go ne ev by (simp add: parse_def IRCD_BUFSIZE_def)
    qed
  qed
qed

definition sample_pstate :: "mtree \<Rightarrow> pstate" where
  "sample_pstate t = \<lparr>msg_tree = t, messages = (\<lambda>_. sample_msg ''PING''), tables = empty_tables 0,
     objs = \<lparr>cl_name = (\<lambda>_. ''a''), cl_id = (\<lambda>_. []), cl_server = (\<lambda>_. False), ch_name = (\<lambda>_. [])\<rparr>,
     cl_from = (\<lambda>c. c), cl_status = (\<lambda>_. STAT_CLIENT), cl_flags = (\<lambda>_. 0), cl_umodes = (\<lambda>_. 0),
     cl_handler = (\<lambda>_. CLIENT_HANDLER), my_connect = (\<lambda>_. True), fd_open = (\<lambda>_. True), hide_servers = False,
     is_unpf = 0, is_wrdi = 0, is_empt = 0, is_num = 0, is_unco = 0\<rparr>"

theorem parse_keeps_handler_contract_witness:
  "\<exists>st' evs. parse 1 ''NOSUCH a :b c'' (sample_pstate empty_tree) = Inr (st', evs) \<and>
     (\<forall>e \<in> set evs. event_ok (sample_pstate empty_tree) 1 e)"
  by (rule parse_keeps_handler_contract) (simp_all add: sample_pstate_def)

text \<open>A parameter of the middle: not empty, no blank, no colon in front.\<close>

definition middle_param :: "string \<Rightarrow> bool" where
  "middle_param w \<longleftrightarrow> w \<noteq> [] \<and> hd w \<noteq> CHR '':'' \<and> CHR '' '' \<notin> set w"

definition format_params :: "string list \<Rightarrow> string \<Rightarrow> string" where
  "format_params ws trailing = concat (map (\<lambda>w. w @ '' '') ws) @ CHR '':'' # trailing"

lemma middle_word:
  assumes "middle_param w"
  shows "dropWhile is_blank (w @ r) = w @ r" "takeWhile (\<lambda>c. \<not> is_blank c) (w @ CHR '' '' # r) = w"
    "dropWhile (\<lambda>c. \<not> is_blank c) (w @ CHR '' '' # r) = CHR '' '' # r" "hd (w @ r) \<noteq> CHR '':''" "w @ r \<noteq> []"
proof -
  obtain c cs where "w = c # cs" using assms by (cases w) (auto simp: middle_param_def)
  then show "dropWhile is_blank (w @ r) = w @ r" "hd (w @ r) \<noteq> CHR '':''" "w @ r \<noteq> []"
    using assms by (auto simp: middle_param_def)
  show "takeWhile (\<lambda>c. \<not> is_blank c) (w @ CHR '' '' # r) = w"
    "dropWhile (\<lambda>c. \<not> is_blank c) (w @ CHR '' '' # r) = CHR '' '' # r"
    using assms by (auto simp: middle_param_def takeWhile_append dropWhile_append)
qed

lemma parse_params_blank:
  "parse_params numeric k (CHR '' '' # s) parc para = parse_params numeric k s parc para"
  by (simp add: parse_params.simps [of _ _ "CHR '' '' # s"] parse_params.simps [of _ _ s])

lemma parse_params_format:
  assumes "\<forall>w \<in> set ws. middle_param w" "parc + length ws < k" "Suc (parc + length ws) < length para"
  shows "parse_params 0 k (format_params ws trailing) parc para =
    Inr (Suc (parc + length ws), take (Suc parc) para @ map PStr (ws @ [trailing]) @ drop (parc + length ws + 2) para)"
  using assms
proof (induction ws arbitrary: parc para)
  case Nil
  then show ?case
    by (subst parse_params.simps) (simp add: format_params_def para_write_def upd_conv_take_nth_drop)
next
  case (Cons w ws)
  let ?r = "format_params ws trailing"
  have f: "format_params (w # ws) trailing = w @ CHR '' '' # ?r" by (simp add: format_params_def)
  have m: "middle_param w" using Cons.prems(1) by simp
  let ?p = "para[Suc parc := PStr w]"
  have "parse_params 0 k (format_params (w # ws) trailing) parc para = parse_params 0 k (CHR '' '' # ?r) (Suc parc) ?p"
    unfolding f using Cons.prems
    by (subst parse_params.simps) (simp only: Let_def middle_word [OF m] para_write_def if_True if_False simp_thms, simp)
  also have "\<dots> = Inr (Suc (Suc parc + length ws),
      take (Suc (Suc parc)) ?p @ map PStr (ws @ [trailing]) @ drop (Suc parc + length ws + 2) ?p)"
    using Cons.IH [of "Suc parc" ?p] Cons.prems by (simp add: parse_params_blank)
  also have "take (Suc (Suc parc)) ?p = take (Suc parc) para @ [PStr w]"
    using Cons.prems by (simp add: take_Suc_conv_app_nth [of "Suc parc"])
  finally show ?case by simp
qed

text \<open>C34: Parameters survive the round trip. A command's parameters, written with one blank behind each and the last
  one after a colon, are split back into exactly these strings, the last with its blanks and colons, as long
  as they are fewer than the command's maximum.\<close>

theorem parameters_roundtrip:
  assumes "\<forall>w \<in> set ws. middle_param w" "length ws < args" "args \<le> MAXPARA"
  shows "\<exists>para. parse_vector 0 None args cmd (Some (format_params ws trailing)) = Inr (length ws + 2, para) \<and>
    take (length ws + 3) para = PStr cmd # map PStr ws @ [PStr trailing, PNull]"
proof -
  let ?p = "para_init[0 := PStr cmd]"
  let ?q = "take 1 ?p @ map PStr (ws @ [trailing]) @ drop (length ws + 2) ?p"
  have l: "length ?p = 17" "take 1 ?p = [PStr cmd]" by (simp_all add: para_init_def MAXPARA_def eval_nat_numeral)
  have "parse_params 0 args (format_params ws trailing) 0 ?p = Inr (Suc (length ws), ?q)"
    using parse_params_format [OF assms(1), of 0 args ?p trailing] assms(2,3) l(1) by (simp add: MAXPARA_def)
  then have "parse_vector 0 None args cmd (Some (format_params ws trailing)) =
      Inr (length ws + 2, ?q[length ws + 2 := PNull])"
    using assms l by (simp add: parse_vector_def para_write_def min_def para_init_def MAXPARA_def)
  moreover have "take (length ws + 3) (?q[length ws + 2 := PNull]) = PStr cmd # map PStr ws @ [PStr trailing, PNull]"
  proof -
    have q: "?q = (PStr cmd # map PStr ws @ [PStr trailing]) @ drop (length ws + 2) ?p" using l by simp
    have "drop (length ws + 2) ?p \<noteq> []" using assms l by (simp add: MAXPARA_def)
    then obtain x xs where "drop (length ws + 2) ?p = x # xs" by (cases "drop (length ws + 2) ?p") auto
    then show ?thesis unfolding q by (simp add: list_update_append eval_nat_numeral)
  qed
  ultimately show ?thesis by blast
qed

theorem parameters_roundtrip_witness:
  "\<exists>para. parse_vector 0 None 3 ''PRIVMSG'' (Some (format_params [''#chan''] '':) hello'')) = Inr (3, para) \<and>
    take 4 para = [PStr ''PRIVMSG'', PStr ''#chan'', PStr '':) hello'', PNull]"
  using parameters_roundtrip [of "[''#chan'']" 3 "''PRIVMSG''" "'':) hello''"]
  by (simp add: middle_param_def MAXPARA_def eval_nat_numeral)

text \<open>C35: A numeric without text. When a server sends a numeric with a target and nothing else, the parser
  forwards it with the NULL pointer that ends the parameter vector as its text.\<close>

theorem numeric_without_text_forwards_null:
  assumes "is_server st source" "middle_param name" "\<not> IsChanPrefix (hd name)"
    "find_person st source name = (Some t, st1)" "cl_from st1 t \<noteq> cl_from st1 source" "100 \<le> numeric"
  shows "\<exists>parc para sender. parse_vector numeric None 2 num (Some name) = Inr (parc, para) \<and>
    parse_handle_numeric numeric source parc para st = Inr (st1, [NumericTo t sender numeric PNull])"
proof -
  have d: "dropWhile is_blank name = name" "hd name \<noteq> CHR '':''" "name \<noteq> []"
    using middle_word(1,4,5) [OF assms(2), of "[]"] by simp_all
  have tw: "takeWhile (\<lambda>c. \<not> is_blank c) name = name" "dropWhile (\<lambda>c. \<not> is_blank c) name = []"
    using assms(2) by (auto simp: middle_param_def takeWhile_eq_all_conv)
  have pp: "parse_params numeric 2 name 0 p = Inr (1, p[1 := PStr name])" if "length p = 17" for p
    unfolding parse_params.simps [of numeric 2 name] using that d tw
    by (simp add: Let_def para_write_def parse_params.simps [of _ _ "[]"] del: dropWhile_eq_Nil_conv takeWhile_eq_all_conv)
  let ?p = "para_init[0 := PStr num, 1 := PStr name, 2 := PNull]"
  have v: "parse_vector numeric None 2 num (Some name) = Inr (2, ?p)"
    using pp [of "para_init[0 := PStr num]"]
    by (simp add: parse_vector_def para_write_def para_init_def MAXPARA_def numeral_2_eq_2)
  have "?p ! 1 = PStr name" "?p ! 2 = PNull" by (simp_all add: para_init_def MAXPARA_def)
  moreover have "\<not> IsChanPrefix (deref name)" using assms(3) d(3) by (cases name) auto
  ultimately have "\<exists>sender. parse_handle_numeric numeric source 2 ?p st = Inr (st1, [NumericTo t sender numeric PNull])"
    using assms(1,4-6) by (simp add: parse_handle_numeric_def Let_def)
  then show ?thesis using v by blast
qed

definition numeric_pstate :: pstate where
  "numeric_pstate = (sample_pstate empty_tree)\<lparr>
     tables := (empty_tables 0)\<lparr>clientTable := (\<lambda>_. [2])\<rparr>,
     cl_status := (\<lambda>c. if c = 1 then STAT_SERVER else STAT_CLIENT)\<rparr>"

theorem numeric_without_text_forwards_null_witness:
  "\<exists>parc para st1 sender. parse_vector 401 None 2 ''401'' (Some ''a'') = Inr (parc, para) \<and>
    parse_handle_numeric 401 1 parc para numeric_pstate = Inr (st1, [NumericTo 2 sender 401 PNull])"
proof -
  have "\<not> IsDigit (CHR ''a'')" by (simp add: IsDigit_iff)
  then have "\<exists>st1. find_person numeric_pstate 1 ''a'' = (Some 2, st1) \<and> cl_from st1 = (\<lambda>c. c)"
    by (simp add: find_person_def numeric_pstate_def sample_pstate_def hash_find_client_def chain_find_def
        empty_tables_def is_client_def Let_def)
  then obtain st1 where s: "find_person numeric_pstate 1 ''a'' = (Some 2, st1)" "cl_from st1 2 \<noteq> cl_from st1 1" by auto
  have "is_server numeric_pstate 1" by (simp add: is_server_def numeric_pstate_def)
  then show ?thesis
    using numeric_without_text_forwards_null [OF _ _ _ s(1) s(2), of 401 "''401''"]
    by (auto simp: middle_param_def IsChanPrefix_iff)
qed

end
