(* ===== verification/Netmask.thy ===== *)
theory Netmask
  imports CharTable
begin

text \<open>
  Address masks, \<open>src/src/hostmask.c\<close>: the two parsers \<open>try_parse_v4_netmask\<close> and
  \<open>try_parse_v6_netmask\<close> with the dispatcher \<open>parse_netmask\<close>, the comparisons
  \<open>match_ipv4\<close> and \<open>match_ipv6\<close> and the routine \<open>mask_addr\<close> that clears host bits.

  An IPv4 address is its 32-bit value in host order, an IPv6 address the list of its 16 bytes
  \<open>s6_addr\<close>. The bit counts are C \<open>int\<close>s, kept as \<open>int\<close> after the conversion from
  \<open>unsigned long\<close> that the code does. \<open>1 << (32 - bits)\<close> is a shift of a 32-bit word; the
  parsers only yield \<open>bits\<close> from 1 to 32, for which it stays within the word.
\<close>

type_synonym u64 = "64 word"

datatype netmask = HM_HOST | HM_IPV4 u32 int | HM_IPV6 "u8 list" int

section \<open>The C library\<close>

text \<open>\<open>strtoul(s, &end, 10)\<close> with a 64-bit \<open>unsigned long\<close>: blanks, an optional sign, digits.
  Without a digit the value is 0 and \<open>end\<close> the start of the string; a number that does not fit gives
  \<open>ULONG_MAX\<close>; a minus sign negates modulo \<open>2^64\<close>. The result is assigned to an \<open>int\<close>.\<close>

definition digit_val :: "char \<Rightarrow> nat" where
  "digit_val c = of_char c - 48"

definition decimal :: "string \<Rightarrow> nat" where
  "decimal ds = foldl (\<lambda>a c. a * 10 + digit_val c) 0 ds"

definition skip_sign :: "string \<Rightarrow> bool \<times> string" where
  "skip_sign s = (if deref s = CHR ''-'' then (True, tl s)
     else if deref s = CHR ''+'' then (False, tl s) else (False, s))"

definition strtoul :: "string \<Rightarrow> u64 \<times> string" where
  "strtoul s =
    (let (neg, t) = skip_sign (dropWhile IsSpace s);
         ds = takeWhile IsDigit t;
         n = decimal ds;
         v = (if n < 2 ^ 64 then (if neg then - word_of_nat n else word_of_nat n) else - 1)
     in if ds = [] then (0, s) else (v, dropWhile IsDigit t))"

definition to_int :: "u64 \<Rightarrow> int" where
  "to_int v = sint (ucast v :: u32)"

section \<open>IPv4\<close>

text \<open>The scan of \<open>try_parse_v4_netmask\<close>: \<open>digits\<close> in the order they are stored, the byte before
  the cursor (there is none at the start of the text), the cursor. \<open>Inr None\<close> is \<open>HM_HOST\<close>.\<close>

fun v4_scan :: "string list \<Rightarrow> char option \<Rightarrow> string \<Rightarrow> c_error + (string list \<times> int) option" where
  "v4_scan digits before [] = Inr (Some (digits, 0))"
| "v4_scan digits before (c # p) =
    (if IsDigit c then v4_scan digits (Some c) p
     else if c = CHR ''.'' then
       (if length digits \<ge> 4 then Inr None else v4_scan (digits @ [p]) (Some c) p)
     else if c = CHR ''*'' then
       (if p \<noteq> [] \<or> length digits = 0 then Inr None
        else case before of None \<Rightarrow> Inl OutOfBounds
          | Some q \<Rightarrow> if q \<noteq> CHR ''.'' then Inr None else Inr (Some (digits, (int (length digits) - 1) * 8)))
     else if c = CHR ''/'' then
       (let (v, after) = strtoul p; bits = to_int v
        in if bits < 0 \<or> after \<noteq> [] then Inr None
           else if bits > int (length digits) * 8 then Inr None
           else Inr (Some (digits, bits)))
     else Inr None)"

definition v4_byte :: "string \<Rightarrow> u8" where
  "v4_byte s = ucast (fst (strtoul s))"

text \<open>Clearing the unused bits of \<open>addb\<close>.\<close>

definition v4_clear :: "u8 list \<Rightarrow> int \<Rightarrow> u8 list" where
  "v4_clear addb bits =
    (let n = nat (bits div 8);
         a = (if bits < 32 \<and> bits mod 8 \<noteq> 0
              then addb[n := addb ! n AND NOT (push_bit (nat (8 - bits mod 8)) 1 - 1)] else addb);
         k = n + (if bits mod 8 \<noteq> 0 then 1 else 0)
     in take k a @ replicate (4 - k) 0)"

definition v4_pack :: "u8 list \<Rightarrow> u32" where
  "v4_pack a = push_bit 24 (ucast (a ! 0)) OR push_bit 16 (ucast (a ! 1)) OR push_bit 8 (ucast (a ! 2)) OR ucast (a ! 3)"

definition try_parse_v4_netmask :: "string \<Rightarrow> c_error + netmask" where
  "try_parse_v4_netmask text =
    (case v4_scan [text] None text of
       Inl e \<Rightarrow> Inl e
     | Inr None \<Rightarrow> Inr HM_HOST
     | Inr (Some (digits, b0)) \<Rightarrow>
         let n = length digits;
             b1 = (if n < 4 \<and> b0 = 0 then int n * 8 else b0);
             digits' = (if b1 \<noteq> 0 then digits @ replicate (4 - n) ''0'' else digits);
             addb = map v4_byte (take 4 digits');
             bits = (if b1 = 0 then 32 else b1)
         in Inr (HM_IPV4 (v4_pack (v4_clear addb bits)) bits))"

definition v4_mask :: "int \<Rightarrow> u32" where
  "v4_mask bits = NOT (push_bit (nat (32 - bits)) 1 - 1)"

definition match_ipv4 :: "u32 \<Rightarrow> u32 \<Rightarrow> int \<Rightarrow> bool" where
  "match_ipv4 addr msk bits \<longleftrightarrow> addr AND v4_mask bits = msk"

section \<open>IPv6\<close>

text \<open>The variables of the scan in \<open>try_parse_v6_netmask\<close>. The array \<open>d\<close> has eight elements; a
  read or write of another one is out of bounds.\<close>

record v6_state =
  d6 :: "u32 list"
  dp6 :: nat
  nyble6 :: nat
  finsert6 :: "nat option"
  bits6 :: int

definition v6_init :: v6_state where
  "v6_init = \<lparr>d6 = replicate 8 0, dp6 = 0, nyble6 = 4, finsert6 = None, bits6 = 128\<rparr>"

definition DigitParse :: "char \<Rightarrow> u32" where
  "DigitParse c = (let n = of_char c :: nat in word_of_nat
     (if 48 \<le> n \<and> n \<le> 57 then n - 48
      else if 65 \<le> n \<and> n \<le> 70 then n - 65 + 10
      else if 97 \<le> n \<and> n \<le> 102 then n - 97 + 10 else n))"

definition d_update :: "(u32 \<Rightarrow> u32) \<Rightarrow> v6_state \<Rightarrow> c_error + v6_state" where
  "d_update f s = (if dp6 s < length (d6 s) then Inr (s\<lparr>d6 := (d6 s)[dp6 s := f (d6 s ! dp6 s)]\<rparr>) else Inl OutOfBounds)"

text \<open>\<open>d[dp] = d[dp] >> 4 * nyble\<close>\<close>

definition d_shift :: "v6_state \<Rightarrow> c_error + v6_state" where
  "d_shift s = d_update (drop_bit (4 * nyble6 s)) s"

text \<open>The scan; the boolean says that the loop was left at a slash, where \<open>c\<close> is not NUL.\<close>

fun v6_scan :: "char option \<Rightarrow> string \<Rightarrow> v6_state \<Rightarrow> c_error + (bool \<times> v6_state) option" where
  "v6_scan before [] s = Inr (Some (False, s))"
| "v6_scan before (c # p) s =
    (if IsXDigit c then
       (if nyble6 s = 0 then Inr None
        else case d_update (\<lambda>x. x OR push_bit (4 * (nyble6 s - 1)) (DigitParse c)) (s\<lparr>nyble6 := nyble6 s - 1\<rparr>) of
            Inl e \<Rightarrow> Inl e | Inr s' \<Rightarrow> v6_scan (Some c) p s')
     else if c = CHR '':'' then
       (if before = Some (CHR '':'') then
          (if finsert6 s \<noteq> None then Inr None else v6_scan (Some c) p (s\<lparr>finsert6 := Some (dp6 s)\<rparr>))
        else case d_shift s of Inl e \<Rightarrow> Inl e
          | Inr s' \<Rightarrow> if dp6 s' + 1 \<ge> 8 then Inr None else v6_scan (Some c) p (s'\<lparr>nyble6 := 4, dp6 := dp6 s' + 1\<rparr>))
     else if c = CHR ''*'' then
       (if finsert6 s \<noteq> None \<or> p \<noteq> [] \<or> dp6 s = 0 \<or> before \<noteq> Some (CHR '':'') then Inr None
        else v6_scan (Some c) p (s\<lparr>bits6 := int (dp6 s) * 16\<rparr>))
     else if c = CHR ''/'' then
       (case d_shift s of Inl e \<Rightarrow> Inl e
        | Inr s' \<Rightarrow>
            let s'' = s'\<lparr>dp6 := dp6 s' + 1\<rparr>; (v, after) = strtoul p; bits = to_int v
            in if bits < 0 \<or> after \<noteq> [] then Inr None
               else if bits > int (dp6 s'') * 4 \<and> \<not> (finsert6 s'' \<noteq> None \<and> bits \<le> 128) then Inr None
               else Inr (Some (True, s''\<lparr>bits6 := bits\<rparr>)))
     else Inr None)"

text \<open>The copy of \<open>d\<close> into \<open>dc\<close>, with zeroes for the gap: \<open>k\<close> elements are left to be written.\<close>

fun v6_fill :: "nat \<Rightarrow> nat \<Rightarrow> nat option \<Rightarrow> int \<Rightarrow> u32 list \<Rightarrow> u16 list" where
  "v6_fill 0 ny f deficit ds = []"
| "v6_fill (Suc k) ny f deficit ds =
    (if f = Some ny \<and> deficit \<noteq> 0 then 0 # v6_fill k ny f (deficit - 1) ds
     else ucast (ds ! ny) # v6_fill k (ny + 1) f deficit ds)"

definition v6_clear :: "u16 list \<Rightarrow> int \<Rightarrow> u16 list" where
  "v6_clear dc bits =
    (let n = nat (bits div 16);
         a = (if bits < 128 \<and> bits mod 16 \<noteq> 0
              then dc[n := dc ! n AND NOT (push_bit (nat (15 - bits mod 16)) 1 - 1)] else dc);
         k = n + (if bits mod 16 \<noteq> 0 then 1 else 0)
     in take k a @ replicate (8 - k) 0)"

definition v6_bytes :: "u16 list \<Rightarrow> u8 list" where
  "v6_bytes dc = concat (map (\<lambda>w. [ucast (drop_bit 8 w), ucast w]) dc)"

definition v6_finish :: "bool \<Rightarrow> v6_state \<Rightarrow> c_error + netmask" where
  "v6_finish slash s =
    (case d_shift s of Inl e \<Rightarrow> Inl e
     | Inr s1 \<Rightarrow>
         let dp' = (if slash then dp6 s1 else dp6 s1 + 1);
             bits = (if finsert6 s1 = None \<and> bits6 s1 = 0 then int dp' * 16 else bits6 s1);
             deficit = bits div 16 + (if bits mod 16 \<noteq> 0 then 1 else 0) - int dp';
             dc = v6_fill 8 0 (finsert6 s1) deficit (d6 s1)
         in Inr (HM_IPV6 (v6_bytes (v6_clear dc bits)) bits))"

definition try_parse_v6_netmask :: "string \<Rightarrow> c_error + netmask" where
  "try_parse_v6_netmask text =
    (case v6_scan None text v6_init of
       Inl e \<Rightarrow> Inl e
     | Inr None \<Rightarrow> Inr HM_HOST
     | Inr (Some (slash, s)) \<Rightarrow> v6_finish slash s)"

definition parse_netmask :: "string \<Rightarrow> c_error + netmask" where
  "parse_netmask text =
    (if CHR ''.'' \<in> set text then try_parse_v4_netmask text
     else if CHR '':'' \<in> set text then try_parse_v6_netmask text
     else Inr HM_HOST)"

definition byte_mask :: "nat \<Rightarrow> u8" where
  "byte_mask m = NOT (push_bit (8 - m) 1 - 1)"

definition match_ipv6 :: "u8 list \<Rightarrow> u8 list \<Rightarrow> int \<Rightarrow> bool" where
  "match_ipv6 addr msk bits =
    (let n = nat (bits div 8); m = nat (bits mod 8)
     in take n addr = take n msk \<and> (m = 0 \<or> addr ! n AND byte_mask m = msk ! n))"

section \<open>Clearing host bits\<close>

datatype address = V4 u32 | V6 "u8 list"

definition mask_addr :: "address \<Rightarrow> int \<Rightarrow> c_error + address" where
  "mask_addr ip bits =
    (case ip of
       V4 a \<Rightarrow> Inr (V4 (a AND v4_mask bits))
     | V6 a \<Rightarrow>
         let n = nat (bits div 8); m = nat (bits mod 8)
         in if n < length a
            then Inr (V6 (take n a @ (a ! n AND byte_mask m) # replicate (length a - (n + 1)) 0))
            else Inl OutOfBounds)"

section \<open>Masks as sets of leading bits\<close>

lemma low_mask: "push_bit k 1 - 1 = (mask k :: 'a :: len word)"
  by (simp add: mask_eq_exp_minus_1 push_bit_eq_mult)

lemma bit_v4_mask: "bit (v4_mask b) i \<longleftrightarrow> i < 32 \<and> 32 - b \<le> int i"
  unfolding v4_mask_def low_mask by (auto simp: bit_simps nat_less_iff)

lemma bit_byte_mask: "bit (byte_mask m) i \<longleftrightarrow> i < 8 \<and> 8 - m \<le> i"
  unfolding byte_mask_def low_mask by (auto simp: bit_simps)

lemma match_ipv4_iff:
  "match_ipv4 addr msk b \<longleftrightarrow> (\<forall>i < 32. bit msk i \<longleftrightarrow> bit addr i \<and> 32 - b \<le> int i)"
  by (auto simp: match_ipv4_def bit_eq_iff bit_simps bit_v4_mask dest: bit_imp_le_length)

lemma v4_mask_32 [simp]: "v4_mask 32 = - 1"
  by (rule bit_word_eqI) (simp add: bit_v4_mask)

lemma v4_mask_nested: "b \<le> b' \<Longrightarrow> v4_mask b' AND v4_mask b = v4_mask b"
  by (rule bit_word_eqI) (auto simp: bit_simps bit_v4_mask)

section \<open>IPv4 masks in text\<close>

lemma v4_scan_digits: "v4_scan digits before tx = Inr (Some (ds, b)) \<Longrightarrow> 1 \<le> length digits \<Longrightarrow> length digits \<le> 4 \<Longrightarrow>
    1 \<le> length ds \<and> length ds \<le> 4 \<and> 0 \<le> b \<and> b \<le> int (length ds) * 8"
  by (induction digits before tx rule: v4_scan.induct)
    (auto simp: Let_def split: if_splits option.splits prod.splits)

lemma v4_scan_no_fault:
  "(case before of None \<Rightarrow> tl tx \<noteq> [] | Some _ \<Rightarrow> True) \<Longrightarrow> v4_scan digits before tx \<noteq> Inl e"
  by (induction digits before tx rule: v4_scan.induct)
    (auto simp: Let_def split: if_splits option.splits prod.splits)

lemma try_parse_v4_bits:
  "try_parse_v4_netmask tx = Inr (HM_IPV4 a b) \<Longrightarrow> 1 \<le> b \<and> b \<le> 32"
  by (auto simp: try_parse_v4_netmask_def Let_def dest!: v4_scan_digits split: sum.splits option.splits if_splits)

lemma bit_v4_pack:
  assumes "k < 4" "j < 8"
  shows "bit (v4_pack a) ((3 - k) * 8 + j) = bit (a ! k) j"
proof -
  have high: "\<not> bit (x :: u8) (n + j)" if "8 \<le> n" for x n
    using that bit_imp_le_length [of x "n + j"] by auto
  from assms(1) consider "k = 0" | "k = 1" | "k = 2" | "k = 3" by linarith
  then show ?thesis
    by cases (use assms(2) in \<open>auto simp: v4_pack_def bit_simps high\<close>)
qed

lemma v4_clear_nth:
  assumes "length addb = 4" "n < 4 \<or> n = 4 \<and> r = 0" "r < 8" "k < 4"
  shows "v4_clear addb (8 * int n + int r) ! k =
    (if k < n then addb ! k else if k = n then addb ! k AND NOT (mask (8 - r)) else 0)"
proof -
  have "(8 * int n + int r) div 8 = int n" "(8 * int n + int r) mod 8 = int r" using assms(3) by auto
  moreover have "nat (8 - int r) = 8 - r" by auto
  moreover have "mask 8 = (- 1 :: u8)" by (rule bit_word_eqI) (simp add: bit_simps)
  ultimately show ?thesis using assms
    unfolding v4_clear_def low_mask by (auto simp: Let_def nth_append nth_list_update less_Suc_eq_le)
qed

lemma v4_clear_normal:
  assumes "length addb = 4" "0 < b" "b \<le> 32"
  shows "v4_pack (v4_clear addb b) = v4_pack addb AND v4_mask b"
proof (rule bit_word_eqI)
  fix i assume i: "i < LENGTH(32)"
  define n r k j where "n = nat (b div 8)" and "r = nat (b mod 8)" and "k = 3 - i div 8" and "j = i mod 8"
  have "b div 8 < 4 \<or> b div 8 = 4 \<and> b mod 8 = 0" using assms(3) by presburger
  then have b: "b = 8 * int n + int r" "n < 4 \<or> n = 4 \<and> r = 0" "r < 8"
    using assms by (auto simp: n_def r_def)
  have k: "i = (3 - k) * 8 + j" "k < 4" "j < 8" using i by (auto simp: k_def j_def)
  have "32 - b \<le> int i \<longleftrightarrow> k < n \<or> k = n \<and> \<not> j < 8 - r"
    unfolding k(1) b(1) using k(2,3) b(2,3) by (auto simp: of_nat_diff)
  then show "bit (v4_pack (v4_clear addb b)) i = bit (v4_pack addb AND v4_mask b) i"
    unfolding bit_and_iff bit_v4_mask unfolding k(1) b(1) using k(2,3) assms(1) b(2,3) i
    by (auto simp: bit_v4_pack bit_simps v4_clear_nth k(1))
qed

text \<open>A mask the parser accepts has from 1 to 32 bits and no bit set behind them.\<close>

lemma try_parse_v4_normal:
  assumes "try_parse_v4_netmask tx = Inr (HM_IPV4 a b)"
  shows "a AND v4_mask b = a"
proof -
  obtain ds b0 where scan: "v4_scan [tx] None tx = Inr (Some (ds, b0))"
    using assms by (auto simp: try_parse_v4_netmask_def split: sum.splits option.splits)
  define addb where "addb = map v4_byte (take 4 (if b0 = 0 \<and> length ds = 4 then ds else ds @ replicate (4 - length ds) ''0''))"
  have len: "1 \<le> length ds" "length ds \<le> 4" using v4_scan_digits [OF scan] by auto
  then have "length addb = 4" by (auto simp: addb_def)
  moreover have "a = v4_pack (v4_clear addb b)"
    using assms scan len by (auto simp: try_parse_v4_netmask_def Let_def addb_def split: if_splits)
  ultimately show ?thesis using try_parse_v4_bits [OF assms] by (simp add: v4_clear_normal and.assoc)
qed

section \<open>Decimal text\<close>

lemma decimal_snoc: "decimal (ds @ [c]) = decimal ds * 10 + digit_val c"
  by (simp add: decimal_def)

text \<open>The decimal numeral of a number.\<close>

fun show_nat :: "nat \<Rightarrow> string" where
  "show_nat n = (if n < 10 then [char_of (48 + n)] else show_nat (n div 10) @ [char_of (48 + n mod 10)])"

declare show_nat.simps [simp del]

lemma show_nat_digits: "c \<in> set (show_nat n) \<Longrightarrow> IsDigit c"
proof (induction n rule: show_nat.induct)
  case (1 n)
  then show ?case
    by (subst (asm) (2) show_nat.simps) (auto simp: IsDigit_iff split: if_splits)
qed

lemma show_nat_nonempty: "show_nat n \<noteq> []"
  by (subst show_nat.simps) simp

lemma decimal_show_nat: "decimal (show_nat n) = n"
proof (induction n rule: show_nat.induct)
  case (1 n)
  then show ?case
    by (subst show_nat.simps) (simp add: decimal_snoc digit_val_def decimal_def)
qed

lemma digit_not_blank: "IsDigit c \<Longrightarrow> \<not> IsSpace c \<and> c \<noteq> CHR ''-'' \<and> c \<noteq> CHR ''+'' \<and> c \<noteq> CHR ''.'' \<and> c \<noteq> CHR ''/''"
  by (auto simp: IsDigit_iff IsSpace_iff)

lemma strtoul_show_nat:
  assumes "n < 2 ^ 64" "rest = [] \<or> \<not> IsDigit (hd rest)"
  shows "strtoul (show_nat n @ rest) = (word_of_nat n, rest)"
proof -
  obtain c s where cs: "show_nat n = c # s" using show_nat_nonempty [of n] by (cases "show_nat n") auto
  have c: "IsDigit c" using show_nat_digits [of c n] cs by simp
  have "takeWhile IsDigit rest = []" "dropWhile IsDigit rest = rest" using assms(2) by (cases rest; simp)+
  then have "takeWhile IsDigit (show_nat n @ rest) = show_nat n" "dropWhile IsDigit (show_nat n @ rest) = rest"
    using show_nat_digits [of _ n] by (simp_all add: takeWhile_append2 dropWhile_append2)
  then show ?thesis
    using assms(1) cs c digit_not_blank [OF c] decimal_show_nat [of n]
    by (simp add: strtoul_def skip_sign_def)
qed

lemma v4_byte_show_nat:
  "n < 256 \<Longrightarrow> rest = [] \<or> \<not> IsDigit (hd rest) \<Longrightarrow> v4_byte (show_nat n @ rest) = word_of_nat n"
  by (simp add: v4_byte_def strtoul_show_nat unsigned_of_nat take_bit_nat_eq_self)

section \<open>Dotted masks\<close>

text \<open>The four numbers of an address in dotted notation, and the rest of the text behind them.\<close>

fun dotted :: "nat list \<Rightarrow> string \<Rightarrow> string" where
  "dotted [] rest = rest"
| "dotted [n] rest = show_nat n @ rest"
| "dotted (n # ns) rest = show_nat n @ CHR ''.'' # dotted ns rest"

lemma v4_scan_digit_run:
  "\<forall>c \<in> set s. IsDigit c \<Longrightarrow> s \<noteq> [] \<Longrightarrow>
    v4_scan digits before (s @ rest) = v4_scan digits (Some (last s)) rest"
proof (induction s arbitrary: before)
  case (Cons c s)
  then show ?case by (cases "s = []") auto
qed simp

lemma v4_scan_number: "v4_scan digits before (show_nat n @ rest) = v4_scan digits (Some (last (show_nat n))) rest"
  using show_nat_digits show_nat_nonempty by (intro v4_scan_digit_run) auto

lemma IsDigit_separators [simp]: "\<not> IsDigit (CHR ''.'')" "\<not> IsDigit (CHR ''/'')" "\<not> IsDigit (CHR ''*'')"
  by (simp_all add: IsDigit_iff)

lemma v4_scan_dotted:
  "\<exists>q. v4_scan [dotted [n0, n1, n2, n3] rest] None (dotted [n0, n1, n2, n3] rest) =
    v4_scan [dotted [n0, n1, n2, n3] rest, dotted [n1, n2, n3] rest, dotted [n2, n3] rest, dotted [n3] rest] (Some q) rest"
  by (rule exI [of _ "last (show_nat n3)"]) (simp add: v4_scan_number)

lemma v4_bytes_dotted:
  assumes "n0 < 256" "n1 < 256" "n2 < 256" "n3 < 256" "rest = [] \<or> \<not> IsDigit (hd rest)"
  shows "map v4_byte [dotted [n0, n1, n2, n3] rest, dotted [n1, n2, n3] rest, dotted [n2, n3] rest, dotted [n3] rest] =
    map word_of_nat [n0, n1, n2, n3]"
  using assms by (simp add: v4_byte_show_nat)

definition v4_address :: "nat \<Rightarrow> nat \<Rightarrow> nat \<Rightarrow> nat \<Rightarrow> u32" where
  "v4_address n0 n1 n2 n3 = v4_pack (map word_of_nat [n0, n1, n2, n3])"

lemma to_int_word_of_nat: "n \<le> 128 \<Longrightarrow> to_int (word_of_nat n) = int n"
  by (simp add: to_int_def unsigned_of_nat take_bit_nat_eq_self signed_of_nat signed_take_bit_int_eq_self)

lemma v4_mask_text:
  assumes "n0 < 256" "n1 < 256" "n2 < 256" "n3 < 256" "rest = [] \<or> \<not> IsDigit (hd rest)"
    "\<And>ds q. length ds = 4 \<Longrightarrow> v4_scan ds (Some q) rest = Inr (Some (ds, b0))" "b = (if b0 = 0 then 32 else b0)" "0 < b" "b \<le> 32"
  shows "parse_netmask (dotted [n0, n1, n2, n3] rest) = Inr (HM_IPV4 (v4_address n0 n1 n2 n3 AND v4_mask b) b)"
proof -
  let ?ds = "[dotted [n0, n1, n2, n3] rest, dotted [n1, n2, n3] rest, dotted [n2, n3] rest, dotted [n3] rest]"
  have scan: "v4_scan [dotted [n0, n1, n2, n3] rest] None (dotted [n0, n1, n2, n3] rest) = Inr (Some (?ds, b0))"
    using v4_scan_dotted [of n0 n1 n2 n3 rest] assms(6) [of ?ds] by (auto simp del: dotted.simps)
  have "map v4_byte ?ds = map word_of_nat [n0, n1, n2, n3]" using assms(1-5) by (rule v4_bytes_dotted)
  moreover have "CHR ''.'' \<in> set (dotted [n0, n1, n2, n3] rest)" by simp
  ultimately show ?thesis using assms(7-9) scan
    by (simp add: parse_netmask_def try_parse_v4_netmask_def v4_clear_normal v4_address_def del: dotted.simps)
qed

section \<open>IPv6 masks in text\<close>

definition v6_ok :: "v6_state \<Rightarrow> bool" where
  "v6_ok s \<longleftrightarrow> length (d6 s) = 8 \<and> dp6 s < 8 \<and> nyble6 s \<le> 4 \<and> 0 \<le> bits6 s \<and> bits6 s \<le> 128"

lemma d_shift_ok: "length (d6 s) = 8 \<Longrightarrow> dp6 s < 8 \<Longrightarrow> d_shift s = Inr (s\<lparr>d6 := (d6 s)[dp6 s := drop_bit (4 * nyble6 s) (d6 s ! dp6 s)]\<rparr>)"
  by (simp add: d_shift_def d_update_def)

text \<open>The scan itself stays in bounds; only a slash leaves \<open>dp\<close> one further, and then possibly at 8.\<close>

lemma v6_scan_ok:
  "v6_ok s \<Longrightarrow> \<exists>r. v6_scan before tx s = Inr r \<and>
    (case r of None \<Rightarrow> True | Some (slash, s') \<Rightarrow> length (d6 s') = 8 \<and> dp6 s' \<le> 8 \<and> (\<not> slash \<longrightarrow> dp6 s' < 8) \<and>
       0 \<le> bits6 s' \<and> bits6 s' \<le> 128)"
proof (induction before tx s rule: v6_scan.induct)
  case (1 before s)
  then show ?case by (auto simp: v6_ok_def)
next
  case (2 before c p s)
  then have ok: "length (d6 s) = 8" "dp6 s < 8" "nyble6 s \<le> 4" "0 \<le> bits6 s" "bits6 s \<le> 128" by (auto simp: v6_ok_def)
  note facts = v6_ok_def d_shift_ok d_update_def
  consider (digit) "IsXDigit c" | (colon) "\<not> IsXDigit c" "c = CHR '':''"
    | (star) "\<not> IsXDigit c" "c = CHR ''*''" | (slash) "\<not> IsXDigit c" "c = CHR ''/''"
    | (other) "\<not> IsXDigit c" "c \<noteq> CHR '':''" "c \<noteq> CHR ''*''" "c \<noteq> CHR ''/''" by blast
  then show ?case
  proof cases
    case digit
    moreover have "nyble6 s - Suc 0 \<le> 4" using ok(3) by simp
    ultimately show ?thesis using 2(1) ok by (auto simp: facts)
  next
    case colon
    then show ?thesis using 2(2,3) ok by (cases "before = Some (CHR '':'')") (auto simp: facts)
  next
    case star
    then show ?thesis using 2(4) ok by (auto simp: v6_ok_def)
  next
    case slash
    then show ?thesis using ok by (auto simp: facts Let_def split: prod.splits)
  qed simp
qed

lemma length_v6_fill [simp]: "length (v6_fill k ny f deficit ds) = k"
  by (induction k ny f deficit ds rule: v6_fill.induct) simp_all

lemma length_v6_clear: "length dc = 8 \<Longrightarrow> 0 \<le> b \<Longrightarrow> b \<le> 128 \<Longrightarrow> length (v6_clear dc b) = 8"
proof -
  assume a: "length dc = 8" "0 \<le> b" "b \<le> 128"
  have "b div 16 < 8 \<or> b div 16 = 8 \<and> b mod 16 = 0" using a(2,3) by presburger
  then have "nat (b div 16) + (if b mod 16 \<noteq> 0 then 1 else 0) \<le> 8" using a(2) by auto
  then show ?thesis using a by (auto simp: v6_clear_def Let_def)
qed

lemma length_v6_bytes [simp]: "length (v6_bytes dc) = 2 * length dc"
  by (induction dc) (simp_all add: v6_bytes_def)

lemma try_parse_v6_bounds:
  assumes "try_parse_v6_netmask tx = Inr (HM_IPV6 a b)"
  shows "0 \<le> b \<and> b \<le> 128 \<and> length a = 16"
proof -
  have "v6_ok v6_init" by (simp add: v6_ok_def v6_init_def)
  from v6_scan_ok [OF this, of None tx] assms
  obtain slash s where s: "v6_finish slash s = Inr (HM_IPV6 a b)" "length (d6 s) = 8" "dp6 s \<le> 8"
      "\<not> slash \<longrightarrow> dp6 s < 8" "0 \<le> bits6 s" "bits6 s \<le> 128"
    by (fastforce simp: try_parse_v6_netmask_def split: option.splits)
  moreover from this have "dp6 s < 8" by (auto simp: v6_finish_def d_shift_def d_update_def split: if_splits)
  ultimately show ?thesis
    by (auto simp: v6_finish_def d_shift_ok Let_def length_v6_clear split: if_splits)
qed

lemma try_parse_kinds:
  "try_parse_v4_netmask tx \<noteq> Inr (HM_IPV6 a b)" "try_parse_v6_netmask tx \<noteq> Inr (HM_IPV4 a' b)"
  by (auto simp: try_parse_v4_netmask_def try_parse_v6_netmask_def v6_finish_def Let_def split: sum.splits option.splits)

lemma parse_netmask_v4: "parse_netmask tx = Inr (HM_IPV4 a b) \<Longrightarrow> 1 \<le> b \<and> b \<le> 32 \<and> a AND v4_mask b = a"
  using try_parse_v4_bits try_parse_v4_normal try_parse_kinds
  by (auto simp: parse_netmask_def split: if_splits)

lemma parse_netmask_v6: "parse_netmask tx = Inr (HM_IPV6 a b) \<Longrightarrow> 0 \<le> b \<and> b \<le> 128 \<and> length a = 16"
  using try_parse_v6_bounds try_parse_kinds by (auto simp: parse_netmask_def split: if_splits)

lemma try_parse_v4_no_fault: "CHR ''.'' \<in> set tx \<Longrightarrow> try_parse_v4_netmask tx \<noteq> Inl e"
proof -
  assume dot: "CHR ''.'' \<in> set tx"
  show ?thesis
  proof (cases "tl tx = []")
    case True
    then have "tx = ''.''" using dot by (cases tx) auto
    then show ?thesis by (simp add: try_parse_v4_netmask_def Let_def)
  next
    case False
    then have "v4_scan [tx] None tx \<noteq> Inl e" by (intro v4_scan_no_fault) simp
    then show ?thesis by (auto simp: try_parse_v4_netmask_def Let_def split: sum.splits option.splits)
  qed
qed

lemma v6_scan_no_slash:
  "v6_scan before tx s = Inr (Some (True, s')) \<Longrightarrow> CHR ''/'' \<in> set tx"
  by (induction before tx s rule: v6_scan.induct)
    (auto simp: Let_def split: if_splits sum.splits prod.splits)

lemma try_parse_v6_no_fault: "CHR ''/'' \<notin> set tx \<Longrightarrow> try_parse_v6_netmask tx \<noteq> Inl e"
proof -
  assume no: "CHR ''/'' \<notin> set tx"
  have "v6_ok v6_init" by (simp add: v6_ok_def v6_init_def)
  from v6_scan_ok [OF this, of None tx] v6_scan_no_slash [of None tx v6_init] no show ?thesis
    by (fastforce simp: try_parse_v6_netmask_def v6_finish_def d_shift_ok Let_def split: option.splits)
qed

section \<open>Groups of hexadecimal digits\<close>

fun group_value :: "nat \<Rightarrow> string \<Rightarrow> u32" where
  "group_value n [] = 0"
| "group_value n (c # g) = push_bit (4 * (n - 1)) (DigitParse c) OR group_value (n - 1) g"

definition hex_value :: "string \<Rightarrow> u32" where
  "hex_value g = drop_bit (4 * (4 - length g)) (group_value 4 g)"

definition hex_group :: "string \<Rightarrow> bool" where
  "hex_group g \<longleftrightarrow> g \<noteq> [] \<and> length g \<le> 4 \<and> (\<forall>c \<in> set g. IsXDigit c)"

fun colons :: "string list \<Rightarrow> string" where
  "colons [] = []"
| "colons [g] = g"
| "colons (g # gs) = g @ CHR '':'' # colons gs"

lemma v6_scan_group:
  "\<forall>c \<in> set g. IsXDigit c \<Longrightarrow> g \<noteq> [] \<Longrightarrow> length g \<le> nyble6 s \<Longrightarrow> dp6 s < length (d6 s) \<Longrightarrow>
    v6_scan before (g @ rest) s = v6_scan (Some (last g)) rest
      (s\<lparr>nyble6 := nyble6 s - length g, d6 := (d6 s)[dp6 s := d6 s ! dp6 s OR group_value (nyble6 s) g]\<rparr>)"
proof (induction g arbitrary: before s)
  case (Cons c g)
  then show ?case by (cases "g = []") (simp_all add: d_update_def or.assoc)
qed simp

lemma IsXDigit_colon [simp]: "\<not> IsXDigit (CHR '':'')" "\<not> IsXDigit (CHR ''/'')"
  by (simp_all add: IsXDigit_def IsDigit_iff)

definition groups_read :: "v6_state \<Rightarrow> string list \<Rightarrow> char \<Rightarrow> v6_state \<Rightarrow> bool" where
  "groups_read s gs q s' \<longleftrightarrow> IsXDigit q \<and> dp6 s' = dp6 s + length gs - 1 \<and> finsert6 s' = finsert6 s \<and> bits6 s' = bits6 s \<and>
     d_shift s' = Inr (s'\<lparr>d6 := take (dp6 s) (d6 s) @ map hex_value gs @ drop (dp6 s + length gs) (d6 s)\<rparr>)"

lemma v6_scan_groups:
  "gs \<noteq> [] \<Longrightarrow> \<forall>g \<in> set gs. hex_group g \<Longrightarrow> nyble6 s = 4 \<Longrightarrow> length (d6 s) = 8 \<Longrightarrow> dp6 s + length gs \<le> 8 \<Longrightarrow>
    \<forall>i < 8. dp6 s \<le> i \<longrightarrow> d6 s ! i = 0 \<Longrightarrow>
    \<exists>q s'. v6_scan before (colons gs @ rest) s = v6_scan (Some q) rest s' \<and> groups_read s gs q s'"
proof (induction gs arbitrary: before s)
  case (Cons g gs)
  then have g: "g \<noteq> []" "length g \<le> 4" "\<forall>c \<in> set g. IsXDigit c" and zero: "d6 s ! dp6 s = 0" by (auto simp: hex_group_def)
  define s1 where "s1 = s\<lparr>nyble6 := 4 - length g, d6 := (d6 s)[dp6 s := group_value 4 g]\<rparr>"
  have first: "v6_scan before (g @ more) s = v6_scan (Some (last g)) more s1" for more
    using v6_scan_group [of g s before more] g Cons.prems zero by (simp add: s1_def)
  have last_g: "IsXDigit (last g)" using g by simp
  have shift: "d_shift s1 = Inr (s1\<lparr>d6 := (d6 s)[dp6 s := hex_value g]\<rparr>)"
    using Cons.prems by (simp add: d_shift_def d_update_def s1_def hex_value_def)
  have upd: "(d6 s)[dp6 s := x] = take (dp6 s) (d6 s) @ x # drop (Suc (dp6 s)) (d6 s)" for x
    using Cons.prems by (intro upd_conv_take_nth_drop) simp
  show ?case
  proof (cases "gs = []")
    case True
    then show ?thesis using first [of rest] shift last_g upd
      by (intro exI [of _ "last g"] exI [of _ s1]) (auto simp: groups_read_def s1_def)
  next
    case False
    define s2 where "s2 = s1\<lparr>d6 := (d6 s)[dp6 s := hex_value g], nyble6 := 4, dp6 := dp6 s + 1\<rparr>"
    have "length gs > 0" using False by simp
    then have "v6_scan before (colons (g # gs) @ rest) s = v6_scan (Some (CHR '':'')) (colons gs @ rest) s2"
      using False first [of "CHR '':'' # colons gs @ rest"] last_g Cons.prems shift
      by (cases gs) (auto simp: s2_def s1_def)
    moreover have "\<exists>q s'. v6_scan (Some (CHR '':'')) (colons gs @ rest) s2 = v6_scan (Some q) rest s' \<and> groups_read s2 gs q s'"
      using Cons.prems False by (intro Cons.IH) (auto simp: s2_def s1_def)
    moreover have "take (Suc (dp6 s)) ((d6 s)[dp6 s := hex_value g]) = take (dp6 s) (d6 s) @ [hex_value g]"
      using Cons.prems by (simp add: take_Suc_conv_app_nth)
    then have "groups_read s2 gs q s' \<Longrightarrow> groups_read s (g # gs) q s'" for q s'
      using Cons.prems False by (auto simp: groups_read_def s2_def s1_def)
    ultimately show ?thesis by metis
  qed
qed simp

lemma colons_chars:
  assumes "\<forall>g \<in> set gs. hex_group g"
  shows "CHR ''.'' \<notin> set (colons gs)" "CHR ''/'' \<notin> set (colons gs)" "2 \<le> length gs \<Longrightarrow> CHR '':'' \<in> set (colons gs)"
  using assms by (induction gs rule: colons.induct) (auto simp: hex_group_def IsXDigit_def IsDigit_iff)

lemma parse_netmask_groups:
  assumes "\<forall>g \<in> set gs. hex_group g" "2 \<le> length gs" "length gs \<le> 8" "CHR ''.'' \<notin> set rest"
  obtains q s where "IsXDigit q" "dp6 s = length gs - 1" "finsert6 s = None" "bits6 s = 128"
    "d_shift s = Inr (s\<lparr>d6 := map hex_value gs @ replicate (8 - length gs) 0\<rparr>)"
    "parse_netmask (colons gs @ rest) =
      (case v6_scan (Some q) rest s of Inl e \<Rightarrow> Inl e | Inr None \<Rightarrow> Inr HM_HOST | Inr (Some (slash, s)) \<Rightarrow> v6_finish slash s)"
proof -
  have "\<exists>q s. v6_scan None (colons gs @ rest) v6_init = v6_scan (Some q) rest s \<and> groups_read v6_init gs q s"
    using assms by (intro v6_scan_groups) (auto simp: v6_init_def)
  then obtain q s where s: "v6_scan None (colons gs @ rest) v6_init = v6_scan (Some q) rest s" "groups_read v6_init gs q s" by blast
  have "parse_netmask (colons gs @ rest) = try_parse_v6_netmask (colons gs @ rest)"
    using colons_chars [OF assms(1)] assms(2,4) by (simp add: parse_netmask_def)
  then show thesis using s that [of q s] by (simp add: groups_read_def try_parse_v6_netmask_def v6_init_def)
qed

lemma v6_slash_end:
  assumes "d_shift s = Inr s'" "n \<le> 128" "int n \<le> int (dp6 s' + 1) * 4 \<or> finsert6 s' \<noteq> None"
  shows "v6_scan before (CHR ''/'' # show_nat n) s = Inr (Some (True, s'\<lparr>dp6 := dp6 s' + 1, bits6 := int n\<rparr>))"
proof -
  have "n < 2 ^ 64" using assms(2) by simp
  then show ?thesis
    using assms strtoul_show_nat [of n "[]"] to_int_word_of_nat [OF assms(2)] by auto
qed

lemma v6_finish_overrun: "dp6 s = length (d6 s) \<Longrightarrow> v6_finish slash s = Inl OutOfBounds"
  by (simp add: v6_finish_def d_shift_def d_update_def)

lemma show_nat_no_dot [simp]: "CHR ''.'' \<notin> set (show_nat n)"
  using show_nat_digits [of "CHR ''.''" n] by auto

lemma v6_overrun_groups:
  assumes "\<forall>g \<in> set gs. hex_group g" "length gs = 8" "n \<le> 32"
  shows "parse_netmask (colons gs @ CHR ''/'' # show_nat n) = Inl OutOfBounds"
proof -
  have "2 \<le> length gs" "length gs \<le> 8" using assms(2) by auto
  then obtain q s where s: "dp6 s = length gs - 1" "d_shift s = Inr (s\<lparr>d6 := map hex_value gs @ replicate (8 - length gs) 0\<rparr>)"
      "parse_netmask (colons gs @ CHR ''/'' # show_nat n) =
        (case v6_scan (Some q) (CHR ''/'' # show_nat n) s of Inl e \<Rightarrow> Inl e | Inr None \<Rightarrow> Inr HM_HOST | Inr (Some (slash, s)) \<Rightarrow> v6_finish slash s)"
    by (rule parse_netmask_groups [OF assms(1), of "CHR ''/'' # show_nat n"]) simp_all
  have "v6_scan (Some q) (CHR ''/'' # show_nat n) s =
      Inr (Some (True, s\<lparr>d6 := map hex_value gs, dp6 := 8, bits6 := int n\<rparr>))"
    using s(1,2) assms(2,3) by (subst v6_slash_end [OF s(2)]) auto
  then show ?thesis using s(3) assms(2) by (simp add: v6_finish_overrun)
qed

lemma v6_overrun_gap:
  assumes "\<forall>g \<in> set gs. hex_group g" "length gs = 7" "n \<le> 128"
  shows "parse_netmask (colons gs @ ''::/'' @ show_nat n) = Inl OutOfBounds"
proof -
  have "2 \<le> length gs" "length gs \<le> 8" using assms(2) by auto
  then obtain q s where s: "IsXDigit q" "dp6 s = length gs - 1" "finsert6 s = None"
      "d_shift s = Inr (s\<lparr>d6 := map hex_value gs @ replicate (8 - length gs) 0\<rparr>)"
      "parse_netmask (colons gs @ ''::/'' @ show_nat n) =
        (case v6_scan (Some q) (''::/'' @ show_nat n) s of Inl e \<Rightarrow> Inl e | Inr None \<Rightarrow> Inr HM_HOST | Inr (Some (slash, s)) \<Rightarrow> v6_finish slash s)"
    by (rule parse_netmask_groups [OF assms(1), of "''::/'' @ show_nat n"]) simp_all
  define s1 where "s1 = s\<lparr>d6 := map hex_value gs @ [0], nyble6 := 4, dp6 := 7, finsert6 := Some 7\<rparr>"
  have q: "q \<noteq> CHR '':''" using s(1) by auto
  have "v6_scan (Some q) (''::/'' @ show_nat n) s = v6_scan (Some (CHR '':'')) (CHR ''/'' # show_nat n) s1"
    using s(2,3,4) assms(2) q by (simp add: s1_def)
  also have "d_shift s1 = Inr s1" using assms(2) by (simp add: s1_def d_shift_def d_update_def nth_append list_update_append)
  then have "v6_scan (Some (CHR '':'')) (CHR ''/'' # show_nat n) s1 = Inr (Some (True, s1\<lparr>dp6 := 8, bits6 := int n\<rparr>))"
    using assms(3) by (subst v6_slash_end) (auto simp: s1_def)
  finally show ?thesis using s(5) assms(2) by (simp add: v6_finish_overrun s1_def)
qed

section \<open>The IPv6 comparison\<close>

lemma and_byte_mask_idem: "(a AND byte_mask m) AND byte_mask m = a AND byte_mask m"
  by (simp add: and.assoc)

lemma v6_bytes_nth:
  "k < length dc \<Longrightarrow> v6_bytes dc ! (2 * k) = ucast (drop_bit 8 (dc ! k)) \<and> v6_bytes dc ! (2 * k + 1) = ucast (dc ! k)"
proof (induction dc arbitrary: k)
  case (Cons w dc)
  then show ?case by (cases k) (simp_all add: v6_bytes_def)
qed simp

text \<open>Clearing the unused bits of the word in which the prefix ends keeps one bit too many: with
  \<open>r\<close> bits of it in the prefix, bit \<open>15 - r\<close> is left as it was. The comparison masks the address
  with the right number of bits, so that a mask with this bit set is equal to no masked address.\<close>

lemma v6_clear_word:
  assumes "length dc = 8" "0 < b" "b < 128" "b mod 16 \<noteq> 0"
  shows "v6_clear dc b ! nat (b div 16) = dc ! nat (b div 16) AND NOT (mask (nat (15 - b mod 16)))"
proof -
  have "nat (b div 16) < 8" using assms by auto
  then show ?thesis using assms(1,3,4) unfolding v6_clear_def low_mask by (simp add: Let_def nth_append)
qed

lemma v6_extra_bit_no_match:
  assumes dc: "length dc = 8" and b: "0 < b" "b < 128" "b mod 8 \<noteq> 0"
    and extra: "bit (dc ! nat (b div 16)) (nat (15 - b mod 16))"
  shows "\<not> match_ipv6 addr (v6_bytes (v6_clear dc b)) b"
proof
  assume m: "match_ipv6 addr (v6_bytes (v6_clear dc b)) b"
  define w k n r where "w = v6_clear dc b ! nat (b div 16)" and "k = nat (b div 16)" and "n = nat (b div 8)" and "r = nat (b mod 8)"
  have bits: "b mod 16 \<noteq> 0" "k < 8" "0 < r" "r < 8" using b by (auto simp: k_def r_def)
  have "b div 8 = 2 * (b div 16) \<and> b mod 16 = b mod 8 \<or> b div 8 = 2 * (b div 16) + 1 \<and> b mod 16 = b mod 8 + 8" by presburger
  moreover have "int n = b div 8" "int k = b div 16" "int r = b mod 8" using b by (simp_all add: n_def k_def r_def)
  ultimately have half: "n = 2 * k \<and> b mod 16 = int r \<or> n = 2 * k + 1 \<and> b mod 16 = int r + 8"
    by linarith
  have eq: "addr ! n AND byte_mask r = v6_bytes (v6_clear dc b) ! n"
    using m bits(3) by (simp add: match_ipv6_def Let_def n_def r_def)
  have w: "bit w (nat (15 - b mod 16))"
    using extra bits(1) b v6_clear_word [OF dc b(1,2) bits(1)] by (simp add: w_def k_def bit_simps)
  have len: "length (v6_clear dc b) = 8" using dc b by (simp add: length_v6_clear)
  have e: "nat (15 - b mod 16) = (if n = 2 * k then 15 - r else 7 - r)" using half bits(4) by auto
  have "bit (v6_bytes (v6_clear dc b) ! n) (7 - r)"
    using half w v6_bytes_nth [of k "v6_clear dc b"] len bits unfolding e w_def k_def [symmetric]
    by (auto simp: bit_simps split: if_splits)
  moreover have "\<not> bit (addr ! n AND byte_mask r) (7 - r)" using bits(3,4) by (auto simp: bit_simps bit_byte_mask)
  ultimately show False using eq by simp
qed

section \<open>Printing IPv6 addresses\<close>

definition hex_digit :: "u16 \<Rightarrow> char" where
  "hex_digit n = (if n < 10 then char_of (48 + unat n) else char_of (87 + unat n))"

definition show_hex :: "u16 \<Rightarrow> string" where
  "show_hex w = map (\<lambda>k. hex_digit (drop_bit k w AND 15)) [12, 8, 4, 0]"

lemma and_15_less: "w AND 15 < (16 :: u16)"
proof -
  have "w AND 15 = take_bit 4 w" by (simp add: take_bit_eq_mask mask_eq_exp_minus_1)
  then show ?thesis using take_bit_nat_less_exp [of 4 "unat w"]
    by (simp add: word_less_nat_alt unsigned_take_bit_eq)
qed

lemma hex_digit_parse:
  assumes "n < 16"
  shows "DigitParse (hex_digit n) = ucast n" "IsXDigit (hex_digit n)"
proof -
  have n: "unat n < 16" using assms by (simp add: word_less_nat_alt)
  moreover have "word_of_nat (unat n) = (ucast n :: u32)" by simp
  moreover have "unat n < 10 \<longleftrightarrow> n < 10" by (simp add: word_less_nat_alt)
  ultimately show "DigitParse (hex_digit n) = ucast n" "IsXDigit (hex_digit n)"
    by (auto simp: DigitParse_def hex_digit_def Let_def IsXDigit_def IsDigit_iff)
qed

lemma hex_value_show_hex: "hex_value (show_hex w) = ucast w" and hex_group_show_hex: "hex_group (show_hex w)"
proof -
  define nyb :: "nat \<Rightarrow> u32" where "nyb k = ucast (drop_bit k w AND 15)" for k
  have fifteen: "(15 :: u16) = mask 4" by (simp add: mask_eq_exp_minus_1)
  have nyb: "bit (nyb k) j \<longleftrightarrow> j < 4 \<and> bit w (k + j)" for k j
    unfolding nyb_def fifteen by (auto simp: bit_simps)
  have "hex_value (show_hex w) = push_bit 12 (nyb 12) OR push_bit 8 (nyb 8) OR push_bit 4 (nyb 4) OR nyb 0"
    by (simp add: hex_value_def show_hex_def hex_digit_parse and_15_less nyb_def)
  also have "\<dots> = ucast w"
  proof (rule bit_word_eqI)
    fix i assume "i < LENGTH(32)"
    then consider "i < 4" | "4 \<le> i" "i < 8" | "8 \<le> i" "i < 12" | "12 \<le> i" "i < 16" | "16 \<le> i" "i < 32" by (auto, linarith)
    then show "bit (push_bit 12 (nyb 12) OR push_bit 8 (nyb 8) OR push_bit 4 (nyb 4) OR nyb 0) i = bit (ucast w :: u32) i"
      by cases (auto simp: bit_push_bit_iff bit_or_iff nyb bit_ucast_iff dest: bit_imp_le_length)
  qed
  finally show "hex_value (show_hex w) = ucast w" .
  show "hex_group (show_hex w)" by (simp add: hex_group_def show_hex_def hex_digit_parse and_15_less)
qed

lemma v6_full_address:
  assumes "length ws = 8"
  shows "parse_netmask (colons (map show_hex ws)) = Inr (HM_IPV6 (v6_bytes ws) 128)"
proof -
  let ?gs = "map show_hex ws"
  have "\<forall>g \<in> set ?gs. hex_group g" "2 \<le> length ?gs" "length ?gs \<le> 8" using assms by (auto simp: hex_group_show_hex)
  then obtain q s where s: "dp6 s = 7" "finsert6 s = None" "bits6 s = 128"
      "d_shift s = Inr (s\<lparr>d6 := map hex_value ?gs\<rparr>)"
      "parse_netmask (colons ?gs @ []) =
        (case v6_scan (Some q) [] s of Inl e \<Rightarrow> Inl e | Inr None \<Rightarrow> Inr HM_HOST | Inr (Some (slash, s)) \<Rightarrow> v6_finish slash s)"
    by (rule parse_netmask_groups [of ?gs "[]"]) (use assms in simp_all)
  have "v6_fill k n None 0 ds = map ucast (take k (drop n ds))" if "n + k \<le> length ds" for k n and ds :: "u32 list"
    using that by (induction k arbitrary: n) (simp_all add: Cons_nth_drop_Suc [symmetric])
  moreover have "ucast (ucast w :: u32) = w" for w :: u16 by (rule bit_word_eqI) (simp add: bit_simps)
  ultimately have "v6_fill 8 0 None 0 (map ucast ws) = ws" using assms by (simp add: comp_def)
  then show ?thesis using s assms
    by (simp add: v6_finish_def hex_value_show_hex comp_def v6_clear_def)
qed

section \<open>Properties\<close>

text \<open>The range of what \<open>parse_netmask\<close> returns. An IPv4 mask has 1 to 32 bits and no bit set behind its
  prefix, so that it matches itself; an IPv6 mask has 0 to 128 bits and 16 bytes. The parser leaves its arrays
  only for a text that is scanned as an IPv6 mask and has a slash.\<close>

lemma parse_netmask_range:
  "(parse_netmask tx = Inr (HM_IPV4 a b) \<longrightarrow> 1 \<le> b \<and> b \<le> 32 \<and> match_ipv4 a a b) \<and>
   (parse_netmask tx = Inr (HM_IPV6 a6 b) \<longrightarrow> 0 \<le> b \<and> b \<le> 128 \<and> length a6 = 16) \<and>
   (parse_netmask tx = Inl e \<longrightarrow> CHR ''.'' \<notin> set tx \<and> CHR '':'' \<in> set tx \<and> CHR ''/'' \<in> set tx)"
  using parse_netmask_v4 [of tx a b] parse_netmask_v6 [of tx a6 b] try_parse_v4_no_fault [of tx e] try_parse_v6_no_fault [of tx e]
  by (auto simp: match_ipv4_def parse_netmask_def split: if_splits)

text \<open>C38: IPv4 masks in prefix notation. For octets below 256 and a prefix length \<open>n\<close> from 1 to 32 the text
  \<open>a.b.c.d/n\<close> is read as a mask that matches exactly the addresses with the same first \<open>n\<close> bits. Without a
  prefix length, and with the prefix length 0, it matches the one address.\<close>

theorem ipv4_prefix_notation:
  assumes "n0 < 256" "n1 < 256" "n2 < 256" "n3 < 256" "n \<le> 32" "b = (if n = 0 then 32 else int n)"
  shows "(\<exists>m. parse_netmask (dotted [n0, n1, n2, n3] (CHR ''/'' # show_nat n)) = Inr (HM_IPV4 m b) \<and>
      (\<forall>addr. match_ipv4 addr m b \<longleftrightarrow> (\<forall>i < 32. 32 - b \<le> int i \<longrightarrow> bit addr i = bit (v4_address n0 n1 n2 n3) i))) \<and>
    parse_netmask (dotted [n0, n1, n2, n3] []) = Inr (HM_IPV4 (v4_address n0 n1 n2 n3) 32)"
proof -
  have n: "strtoul (show_nat n) = (word_of_nat n, [])" using strtoul_show_nat [of n "[]"] assms(5) by simp
  have "parse_netmask (dotted [n0, n1, n2, n3] (CHR ''/'' # show_nat n)) = Inr (HM_IPV4 (v4_address n0 n1 n2 n3 AND v4_mask b) b)"
    by (rule v4_mask_text [of _ _ _ _ _ "int n"]) (use assms in \<open>auto simp: n to_int_word_of_nat\<close>)
  moreover have "match_ipv4 addr (v4_address n0 n1 n2 n3 AND v4_mask b) b \<longleftrightarrow>
      (\<forall>i < 32. 32 - b \<le> int i \<longrightarrow> bit addr i = bit (v4_address n0 n1 n2 n3) i)" for addr
    by (auto simp: match_ipv4_iff bit_simps bit_v4_mask)
  moreover have "parse_netmask (dotted [n0, n1, n2, n3] []) = Inr (HM_IPV4 (v4_address n0 n1 n2 n3) 32)"
    using v4_mask_text [of n0 n1 n2 n3 "[]" 0 32] assms(1-4) by simp
  ultimately show ?thesis by blast
qed

theorem ipv4_prefix_notation_witness:
  "\<exists>m. parse_netmask (dotted [10, 1, 2, 3] (CHR ''/'' # show_nat 12)) = Inr (HM_IPV4 m 12) \<and>
     match_ipv4 (v4_address 10 1 2 3) m 12"
  using ipv4_prefix_notation [of 10 1 2 3 12] by auto

text \<open>C39: IPv6 addresses survive the round trip through text: eight groups of four hexadecimal digits are read
  back as the address they were printed from, and the mask matches that address only.\<close>

theorem ipv6_address_roundtrip:
  assumes "length ws = 8" "length addr = 16"
  shows "parse_netmask (colons (map show_hex ws)) = Inr (HM_IPV6 (v6_bytes ws) 128) \<and>
    (match_ipv6 addr (v6_bytes ws) 128 \<longleftrightarrow> addr = v6_bytes ws)"
  using v6_full_address [OF assms(1)] assms by (simp add: match_ipv6_def)

theorem ipv6_address_roundtrip_witness:
  "parse_netmask (colons (map show_hex [0x2001, 0xdb8, 0, 0, 0, 0, 0, 1])) =
     Inr (HM_IPV6 (v6_bytes [0x2001, 0xdb8, 0, 0, 0, 0, 0, 1]) 128)"
  using ipv6_address_roundtrip [of "[0x2001, 0xdb8, 0, 0, 0, 0, 0, 1]" "replicate 16 0"] by simp

text \<open>C40: An IPv6 mask makes the parser write behind its array. With eight groups and a prefix length of at most
  32, or with seven groups, a double colon and any prefix length, the slash leaves \<open>dp\<close> at 8, and the
  statement behind the loop shifts the ninth element of \<open>int d[8]\<close>.\<close>

theorem ipv6_prefix_overruns:
  assumes "\<forall>g \<in> set gs. hex_group g"
  shows "(length gs = 8 \<and> n \<le> 32 \<longrightarrow> parse_netmask (colons gs @ CHR ''/'' # show_nat n) = Inl OutOfBounds) \<and>
    (length gs = 7 \<and> n \<le> 128 \<longrightarrow> parse_netmask (colons gs @ ''::/'' @ show_nat n) = Inl OutOfBounds)"
  using v6_overrun_groups [OF assms] v6_overrun_gap [OF assms] by blast

theorem ipv6_prefix_overruns_witness:
  "parse_netmask (colons [''2001'', ''db8'', ''1'', ''2'', ''3'', ''4'', ''5''] @ ''::/'' @ show_nat 112) = Inl OutOfBounds"
proof -
  have "\<forall>g \<in> set [''2001'', ''db8'', ''1'', ''2'', ''3'', ''4'', ''5'']. hex_group g"
    by (simp add: hex_group_def IsXDigit_def IsDigit_iff)
  from ipv6_prefix_overruns [OF this, of 112] show ?thesis by simp
qed

text \<open>An IPv6 prefix that ends inside a byte can match nothing. When the bit behind the prefix is set in the
  text, clearing the unused bits leaves it set, and the comparison clears it in the address: no address matches,
  the network's own base address included.\<close>

lemma ipv6_mask_extra_bit_matches_nothing:
  assumes "length dc = 8" "0 < b" "b < 128" "b mod 8 \<noteq> 0" "bit (dc ! nat (b div 16)) (nat (15 - b mod 16))"
  shows "\<not> match_ipv6 addr (v6_bytes (v6_clear dc b)) b"
  using assms by (rule v6_extra_bit_no_match)

text \<open>\<open>mask_addr\<close> gives the network of an address: an IPv6 address cut to fewer than 128 bits is a 16-byte mask
  that the address itself matches and whose bits behind the prefix are zero. Cut to all of its 128 bits, the
  routine reads and writes the byte behind \<open>s6_addr\<close>.\<close>

lemma mask_addr_ipv6:
  assumes "length a = 16" "0 \<le> b" "b \<le> 128"
  shows "(b < 128 \<longrightarrow> (\<exists>m. mask_addr (V6 a) b = Inr (V6 m) \<and> length m = 16 \<and> match_ipv6 a m b \<and>
      (\<forall>k < 16. b div 8 < int k \<longrightarrow> m ! k = 0) \<and> (b mod 8 = 0 \<longrightarrow> m ! nat (b div 8) = 0))) \<and>
    (b = 128 \<longrightarrow> mask_addr (V6 a) b = Inl OutOfBounds)"
proof (intro conjI impI)
  assume b: "b < 128"
  define n r where "n = nat (b div 8)" and "r = nat (b mod 8)"
  have n: "n < 16" "int n = b div 8" using b assms(2) by (auto simp: n_def)
  define m where "m = take n a @ (a ! n AND byte_mask r) # replicate (15 - n) 0"
  have "mask_addr (V6 a) b = Inr (V6 m)" using n assms(1) by (simp add: mask_addr_def n_def r_def m_def Let_def)
  moreover have "length m = 16" using n assms(1) by (simp add: m_def)
  moreover have "match_ipv6 a m b"
    using n assms(1) unfolding match_ipv6_def n_def [symmetric] r_def [symmetric] by (simp add: m_def nth_append)
  moreover have "m ! k = 0" if "k < 16" "b div 8 < int k" for k
    using that n(1) assms(1) unfolding n(2) [symmetric] by (auto simp: m_def nth_append nth_Cons')
  moreover have "byte_mask 0 = 0" by (rule bit_word_eqI) (simp add: bit_byte_mask)
  then have "m ! nat (b div 8) = 0" if "b mod 8 = 0"
    using that n assms(1) unfolding n_def [symmetric] by (simp add: m_def r_def nth_append)
  ultimately show "\<exists>m. mask_addr (V6 a) b = Inr (V6 m) \<and> length m = 16 \<and> match_ipv6 a m b \<and>
      (\<forall>k < 16. b div 8 < int k \<longrightarrow> m ! k = 0) \<and> (b mod 8 = 0 \<longrightarrow> m ! nat (b div 8) = 0)" by blast
next
  assume "b = 128"
  then show "mask_addr (V6 a) b = Inl OutOfBounds" using assms(1) by (simp add: mask_addr_def)
qed

end
