(* ===== verification/AddrConf.thy ===== *)
theory AddrConf
  imports Netmask Match
begin

text \<open>
  The table of address masks, \<open>src/src/hostmask.c\<close>: the hash functions, the search
  \<open>find_conf_by_address\<close> with the policies \<open>find_address_conf\<close> and \<open>find_dline_conf\<close> built on it,
  \<open>add_conf_by_address\<close>, \<open>delete_one_address_conf\<close>, and the two sweeps
  \<open>clear_out_address_conf\<close> and \<open>hostmask_expire_temporary\<close>; \<open>match_conf_password\<close> is from
  \<open>src/src/conf.c\<close>.

  A bucket of \<open>atable\<close> is the list of its records from the head on (the list operations are those
  of theory Dlink). \<open>struct MaskItem\<close>s live in a store of their own, which \<open>conf_free\<close> removes
  them from: reading a freed one is an error. The password hash \<open>crypt\<close> belongs to the C library
  and is an argument, \<open>None\<close> being its NULL result. A record with precedence \<open>p\<close> was added before
  every record with a lower one.
\<close>

type_synonym conf_ref = nat

definition ATABLE_SIZE :: nat where "ATABLE_SIZE = 0x1000"

definition CONF_KLINE :: u32 where "CONF_KLINE = 4"
definition CONF_DLINE :: u32 where "CONF_DLINE = 8"
definition CONF_EXEMPT :: u32 where "CONF_EXEMPT = 16"
definition CONF_GLINE :: u32 where "CONF_GLINE = 256"

definition CONF_FLAGS_NEED_PASSWORD :: u32 where "CONF_FLAGS_NEED_PASSWORD = 0x200"
definition CONF_FLAGS_ENCRYPTED :: u32 where "CONF_FLAGS_ENCRYPTED = 0x800"
definition CONF_FLAGS_IN_DATABASE :: u32 where "CONF_FLAGS_IN_DATABASE = 0x1000"

record MaskItem =
  cflags :: u32
  active :: bool
  ref_count :: u32
  until :: int
  cuser :: "string option"
  chost :: "string option"
  passwd :: "string option"

datatype hostmask = HostName string | Ipa4 u32 int | Ipa6 "u8 list" int

record AddressRec =
  Mask :: hostmask
  rtype :: u32
  precedence :: u32
  rusername :: "string option"
  conf :: conf_ref

record addr_table =
  atable :: "nat \<Rightarrow> AddressRec list"
  prec_value :: u32
  confs :: "conf_ref \<Rightarrow> MaskItem option"
  notices :: "(char \<times> string \<times> string) list"

section \<open>Hashing\<close>

definition fold_hash :: "u32 \<Rightarrow> nat" where
  "fold_hash v = unat (v AND (word_of_nat ATABLE_SIZE - 1))"

definition hash_ipv4 :: "u32 \<Rightarrow> int \<Rightarrow> nat" where
  "hash_ipv4 addr bits =
    (if bits \<noteq> 0 then let av = addr AND v4_mask bits in fold_hash (av XOR drop_bit 12 av XOR drop_bit 24 av) else 0)"

fun hash_ipv6_loop :: "u8 list \<Rightarrow> int \<Rightarrow> u32 \<Rightarrow> u32" where
  "hash_ipv6_loop [] bits v = v"
| "hash_ipv6_loop (x # xs) bits v =
    (if bits \<ge> 8 then hash_ipv6_loop xs (bits - 8) (v XOR ucast x)
     else if bits \<noteq> 0 then v XOR ucast (x AND byte_mask (nat bits))
     else v)"

definition hash_ipv6 :: "u8 list \<Rightarrow> int \<Rightarrow> nat" where
  "hash_ipv6 addr bits = fold_hash (hash_ipv6_loop addr bits 0)"

definition hash_text_step :: "u32 \<Rightarrow> char \<Rightarrow> u32" where
  "hash_text_step h c = push_bit 4 h - (h + of_char (ToLower c))"

definition hash_text :: "string \<Rightarrow> nat" where
  "hash_text s = fold_hash (foldl hash_text_step 0 s)"

text \<open>\<open>get_mask_hash\<close> walks the text from its end: the argument is the reversed text still ahead,
  \<open>behind\<close> what the walk has passed.\<close>

fun mask_hash_loop :: "string \<Rightarrow> string \<Rightarrow> string \<Rightarrow> string option" where
  "mask_hash_loop [] behind hp = None"
| "mask_hash_loop (c # rev_ahead) behind hp =
    (if IsMWildChar c then Some hp
     else if c = CHR ''.'' then mask_hash_loop rev_ahead (c # behind) behind
     else mask_hash_loop rev_ahead (c # behind) hp)"

definition get_mask_hash :: "string \<Rightarrow> nat" where
  "get_mask_hash t = (case mask_hash_loop (rev t) [] [] of Some hp \<Rightarrow> hash_text hp | None \<Rightarrow> hash_text t)"

section \<open>The search\<close>

definition EmptyString :: "string option \<Rightarrow> bool" where
  "EmptyString s \<longleftrightarrow> s = None \<or> s = Some []"

definition match_conf_password :: "(string \<Rightarrow> string \<Rightarrow> string option) \<Rightarrow> string option \<Rightarrow> MaskItem \<Rightarrow> bool" where
  "match_conf_password crypt password c =
    (if EmptyString password \<or> EmptyString (passwd c) then False
     else
       let encr = (if has_flag (cflags c) CONF_FLAGS_ENCRYPTED then crypt (the password) (the (passwd c)) else password)
       in encr = passwd c)"

definition password_ok :: "(string \<Rightarrow> string \<Rightarrow> string option) \<Rightarrow> string option \<Rightarrow> MaskItem \<Rightarrow> bool" where
  "password_ok crypt password c \<longleftrightarrow>
    has_flag (cflags c) CONF_FLAGS_NEED_PASSWORD \<or> passwd c = None \<or> match_conf_password crypt password c"

text \<open>\<open>cmpfunc\<close>: \<open>match\<close> or \<open>irccmp\<close>; the code tests for the result 0.\<close>

definition cmpfunc :: "bool \<Rightarrow> string \<Rightarrow> string \<Rightarrow> c_error + nat" where
  "cmpfunc do_match a b = (if do_match then match a b else Inr (irccmp a b))"

record query =
  qtype :: u32
  quser :: "string option"
  qpass :: "string option"
  qmatch :: bool

definition user_matches :: "query \<Rightarrow> AddressRec \<Rightarrow> c_error + bool" where
  "user_matches q r =
    (case quser q of None \<Rightarrow> Inr True
     | Some u \<Rightarrow> (case rusername r of None \<Rightarrow> Inl NullDeref
        | Some ru \<Rightarrow> map_sum id (\<lambda>k. k = 0) (cmpfunc (qmatch q) ru u)))"

text \<open>The chain loop: \<open>hit\<close> is the mask comparison, with the test of the mask's kind. The
  conditions are evaluated from left to right.\<close>

fun scan_chain :: "(string \<Rightarrow> string \<Rightarrow> string option) \<Rightarrow> (conf_ref \<Rightarrow> MaskItem option) \<Rightarrow> query \<Rightarrow> (hostmask \<Rightarrow> c_error + bool) \<Rightarrow>
    AddressRec list \<Rightarrow> u32 \<times> conf_ref option \<Rightarrow> c_error + u32 \<times> conf_ref option" where
  "scan_chain crypt cs q hit [] best = Inr best"
| "scan_chain crypt cs q hit (r # rs) (hprecv, hprec) =
    (if rtype r = qtype q \<and> precedence r > hprecv then
       (case hit (Mask r) of
          Inl e \<Rightarrow> Inl e
        | Inr False \<Rightarrow> scan_chain crypt cs q hit rs (hprecv, hprec)
        | Inr True \<Rightarrow>
            (case user_matches q r of
               Inl e \<Rightarrow> Inl e
             | Inr False \<Rightarrow> scan_chain crypt cs q hit rs (hprecv, hprec)
             | Inr True \<Rightarrow>
                 (case cs (conf r) of
                    None \<Rightarrow> Inl NullDeref
                  | Some c \<Rightarrow> scan_chain crypt cs q hit rs
                      (if password_ok crypt (qpass q) c then (precedence r, Some (conf r)) else (hprecv, hprec)))))
     else scan_chain crypt cs q hit rs (hprecv, hprec))"

definition hit_ipv6 :: "u8 list \<Rightarrow> hostmask \<Rightarrow> c_error + bool" where
  "hit_ipv6 a m = (case m of Ipa6 ma b \<Rightarrow> Inr (match_ipv6 a ma b) | _ \<Rightarrow> Inr False)"

definition hit_ipv4 :: "u32 \<Rightarrow> hostmask \<Rightarrow> c_error + bool" where
  "hit_ipv4 a m = (case m of Ipa4 ma b \<Rightarrow> Inr (match_ipv4 a ma b) | _ \<Rightarrow> Inr False)"

definition hit_host :: "bool \<Rightarrow> string \<Rightarrow> hostmask \<Rightarrow> c_error + bool" where
  "hit_host do_match n m = (case m of HostName h \<Rightarrow> map_sum id (\<lambda>k. k = 0) (cmpfunc do_match h n) | _ \<Rightarrow> Inr False)"

text \<open>One chain after another, in the order of the bucket list.\<close>

fun scan_buckets :: "(string \<Rightarrow> string \<Rightarrow> string option) \<Rightarrow> addr_table \<Rightarrow> query \<Rightarrow> (hostmask \<Rightarrow> c_error + bool) \<Rightarrow>
    nat list \<Rightarrow> u32 \<times> conf_ref option \<Rightarrow> c_error + u32 \<times> conf_ref option" where
  "scan_buckets crypt t q hit [] best = Inr best"
| "scan_buckets crypt t q hit (h # hs) best =
    (case scan_chain crypt (confs t) q hit (atable t h) best of Inl e \<Rightarrow> Inl e | Inr best' \<Rightarrow> scan_buckets crypt t q hit hs best')"

text \<open>The buckets probed for an address and for a host name: the name itself, then what follows each dot.\<close>

definition probes_ipv6 :: "u8 list \<Rightarrow> nat list" where
  "probes_ipv6 a = map (hash_ipv6 a) [128, 112, 96, 80, 64, 48, 32, 16, 0]"

definition probes_ipv4 :: "u32 \<Rightarrow> nat list" where
  "probes_ipv4 a = map (hash_ipv4 a) [32, 24, 16, 8, 0]"

fun after_dots :: "string \<Rightarrow> string list" where
  "after_dots [] = []"
| "after_dots (c # s) = (if c = CHR ''.'' then s # after_dots s else after_dots s)"

definition probes_host :: "string \<Rightarrow> nat list" where
  "probes_host n = map hash_text (n # after_dots n) @ [0]"

definition scan_address :: "(string \<Rightarrow> string \<Rightarrow> string option) \<Rightarrow> addr_table \<Rightarrow> query \<Rightarrow> address option \<Rightarrow>
    c_error + u32 \<times> conf_ref option" where
  "scan_address crypt t q addr =
    (case addr of
       None \<Rightarrow> Inr (0, None)
     | Some (V6 a) \<Rightarrow> scan_buckets crypt t q (hit_ipv6 a) (probes_ipv6 a) (0, None)
     | Some (V4 a) \<Rightarrow> scan_buckets crypt t q (hit_ipv4 a) (probes_ipv4 a) (0, None))"

definition find_conf_by_address :: "(string \<Rightarrow> string \<Rightarrow> string option) \<Rightarrow> addr_table \<Rightarrow> string option \<Rightarrow> address option \<Rightarrow> query \<Rightarrow>
    c_error + conf_ref option" where
  "find_conf_by_address crypt t name addr q =
    (case scan_address crypt t q addr of
       Inl e \<Rightarrow> Inl e
     | Inr best \<Rightarrow>
         map_sum id snd (case name of None \<Rightarrow> Inr best
           | Some n \<Rightarrow> scan_buckets crypt t q (hit_host (qmatch q) n) (probes_host n) best))"

definition host_query :: "u32 \<Rightarrow> string option \<Rightarrow> string option \<Rightarrow> query" where
  "host_query ty user password = \<lparr>qtype = ty, quser = user, qpass = password, qmatch = True\<rparr>"


definition find_dline_conf :: "(string \<Rightarrow> string \<Rightarrow> string option) \<Rightarrow> addr_table \<Rightarrow> address \<Rightarrow> c_error + conf_ref option" where
  "find_dline_conf crypt t addr =
    (case find_conf_by_address crypt t None (Some addr) (host_query CONF_EXEMPT None None) of
       Inl e \<Rightarrow> Inl e
     | Inr (Some eline) \<Rightarrow> Inr (Some eline)
     | Inr None \<Rightarrow> find_conf_by_address crypt t None (Some addr) (host_query CONF_DLINE None None))"

section \<open>Adding and deleting\<close>

definition mask_bucket :: "hostmask \<Rightarrow> nat" where
  "mask_bucket m =
    (case m of Ipa4 a b \<Rightarrow> hash_ipv4 a (b - b mod 8) | Ipa6 a b \<Rightarrow> hash_ipv6 a (b - b mod 16) | HostName h \<Rightarrow> get_mask_hash h)"

definition host_mask :: "string \<Rightarrow> c_error + hostmask" where
  "host_mask h = map_sum id (\<lambda>n. case n of HM_IPV4 a b \<Rightarrow> Ipa4 a b | HM_IPV6 a b \<Rightarrow> Ipa6 a b | HM_HOST \<Rightarrow> HostName h) (parse_netmask h)"

definition add_conf_by_address :: "u32 \<Rightarrow> conf_ref \<Rightarrow> addr_table \<Rightarrow> c_error + addr_table" where
  "add_conf_by_address ty c t =
    (case confs t c of
       None \<Rightarrow> Inl NullDeref
     | Some item \<Rightarrow>
         if ty = 0 \<or> EmptyString (chost item) then Inl AssertionFailed
         else
           (case host_mask (the (chost item)) of
              Inl e \<Rightarrow> Inl e
            | Inr m \<Rightarrow>
                let r = \<lparr>Mask = m, rtype = ty, precedence = prec_value t, rusername = cuser item, conf = c\<rparr>;
                    h = mask_bucket m
                in Inr (t\<lparr>atable := (atable t)(h := r # atable t h), prec_value := prec_value t - 1\<rparr>)))"

definition conf_free :: "conf_ref \<Rightarrow> (conf_ref \<Rightarrow> MaskItem option) \<Rightarrow> conf_ref \<Rightarrow> MaskItem option" where
  "conf_free c cs = cs(c := None)"

fun delete_from_chain :: "conf_ref \<Rightarrow> AddressRec list \<Rightarrow> (conf_ref \<Rightarrow> MaskItem option) \<Rightarrow>
    c_error + AddressRec list \<times> (conf_ref \<Rightarrow> MaskItem option)" where
  "delete_from_chain c [] cs = Inr ([], cs)"
| "delete_from_chain c (r # rs) cs =
    (if conf r = c then
       (case cs c of None \<Rightarrow> Inl NullDeref
        | Some item \<Rightarrow> Inr (rs, if ref_count item = 0 then conf_free c cs else cs))
     else map_sum id (apfst ((#) r)) (delete_from_chain c rs cs))"

definition delete_one_address_conf :: "string \<Rightarrow> conf_ref \<Rightarrow> addr_table \<Rightarrow> c_error + addr_table" where
  "delete_one_address_conf address c t =
    (case host_mask address of
       Inl e \<Rightarrow> Inl e
     | Inr m \<Rightarrow>
         let hv = mask_bucket m
         in map_sum id (\<lambda>(rs, cs). t\<lparr>atable := (atable t)(hv := rs), confs := cs\<rparr>) (delete_from_chain c (atable t hv) (confs t)))"

section \<open>Sweeps over the whole table\<close>

text \<open>The loop over all buckets that both sweeps have; the argument is what they do with one chain.\<close>

type_synonym chain_sweep = "AddressRec list \<Rightarrow> (conf_ref \<Rightarrow> MaskItem option) \<Rightarrow> (char \<times> string \<times> string) list \<Rightarrow>
  c_error + AddressRec list \<times> (conf_ref \<Rightarrow> MaskItem option) \<times> (char \<times> string \<times> string) list"

fun sweep_buckets :: "chain_sweep \<Rightarrow> nat list \<Rightarrow> addr_table \<Rightarrow> c_error + addr_table" where
  "sweep_buckets f [] t = Inr t"
| "sweep_buckets f (i # is') t =
    (case f (atable t i) (confs t) (notices t) of
       Inl e \<Rightarrow> Inl e
     | Inr (rs, cs, ns) \<Rightarrow> sweep_buckets f is' (t\<lparr>atable := (atable t)(i := rs), confs := cs, notices := ns\<rparr>))"

fun clear_chain :: "AddressRec list \<Rightarrow> (conf_ref \<Rightarrow> MaskItem option) \<Rightarrow> c_error + AddressRec list \<times> (conf_ref \<Rightarrow> MaskItem option)" where
  "clear_chain [] cs = Inr ([], cs)"
| "clear_chain (r # rs) cs =
    (case cs (conf r) of
       None \<Rightarrow> Inl NullDeref
     | Some c \<Rightarrow>
         if until c \<noteq> 0 \<or> has_flag (cflags c) CONF_FLAGS_IN_DATABASE
         then map_sum id (apfst ((#) r)) (clear_chain rs cs)
         else
           let cs' = cs(conf r \<mapsto> c\<lparr>active := False\<rparr>)
           in clear_chain rs (if ref_count c = 0 then conf_free (conf r) cs' else cs'))"

definition clear_out_address_conf :: "addr_table \<Rightarrow> c_error + addr_table" where
  "clear_out_address_conf t =
    sweep_buckets (\<lambda>rs cs ns. map_sum id (\<lambda>(rs', cs'). (rs', cs', ns)) (clear_chain rs cs)) [0..<ATABLE_SIZE] t"

text \<open>The notice to the operators, when \<open>ConfigGeneral.tkline_expire_notices\<close> is set.\<close>

definition hostmask_send_expiration :: "bool \<Rightarrow> AddressRec \<Rightarrow> MaskItem \<Rightarrow> (char \<times> string \<times> string) list" where
  "hostmask_send_expiration tkline_expire_notices r c =
    (if \<not> tkline_expire_notices then []
     else
       let ban_type = (if rtype r = CONF_KLINE then CHR ''K'' else if rtype r = CONF_DLINE then CHR ''D''
                       else if rtype r = CONF_GLINE then CHR ''G'' else NUL)
       in [(ban_type, case cuser c of Some u \<Rightarrow> u | None \<Rightarrow> ''*'', case chost c of Some h \<Rightarrow> h | None \<Rightarrow> ''*'')])"

definition expires :: "int \<Rightarrow> AddressRec \<Rightarrow> MaskItem \<Rightarrow> bool" where
  "expires now r c \<longleftrightarrow> \<not> (until c = 0 \<or> until c > now) \<and> rtype r \<in> {CONF_KLINE, CONF_DLINE, CONF_GLINE}"

fun expire_chain :: "int \<Rightarrow> bool \<Rightarrow> AddressRec list \<Rightarrow> (conf_ref \<Rightarrow> MaskItem option) \<Rightarrow> (char \<times> string \<times> string) list \<Rightarrow>
    c_error + AddressRec list \<times> (conf_ref \<Rightarrow> MaskItem option) \<times> (char \<times> string \<times> string) list" where
  "expire_chain now ntc [] cs ns = Inr ([], cs, ns)"
| "expire_chain now ntc (r # rs) cs ns =
    (case cs (conf r) of
       None \<Rightarrow> Inl NullDeref
     | Some c \<Rightarrow>
         if expires now r c
         then expire_chain now ntc rs (conf_free (conf r) cs) (ns @ hostmask_send_expiration ntc r c)
         else map_sum id (apfst ((#) r)) (expire_chain now ntc rs cs ns))"

definition hostmask_expire_temporary :: "int \<Rightarrow> bool \<Rightarrow> addr_table \<Rightarrow> c_error + addr_table" where
  "hostmask_expire_temporary CurrentTime tkline_expire_notices t =
    sweep_buckets (expire_chain CurrentTime tkline_expire_notices) [0..<ATABLE_SIZE] t"

section \<open>A matching record is in a probed bucket\<close>

text \<open>The interface between the hash functions and the search. \<open>bucket\<close> is where a mask is stored,
  \<open>hits k m\<close> that mask \<open>m\<close> matches the key \<open>k\<close>, \<open>probes k\<close> the buckets searched for it.\<close>

locale bucketed_lookup =
  fixes wf :: "'m \<Rightarrow> bool"
    and bucket :: "'m \<Rightarrow> nat"
    and hits :: "'k \<Rightarrow> 'm \<Rightarrow> bool"
    and probes :: "'k \<Rightarrow> nat list"
  assumes probe_complete: "wf m \<Longrightarrow> hits k m \<Longrightarrow> bucket m \<in> set (probes k)"
begin

text \<open>Searching the probed buckets finds every record of the table whose mask hits.\<close>

lemma probed_records:
  assumes "\<And>i r. r \<in> set (tab i) \<Longrightarrow> wf (key r) \<and> bucket (key r) = i"
  shows "{r \<in> set (concat (map tab (probes k))). hits k (key r) \<and> P r} = {r. (\<exists>i. r \<in> set (tab i)) \<and> hits k (key r) \<and> P r}"
proof -
  have "i \<in> set (probes k)" if "r \<in> set (tab i)" "hits k (key r)" for r i
    using that assms probe_complete by blast
  then show ?thesis by auto
qed

end

lemma fold_hash_less [simp]: "fold_hash v < ATABLE_SIZE"
proof -
  have "v AND 0xFFF = take_bit 12 v" by (simp add: take_bit_eq_mask mask_eq_exp_minus_1)
  then show ?thesis using take_bit_nat_less_exp [of 12 "unat v"]
    by (simp add: fold_hash_def ATABLE_SIZE_def unsigned_take_bit_eq)
qed

lemma match_ipv4_hash:
  assumes "match_ipv4 a m b" "c \<le> b"
  shows "hash_ipv4 m c = hash_ipv4 a c"
proof -
  have "m AND v4_mask c = a AND (v4_mask b AND v4_mask c)"
    using assms(1) by (auto simp: match_ipv4_def and.assoc)
  also have "\<dots> = a AND v4_mask c" using assms(2) by (simp add: v4_mask_nested)
  finally show ?thesis by (simp add: hash_ipv4_def)
qed

lemma ipv4_probed:
  assumes "1 \<le> b" "b \<le> 32" "match_ipv4 a m b"
  shows "hash_ipv4 m (b - b mod 8) \<in> set (probes_ipv4 a)"
proof -
  have "b - b mod 8 = 8 * (b div 8)" by (simp add: minus_mod_eq_mult_div)
  moreover have "b div 8 \<in> {0, 1, 2, 3, 4}" using assms(1,2) by auto
  ultimately have "b - b mod 8 \<in> set [32, 24, 16, 8, 0]" by auto
  then show ?thesis using match_ipv4_hash [OF assms(3), of "b - b mod 8"] by (auto simp: probes_ipv4_def)
qed

lemma hash_ipv6_loop_prefix: "hash_ipv6_loop xs (8 * int k) v = foldl (\<lambda>v x. v XOR ucast x) v (take k xs)"
proof (induction xs arbitrary: k v)
  case (Cons x xs)
  show ?case
  proof (cases k)
    case (Suc j)
    then show ?thesis using Cons.IH [of j "v XOR ucast x"] by simp
  qed simp
qed simp

lemma ipv6_probed:
  assumes "0 \<le> b" "b \<le> 128" "match_ipv6 a m b"
  shows "hash_ipv6 m (b - b mod 16) \<in> set (probes_ipv6 a)"
proof -
  define k where "k = nat (b div 16)"
  have k: "b - b mod 16 = 8 * int (2 * k)" using assms(1) by (simp add: k_def minus_mod_eq_mult_div)
  have "k \<le> 8" "2 * k \<le> nat (b div 8)" using assms(1,2) unfolding k_def by linarith+
  moreover have "take (2 * k) (take (nat (b div 8)) a) = take (2 * k) (take (nat (b div 8)) m)"
    using assms(3) by (simp add: match_ipv6_def Let_def)
  ultimately have "hash_ipv6 m (b - b mod 16) = hash_ipv6 a (16 * int k)"
    unfolding hash_ipv6_def k hash_ipv6_loop_prefix using hash_ipv6_loop_prefix [of a "2 * k"] by (simp add: min_absorb1)
  moreover have "16 * int k \<in> set [128, 112, 96, 80, 64, 48, 32, 16, 0]" using \<open>k \<le> 8\<close> by auto
  then have "hash_ipv6 a (16 * int k) \<in> set (probes_ipv6 a)" unfolding probes_ipv6_def set_map by (rule imageI)
  ultimately show ?thesis by simp
qed

subsection \<open>Host masks\<close>

lemma hash_text_fold_case: "map ToLower s = map ToLower t \<Longrightarrow> hash_text s = hash_text t"
proof -
  have "foldl hash_text_step h s = foldl hash_text_step h (map ToLower s)" for h s
    by (induction s arbitrary: h) (simp_all add: hash_text_step_def)
  then show "map ToLower s = map ToLower t \<Longrightarrow> hash_text s = hash_text t" by (metis hash_text_def)
qed

lemma hash_text_empty [simp]: "hash_text [] = 0"
  by (simp add: hash_text_def fold_hash_def)

lemma after_dots_iff: "t \<in> set (after_dots n) \<longleftrightarrow> (\<exists>p. n = p @ CHR ''.'' # t)"
  by (induction n) (auto simp: Cons_eq_append_conv)

definition dot_tail :: "string \<Rightarrow> string \<Rightarrow> bool" where
  "dot_tail hp s \<longleftrightarrow> hp = [] \<or> (\<exists>mid. s = mid @ CHR ''.'' # hp)"

lemma mask_hash_loop_spec:
  "\<forall>c \<in> set behind. literal c \<Longrightarrow> dot_tail hp behind \<Longrightarrow>
    (case mask_hash_loop (rev s) behind hp of
       None \<Rightarrow> \<forall>c \<in> set s. literal c
     | Some hp' \<Rightarrow> \<exists>pre post. s @ behind = pre @ post \<and> (\<forall>c \<in> set post. literal c) \<and> dot_tail hp' post)"
proof (induction s arbitrary: behind hp rule: rev_induct)
  case (snoc c s)
  consider "IsMWildChar c" | "\<not> IsMWildChar c" "c = CHR ''.''" | "\<not> IsMWildChar c" "c \<noteq> CHR ''.''" by blast
  then show ?case
  proof cases
    case 1
    moreover have "(s @ [c]) @ behind = (s @ [c]) @ behind \<and> (\<forall>c \<in> set behind. literal c) \<and> dot_tail hp behind"
      using snoc.prems by simp
    ultimately show ?thesis by simp (metis append.assoc append_Cons append_Nil)
  next
    case 2
    have "dot_tail behind (c # behind)" using 2 by (auto simp: dot_tail_def)
    then show ?thesis
      using 2 snoc.prems snoc.IH [of "c # behind" behind] by (auto simp: literal_def IsMWildChar_iff split: option.splits)
  next
    case 3
    have "dot_tail hp (c # behind)" using snoc.prems(2) by (auto simp: dot_tail_def intro: exI [of _ "c # _"])
    then show ?thesis
      using 3 snoc.prems snoc.IH [of "c # behind" hp] by (auto simp: literal_def IsMWildChar_iff split: option.splits)
  qed
qed simp

lemma wild_literal: "\<forall>c \<in> set m. literal c \<Longrightarrow> wild m n \<longleftrightarrow> map ToLower m = map ToLower n"
proof (induction m arbitrary: n)
  case (Cons c m)
  then show ?case by (cases n) (auto simp: literal_def)
qed auto

lemma wild_append_suffix: "wild (pre @ post) n \<Longrightarrow> \<exists>t. suffix t n \<and> wild post t"
proof (induction "pre @ post" n arbitrary: pre rule: wild.induct)
  case (2 c m)
  then show ?case by (cases pre) auto
next
  case (3 c m x n)
  show ?case
  proof (cases pre)
    case Nil
    then show ?thesis using 3 by auto
  next
    case (Cons c' pre')
    then have m: "m = pre' @ post" "c = c'" using 3 by auto
    show ?thesis
    proof (cases "c = CHR ''*''")
      case True
      then show ?thesis using 3 m Cons by (auto simp: suffix_Cons)
    next
      case False
      then show ?thesis using 3 m Cons by (auto simp: suffix_Cons split: if_splits)
    qed
  qed
qed auto

lemma irccmp_wild: "map ToLower m = map ToLower n \<Longrightarrow> wild m n"
proof (induction m arbitrary: n)
  case (Cons c m)
  then obtain x n' where n: "n = x # n'" "ToLower c = ToLower x" "map ToLower m = map ToLower n'" by (cases n) auto
  have "wild m n' \<Longrightarrow> wild (CHR ''*'' # m) (x # n')" by (auto simp: wild_star suffix_Cons)
  then show ?case using Cons.IH [OF n(3)] n(1,2) by auto
qed simp

lemma ToLower_dot: "ToLower c = ToLower (CHR ''.'') \<longleftrightarrow> c = CHR ''.''"
  by (simp add: char_eq_of_char_iff of_char_ToLower)

lemma map_eq_append_Cons:
  "map f t = a @ x # b \<Longrightarrow> \<exists>t1 c t2. t = t1 @ c # t2 \<and> map f t1 = a \<and> f c = x \<and> map f t2 = b"
  by (auto simp: map_eq_append_conv map_eq_Cons_conv)

lemma host_probed:
  assumes "wild h n"
  shows "get_mask_hash h \<in> set (probes_host n)"
proof (cases "mask_hash_loop (rev h) [] []")
  case None
  then have "\<forall>c \<in> set h. literal c" using mask_hash_loop_spec [of "[]" "[]" h] by (simp add: dot_tail_def)
  then have "hash_text h = hash_text n" using assms wild_literal by (intro hash_text_fold_case) blast
  then show ?thesis using None by (simp add: get_mask_hash_def probes_host_def)
next
  case (Some hp)
  then obtain pre post where h: "h = pre @ post" "\<forall>c \<in> set post. literal c" "dot_tail hp post"
    using mask_hash_loop_spec [of "[]" "[]" h] by (auto simp: dot_tail_def)
  obtain t where t: "suffix t n" "map ToLower post = map ToLower t"
    using wild_append_suffix assms h(1,2) wild_literal by blast
  have "hash_text hp \<in> set (probes_host n)"
  proof (cases "hp = []")
    case False
    then obtain mid where "post = mid @ CHR ''.'' # hp" using h(3) by (auto simp: dot_tail_def)
    then have "map ToLower t = map ToLower mid @ ToLower (CHR ''.'') # map ToLower hp" using t(2) by simp
    then obtain t1 c t2 where "t = t1 @ c # t2" "ToLower c = ToLower (CHR ''.'')" "map ToLower t2 = map ToLower hp"
      using map_eq_append_Cons [of ToLower t "map ToLower mid" "ToLower (CHR ''.'')" "map ToLower hp"] by metis
    moreover from this have "t = t1 @ CHR ''.'' # t2" by (simp add: ToLower_dot)
    moreover obtain p where "n = p @ t" using t(1) by (auto simp: suffix_def)
    ultimately have "hash_text hp = hash_text t2" "n = (p @ t1) @ CHR ''.'' # t2"
      by (simp_all add: hash_text_fold_case [of hp t2])
    then have "hash_text hp = hash_text t2" "t2 \<in> set (after_dots n)" unfolding after_dots_iff by blast+
    then show ?thesis by (simp add: probes_host_def)
  qed (simp add: probes_host_def)
  then show ?thesis using Some by (simp add: get_mask_hash_def)
qed

section \<open>What a record covers\<close>

definition text_hits :: "bool \<Rightarrow> string \<Rightarrow> string \<Rightarrow> bool" where
  "text_hits do_match m n \<longleftrightarrow> (if do_match then wild m n else irccmp m n = 0)"

lemma cmpfunc_plain: "CHR 0x5C \<notin> set m \<Longrightarrow> map_sum id (\<lambda>k. k = 0) (cmpfunc dm m n) = Inr (text_hits dm m n)"
  by (simp add: cmpfunc_def text_hits_def match_plain_mask)

definition wf_mask :: "hostmask \<Rightarrow> bool" where
  "wf_mask m \<longleftrightarrow> (case m of Ipa4 a b \<Rightarrow> 1 \<le> b \<and> b \<le> 32 | Ipa6 a b \<Rightarrow> 0 \<le> b \<and> b \<le> 128 | HostName h \<Rightarrow> True)"

definition mask_hits4 :: "u32 \<Rightarrow> hostmask \<Rightarrow> bool" where
  "mask_hits4 a m \<longleftrightarrow> (case m of Ipa4 ma b \<Rightarrow> match_ipv4 a ma b | _ \<Rightarrow> False)"

definition mask_hits6 :: "u8 list \<Rightarrow> hostmask \<Rightarrow> bool" where
  "mask_hits6 a m \<longleftrightarrow> (case m of Ipa6 ma b \<Rightarrow> match_ipv6 a ma b | _ \<Rightarrow> False)"

definition mask_hits_host :: "bool \<Rightarrow> string \<Rightarrow> hostmask \<Rightarrow> bool" where
  "mask_hits_host dm n m \<longleftrightarrow> (case m of HostName h \<Rightarrow> text_hits dm h n | _ \<Rightarrow> False)"

interpretation ip4: bucketed_lookup wf_mask mask_bucket mask_hits4 probes_ipv4
  by unfold_locales (auto simp: wf_mask_def mask_hits4_def mask_bucket_def ipv4_probed split: hostmask.splits)

interpretation ip6: bucketed_lookup wf_mask mask_bucket mask_hits6 probes_ipv6
  by unfold_locales (auto simp: wf_mask_def mask_hits6_def mask_bucket_def ipv6_probed split: hostmask.splits)

interpretation host: bucketed_lookup wf_mask mask_bucket "mask_hits_host dm" probes_host for dm
  by unfold_locales
    (auto simp: mask_hits_host_def mask_bucket_def text_hits_def irccmp_zero_iff host_probed irccmp_wild split: hostmask.splits if_splits)

text \<open>The part of the test that does not concern the mask.\<close>

definition selects :: "(string \<Rightarrow> string \<Rightarrow> string option) \<Rightarrow> (conf_ref \<Rightarrow> MaskItem option) \<Rightarrow> query \<Rightarrow> AddressRec \<Rightarrow> bool" where
  "selects crypt cs q r \<longleftrightarrow> rtype r = qtype q \<and>
     (case quser q of None \<Rightarrow> True | Some u \<Rightarrow> \<exists>ru. rusername r = Some ru \<and> text_hits (qmatch q) ru u) \<and>
     (\<exists>c. cs (conf r) = Some c \<and> password_ok crypt (qpass q) c)"

text \<open>A record on which the search cannot fault: its conf is live, its masks have no escapes, and it has a
  user mask when the search asks for one.\<close>

definition plain_rec :: "(conf_ref \<Rightarrow> MaskItem option) \<Rightarrow> query \<Rightarrow> AddressRec \<Rightarrow> bool" where
  "plain_rec cs q r \<longleftrightarrow> cs (conf r) \<noteq> None \<and>
     (case Mask r of HostName h \<Rightarrow> CHR 0x5C \<notin> set h | _ \<Rightarrow> True) \<and>
     (case rusername r of None \<Rightarrow> quser q = None | Some u \<Rightarrow> CHR 0x5C \<notin> set u)"

lemma user_matches_plain:
  "plain_rec cs q r \<Longrightarrow> user_matches q r =
    Inr (case quser q of None \<Rightarrow> True | Some u \<Rightarrow> \<exists>ru. rusername r = Some ru \<and> text_hits (qmatch q) ru u)"
  by (auto simp: user_matches_def plain_rec_def cmpfunc_plain split: option.splits)

definition pick :: "(AddressRec \<Rightarrow> bool) \<Rightarrow> u32 \<times> conf_ref option \<Rightarrow> AddressRec \<Rightarrow> u32 \<times> conf_ref option" where
  "pick P best r = (if P r \<and> precedence r > fst best then (precedence r, Some (conf r)) else best)"

lemma scan_chain_pick:
  assumes "\<forall>r \<in> set rs. plain_rec cs q r \<and> hit (Mask r) = Inr (H (Mask r))"
  shows "scan_chain crypt cs q hit rs best = Inr (foldl (pick (\<lambda>r. H (Mask r) \<and> selects crypt cs q r)) best rs)"
  using assms
proof (induction rs arbitrary: best)
  case (Cons r rs)
  obtain p o' where best: "best = (p, o')" by (cases best)
  have plain: "plain_rec cs q r" "hit (Mask r) = Inr (H (Mask r))" using Cons.prems by auto
  then obtain c where c: "cs (conf r) = Some c" by (auto simp: plain_rec_def)
  define P where "P = (\<lambda>r. H (Mask r) \<and> selects crypt cs q r)"
  define U where "U \<longleftrightarrow> (case quser q of None \<Rightarrow> True | Some u \<Rightarrow> \<exists>ru. rusername r = Some ru \<and> text_hits (qmatch q) ru u)"
  have U: "user_matches q r = Inr U" using user_matches_plain [OF plain(1)] by (simp add: U_def)
  have P: "P r \<longleftrightarrow> H (Mask r) \<and> rtype r = qtype q \<and> U \<and> password_ok crypt (qpass q) c"
    using c by (auto simp: P_def selects_def U_def)
  have "scan_chain crypt cs q hit rs b = Inr (foldl (pick P) b rs)" for b
    using Cons by (simp add: P_def)
  then have "scan_chain crypt cs q hit (r # rs) best = Inr (foldl (pick P) (pick P best r) rs)"
    using U c plain(2) by (cases "H (Mask r)"; cases U) (auto simp: best pick_def P)
  then show ?case by (simp add: P_def)
qed (cases best, simp)

lemma scan_buckets_pick:
  assumes "\<forall>r \<in> set (concat (map (atable t) hs)). plain_rec (confs t) q r \<and> hit (Mask r) = Inr (H (Mask r))"
  shows "scan_buckets crypt t q hit hs best =
    Inr (foldl (pick (\<lambda>r. H (Mask r) \<and> selects crypt (confs t) q r)) best (concat (map (atable t) hs)))"
  using assms
proof (induction hs arbitrary: best)
  case (Cons h hs)
  then have "scan_chain crypt (confs t) q hit (atable t h) best =
      Inr (foldl (pick (\<lambda>r. H (Mask r) \<and> selects crypt (confs t) q r)) best (atable t h))"
    by (intro scan_chain_pick) simp
  then show ?case using Cons by simp
qed simp

text \<open>\<open>best_of S b\<close>: \<open>b\<close> is the precedence and conf of the record of highest precedence in \<open>S\<close>.\<close>

definition best_of :: "AddressRec set \<Rightarrow> u32 \<times> conf_ref option \<Rightarrow> bool" where
  "best_of S b \<longleftrightarrow> (S = {} \<and> b = (0, None)) \<or> (\<exists>r \<in> S. b = (precedence r, Some (conf r)) \<and> (\<forall>r' \<in> S. precedence r' \<le> precedence r))"

lemma best_of_foldl:
  "best_of S b \<Longrightarrow> \<forall>r \<in> set rs. 0 < precedence r \<Longrightarrow> best_of (S \<union> {r \<in> set rs. P r}) (foldl (pick P) b rs)"
proof (induction rs arbitrary: S b)
  case (Cons r rs)
  have "best_of (if P r then insert r S else S) (pick P b r)"
    using Cons.prems by (auto simp: best_of_def pick_def not_less intro: order.trans less_imp_le)
  from Cons.IH [OF this] Cons.prems(2)
  have "best_of ((if P r then insert r S else S) \<union> {r \<in> set rs. P r}) (foldl (pick P) (pick P b r) rs)" by simp
  moreover have "(if P r then insert r S else S) \<union> {r \<in> set rs. P r} = S \<union> {x \<in> set (r # rs). P x}" by auto
  ultimately show ?case by simp
qed simp

section \<open>The table as an ordered list of rules\<close>

text \<open>\<open>table_recs t recs\<close>: \<open>recs\<close> are the records of the table from the oldest to the newest. Each record is in
  the bucket of its mask, the conf of each is live and no other record's, and the precedence to be given next is
  lower than all that are in use.\<close>

definition table_recs :: "addr_table \<Rightarrow> AddressRec list \<Rightarrow> bool" where
  "table_recs t recs \<longleftrightarrow>
    (\<forall>i. \<forall>r \<in> set (atable t i). wf_mask (Mask r) \<and> mask_bucket (Mask r) = i) \<and>
    (\<forall>r. r \<in> set recs \<longleftrightarrow> (\<exists>i. r \<in> set (atable t i))) \<and>
    sorted_wrt (\<lambda>r r'. precedence r > precedence r') recs \<and>
    (\<forall>r \<in> set recs. precedence r > prec_value t \<and> confs t (conf r) \<noteq> None) \<and>
    distinct (map conf recs) \<and> (\<forall>i. distinct (atable t i))"

lemma table_recsD:
  assumes "table_recs t recs"
  shows "r \<in> set (atable t i) \<Longrightarrow> wf_mask (Mask r) \<and> mask_bucket (Mask r) = i"
    "r \<in> set recs \<longleftrightarrow> (\<exists>i. r \<in> set (atable t i))"
    "r \<in> set recs \<Longrightarrow> precedence r > prec_value t \<and> confs t (conf r) \<noteq> None"
    "sorted_wrt (\<lambda>r r'. precedence r > precedence r') recs"
    "distinct (map conf recs)" "distinct (atable t i)"
  using assms unfolding table_recs_def by blast+

definition mask_covers :: "bool \<Rightarrow> string option \<Rightarrow> address option \<Rightarrow> hostmask \<Rightarrow> bool" where
  "mask_covers dm name addr m \<longleftrightarrow>
    (case addr of None \<Rightarrow> False | Some (V4 a) \<Rightarrow> mask_hits4 a m | Some (V6 a) \<Rightarrow> mask_hits6 a m) \<or>
    (case name of None \<Rightarrow> False | Some n \<Rightarrow> mask_hits_host dm n m)"

definition covers :: "(string \<Rightarrow> string \<Rightarrow> string option) \<Rightarrow> (conf_ref \<Rightarrow> MaskItem option) \<Rightarrow> string option \<Rightarrow> address option \<Rightarrow> query \<Rightarrow> AddressRec \<Rightarrow> bool" where
  "covers crypt cs name addr q r \<longleftrightarrow> mask_covers (qmatch q) name addr (Mask r) \<and> selects crypt cs q r"

lemma best_of_scan:
  assumes table: "table_recs t recs" and plain: "\<forall>r \<in> set recs. plain_rec (confs t) q r"
    and hit: "\<And>r. plain_rec (confs t) q r \<Longrightarrow> hit (Mask r) = Inr (H (Mask r))"
    and probed: "{r \<in> set (concat (map (atable t) hs)). H (Mask r) \<and> selects crypt (confs t) q r} =
      {r. (\<exists>i. r \<in> set (atable t i)) \<and> H (Mask r) \<and> selects crypt (confs t) q r}"
    and best: "best_of S b"
  shows "\<exists>b'. scan_buckets crypt t q hit hs b = Inr b' \<and> best_of (S \<union> {r \<in> set recs. H (Mask r) \<and> selects crypt (confs t) q r}) b'"
proof -
  let ?P = "\<lambda>r. H (Mask r) \<and> selects crypt (confs t) q r"
  let ?rs = "concat (map (atable t) hs)"
  have in_recs: "r \<in> set recs" if "r \<in> set ?rs" for r using that table_recsD(2) [OF table] by auto
  have "scan_buckets crypt t q hit hs b = Inr (foldl (pick ?P) b ?rs)"
    using plain hit in_recs by (intro scan_buckets_pick) blast
  moreover have "\<forall>r \<in> set ?rs. 0 < precedence r"
    using in_recs table_recsD(3) [OF table] by (blast intro: le_less_trans [OF word_zero_le])
  then have "best_of (S \<union> {r \<in> set ?rs. ?P r}) (foldl (pick ?P) b ?rs)" by (rule best_of_foldl [OF best])
  moreover have same: "{r \<in> set recs. ?P r} = {r \<in> set ?rs. ?P r}" using table_recsD(2) [OF table] probed by simp
  ultimately show ?thesis unfolding same by blast
qed

lemma best_of_find:
  assumes "sorted_wrt (\<lambda>r r'. precedence r > precedence r') recs" "best_of {r \<in> set recs. P r} b"
  shows "snd b = map_option conf (find P recs)"
  using assms
proof (induction recs)
  case (Cons r recs)
  show ?case
  proof (cases "P r")
    case True
    have "precedence r' < precedence r" if "r' \<in> set recs" for r' using that Cons.prems(1) by simp
    then have "b = (precedence r, Some (conf r))"
      using Cons.prems(2) True by (auto simp: best_of_def not_less dest!: leD)
    then show ?thesis using True by simp
  next
    case False
    then have "{x \<in> set (r # recs). P x} = {x \<in> set recs. P x}" by auto
    then show ?thesis using Cons False by simp
  qed
qed (simp add: best_of_def)

lemma scan_address_best:
  assumes table: "table_recs t recs" and plain: "\<forall>r \<in> set recs. plain_rec (confs t) q r"
  shows "\<exists>b. scan_address crypt t q addr = Inr b \<and>
    best_of {r \<in> set recs. mask_covers (qmatch q) None addr (Mask r) \<and> selects crypt (confs t) q r} b"
proof -
  have start: "best_of {} (0, None)" by (simp add: best_of_def)
  note probed4 = ip4.probed_records [where tab = "atable t" and key = Mask, OF table_recsD(1) [OF table]]
  note probed6 = ip6.probed_records [where tab = "atable t" and key = Mask, OF table_recsD(1) [OF table]]
  have "hit_ipv4 a m = Inr (mask_hits4 a m)" "hit_ipv6 a6 m = Inr (mask_hits6 a6 m)" for a a6 m
    by (simp_all add: hit_ipv4_def hit_ipv6_def mask_hits4_def mask_hits6_def split: hostmask.splits)
  then show ?thesis
    using best_of_scan [OF table plain _ probed4 start, of "hit_ipv4 a" a crypt for a]
      best_of_scan [OF table plain _ probed6 start, of "hit_ipv6 a" a crypt for a] start
    by (auto simp: scan_address_def mask_covers_def split: option.splits address.splits)
qed

lemma find_conf_first_rule:
  assumes table: "table_recs t recs" and plain: "\<forall>r \<in> set recs. plain_rec (confs t) q r"
  shows "find_conf_by_address crypt t name addr q = Inr (map_option conf (find (covers crypt (confs t) name addr q) recs))"
proof -
  obtain b where b: "scan_address crypt t q addr = Inr b"
      "best_of {r \<in> set recs. mask_covers (qmatch q) None addr (Mask r) \<and> selects crypt (confs t) q r} b"
    using scan_address_best [OF assms] by blast
  show ?thesis
  proof (cases name)
    case None
    have "snd b = map_option conf (find (covers crypt (confs t) name addr q) recs)"
      using b(2) None by (intro best_of_find [OF table_recsD(4) [OF table]]) (simp add: covers_def)
    then show ?thesis using b(1) None by (simp add: find_conf_by_address_def)
  next
    case (Some n)
    note probed = host.probed_records [where tab = "atable t" and key = Mask, OF table_recsD(1) [OF table]]
    have hit: "hit_host (qmatch q) n (Mask r) = Inr (mask_hits_host (qmatch q) n (Mask r))" if "plain_rec (confs t) q r" for r
      using that by (auto simp: hit_host_def mask_hits_host_def plain_rec_def cmpfunc_plain split: hostmask.splits)
    obtain b' where b': "scan_buckets crypt t q (hit_host (qmatch q) n) (probes_host n) b = Inr b'"
      "best_of ({r \<in> set recs. mask_covers (qmatch q) None addr (Mask r) \<and> selects crypt (confs t) q r} \<union>
        {r \<in> set recs. mask_hits_host (qmatch q) n (Mask r) \<and> selects crypt (confs t) q r}) b'"
      using best_of_scan [OF table plain hit probed b(2)] by blast
    moreover have "{r \<in> set recs. mask_covers (qmatch q) None addr (Mask r) \<and> selects crypt (confs t) q r} \<union>
        {r \<in> set recs. mask_hits_host (qmatch q) n (Mask r) \<and> selects crypt (confs t) q r} =
        {r \<in> set recs. covers crypt (confs t) name addr q r}"
      using Some by (auto simp: covers_def mask_covers_def)
    ultimately have "snd b' = map_option conf (find (covers crypt (confs t) name addr q) recs)"
      using best_of_find [OF table_recsD(4) [OF table]] by simp
    then show ?thesis using b(1) b'(1) Some by (simp add: find_conf_by_address_def)
  qed
qed

section \<open>The operations on the list of rules\<close>

lemma mask_bucket_less: "mask_bucket m < ATABLE_SIZE"
  by (auto simp: mask_bucket_def hash_ipv4_def hash_ipv6_def get_mask_hash_def hash_text_def Let_def ATABLE_SIZE_def
      split: hostmask.splits option.splits simp del: fold_hash_less simp: fold_hash_less [unfolded ATABLE_SIZE_def])

lemma wf_host_mask: "host_mask h = Inr m \<Longrightarrow> wf_mask m"
  using parse_netmask_v4 [of h] parse_netmask_v6 [of h]
  by (cases "parse_netmask h") (fastforce simp: host_mask_def wf_mask_def split: netmask.splits)+

lemma chain_confs:
  assumes "table_recs t recs"
  shows "distinct (map conf (atable t i))" "\<And>r. r \<in> set (atable t i) \<Longrightarrow> r \<in> set recs"
    "\<And>r r'. r \<in> set recs \<Longrightarrow> r' \<in> set recs \<Longrightarrow> conf r = conf r' \<Longrightarrow> r = r'"
proof -
  show sub: "r \<in> set (atable t i) \<Longrightarrow> r \<in> set recs" for r using table_recsD(2) [OF assms] by blast
  show inj: "r \<in> set recs \<Longrightarrow> r' \<in> set recs \<Longrightarrow> conf r = conf r' \<Longrightarrow> r = r'" for r r'
    using table_recsD(5) [OF assms] by (auto simp: distinct_map dest: inj_onD)
  show "distinct (map conf (atable t i))"
    using table_recsD(6) [OF assms, of i] sub inj by (auto simp: distinct_map inj_on_def)
qed

text \<open>Removing records leaves a table of the remaining ones, when what happened to the store only concerns the
  confs of the removed records.\<close>

lemma table_recs_filter:
  assumes "table_recs t recs"
    and "\<And>i. atable t' i = filter K (atable t i)" "prec_value t' = prec_value t"
    and "\<And>r. r \<in> set recs \<Longrightarrow> K r \<Longrightarrow> confs t' (conf r) \<noteq> None"
  shows "table_recs t' (filter K recs)"
proof -
  have "distinct (map conf (filter K recs))" using table_recsD(5) [OF assms(1)] by (simp add: distinct_map_filter)
  moreover have "sorted_wrt (\<lambda>r r'. precedence r > precedence r') (filter K recs)"
    using table_recsD(4) [OF assms(1)] by (rule sorted_wrt_filter)
  ultimately show ?thesis using assms by (auto simp: table_recs_def)
qed

lemma delete_from_chain_filter:
  "distinct (map conf rs) \<Longrightarrow> c \<in> conf ` set rs \<Longrightarrow> cs c = Some item \<Longrightarrow>
    delete_from_chain c rs cs = Inr (filter (\<lambda>r. conf r \<noteq> c) rs, if ref_count item = 0 then cs(c := None) else cs)"
proof (induction rs)
  case (Cons r rs)
  show ?case
  proof (cases "conf r = c")
    case True
    then have "filter (\<lambda>r. conf r \<noteq> c) rs = rs" using Cons.prems(1) by (auto simp: filter_id_conv image_iff)
    then show ?thesis using True Cons.prems(3) by (simp add: conf_free_def)
  next
    case False
    then show ?thesis using Cons by simp
  qed
qed simp

text \<open>A sweep over one chain keeps the records that satisfy \<open>keep\<close> and turns the conf of each other
  record into what \<open>gone\<close> says.\<close>

locale chain_sweeper =
  fixes sweep :: chain_sweep
    and keep :: "AddressRec \<Rightarrow> MaskItem \<Rightarrow> bool"
    and gone :: "MaskItem \<Rightarrow> MaskItem option"
  assumes sweep_chain: "distinct (map conf rs) \<Longrightarrow> \<forall>r \<in> set rs. cs (conf r) \<noteq> None \<Longrightarrow>
    \<exists>ns'. sweep rs cs ns = Inr (filter (\<lambda>r. keep r (the (cs (conf r)))) rs,
      \<lambda>c. if \<exists>r \<in> set rs. conf r = c \<and> \<not> keep r (the (cs c)) then gone (the (cs c)) else cs c, ns')"
begin

text \<open>The rules and the store after a sweep of the records \<open>R\<close>.\<close>

definition swept_confs :: "AddressRec set \<Rightarrow> (conf_ref \<Rightarrow> MaskItem option) \<Rightarrow> conf_ref \<Rightarrow> MaskItem option" where
  "swept_confs R cs c = (if \<exists>r \<in> R. conf r = c \<and> \<not> keep r (the (cs c)) then gone (the (cs c)) else cs c)"

lemma sweep_buckets_filter:
  assumes "distinct hs" "\<And>i. i \<in> set hs \<Longrightarrow> distinct (map conf (atable t i))"
    "\<And>i r. i \<in> set hs \<Longrightarrow> r \<in> set (atable t i) \<Longrightarrow> confs t (conf r) \<noteq> None"
    "\<And>i j r r'. r \<in> set (atable t i) \<Longrightarrow> r' \<in> set (atable t j) \<Longrightarrow> conf r = conf r' \<Longrightarrow> i = j"
  shows "\<exists>ns. sweep_buckets sweep hs t = Inr (t\<lparr>
      atable := (\<lambda>i. if i \<in> set hs then filter (\<lambda>r. keep r (the (confs t (conf r)))) (atable t i) else atable t i),
      confs := swept_confs (\<Union>i \<in> set hs. set (atable t i)) (confs t), notices := ns\<rparr>)"
  using assms
proof (induction hs arbitrary: t)
  case Nil
  have "swept_confs {} (confs t) = confs t" by (simp add: swept_confs_def fun_eq_iff)
  then show ?case by (auto intro!: exI [of _ "notices t"])
next
  case (Cons h hs)
  define K where "K = (\<lambda>r. keep r (the (confs t (conf r))))"
  obtain ns where step: "sweep (atable t h) (confs t) (notices t) =
      Inr (filter K (atable t h), swept_confs (set (atable t h)) (confs t), ns)"
    using sweep_chain [of "atable t h" "confs t" "notices t"] Cons.prems(2) [of h] Cons.prems(3) [of h]
    unfolding K_def swept_confs_def by force
  define t1 where "t1 = t\<lparr>atable := (atable t)(h := filter K (atable t h)), confs := swept_confs (set (atable t h)) (confs t), notices := ns\<rparr>"
  have same: "confs t1 (conf r) = confs t (conf r)" if "i \<noteq> h" "r \<in> set (atable t i)" for i r
    using that Cons.prems(4) by (auto simp: t1_def swept_confs_def)
  have "\<exists>ns. sweep_buckets sweep hs t1 = Inr (t1\<lparr>
      atable := (\<lambda>i. if i \<in> set hs then filter (\<lambda>r. keep r (the (confs t1 (conf r)))) (atable t1 i) else atable t1 i),
      confs := swept_confs (\<Union>i \<in> set hs. set (atable t1 i)) (confs t1), notices := ns\<rparr>)"
  proof (rule Cons.IH)
    show "distinct hs" using Cons.prems(1) by simp
    fix i assume i: "i \<in> set hs"
    then have h: "i \<noteq> h" using Cons.prems(1) by auto
    show "distinct (map conf (atable t1 i))" using Cons.prems(2) [of i] i h by (simp add: t1_def)
    show "confs t1 (conf r) \<noteq> None" if "r \<in> set (atable t1 i)" for r
      using Cons.prems(3) [of i r] i h that same [OF h, of r] by (simp add: t1_def)
  next
    show "i = j" if "r \<in> set (atable t1 i)" "r' \<in> set (atable t1 j)" "conf r = conf r'" for i j r r'
      using that Cons.prems(4) [of r i r' j] by (auto simp: t1_def split: if_splits)
  qed
  moreover have "(\<lambda>i. if i \<in> set hs then filter (\<lambda>r. keep r (the (confs t1 (conf r)))) (atable t1 i) else atable t1 i) =
      (\<lambda>i. if i \<in> set (h # hs) then filter (\<lambda>r. keep r (the (confs t (conf r)))) (atable t i) else atable t i)"
  proof
    fix i
    show "(if i \<in> set hs then filter (\<lambda>r. keep r (the (confs t1 (conf r)))) (atable t1 i) else atable t1 i) =
        (if i \<in> set (h # hs) then filter (\<lambda>r. keep r (the (confs t (conf r)))) (atable t i) else atable t i)"
      using Cons.prems(1) same [of i] by (cases "i = h") (auto simp: t1_def K_def intro!: filter_cong)
  qed
  moreover have "swept_confs (\<Union>i \<in> set hs. set (atable t1 i)) (confs t1) = swept_confs (\<Union>i \<in> set (h # hs). set (atable t i)) (confs t)"
  proof
    fix c
    have others: "set (atable t1 i) = set (atable t i)" if "i \<in> set hs" for i using that Cons.prems(1) by (auto simp: t1_def)
    have split: "\<not> (\<exists>i \<in> set hs. \<exists>r \<in> set (atable t i). conf r = c)" if "r \<in> set (atable t h)" "conf r = c" for r
      using that Cons.prems(1,4) by force
    show "swept_confs (\<Union>i \<in> set hs. set (atable t1 i)) (confs t1) c = swept_confs (\<Union>i \<in> set (h # hs). set (atable t i)) (confs t) c"
      using others split by (auto simp: swept_confs_def t1_def)
  qed
  ultimately show ?case using step by (simp add: t1_def K_def)
qed

end

definition keep_cleared :: "AddressRec \<Rightarrow> MaskItem \<Rightarrow> bool" where
  "keep_cleared r c \<longleftrightarrow> until c \<noteq> 0 \<or> has_flag (cflags c) CONF_FLAGS_IN_DATABASE"

definition gone_cleared :: "MaskItem \<Rightarrow> MaskItem option" where
  "gone_cleared c = (if ref_count c = 0 then None else Some (c\<lparr>active := False\<rparr>))"

lemma clear_chain_filter:
  "distinct (map conf rs) \<Longrightarrow> \<forall>r \<in> set rs. cs (conf r) \<noteq> None \<Longrightarrow>
    clear_chain rs cs = Inr (filter (\<lambda>r. keep_cleared r (the (cs (conf r)))) rs,
      \<lambda>c. if \<exists>r \<in> set rs. conf r = c \<and> \<not> keep_cleared r (the (cs c)) then gone_cleared (the (cs c)) else cs c)"
proof (induction rs arbitrary: cs)
  case (Cons r rs)
  then obtain c where c: "cs (conf r) = Some c" by auto
  have other: "conf x \<noteq> conf r" if "x \<in> set rs" for x using that Cons.prems(1) by (auto simp: image_iff)
  show ?case
  proof (cases "keep_cleared r c")
    case True
    then show ?thesis using Cons c by (auto simp: keep_cleared_def fun_eq_iff)
  next
    case False
    define cs' where "cs' = cs(conf r := gone_cleared c)"
    have same: "cs' (conf x) = cs (conf x)" if "x \<in> set rs" for x using other that by (simp add: cs'_def)
    have "clear_chain (r # rs) cs = clear_chain rs cs'"
      using False c by (auto simp: keep_cleared_def cs'_def gone_cleared_def conf_free_def)
    moreover have "filter (\<lambda>r. keep_cleared r (the (cs' (conf r)))) rs = filter (\<lambda>r. keep_cleared r (the (cs (conf r)))) rs"
      using same by (intro filter_cong) auto
    moreover have "(\<lambda>c. if \<exists>r \<in> set rs. conf r = c \<and> \<not> keep_cleared r (the (cs' c)) then gone_cleared (the (cs' c)) else cs' c) =
      (\<lambda>c. if \<exists>x \<in> set (r # rs). conf x = c \<and> \<not> keep_cleared x (the (cs c)) then gone_cleared (the (cs c)) else cs c)"
      using same other False c by (auto simp: fun_eq_iff cs'_def)
    ultimately show ?thesis using Cons same False c by simp
  qed
qed simp

lemma expire_chain_filter:
  "distinct (map conf rs) \<Longrightarrow> \<forall>r \<in> set rs. cs (conf r) \<noteq> None \<Longrightarrow>
    \<exists>ns'. expire_chain now ntc rs cs ns = Inr (filter (\<lambda>r. \<not> expires now r (the (cs (conf r)))) rs,
      \<lambda>c. if \<exists>r \<in> set rs. conf r = c \<and> \<not> \<not> expires now r (the (cs c)) then None else cs c, ns')"
proof (induction rs arbitrary: cs ns)
  case (Cons r rs)
  then obtain c where c: "cs (conf r) = Some c" by auto
  have other: "conf x \<noteq> conf r" if "x \<in> set rs" for x using that Cons.prems(1) by (auto simp: image_iff)
  show ?case
  proof (cases "expires now r c")
    case False
    obtain ns' where "expire_chain now ntc rs cs ns = Inr (filter (\<lambda>r. \<not> expires now r (the (cs (conf r)))) rs,
      \<lambda>c. if \<exists>r \<in> set rs. conf r = c \<and> \<not> \<not> expires now r (the (cs c)) then None else cs c, ns')"
      using Cons.IH [of cs ns] Cons.prems by auto
    moreover have "(\<lambda>c. if \<exists>r \<in> set rs. conf r = c \<and> \<not> \<not> expires now r (the (cs c)) then None else cs c) =
      (\<lambda>c. if \<exists>x \<in> set (r # rs). conf x = c \<and> \<not> \<not> expires now x (the (cs c)) then None else cs c)"
      using False c by (auto simp: fun_eq_iff)
    ultimately show ?thesis using False c by simp
  next
    case True
    define cs' where "cs' = cs(conf r := None)"
    define ms where "ms = ns @ hostmask_send_expiration ntc r c"
    have same: "cs' (conf x) = cs (conf x)" if "x \<in> set rs" for x using other that by (simp add: cs'_def)
    have "expire_chain now ntc (r # rs) cs ns = expire_chain now ntc rs cs' ms"
      using True c by (simp add: cs'_def ms_def conf_free_def)
    moreover obtain ns' where "expire_chain now ntc rs cs' ms = Inr (filter (\<lambda>r. \<not> expires now r (the (cs' (conf r)))) rs,
      \<lambda>c. if \<exists>r \<in> set rs. conf r = c \<and> \<not> \<not> expires now r (the (cs' c)) then None else cs' c, ns')"
      using Cons.IH [of cs' ms] Cons.prems same by auto
    moreover have "filter (\<lambda>r. \<not> expires now r (the (cs' (conf r)))) rs = filter (\<lambda>r. \<not> expires now r (the (cs (conf r)))) rs"
      using same by (intro filter_cong) auto
    moreover have "(\<lambda>c. if \<exists>r \<in> set rs. conf r = c \<and> \<not> \<not> expires now r (the (cs' c)) then None else cs' c) =
      (\<lambda>c. if \<exists>x \<in> set (r # rs). conf x = c \<and> \<not> \<not> expires now x (the (cs c)) then None else cs c)"
      using same other True c by (auto simp: fun_eq_iff cs'_def)
    ultimately show ?thesis using True c by simp
  qed
qed simp

interpretation clearing: chain_sweeper
  "\<lambda>rs cs ns. map_sum id (\<lambda>(rs', cs'). (rs', cs', ns)) (clear_chain rs cs)" keep_cleared gone_cleared
  by unfold_locales (simp add: clear_chain_filter)

interpretation expiring: chain_sweeper "expire_chain now ntc" "\<lambda>r c. \<not> expires now r c" "\<lambda>c. None" for now ntc
  by unfold_locales (rule expire_chain_filter)

section \<open>Refinement of the list of rules\<close>

text \<open>The specification: the rules from the oldest to the newest, the store of confs, and how many rules can still
  be added before the precedence counter would wrap.\<close>

record rule_table =
  rules :: "AddressRec list"
  rconfs :: "conf_ref \<Rightarrow> MaskItem option"
  room :: nat

definition rule_of :: "AddressRec \<Rightarrow> AddressRec" where
  "rule_of r = r\<lparr>precedence := 0\<rparr>"

lemma rule_of_simps [simp]:
  "Mask (rule_of r) = Mask r" "rtype (rule_of r) = rtype r" "rusername (rule_of r) = rusername r" "conf (rule_of r) = conf r"
  by (simp_all add: rule_of_def)

lemma covers_rule_of [simp]: "covers crypt cs name addr q (rule_of r) = covers crypt cs name addr q r"
  by (simp add: covers_def selects_def split: option.split)

datatype table_op = AddConf u32 conf_ref | DelConf string conf_ref | ClearConfs | ExpireConfs int bool

fun table_exec :: "table_op \<Rightarrow> addr_table \<Rightarrow> c_error + addr_table" where
  "table_exec (AddConf ty c) t = add_conf_by_address ty c t"
| "table_exec (DelConf h c) t = delete_one_address_conf h c t"
| "table_exec ClearConfs t = clear_out_address_conf t"
| "table_exec (ExpireConfs now ntc) t = hostmask_expire_temporary now ntc t"

fun rule_exec :: "table_op \<Rightarrow> rule_table \<Rightarrow> rule_table option" where
  "rule_exec (AddConf ty c) a =
    (case rconfs a c of None \<Rightarrow> None
     | Some item \<Rightarrow>
         (case (chost item) of None \<Rightarrow> None
          | Some h \<Rightarrow>
              (case host_mask h of Inl e \<Rightarrow> None
               | Inr m \<Rightarrow>
                   if ty \<noteq> 0 \<and> h \<noteq> [] \<and> 0 < room a \<and> c \<notin> conf ` set (rules a)
                   then Some (a\<lparr>rules := rules a @ [\<lparr>Mask = m, rtype = ty, precedence = 0, rusername = cuser item, conf = c\<rparr>], room := room a - 1\<rparr>)
                   else None)))"
| "rule_exec (DelConf h c) a =
    (case host_mask h of Inl e \<Rightarrow> None
     | Inr m \<Rightarrow>
         if \<exists>r \<in> set (rules a). conf r = c \<and> Mask r = m
         then Some (a\<lparr>rules := filter (\<lambda>r. conf r \<noteq> c) (rules a),
           rconfs := (case rconfs a c of Some item \<Rightarrow> (if ref_count item = 0 then (rconfs a)(c := None) else rconfs a) | None \<Rightarrow> rconfs a)\<rparr>)
         else None)"
| "rule_exec ClearConfs a =
    Some (a\<lparr>rules := filter (\<lambda>r. keep_cleared r (the (rconfs a (conf r)))) (rules a),
      rconfs := clearing.swept_confs (set (rules a)) (rconfs a)\<rparr>)"
| "rule_exec (ExpireConfs now ntc) a =
    Some (a\<lparr>rules := filter (\<lambda>r. \<not> expires now r (the (rconfs a (conf r)))) (rules a),
      rconfs := expiring.swept_confs now (set (rules a)) (rconfs a)\<rparr>)"

definition stands_for :: "addr_table \<Rightarrow> rule_table \<Rightarrow> bool" where
  "stands_for t a \<longleftrightarrow> (\<exists>recs. table_recs t recs \<and> rules a = map rule_of recs \<and> rconfs a = confs t \<and> room a = unat (prec_value t))"

lemma add_simulates:
  assumes "stands_for t a" "rule_exec (AddConf ty c) a = Some a'"
  shows "\<exists>t'. table_exec (AddConf ty c) t = Inr t' \<and> stands_for t' a'"
proof -
  obtain recs where recs: "table_recs t recs" "rules a = map rule_of recs" "rconfs a = confs t" "room a = unat (prec_value t)"
    using assms(1) by (auto simp: stands_for_def)
  obtain item h m where item: "confs t c = Some item" "chost item = Some h" "host_mask h = Inr m" "ty \<noteq> 0" "h \<noteq> []"
      "0 < unat (prec_value t)" "c \<notin> conf ` set recs"
    and a': "a' = a\<lparr>rules := rules a @ [\<lparr>Mask = m, rtype = ty, precedence = 0, rusername = cuser item, conf = c\<rparr>], room := room a - 1\<rparr>"
    using assms(2) recs by (auto split: option.splits sum.splits if_splits simp: image_image)
  define r where "r = \<lparr>Mask = m, rtype = ty, precedence = prec_value t, rusername = cuser item, conf = c\<rparr>"
  define t' where "t' = t\<lparr>atable := (atable t)(mask_bucket m := r # atable t (mask_bucket m)), prec_value := prec_value t - 1\<rparr>"
  have "table_exec (AddConf ty c) t = Inr t'"
    using item by (simp add: add_conf_by_address_def t'_def r_def EmptyString_def Let_def)
  moreover have pv: "0 < prec_value t" using item(6) by (simp add: word_less_nat_alt)
  have less: "prec_value t - 1 < prec_value t"
    using pv by (simp add: word_less_nat_alt unat_sub_if_size unat_minus_one)
  have "r \<notin> set recs" using item(7) by (auto simp: r_def image_iff)
  then have fresh: "r \<notin> set (atable t i)" for i using table_recsD(2) [OF recs(1)] by blast
  have "table_recs t' (recs @ [r])"
    unfolding table_recs_def
  proof (intro conjI allI ballI)
    fix i x assume "x \<in> set (atable t' i)"
    then show "wf_mask (Mask x)" "mask_bucket (Mask x) = i"
      using table_recsD(1) [OF recs(1), of x i] wf_host_mask [OF item(3)] by (auto simp: t'_def r_def split: if_splits)
  next
    show "x \<in> set (recs @ [r]) \<longleftrightarrow> (\<exists>i. x \<in> set (atable t' i))" for x
    proof -
      have "(\<exists>i. x \<in> set (atable t' i)) \<longleftrightarrow> x = r \<or> (\<exists>i. x \<in> set (atable t i))"
        unfolding t'_def by simp metis
      then show ?thesis using table_recsD(2) [OF recs(1), of x] by auto
    qed
  next
    show "sorted_wrt (\<lambda>r r'. precedence r > precedence r') (recs @ [r])"
      using table_recsD(3,4) [OF recs(1)] by (auto simp: sorted_wrt_append r_def)
  next
    fix x assume "x \<in> set (recs @ [r])"
    then show "precedence x > prec_value t'" "confs t' (conf x) \<noteq> None"
      using table_recsD(3) [OF recs(1), of x] less item(1) by (auto simp: t'_def r_def intro: less_trans)
  next
    show "distinct (map conf (recs @ [r]))" using table_recsD(5) [OF recs(1)] item(7) by (simp add: r_def)
    show "distinct (atable t' i)" for i using table_recsD(6) [OF recs(1), of i] fresh by (auto simp: t'_def)
  qed
  then have "stands_for t' a'"
    using recs a' pv by (auto simp: stands_for_def t'_def r_def rule_of_def unat_minus_one intro!: exI [of _ "recs @ [r]"])
  ultimately show ?thesis by blast
qed

lemma swept_simulates:
  assumes t: "table_recs t recs" and rs: "rules a = map rule_of recs" "rconfs a = confs t" "room a = unat (prec_value t)"
    and t': "t' = t\<lparr>atable := (\<lambda>i. if i < ATABLE_SIZE then filter K (atable t i) else atable t i), confs := cs, notices := ns\<rparr>"
    and K: "\<And>r. K (rule_of r) = K r" and live: "\<And>r. r \<in> set recs \<Longrightarrow> K r \<Longrightarrow> cs (conf r) \<noteq> None"
  shows "stands_for t' (a\<lparr>rules := filter K (rules a), rconfs := cs\<rparr>)"
proof -
  have "atable t' i = filter K (atable t i)" for i
  proof (cases "atable t i")
    case (Cons r rs)
    then have "i < ATABLE_SIZE" using table_recsD(1) [OF t, of r i] mask_bucket_less [of "Mask r"] by auto
    then show ?thesis by (simp add: t')
  qed (simp add: t')
  then have "table_recs t' (filter K recs)" using live by (intro table_recs_filter [OF t]) (simp_all add: t')
  then show ?thesis using rs K by (auto simp: stands_for_def filter_map comp_def t')
qed

lemma sweep_premises:
  assumes "table_recs t recs"
  shows "distinct [0..<ATABLE_SIZE]" "\<And>i. distinct (map conf (atable t i))"
    "\<And>i r. r \<in> set (atable t i) \<Longrightarrow> confs t (conf r) \<noteq> None"
    "\<And>i j r r'. r \<in> set (atable t i) \<Longrightarrow> r' \<in> set (atable t j) \<Longrightarrow> conf r = conf r' \<Longrightarrow> i = j"
    "(\<Union>i \<in> set [0..<ATABLE_SIZE]. set (atable t i)) = set recs"
proof -
  note chain = chain_confs [OF assms] table_recsD [OF assms]
  show "distinct (map conf (atable t i))" for i by (rule chain(1))
  show "confs t (conf r) \<noteq> None" if "r \<in> set (atable t i)" for i r using chain(2,6) that by blast
  show "i = j" if "r \<in> set (atable t i)" "r' \<in> set (atable t j)" "conf r = conf r'" for i j r r'
    using chain(2,3,4) that by metis
  have "i < ATABLE_SIZE" if "r \<in> set (atable t i)" for r i using chain(4) [OF that] mask_bucket_less by auto
  then show "(\<Union>i \<in> set [0..<ATABLE_SIZE]. set (atable t i)) = set recs" using chain(5) by fastforce
qed simp

lemma swept_live:
  assumes "table_recs t recs" "r \<in> set recs" "keep r (the (confs t (conf r)))"
  shows "\<not> (\<exists>x \<in> set recs. conf x = conf r \<and> \<not> keep x (the (confs t (conf r))))"
  using assms chain_confs(3) [OF assms(1)] by metis

context chain_sweeper
begin

lemma sweep_simulates:
  assumes a: "stands_for t a" and keep: "\<And>r c. keep (rule_of r) c = keep r c"
  shows "\<exists>t'. sweep_buckets sweep [0..<ATABLE_SIZE] t = Inr t' \<and>
    stands_for t' (a\<lparr>rules := filter (\<lambda>r. keep r (the (rconfs a (conf r)))) (rules a), rconfs := swept_confs (set (rules a)) (rconfs a)\<rparr>)"
proof -
  obtain recs where recs: "table_recs t recs" "rules a = map rule_of recs" "rconfs a = confs t" "room a = unat (prec_value t)"
    using a by (auto simp: stands_for_def)
  define K where "K = (\<lambda>r. keep r (the (confs t (conf r))))"
  define cs where "cs = swept_confs (set recs) (confs t)"
  define t' where "t' = (\<lambda>ns. t\<lparr>atable := (\<lambda>i. if i < ATABLE_SIZE then filter K (atable t i) else atable t i), confs := cs, notices := ns\<rparr>)"
  note swp = sweep_premises [OF recs(1)]
  have "\<exists>ns. sweep_buckets sweep [0..<ATABLE_SIZE] t = Inr (t\<lparr>
      atable := (\<lambda>i. if i \<in> set [0..<ATABLE_SIZE] then filter (\<lambda>r. keep r (the (confs t (conf r)))) (atable t i) else atable t i),
      confs := swept_confs (\<Union>i \<in> set [0..<ATABLE_SIZE]. set (atable t i)) (confs t), notices := ns\<rparr>)"
    by (rule sweep_buckets_filter) (use swp(1-4) in blast)+
  then obtain ns where "sweep_buckets sweep [0..<ATABLE_SIZE] t = Inr (t' ns)"
    unfolding swp(5) t'_def K_def cs_def by auto
  moreover have "stands_for (t' ns) (a\<lparr>rules := filter K (rules a), rconfs := cs\<rparr>)"
  proof (rule swept_simulates [OF recs])
    show "t' ns = t\<lparr>atable := (\<lambda>i. if i < ATABLE_SIZE then filter K (atable t i) else atable t i), confs := cs, notices := ns\<rparr>"
      by (simp add: t'_def)
    show "K (rule_of r) = K r" for r by (simp add: K_def keep)
    show "cs (conf r) \<noteq> None" if "r \<in> set recs" "K r" for r
      using that swept_live [OF recs(1), of r keep] table_recsD(3) [OF recs(1), of r]
      unfolding K_def cs_def swept_confs_def by (metis (no_types, lifting))
  qed
  moreover have "swept_confs (set (rules a)) (rconfs a) = cs"
    using recs(2,3) by (auto simp: cs_def swept_confs_def keep fun_eq_iff)
  ultimately show ?thesis using recs(3) by (auto simp: K_def)
qed

end

lemma delete_simulates:
  assumes "stands_for t a" "rule_exec (DelConf h c) a = Some a'"
  shows "\<exists>t'. table_exec (DelConf h c) t = Inr t' \<and> stands_for t' a'"
proof -
  obtain recs where recs: "table_recs t recs" "rules a = map rule_of recs" "rconfs a = confs t" "room a = unat (prec_value t)"
    using assms(1) by (auto simp: stands_for_def)
  obtain m r where m: "host_mask h = Inr m" and r: "r \<in> set recs" "conf r = c" "Mask r = m"
    using assms(2) recs(2) by (auto split: sum.splits if_splits)
  obtain item where item: "confs t c = Some item" using table_recsD(3) [OF recs(1) r(1)] r(2) by auto
  define K :: "AddressRec \<Rightarrow> bool" where "K = (\<lambda>r. conf r \<noteq> c)"
  define cs where "cs = (if ref_count item = 0 then (confs t)(c := None) else confs t)"
  define t' where "t' = t\<lparr>atable := (atable t)(mask_bucket m := filter K (atable t (mask_bucket m))), confs := cs\<rparr>"
  have "\<exists>i. r \<in> set (atable t i)" using r(1) table_recsD(2) [OF recs(1)] by blast
  then have here: "r \<in> set (atable t (mask_bucket m))" using table_recsD(1) [OF recs(1)] r(3) by metis
  then have "c \<in> conf ` set (atable t (mask_bucket m))" using r(2) by auto
  from delete_from_chain_filter [of _ c "confs t", OF chain_confs(1) [OF recs(1)] this item]
  have "table_exec (DelConf h c) t = Inr t'"
    using m by (simp add: delete_one_address_conf_def t'_def K_def cs_def Let_def)
  moreover have "atable t' i = filter K (atable t i)" for i
  proof (cases "i = mask_bucket m")
    case False
    then have "conf x \<noteq> c" if "x \<in> set (atable t i)" for x
      using that here r(2) sweep_premises(4) [OF recs(1)] by metis
    then show ?thesis using False by (auto simp: t'_def K_def intro!: filter_True [symmetric])
  qed (simp add: t'_def)
  then have "table_recs t' (filter K recs)"
    using table_recsD(3) [OF recs(1)] by (intro table_recs_filter [OF recs(1)]) (auto simp: t'_def K_def cs_def)
  moreover have "a' = a\<lparr>rules := filter K (rules a), rconfs := cs\<rparr>"
    using assms(2) m item recs(3) by (auto simp: cs_def K_def split: if_splits)
  ultimately have "stands_for t' a'"
    using recs by (auto simp: stands_for_def filter_map comp_def t'_def K_def)
  then show ?thesis using \<open>table_exec (DelConf h c) t = Inr t'\<close> by blast
qed

interpretation rule_sim: simulation stands_for table_exec rule_exec
proof
  fix t a x a' assume t: "stands_for t a" and a': "rule_exec x a = Some a'"
  show "\<exists>t'. table_exec x t = Inr t' \<and> stands_for t' a'"
  proof (cases x)
    case (AddConf ty c)
    then show ?thesis using add_simulates t a' by blast
  next
    case (DelConf h c)
    then show ?thesis using delete_simulates t a' by blast
  next
    case ClearConfs
    then show ?thesis using clearing.sweep_simulates [OF t] a'
      by (auto simp: clear_out_address_conf_def keep_cleared_def)
  next
    case (ExpireConfs now ntc)
    then show ?thesis using expiring.sweep_simulates [OF t] a'
      by (auto simp: hostmask_expire_temporary_def expires_def)
  qed
qed

definition empty_table :: "(conf_ref \<Rightarrow> MaskItem option) \<Rightarrow> addr_table" where
  "empty_table cs = \<lparr>atable = (\<lambda>i. []), prec_value = 0xFFFFFFFF, confs = cs, notices = []\<rparr>"

definition no_rules :: "(conf_ref \<Rightarrow> MaskItem option) \<Rightarrow> rule_table" where
  "no_rules cs = \<lparr>rules = [], rconfs = cs, room = 0xFFFFFFFF\<rparr>"

lemma empty_table_stands: "stands_for (empty_table cs) (no_rules cs)"
  by (simp add: stands_for_def table_recs_def empty_table_def no_rules_def)

lemma lookup_first_rule:
  assumes "stands_for t a" "\<forall>r \<in> set (rules a). plain_rec (rconfs a) q r"
  shows "find_conf_by_address crypt t name addr q = Inr (map_option conf (find (covers crypt (rconfs a) name addr q) (rules a)))"
proof -
  obtain recs where recs: "table_recs t recs" "rules a = map rule_of recs" "rconfs a = confs t"
    using assms(1) by (auto simp: stands_for_def)
  have "plain_rec (confs t) q (rule_of r) = plain_rec (confs t) q r" for r
    by (simp add: plain_rec_def cong: option.case_cong hostmask.case_cong)
  then have "\<forall>r \<in> set recs. plain_rec (confs t) q r" using assms(2) recs(2,3) by auto
  moreover have "find P (map rule_of rs) = map_option rule_of (find (\<lambda>r. P (rule_of r)) rs)" for P rs
    by (induction rs) simp_all
  ultimately show ?thesis
    using find_conf_first_rule [OF recs(1)] recs(2,3) by (simp add: option.map_comp comp_def)
qed

section \<open>Properties\<close>

text \<open>C36: The hashed table implements an ordered list of rules where the first match wins. Every sequence of
  additions, deletions, clearings and expirations that the list of rules allows, starting with an empty table,
  runs without fault, and a search for any address, host name, user and password returns the conf of the oldest
  rule that covers them, or NULL when there is none: no record that matches is in a bucket the search does not
  probe. The masks are free of escapes and each rule has a user mask if the search asks for one.\<close>

theorem address_table_first_match:
  assumes "run_spec rule_exec ops (no_rules cs) = Some a" "\<forall>r \<in> set (rules a). plain_rec (rconfs a) q r"
  shows "\<exists>t. run_steps table_exec ops (empty_table cs) = Inr t \<and> stands_for t a \<and>
    find_conf_by_address crypt t name addr q = Inr (map_option conf (find (covers crypt (rconfs a) name addr q) (rules a)))"
proof -
  obtain t where "run_steps table_exec ops (empty_table cs) = Inr t" "stands_for t a"
    using rule_sim.run_simulates [OF empty_table_stands assms(1)] by blast
  then show ?thesis using lookup_first_rule [OF _ assms(2)] by blast
qed

definition kline :: "string \<Rightarrow> string \<Rightarrow> int \<Rightarrow> MaskItem" where
  "kline u h t = \<lparr>cflags = 0, active = True, ref_count = 0, until = t, cuser = Some u, chost = Some h, passwd = None\<rparr>"

theorem address_table_first_match_witness:
  "\<exists>t. run_steps table_exec [AddConf CONF_KLINE 1, AddConf CONF_KLINE 2]
        (empty_table [1 \<mapsto> kline ''*'' ''*.example.com'' 0, 2 \<mapsto> kline ''*'' ''*'' 0]) = Inr t \<and>
     find_conf_by_address (\<lambda>_ _. None) t (Some ''a.example.org'') None (host_query CONF_KLINE (Some ''joe'') None) = Inr (Some 2)"
proof -
  let ?cs = "[1 \<mapsto> kline ''*'' ''*.example.com'' 0, 2 \<mapsto> kline ''*'' ''*'' 0] :: conf_ref \<Rightarrow> MaskItem option"
  let ?r = "\<lambda>h c. \<lparr>Mask = HostName h, rtype = CONF_KLINE, precedence = 0, rusername = Some ''*'', conf = c\<rparr>"
  let ?a = "\<lparr>rules = [?r ''*.example.com'' 1, ?r ''*'' 2], rconfs = ?cs, room = 0xFFFFFFFF - 2\<rparr>"
  let ?q = "host_query CONF_KLINE (Some ''joe'') None"
  have "host_mask ''*.example.com'' = Inr (HostName ''*.example.com'')" "host_mask ''*'' = Inr (HostName ''*'')"
    by (simp_all add: host_mask_def parse_netmask_def try_parse_v4_netmask_def IsDigit_iff)
  then have "run_spec rule_exec [AddConf CONF_KLINE 1, AddConf CONF_KLINE 2] (no_rules ?cs) = Some ?a"
    by (simp add: no_rules_def kline_def CONF_KLINE_def)
  moreover have "\<forall>r \<in> set (rules ?a). plain_rec (rconfs ?a) ?q r"
    by (simp add: plain_rec_def)
  ultimately obtain t where t: "run_steps table_exec [AddConf CONF_KLINE 1, AddConf CONF_KLINE 2] (empty_table ?cs) = Inr t"
    "find_conf_by_address (\<lambda>_ _. None) t (Some ''a.example.org'') None ?q =
      Inr (map_option conf (find (covers (\<lambda>_ _. None) (rconfs ?a) (Some ''a.example.org'') None ?q) (rules ?a)))"
    using address_table_first_match by blast
  have "\<not> wild ''*.example.com'' ''a.example.org''" "wild ''*'' ''a.example.org''" "wild ''*'' ''joe''"
    by (simp_all add: char_eq_of_char_iff of_char_ToLower)
  then have "find (covers (\<lambda>_ _. None) (rconfs ?a) (Some ''a.example.org'') None ?q) (rules ?a) = Some (?r ''*'' 2)"
    by (simp add: covers_def mask_covers_def mask_hits_host_def text_hits_def selects_def host_query_def kline_def
        password_ok_def del: wild.simps)
  then show ?thesis using t by (intro exI [of _ t]) simp
qed



end
