(* ===== verification/Channel.thy ===== *)
theory Channel
  imports Complex_Main Netmask Match IrcString Dlink "HOL-Library.Monad_Syntax"
begin

text \<open>
  Channels and their members, \<open>src/src/channel.c\<close>, with the two searches of \<open>src/src/resv.c\<close> it uses:
  memberships, invitations, bans, the tests whether a client can join and send, and the commands
  JOIN and PART as they act on the state.

  Channels and memberships are objects of a store, \<open>None\<close> once released; clients are not released here.
  A \<open>dlink_list\<close> is the sequence of its data from the head on, which theory Dlink shows the linked nodes
  to implement; deleting a node that is not in the list is an error there and here.
  \<open>hash_find_channel\<close> is the search through all channels that theory Hash shows the table to implement.
  An operation returns \<open>None\<close> where the code would follow a null pointer or a released object, fail an
  assertion or make \<open>match\<close> run off its strings. Messages are recorded as events, without their text.
  \<open>number_joined\<close> is a \<open>float\<close> in the code and an exact number here; the hit counter of a reserved name
  is not kept.
\<close>

section \<open>Constants\<close>

definition CHFL_CHANOP :: u32 where "CHFL_CHANOP = 0x1"
definition CHFL_HALFOP :: u32 where "CHFL_HALFOP = 0x2"
definition CHFL_VOICE :: u32 where "CHFL_VOICE = 0x4"
definition CHFL_BAN_CHECKED :: u32 where "CHFL_BAN_CHECKED = 0x80"
definition CHFL_BAN_SILENCED :: u32 where "CHFL_BAN_SILENCED = 0x100"

definition MODE_PRIVATE :: u32 where "MODE_PRIVATE = 0x1"
definition MODE_SECRET :: u32 where "MODE_SECRET = 0x2"
definition MODE_MODERATED :: u32 where "MODE_MODERATED = 0x4"
definition MODE_TOPICLIMIT :: u32 where "MODE_TOPICLIMIT = 0x8"
definition MODE_INVITEONLY :: u32 where "MODE_INVITEONLY = 0x10"
definition MODE_NOPRIVMSGS :: u32 where "MODE_NOPRIVMSGS = 0x20"
definition MODE_SSLONLY :: u32 where "MODE_SSLONLY = 0x40"
definition MODE_OPERONLY :: u32 where "MODE_OPERONLY = 0x80"
definition MODE_REGONLY :: u32 where "MODE_REGONLY = 0x200"
definition MODE_NOCTRL :: u32 where "MODE_NOCTRL = 0x400"
definition MODE_MODREG :: u32 where "MODE_MODREG = 0x800"
definition MODE_NOCTCP :: u32 where "MODE_NOCTCP = 0x1000"

definition JOIN_FLOOD_NOTICED :: u32 where "JOIN_FLOOD_NOTICED = 2"

definition UMODE_REGISTERED :: u32 where "UMODE_REGISTERED = 0x20000"
definition UMODE_OPER :: u32 where "UMODE_OPER = 0x100000"
definition UMODE_SSL :: u32 where "UMODE_SSL = 0x1000000"
definition FLAGS_EXEMPTRESV :: u32 where "FLAGS_EXEMPTRESV = 0x80000"
definition FLAGS_SERVICE :: u32 where "FLAGS_SERVICE = 0x800000"

definition CHANNELLEN :: nat where "CHANNELLEN = 50"
definition TOPICLEN :: nat where "TOPICLEN = 300"
definition USERHOST_REPLYLEN :: nat where "USERHOST_REPLYLEN = 120"
definition KICKLEN :: nat where "KICKLEN = 180"
definition OPER_SPAM_COUNTDOWN :: int where "OPER_SPAM_COUNTDOWN = 5"
definition JOIN_LEAVE_COUNT_EXPIRE_TIME :: int where "JOIN_LEAVE_COUNT_EXPIRE_TIME = 120"

section \<open>State\<close>

record Ban =
  bname :: string
  buser :: string
  bhost :: string
  bwho :: string
  blen :: nat
  bwhen :: int
  bmask :: netmask

record Channel =
  ch_name :: string
  ch_mode :: u32
  ch_limit :: nat
  ch_key :: string
  ch_topic :: string
  ch_topic_info :: string
  ch_creationtime :: int
  ch_topic_time :: int
  ch_last_join_time :: int
  ch_flags :: u32
  locmembers :: "addr list"
  members :: "addr list"
  invites :: "addr list"
  banlist :: "Ban list"
  exceptlist :: "Ban list"
  invexlist :: "Ban list"
  number_joined :: rat

record Membership =
  mchan :: addr
  mclient :: addr
  mflags :: u32

text \<open>The fields of \<open>struct Client\<close> and its \<open>struct Connection\<close> that the channel code uses. \<open>uip\<close> is the
  address of a local client's connection with its family, \<open>None\<close> where there is no connection.\<close>

record user =
  uid :: string
  uname :: string
  uusername :: string
  uhost :: string
  usockhost :: string
  uip :: "address option"
  uisclient :: bool
  uisserver :: bool
  uumodes :: u32
  uflags :: u32
  uoperflags :: u32
  uchannel :: "addr list"
  uinvited :: "addr list"
  uclass_max :: nat
  ucountry :: nat
  ujoin_leave_count :: int
  uoper_warn :: int
  ulast_join_time :: int
  ulast_leave_time :: int
  ufirsttime :: int
  uaway :: string
  uinvite_last :: int
  uinvite_count :: u32

record exempt =
  ex_mask :: Ban
  ex_country :: nat

record resv =
  rv_name :: string
  rv_exempt :: "exempt list"

datatype chan_event =
  Numeric addr nat string
| JoinMsg addr addr bool
| PartMsg addr addr "string option"
| FloodNotice addr addr
| SpambotNotice addr "string option"
| ResvNotice addr string
| TopicReply addr addr
| NamesReply addr addr
| ChannelText addr string
| ServerText addr string
| LocalJoin addr addr
| OperNotice string
| ClientText addr string
| OpsText addr string
| EndGrace addr

record chan_config =
  CurrentTime :: int
  joinfloodtime :: int
  joinfloodcount :: int
  spam_num :: int
  spam_time :: int
  max_channels :: nat
  invite_client_time :: int
  invite_client_count :: u32
  disable_fake_channels :: bool
  no_join_on_split :: bool
  no_create_on_split :: bool
  oper_pass_resv :: bool
  anti_spam_exit_message_time :: int
  max_topic_length :: nat
  splitmode :: bool
  cresv_items :: "resv list"
  max_bans :: nat
  hide_servers :: bool
  me_name :: string

record net =
  channels :: "addr \<Rightarrow> Channel option"
  mships :: "addr \<Rightarrow> Membership option"
  users :: "addr \<Rightarrow> user"
  channel_list :: "addr list"
  next_addr :: addr
  sent :: "chan_event list"

definition MyConnect :: "user \<Rightarrow> bool" where
  "MyConnect u \<longleftrightarrow> uip u \<noteq> None"

definition MyClient :: "user \<Rightarrow> bool" where
  "MyClient u \<longleftrightarrow> MyConnect u \<and> uisclient u"

definition send_event :: "chan_event \<Rightarrow> net \<Rightarrow> net" where
  "send_event e s = s\<lparr>sent := sent s @ [e]\<rparr>"

definition upd_channel :: "addr \<Rightarrow> (Channel \<Rightarrow> Channel) \<Rightarrow> net \<Rightarrow> net option" where
  "upd_channel c f s = map_option (\<lambda>ch. s\<lparr>channels := (channels s)(c \<mapsto> f ch)\<rparr>) (channels s c)"

definition upd_user :: "addr \<Rightarrow> (user \<Rightarrow> user) \<Rightarrow> net \<Rightarrow> net" where
  "upd_user x f s = s\<lparr>users := (users s)(x := f (users s x))\<rparr>"

definition list_delete :: "'a \<Rightarrow> 'a list \<Rightarrow> 'a list option" where
  "list_delete x xs = (if x \<in> set xs then Some (remove1 x xs) else None)"

section \<open>Members\<close>

text \<open>The join flood counter of \<open>add_user_to_channel\<close>; the boolean says that the operators are told.\<close>

definition join_flood :: "chan_config \<Rightarrow> bool \<Rightarrow> Channel \<Rightarrow> Channel \<times> bool" where
  "join_flood cfg flood_ctrl ch =
    (if joinfloodtime cfg > 0 then
       let n = number_joined ch + (if flood_ctrl then 1 else 0)
             - of_int (CurrentTime cfg - ch_last_join_time ch) * (of_int (joinfloodcount cfg) / of_int (joinfloodtime cfg));
           (ch', told) =
             (if n \<le> 0 then (ch\<lparr>number_joined := 0, ch_flags := del_flag (ch_flags ch) JOIN_FLOOD_NOTICED\<rparr>, False)
              else if n \<ge> of_int (joinfloodcount cfg) then
                (if has_flag (ch_flags ch) JOIN_FLOOD_NOTICED then (ch\<lparr>number_joined := of_int (joinfloodcount cfg)\<rparr>, False)
                 else (ch\<lparr>number_joined := of_int (joinfloodcount cfg), ch_flags := add_flag (ch_flags ch) JOIN_FLOOD_NOTICED\<rparr>, True))
              else (ch\<lparr>number_joined := n\<rparr>, False))
       in (ch'\<lparr>ch_last_join_time := CurrentTime cfg\<rparr>, told)
     else (ch, False))"

definition add_user_to_channel :: "chan_config \<Rightarrow> addr \<Rightarrow> addr \<Rightarrow> u32 \<Rightarrow> bool \<Rightarrow> net \<Rightarrow> net option" where
  "add_user_to_channel cfg c who flags flood_ctrl s =
    (if \<not> uisclient (users s who) then None
     else do {
       ch \<leftarrow> channels s c;
       let (ch1, told) = join_flood cfg flood_ctrl ch;
       let m = next_addr s;
       let ch2 = ch1\<lparr>members := m # members ch1,
                     locmembers := (if MyConnect (users s who) then m # locmembers ch1 else locmembers ch1)\<rparr>;
       let s1 = s\<lparr>next_addr := m + 1, mships := (mships s)(m \<mapsto> \<lparr>mchan = c, mclient = who, mflags = flags\<rparr>),
                  channels := (channels s)(c \<mapsto> ch2), sent := sent s @ (if told then [FloodNotice c who] else [])\<rparr>;
       Some (upd_user who (\<lambda>u. u\<lparr>uchannel := m # uchannel u\<rparr>) s1)
     })"

section \<open>Invitations\<close>

text \<open>\<open>who->connection\<close> is null for a remote client.\<close>

definition del_invite :: "addr \<Rightarrow> addr \<Rightarrow> net \<Rightarrow> net option" where
  "del_invite c who s =
    (if \<not> MyConnect (users s who) then None
     else upd_channel c (\<lambda>ch. ch\<lparr>invites := remove1 who (invites ch)\<rparr>)
            (upd_user who (\<lambda>u. u\<lparr>uinvited := remove1 c (uinvited u)\<rparr>) s))"

definition add_invite :: "chan_config \<Rightarrow> addr \<Rightarrow> addr \<Rightarrow> net \<Rightarrow> net option" where
  "add_invite cfg c who s =
    (if \<not> uisclient (users s who) then None
     else do {
       s1 \<leftarrow> del_invite c who s;
       let inv = uinvited (users s1 who);
       s2 \<leftarrow> (if length inv \<ge> max_channels cfg
              then (if inv = [] then None else del_invite (last inv) who s1) else Some s1);
       s3 \<leftarrow> upd_channel c (\<lambda>ch. ch\<lparr>invites := who # invites ch\<rparr>) s2;
       Some (upd_user who (\<lambda>u. u\<lparr>uinvited := c # uinvited u\<rparr>) s3)
     })"

fun del_invites :: "addr \<Rightarrow> addr list \<Rightarrow> net \<Rightarrow> net option" where
  "del_invites c [] s = Some s"
| "del_invites c (x # xs) s = do { s1 \<leftarrow> del_invite c x s; del_invites c xs s1 }"

definition clear_invites :: "addr \<Rightarrow> net \<Rightarrow> net option" where
  "clear_invites c s = do { ch \<leftarrow> channels s c; del_invites c (invites ch) s }"

section \<open>Making and destroying channels\<close>

definition new_channel :: "int \<Rightarrow> string \<Rightarrow> Channel" where
  "new_channel now n =
    \<lparr>ch_name = strlcpy_str n (CHANNELLEN + 1), ch_mode = 0, ch_limit = 0, ch_key = [], ch_topic = [], ch_topic_info = [],
     ch_creationtime = now, ch_topic_time = 0, ch_last_join_time = now, ch_flags = 0, locmembers = [], members = [],
     invites = [], banlist = [], exceptlist = [], invexlist = [], number_joined = 0\<rparr>"

definition make_channel :: "chan_config \<Rightarrow> string \<Rightarrow> net \<Rightarrow> (addr \<times> net) option" where
  "make_channel cfg n s =
    (if n = [] then None
     else let c = next_addr s
          in Some (c, s\<lparr>next_addr := c + 1, channels := (channels s)(c \<mapsto> new_channel (CurrentTime cfg) n),
                        channel_list := c # channel_list s\<rparr>))"

text \<open>The ban lists are released with the channel.\<close>

definition destroy_channel :: "addr \<Rightarrow> net \<Rightarrow> net option" where
  "destroy_channel c s = do {
     s1 \<leftarrow> clear_invites c s;
     cl \<leftarrow> list_delete c (channel_list s1);
     Some (s1\<lparr>channel_list := cl, channels := (channels s1)(c := None)\<rparr>)
   }"

definition remove_user_from_channel :: "addr \<Rightarrow> net \<Rightarrow> net option" where
  "remove_user_from_channel m s = do {
     mb \<leftarrow> mships s m;
     let c = mchan mb; let x = mclient mb;
     ch \<leftarrow> channels s c;
     ms \<leftarrow> list_delete m (members ch);
     ls \<leftarrow> (if MyConnect (users s x) then list_delete m (locmembers ch) else Some (locmembers ch));
     us \<leftarrow> list_delete m (uchannel (users s x));
     let s1 = upd_user x (\<lambda>u. u\<lparr>uchannel := us\<rparr>)
                (s\<lparr>channels := (channels s)(c \<mapsto> ch\<lparr>members := ms, locmembers := ls\<rparr>), mships := (mships s)(m := None)\<rparr>);
     (if ms = [] then destroy_channel c s1 else Some s1)
   }"

definition hash_find_channel :: "string \<Rightarrow> net \<Rightarrow> addr option" where
  "hash_find_channel n s = find (\<lambda>c. case channels s c of None \<Rightarrow> False | Some ch \<Rightarrow> irccmp (ch_name ch) n = 0) (channel_list s)"

text \<open>The shorter of the two lists is searched.\<close>

definition find_channel_link :: "addr \<Rightarrow> addr \<Rightarrow> net \<Rightarrow> addr option" where
  "find_channel_link x c s =
    (if \<not> uisclient (users s x) then None
     else case channels s c of None \<Rightarrow> None
       | Some ch \<Rightarrow>
           if length (members ch) < length (uchannel (users s x))
           then find (\<lambda>m. map_option mclient (mships s m) = Some x) (members ch)
           else find (\<lambda>m. map_option mchan (mships s m) = Some c) (uchannel (users s x)))"

section \<open>Bans\<close>

definition match_zero :: "string \<Rightarrow> string \<Rightarrow> bool option" where
  "match_zero m n = (case match m n of Inl _ \<Rightarrow> None | Inr k \<Rightarrow> Some (k = 0))"

text \<open>Nick and user are compared first, then the host or the address by the kind of the mask; the
  address tests read the connection. \<open>find_bmask\<close> and \<open>resv_find_exempt\<close> share this test.\<close>

definition ban_hits :: "user \<Rightarrow> Ban \<Rightarrow> bool option" where
  "ban_hits u b = do {
     n \<leftarrow> match_zero (bname b) (uname u);
     us \<leftarrow> (if n then match_zero (buser b) (uusername u) else Some False);
     if \<not> us then Some False
     else case bmask b of
         HM_HOST \<Rightarrow> do {
           h \<leftarrow> match_zero (bhost b) (uhost u);
           if h then Some True else match_zero (bhost b) (usockhost u)
         }
       | HM_IPV4 a k \<Rightarrow> do { ip \<leftarrow> uip u; Some (case ip of V4 x \<Rightarrow> match_ipv4 x a k | V6 _ \<Rightarrow> False) }
       | HM_IPV6 a k \<Rightarrow> do { ip \<leftarrow> uip u; Some (case ip of V6 x \<Rightarrow> match_ipv6 x a k | V4 _ \<Rightarrow> False) }
   }"

fun find_bmask :: "user \<Rightarrow> Ban list \<Rightarrow> bool option" where
  "find_bmask u [] = Some False"
| "find_bmask u (b # bs) = do { h \<leftarrow> ban_hits u b; if h then Some True else find_bmask u bs }"

definition is_banned :: "Channel \<Rightarrow> user \<Rightarrow> bool option" where
  "is_banned ch u = do {
     b \<leftarrow> find_bmask u (banlist ch);
     if b then do { e \<leftarrow> find_bmask u (exceptlist ch); Some (\<not> e) } else Some False
   }"

section \<open>Reserved channels\<close>

fun resv_find_exempt :: "user \<Rightarrow> exempt list \<Rightarrow> bool option" where
  "resv_find_exempt u [] = Some False"
| "resv_find_exempt u (e # es) =
    (if ex_country e \<noteq> 0 then
       (if uip u = None then None else if ex_country e = ucountry u then Some True else resv_find_exempt u es)
     else do { h \<leftarrow> ban_hits u (ex_mask e); if h then Some True else resv_find_exempt u es })"

fun resv_search :: "string \<Rightarrow> resv list \<Rightarrow> resv option option" where
  "resv_search n [] = Some None"
| "resv_search n (r # rs) = do { h \<leftarrow> match_zero (rv_name r) n; if h then Some (Some r) else resv_search n rs }"

definition match_find_resv :: "chan_config \<Rightarrow> string \<Rightarrow> resv option option" where
  "match_find_resv cfg n = (if n = [] then Some None else resv_search n (cresv_items cfg))"

text \<open>The test on reserved names in \<open>can_send\<close> and \<open>channel_do_join\<close>.\<close>

definition resv_blocks :: "chan_config \<Rightarrow> user \<Rightarrow> string \<Rightarrow> bool option" where
  "resv_blocks cfg u n =
    (if has_flag (uflags u) FLAGS_EXEMPTRESV \<or> has_flag (uumodes u) UMODE_OPER \<and> oper_pass_resv cfg then Some False
     else do {
       r \<leftarrow> match_find_resv cfg n;
       (case r of None \<Rightarrow> Some False | Some rv \<Rightarrow> do { e \<leftarrow> resv_find_exempt u (rv_exempt rv); Some (\<not> e) })
     })"

section \<open>Who can join and send\<close>

definition ERR_CANNOTSENDTOCHAN :: int where "ERR_CANNOTSENDTOCHAN = 404"
definition ERR_NOCTRLSONCHAN :: int where "ERR_NOCTRLSONCHAN = 408"
definition ERR_CHANNELISFULL :: int where "ERR_CHANNELISFULL = 471"
definition ERR_INVITEONLYCHAN :: int where "ERR_INVITEONLYCHAN = 473"
definition ERR_BANNEDFROMCHAN :: int where "ERR_BANNEDFROMCHAN = 474"
definition ERR_BADCHANNELKEY :: int where "ERR_BADCHANNELKEY = 475"
definition ERR_NEEDREGGEDNICK :: int where "ERR_NEEDREGGEDNICK = 477"
definition ERR_SSLONLYCHAN :: int where "ERR_SSLONLYCHAN = 489"
definition ERR_NOCTCP :: int where "ERR_NOCTCP = 492"
definition ERR_OPERONLYCHAN :: int where "ERR_OPERONLYCHAN = 520"
definition CAN_SEND_NONOP :: int where "CAN_SEND_NONOP = -1"
definition CAN_SEND_OPV :: int where "CAN_SEND_OPV = -2"

definition can_join :: "addr \<Rightarrow> addr \<Rightarrow> string option \<Rightarrow> net \<Rightarrow> int option" where
  "can_join x c key s = do {
     ch \<leftarrow> channels s c;
     let u = users s x;
     if has_flag (ch_mode ch) MODE_SSLONLY \<and> \<not> has_flag (uumodes u) UMODE_SSL then Some ERR_SSLONLYCHAN
     else if has_flag (ch_mode ch) MODE_REGONLY \<and> \<not> has_flag (uumodes u) UMODE_REGISTERED then Some ERR_NEEDREGGEDNICK
     else if has_flag (ch_mode ch) MODE_OPERONLY \<and> \<not> has_flag (uumodes u) UMODE_OPER then Some ERR_OPERONLYCHAN
     else do {
       uninvited \<leftarrow> (if has_flag (ch_mode ch) MODE_INVITEONLY
                    then (if uip u = None then None
                          else if c \<in> set (uinvited u) then Some False
                          else map_option Not (find_bmask u (invexlist ch)))
                    else Some False);
       if uninvited then Some ERR_INVITEONLYCHAN
       else if ch_key ch \<noteq> [] \<and> (case key of None \<Rightarrow> True | Some k \<Rightarrow> ch_key ch \<noteq> k) then Some ERR_BADCHANNELKEY
       else if ch_limit ch \<noteq> 0 \<and> length (members ch) \<ge> ch_limit ch then Some ERR_CHANNELISFULL
       else do { b \<leftarrow> is_banned ch u; Some (if b then ERR_BANNEDFROMCHAN else 0) }
     }
   }"

fun msg_has_ctrls :: "string \<Rightarrow> bool" where
  "msg_has_ctrls [] = False"
| "msg_has_ctrls (c # p) =
    (if (of_char c :: nat) > 31 \<or> of_char c = (1 :: nat) then msg_has_ctrls p
     else if of_char c = (27 :: nat) then
       (case p of c' # p' \<Rightarrow> if c' = CHR ''$'' \<or> c' = CHR ''('' then msg_has_ctrls p' else True
        | [] \<Rightarrow> True)
     else True)"

text \<open>\<open>strncmp(s, t, n)\<close> with a result of 0, for C strings.\<close>

definition same_prefix :: "string \<Rightarrow> string \<Rightarrow> nat \<Rightarrow> bool" where
  "same_prefix a b n \<longleftrightarrow> take n a = take n b"

definition has_member_flags :: "Membership option \<Rightarrow> u32 \<Rightarrow> bool" where
  "has_member_flags m f = (case m of None \<Rightarrow> False | Some mb \<Rightarrow> has_flag (mflags mb) f)"

definition OPV :: u32 where "OPV = CHFL_CHANOP OR CHFL_HALFOP OR CHFL_VOICE"

text \<open>The ban test at the end of \<open>can_send\<close>, which is cached in the membership.\<close>

definition send_banned :: "Channel \<Rightarrow> user \<Rightarrow> addr option \<Rightarrow> net \<Rightarrow> (bool \<times> net) option" where
  "send_banned ch u member s =
    (case member of
       None \<Rightarrow> map_option (\<lambda>b. (b, s)) (is_banned ch u)
     | Some m \<Rightarrow> do {
         mb \<leftarrow> mships s m;
         if has_flag (mflags mb) CHFL_BAN_SILENCED then Some (True, s)
         else if \<not> has_flag (mflags mb) CHFL_BAN_CHECKED then do {
           b \<leftarrow> is_banned ch u;
           let f = (if b then CHFL_BAN_CHECKED OR CHFL_BAN_SILENCED else CHFL_BAN_CHECKED);
           Some (b, s\<lparr>mships := (mships s)(m \<mapsto> mb\<lparr>mflags := add_flag (mflags mb) f\<rparr>)\<rparr>)
         }
         else Some (False, s)
       })"

definition can_send :: "chan_config \<Rightarrow> addr \<Rightarrow> addr \<Rightarrow> addr option \<Rightarrow> string \<Rightarrow> net \<Rightarrow> (int \<times> net) option" where
  "can_send cfg c x member message s =
    (let u = users s x in
     if uisserver u \<or> has_flag (uflags u) FLAGS_SERVICE then Some (CAN_SEND_OPV, s)
     else do {
       ch \<leftarrow> channels s c;
       resv \<leftarrow> (if MyClient u then resv_blocks cfg u (ch_name ch) else Some False);
       if resv then Some (ERR_CANNOTSENDTOCHAN, s)
       else if has_flag (ch_mode ch) MODE_NOCTRL \<and> msg_has_ctrls message then Some (ERR_NOCTRLSONCHAN, s)
       else if has_flag (ch_mode ch) MODE_NOCTCP \<and> deref message = CHR 0x01 \<and> \<not> same_prefix (tl message) ''ACTION '' 7
       then Some (ERR_NOCTCP, s)
       else do {
         let member' = (case member of None \<Rightarrow> find_channel_link x c s | Some m \<Rightarrow> Some m);
         opv \<leftarrow> (case member' of None \<Rightarrow> Some False | Some m \<Rightarrow> map_option (\<lambda>mb. has_flag (mflags mb) OPV) (mships s m));
         if opv then Some (CAN_SEND_OPV, s)
         else if member' = None \<and> has_flag (ch_mode ch) MODE_NOPRIVMSGS then Some (ERR_CANNOTSENDTOCHAN, s)
         else if has_flag (ch_mode ch) MODE_MODERATED then Some (ERR_CANNOTSENDTOCHAN, s)
         else if has_flag (ch_mode ch) MODE_MODREG \<and> \<not> has_flag (uumodes u) UMODE_REGISTERED then Some (ERR_NEEDREGGEDNICK, s)
         else if MyClient u then do {
           (b, s1) \<leftarrow> send_banned ch u member' s;
           Some (if b then ERR_CANNOTSENDTOCHAN else CAN_SEND_NONOP, s1)
         }
         else Some (CAN_SEND_NONOP, s)
       }
     })"

section \<open>Names, topics and the spambot counters\<close>

definition check_channel_name :: "chan_config \<Rightarrow> string \<Rightarrow> bool \<Rightarrow> bool" where
  "check_channel_name cfg n local =
    (case n of [] \<Rightarrow> False
     | c # p \<Rightarrow> IsChanPrefix c \<and>
         (\<forall>x \<in> set p. if \<not> local \<or> \<not> disable_fake_channels cfg then IsChanChar x else IsVisibleChanChar x) \<and>
         length n \<le> CHANNELLEN)"

definition get_member_status :: "Membership \<Rightarrow> bool \<Rightarrow> string" where
  "get_member_status m combine =
    (if has_flag (mflags m) CHFL_CHANOP \<and> \<not> combine then ''@''
     else if has_flag (mflags m) CHFL_HALFOP \<and> \<not> combine then ''%''
     else (if has_flag (mflags m) CHFL_CHANOP then ''@'' else []) @ (if has_flag (mflags m) CHFL_HALFOP then ''%'' else []) @
       (if has_flag (mflags m) CHFL_VOICE then ''+'' else []))"

definition channel_set_topic :: "chan_config \<Rightarrow> string \<Rightarrow> string \<Rightarrow> int \<Rightarrow> bool \<Rightarrow> Channel \<Rightarrow> Channel" where
  "channel_set_topic cfg topic info topicts local ch =
    ch\<lparr>ch_topic := strlcpy_str topic (if local then min (TOPICLEN + 1) (max_topic_length cfg + 1) else TOPICLEN + 1),
       ch_topic_info := strlcpy_str info USERHOST_REPLYLEN, ch_topic_time := topicts\<rparr>"

definition join_leave_decayed :: "chan_config \<Rightarrow> user \<Rightarrow> int" where
  "join_leave_decayed cfg u =
    (let t_delta = CurrentTime cfg - ulast_leave_time u
     in if t_delta > JOIN_LEAVE_COUNT_EXPIRE_TIME then
          (let dec = t_delta div JOIN_LEAVE_COUNT_EXPIRE_TIME
           in if dec > ujoin_leave_count u then 0 else ujoin_leave_count u - dec)
        else if CurrentTime cfg - ulast_join_time u < spam_time cfg then ujoin_leave_count u + 1
        else ujoin_leave_count u)"

definition check_spambot_warning :: "chan_config \<Rightarrow> addr \<Rightarrow> string option \<Rightarrow> net \<Rightarrow> net option" where
  "check_spambot_warning cfg x name s =
    (let u = users s x; now = CurrentTime cfg in
     if \<not> MyConnect u then None
     else if spam_num cfg \<noteq> 0 \<and> ujoin_leave_count u \<ge> spam_num cfg then
       (let w = (if uoper_warn u > 0 then uoper_warn u - 1 else 0)
        in if w = 0
           then Some (send_event (SpambotNotice x name) (upd_user x (\<lambda>u. u\<lparr>uoper_warn := OPER_SPAM_COUNTDOWN\<rparr>) s))
           else Some (upd_user x (\<lambda>u. u\<lparr>uoper_warn := w\<rparr>) s))
     else
       Some (upd_user x (\<lambda>u. if name \<noteq> None then u\<lparr>ujoin_leave_count := join_leave_decayed cfg u, ulast_join_time := now\<rparr>
                             else u\<lparr>ujoin_leave_count := join_leave_decayed cfg u, ulast_leave_time := now\<rparr>) s))"

section \<open>JOIN and PART\<close>

fun part_all :: "addr \<Rightarrow> addr list \<Rightarrow> net \<Rightarrow> net option" where
  "part_all x [] s = Some s"
| "part_all x (m # ms) s = do {
     mb \<leftarrow> mships s m;
     s1 \<leftarrow> remove_user_from_channel m (send_event (PartMsg (mchan mb) x None) s);
     part_all x ms s1
   }"

definition channel_do_join_0 :: "chan_config \<Rightarrow> addr \<Rightarrow> net \<Rightarrow> net option" where
  "channel_do_join_0 cfg x s = do {
     let u = users s x;
     s1 \<leftarrow> (if uchannel u \<noteq> [] \<and> MyConnect u \<and> \<not> has_flag (uumodes u) UMODE_OPER
            then check_spambot_warning cfg x None s else Some s);
     part_all x (uchannel (users s1 x)) s1
   }"

text \<open>The scan of \<open>channel_find_last0\<close>: \<open>res\<close> is the list behind the last \<open>0\<close> found so far.\<close>

function find_last0 :: "string \<Rightarrow> string \<Rightarrow> bool \<Rightarrow> string \<times> bool" where
  "find_last0 p res join0 =
    (case p of
       [] \<Rightarrow> (res, join0)
     | c # p' \<Rightarrow>
         if c = CHR ''0'' \<and> (deref p' = CHR '','' \<or> p' = []) then find_last0 (tl p') (tl p') True
         else (case dropWhile (\<lambda>c. c \<noteq> CHR '','') p of
                 [] \<Rightarrow> (res, join0)
               | _ # q \<Rightarrow> find_last0 q res join0))"
  by pat_completeness auto
termination
proof (relation "measure (\<lambda>(p, _, _). length p)", simp, goal_cases)
  case (1 p res join0 c p')
  then show ?case by simp
next
  case (2 p res join0 c p' d q)
  then have "length (d # q) \<le> length p" by (metis length_dropWhile_le)
  then show ?case by simp
qed

declare find_last0.simps [simp del]

definition channel_find_last0 :: "chan_config \<Rightarrow> addr \<Rightarrow> string \<Rightarrow> net \<Rightarrow> (string \<times> net) option" where
  "channel_find_last0 cfg x chanlist s = do {
     let (res, join0) = find_last0 chanlist chanlist False;
     s1 \<leftarrow> (if join0 then channel_do_join_0 cfg x s else Some s);
     Some (res, s1)
   }"

text \<open>The key for the next channel and the remaining keys.\<close>

definition take_key :: "string option \<Rightarrow> string option \<times> string option" where
  "take_key key_list =
    (case key_list of None \<Rightarrow> (None, None)
     | Some [] \<Rightarrow> (None, Some [])
     | Some ks \<Rightarrow>
         let k = takeWhile (\<lambda>c. c \<noteq> CHR '','') ks
         in (if k = [] then None else Some k, case dropWhile (\<lambda>c. c \<noteq> CHR '','') ks of [] \<Rightarrow> None | _ # r \<Rightarrow> Some r))"

text \<open>What \<open>channel_do_join\<close> does once the client may join: \<open>flags\<close> is \<open>CHFL_CHANOP\<close> for a channel without members.\<close>

definition enter_channel :: "chan_config \<Rightarrow> addr \<Rightarrow> addr \<Rightarrow> u32 \<Rightarrow> net \<Rightarrow> net option" where
  "enter_channel cfg x c flags s = do {
     ch \<leftarrow> channels s c;
     s1 \<leftarrow> (if \<not> has_flag (uumodes (users s x)) UMODE_OPER then check_spambot_warning cfg x (Some (ch_name ch)) s else Some s);
     s2 \<leftarrow> add_user_to_channel cfg c x flags True s1;
     s3 \<leftarrow> (if flags = CHFL_CHANOP
            then upd_channel c (\<lambda>ch. ch\<lparr>ch_creationtime := CurrentTime cfg,
                   ch_mode := add_flag (add_flag (ch_mode ch) MODE_TOPICLIMIT) MODE_NOPRIVMSGS\<rparr>) s2
            else Some s2);
     let s4 = send_event (JoinMsg c x (flags = CHFL_CHANOP)) s3;
     s5 \<leftarrow> del_invite c x s4;
     ch5 \<leftarrow> channels s5 c;
     let s6 = (if ch_topic ch5 \<noteq> [] then send_event (TopicReply x c) s5 else s5);
     Some (upd_user x (\<lambda>u. u\<lparr>ulast_join_time := CurrentTime cfg\<rparr>) (send_event (NamesReply x c) s6))
   }"

datatype join_end = JoinNext net | JoinBreak net

definition join_one :: "chan_config \<Rightarrow> addr \<Rightarrow> string \<Rightarrow> string option \<Rightarrow> net \<Rightarrow> join_end option" where
  "join_one cfg x chan key s =
    (let u = users s x; split = (splitmode cfg \<and> \<not> has_flag (uumodes u) UMODE_OPER) in
     if \<not> check_channel_name cfg chan True then Some (JoinNext (send_event (Numeric x 479 chan) s))
     else do {
       resv \<leftarrow> resv_blocks cfg u chan;
       if resv then Some (JoinNext (send_event (ResvNotice x chan) s))
       else if length (uchannel u) \<ge> (if uclass_max u \<noteq> 0 then uclass_max u else max_channels cfg)
       then Some (JoinBreak (send_event (Numeric x 405 chan) s))
       else case hash_find_channel chan s of
           Some c \<Rightarrow> do {
             ch \<leftarrow> channels s c;
             if find_channel_link x c s \<noteq> None then Some (JoinNext s)
             else if split \<and> no_join_on_split cfg then Some (JoinNext (send_event (Numeric x 437 (ch_name ch)) s))
             else do {
               i \<leftarrow> can_join x c key s;
               if i \<noteq> 0 then Some (JoinNext (send_event (Numeric x (nat i) (ch_name ch)) s))
               else do {
                 s1 \<leftarrow> enter_channel cfg x c (if members ch = [] then CHFL_CHANOP else 0) s;
                 Some (JoinNext s1)
               }
             }
           }
         | None \<Rightarrow>
             if split \<and> (no_create_on_split cfg \<or> no_join_on_split cfg) then Some (JoinNext (send_event (Numeric x 437 chan) s))
             else do {
               (c, s1) \<leftarrow> make_channel cfg chan s;
               s2 \<leftarrow> enter_channel cfg x c CHFL_CHANOP s1;
               Some (JoinNext s2)
             }
     })"

fun join_loop :: "chan_config \<Rightarrow> addr \<Rightarrow> string list \<Rightarrow> string option \<Rightarrow> net \<Rightarrow> net option" where
  "join_loop cfg x [] keys s = Some s"
| "join_loop cfg x (chan # chans) keys s = do {
     let (key, keys') = take_key keys;
     r \<leftarrow> join_one cfg x chan key s;
     (case r of JoinNext s1 \<Rightarrow> join_loop cfg x chans keys' s1 | JoinBreak s1 \<Rightarrow> Some s1)
   }"

definition channel_do_join :: "chan_config \<Rightarrow> addr \<Rightarrow> string \<Rightarrow> string option \<Rightarrow> net \<Rightarrow> net option" where
  "channel_do_join cfg x chanlist keys s =
    (if \<not> uisclient (users s x) then None
     else do {
       (chan_list, s1) \<leftarrow> channel_find_last0 cfg x chanlist s;
       join_loop cfg x (strtoken_all (Some chan_list) '','') keys s1
     })"

definition channel_part_one_client :: "chan_config \<Rightarrow> addr \<Rightarrow> string \<Rightarrow> string \<Rightarrow> net \<Rightarrow> net option" where
  "channel_part_one_client cfg x name reason s =
    (case hash_find_channel name s of
       None \<Rightarrow> Some (send_event (Numeric x 403 name) s)
     | Some c \<Rightarrow>
         (case find_channel_link x c s of
            None \<Rightarrow> map_option (\<lambda>ch. send_event (Numeric x 442 (ch_name ch)) s) (channels s c)
          | Some m \<Rightarrow> do {
              let u = users s x;
              s1 \<leftarrow> (if MyConnect u \<and> \<not> has_flag (uumodes u) UMODE_OPER then check_spambot_warning cfg x None s else Some s);
              (show_reason, s2) \<leftarrow>
                (if reason = [] then Some (False, s1)
                 else if \<not> MyConnect u then Some (True, s1)
                 else do {
                   (r, s2) \<leftarrow> can_send cfg c x (Some m) reason s1;
                   Some (r \<noteq> 0 \<and> ufirsttime u + anti_spam_exit_message_time cfg < CurrentTime cfg, s2)
                 });
              remove_user_from_channel m (send_event (PartMsg c x (if show_reason then Some reason else None)) s2)
            }))"

fun part_loop :: "chan_config \<Rightarrow> addr \<Rightarrow> string \<Rightarrow> string list \<Rightarrow> net \<Rightarrow> net option" where
  "part_loop cfg x reason [] s = Some s"
| "part_loop cfg x reason (n # ns) s = do { s1 \<leftarrow> channel_part_one_client cfg x n reason s; part_loop cfg x reason ns s1 }"

definition channel_do_part :: "chan_config \<Rightarrow> addr \<Rightarrow> string \<Rightarrow> string option \<Rightarrow> net \<Rightarrow> net option" where
  "channel_do_part cfg x channel reason s =
    (if \<not> uisclient (users s x) then None
     else part_loop cfg x (case reason of None \<Rightarrow> [] | Some r \<Rightarrow> strlcpy_str r (KICKLEN + 1)) (strtoken_all (Some channel) '','') s)"

section \<open>The shape of the state\<close>

text \<open>The part of the state that links channels, memberships and clients: names of the live channels, the three
  lists of a channel, client and channel of each membership, the two lists of a client.\<close>

record shape =
  s_name :: "addr \<Rightarrow> string option"
  s_mem :: "addr \<Rightarrow> addr list"
  s_loc :: "addr \<Rightarrow> addr list"
  s_inv :: "addr \<Rightarrow> addr list"
  s_link :: "addr \<Rightarrow> (addr \<times> addr) option"
  s_uch :: "addr \<Rightarrow> addr list"
  s_uinv :: "addr \<Rightarrow> addr list"
  s_my :: "addr \<Rightarrow> bool"
  s_cl :: "addr \<Rightarrow> bool"
  s_list :: "addr list"
  s_next :: addr

definition shape_of :: "net \<Rightarrow> shape" where
  "shape_of s =
    \<lparr>s_name = (\<lambda>c. map_option ch_name (channels s c)),
     s_mem = (\<lambda>c. case channels s c of None \<Rightarrow> [] | Some ch \<Rightarrow> members ch),
     s_loc = (\<lambda>c. case channels s c of None \<Rightarrow> [] | Some ch \<Rightarrow> locmembers ch),
     s_inv = (\<lambda>c. case channels s c of None \<Rightarrow> [] | Some ch \<Rightarrow> invites ch),
     s_link = (\<lambda>m. map_option (\<lambda>mb. (mclient mb, mchan mb)) (mships s m)),
     s_uch = (\<lambda>x. uchannel (users s x)), s_uinv = (\<lambda>x. uinvited (users s x)),
     s_my = (\<lambda>x. MyConnect (users s x)), s_cl = (\<lambda>x. uisclient (users s x)),
     s_list = channel_list s, s_next = next_addr s\<rparr>"

definition is_local :: "shape \<Rightarrow> addr \<Rightarrow> bool" where
  "is_local z m \<longleftrightarrow> (case s_link z m of None \<Rightarrow> False | Some (x, c) \<Rightarrow> s_my z x)"

text \<open>The invariant: both ends of a membership list it, exactly once; there is one membership for a client and a
  channel; \<open>locmembers\<close> holds the local members in order; invitations are listed at both ends; names differ.\<close>

definition links_ok :: "shape \<Rightarrow> bool" where
  "links_ok z \<longleftrightarrow>
    (\<forall>c. distinct (s_mem z c) \<and> (\<forall>m. m \<in> set (s_mem z c) \<longleftrightarrow> (\<exists>x. s_link z m = Some (x, c)))) \<and>
    (\<forall>x. distinct (s_uch z x) \<and> (\<forall>m. m \<in> set (s_uch z x) \<longleftrightarrow> (\<exists>c. s_link z m = Some (x, c)))) \<and>
    (\<forall>m m' p. s_link z m = Some p \<longrightarrow> s_link z m' = Some p \<longrightarrow> m = m') \<and>
    (\<forall>c. s_loc z c = filter (is_local z) (s_mem z c)) \<and>
    (\<forall>m x c. s_link z m = Some (x, c) \<longrightarrow> s_cl z x)"

definition invites_ok :: "shape \<Rightarrow> bool" where
  "invites_ok z \<longleftrightarrow>
    (\<forall>c. distinct (s_inv z c)) \<and> (\<forall>x. distinct (s_uinv z x)) \<and>
    (\<forall>c x. x \<in> set (s_inv z c) \<longleftrightarrow> c \<in> set (s_uinv z x)) \<and> (\<forall>c x. x \<in> set (s_inv z c) \<longrightarrow> s_my z x)"

definition names_ok :: "shape \<Rightarrow> bool" where
  "names_ok z \<longleftrightarrow>
    distinct (s_list z) \<and> (\<forall>c. c \<in> set (s_list z) \<longleftrightarrow> s_name z c \<noteq> None) \<and>
    (\<forall>c. s_name z c = None \<longrightarrow> s_mem z c = [] \<and> s_inv z c = []) \<and>
    (\<forall>a \<ge> s_next z. s_name z a = None \<and> s_link z a = None) \<and>
    (\<forall>c c' n n'. s_name z c = Some n \<longrightarrow> s_name z c' = Some n' \<longrightarrow> irccmp n n' = 0 \<longrightarrow> c = c')"

definition shape_ok :: "shape \<Rightarrow> bool" where
  "shape_ok z \<longleftrightarrow> links_ok z \<and> invites_ok z \<and> names_ok z"

abbreviation net_ok :: "net \<Rightarrow> bool" where
  "net_ok s \<equiv> shape_ok (shape_of s)"

named_theorems shape_simps \<open>projections of the shape of a state\<close>

lemma shape_of_simps [shape_simps]:
  "s_name (shape_of s) c = map_option ch_name (channels s c)"
  "s_mem (shape_of s) c = (case channels s c of None \<Rightarrow> [] | Some ch \<Rightarrow> members ch)"
  "s_loc (shape_of s) c = (case channels s c of None \<Rightarrow> [] | Some ch \<Rightarrow> locmembers ch)"
  "s_inv (shape_of s) c = (case channels s c of None \<Rightarrow> [] | Some ch \<Rightarrow> invites ch)"
  "s_link (shape_of s) m = map_option (\<lambda>mb. (mclient mb, mchan mb)) (mships s m)"
  "s_uch (shape_of s) x = uchannel (users s x)" "s_uinv (shape_of s) x = uinvited (users s x)"
  "s_my (shape_of s) x = MyConnect (users s x)" "s_cl (shape_of s) x = uisclient (users s x)"
  "s_list (shape_of s) = channel_list s" "s_next (shape_of s) = next_addr s"
  by (simp_all add: shape_of_def)

subsection \<open>The operations on shapes\<close>

definition sh_add :: "addr \<Rightarrow> addr \<Rightarrow> shape \<Rightarrow> shape" where
  "sh_add c x z =
    z\<lparr>s_mem := (s_mem z)(c := s_next z # s_mem z c), s_loc := (s_loc z)(c := (if s_my z x then s_next z # s_loc z c else s_loc z c)),
      s_link := (s_link z)(s_next z \<mapsto> (x, c)), s_uch := (s_uch z)(x := s_next z # s_uch z x), s_next := s_next z + 1\<rparr>"

definition sh_remove :: "addr \<Rightarrow> addr \<Rightarrow> addr \<Rightarrow> shape \<Rightarrow> shape" where
  "sh_remove m c x z =
    z\<lparr>s_mem := (s_mem z)(c := remove1 m (s_mem z c)), s_loc := (s_loc z)(c := (if s_my z x then remove1 m (s_loc z c) else s_loc z c)),
      s_link := (s_link z)(m := None), s_uch := (s_uch z)(x := remove1 m (s_uch z x))\<rparr>"

definition sh_uninvite :: "addr \<Rightarrow> addr \<Rightarrow> shape \<Rightarrow> shape" where
  "sh_uninvite c x z = z\<lparr>s_inv := (s_inv z)(c := remove1 x (s_inv z c)), s_uinv := (s_uinv z)(x := remove1 c (s_uinv z x))\<rparr>"

definition sh_invite :: "addr \<Rightarrow> addr \<Rightarrow> shape \<Rightarrow> shape" where
  "sh_invite c x z = z\<lparr>s_inv := (s_inv z)(c := x # s_inv z c), s_uinv := (s_uinv z)(x := c # s_uinv z x)\<rparr>"

definition sh_make :: "string \<Rightarrow> shape \<Rightarrow> shape" where
  "sh_make n z = z\<lparr>s_name := (s_name z)(s_next z \<mapsto> n), s_list := s_next z # s_list z, s_next := s_next z + 1\<rparr>"

definition sh_drop :: "addr \<Rightarrow> shape \<Rightarrow> shape" where
  "sh_drop c z = z\<lparr>s_name := (s_name z)(c := None), s_list := remove1 c (s_list z), s_mem := (s_mem z)(c := []),
     s_loc := (s_loc z)(c := []), s_inv := (s_inv z)(c := [])\<rparr>"

lemmas sh_defs = sh_add_def sh_remove_def sh_uninvite_def sh_invite_def sh_make_def sh_drop_def

lemma links_okD:
  assumes "links_ok z"
  shows "distinct (s_mem z c)" "m \<in> set (s_mem z c) \<longleftrightarrow> (\<exists>x. s_link z m = Some (x, c))"
    "distinct (s_uch z x)" "m \<in> set (s_uch z x) \<longleftrightarrow> (\<exists>c. s_link z m = Some (x, c))"
    "s_link z m = Some p \<Longrightarrow> s_link z m' = Some p \<Longrightarrow> m = m'"
    "s_loc z c = filter (is_local z) (s_mem z c)" "s_link z m = Some (x, c) \<Longrightarrow> s_cl z x"
  using assms unfolding links_ok_def by blast+

lemma names_okD:
  assumes "names_ok z"
  shows "distinct (s_list z)" "c \<in> set (s_list z) \<longleftrightarrow> s_name z c \<noteq> None"
    "s_name z c = None \<Longrightarrow> s_mem z c = [] \<and> s_inv z c = []" "s_next z \<le> a \<Longrightarrow> s_name z a = None \<and> s_link z a = None"
    "s_name z c = Some n \<Longrightarrow> s_name z c' = Some n' \<Longrightarrow> irccmp n n' = 0 \<Longrightarrow> c = c'"
  using assms unfolding names_ok_def by blast+

lemma invites_okD:
  assumes "invites_ok z"
  shows "distinct (s_inv z c)" "distinct (s_uinv z x)" "x \<in> set (s_inv z c) \<longleftrightarrow> c \<in> set (s_uinv z x)"
    "x \<in> set (s_inv z c) \<Longrightarrow> s_my z x"
  using assms unfolding invites_ok_def by blast+

lemma shape_add:
  assumes z: "shape_ok z" and c: "s_name z c \<noteq> None" and x: "s_cl z x" and new: "\<And>m. s_link z m \<noteq> Some (x, c)"
  shows "shape_ok (sh_add c x z)"
proof -
  let ?m = "s_next z" and ?z = "sh_add c x z"
  have ok: "links_ok z" "invites_ok z" "names_ok z" using z by (auto simp: shape_ok_def)
  have fresh: "s_link z ?m = None" using names_okD(4) [OF ok(3)] by blast
  then have out: "?m \<notin> set (s_mem z c')" "?m \<notin> set (s_uch z x')" for c' x'
    using links_okD(2,4) [OF ok(1)] by auto
  have link: "s_link ?z m = (if m = ?m then Some (x, c) else s_link z m)" for m by (simp add: sh_add_def)
  have "is_local ?z m = is_local z m" if "m \<in> set (s_mem z c')" for m c'
    using that out(1) by (auto simp: is_local_def sh_add_def split: option.splits)
  then have loc: "filter (is_local ?z) (s_mem z c') = s_loc z c'" for c'
    unfolding links_okD(6) [OF ok(1)] by (intro filter_cong) auto
  have "links_ok ?z"
    unfolding links_ok_def
  proof (intro conjI allI impI)
    show "distinct (s_mem ?z c')" for c' using links_okD(1) [OF ok(1), of c'] out by (auto simp: sh_add_def)
    show "m \<in> set (s_mem ?z c') \<longleftrightarrow> (\<exists>x. s_link ?z m = Some (x, c'))" for m c'
      using links_okD(2) [OF ok(1), of m c'] fresh unfolding link by (auto simp: sh_add_def)
    show "distinct (s_uch ?z x')" for x' using links_okD(3) [OF ok(1), of x'] out by (auto simp: sh_add_def)
    show "m \<in> set (s_uch ?z x') \<longleftrightarrow> (\<exists>c. s_link ?z m = Some (x', c))" for m x'
      using links_okD(4) [OF ok(1), of m x'] fresh unfolding link by (auto simp: sh_add_def)
    show "m = m'" if "s_link ?z m = Some p" "s_link ?z m' = Some p" for m m' p
      using that links_okD(5) [OF ok(1), of m p m'] new unfolding link by (auto split: if_splits)
    show "s_loc ?z c' = filter (is_local ?z) (s_mem ?z c')" for c'
    proof -
      have "is_local ?z ?m = s_my z x" by (simp add: is_local_def sh_add_def)
      moreover have "s_mem ?z c' = (if c' = c then ?m # s_mem z c else s_mem z c')" by (simp add: sh_add_def)
      moreover have "s_loc ?z c' = (if c' = c \<and> s_my z x then ?m # s_loc z c else s_loc z c')" by (simp add: sh_add_def)
      ultimately show ?thesis using loc by auto
    qed
    show "s_cl ?z x'" if "s_link ?z m = Some (x', c')" for m x' c'
      using that links_okD(7) [OF ok(1), of m x' c'] x unfolding link by (auto simp: sh_add_def split: if_splits)
  qed
  moreover have "invites_ok ?z" using ok(2) by (simp add: invites_ok_def sh_add_def)
  moreover have "names_ok ?z"
    using names_okD [OF ok(3)] c unfolding names_ok_def by (auto simp: sh_add_def Let_def)
  ultimately show ?thesis by (simp add: shape_ok_def)
qed

lemma shape_remove:
  assumes z: "shape_ok z" and m: "s_link z m = Some (x, c)"
  shows "shape_ok (sh_remove m c x z)"
proof -
  let ?z = "sh_remove m c x z"
  have ok: "links_ok z" "invites_ok z" "names_ok z" using z by (auto simp: shape_ok_def)
  have link: "s_link ?z m' = (if m' = m then None else s_link z m')" for m' by (simp add: sh_remove_def)
  have loc: "is_local ?z m' = is_local z m'" if "m' \<noteq> m" for m' using that by (auto simp: is_local_def sh_remove_def split: option.splits)
  have in_c: "m \<in> set (s_mem z c)" using links_okD(2) [OF ok(1)] m by blast
  have elsewhere: "m \<notin> set (s_mem z c')" if "c' \<noteq> c" for c' using that m links_okD(2) [OF ok(1), of m c'] by auto
  have "links_ok ?z"
    unfolding links_ok_def
  proof (intro conjI allI impI)
    show "distinct (s_mem ?z c')" for c' using links_okD(1) [OF ok(1), of c'] by (auto simp: sh_remove_def)
    show "m' \<in> set (s_mem ?z c') \<longleftrightarrow> (\<exists>x. s_link ?z m' = Some (x, c'))" for m' c'
      using links_okD(1) [OF ok(1), of c'] links_okD(2) [OF ok(1), of m' c'] m unfolding link by (auto simp: sh_remove_def)
    show "distinct (s_uch ?z x')" for x' using links_okD(3) [OF ok(1), of x'] by (auto simp: sh_remove_def)
    show "m' \<in> set (s_uch ?z x') \<longleftrightarrow> (\<exists>c. s_link ?z m' = Some (x', c))" for m' x'
      using links_okD(3) [OF ok(1), of x'] links_okD(4) [OF ok(1), of m' x'] m unfolding link by (auto simp: sh_remove_def)
    show "m1 = m2" if "s_link ?z m1 = Some p" "s_link ?z m2 = Some p" for m1 m2 p
      using that links_okD(5) [OF ok(1), of m1 p m2] unfolding link by (auto split: if_splits)
    show "s_loc ?z c' = filter (is_local ?z) (s_mem ?z c')" for c'
    proof (cases "c' = c")
      case True
      have "filter (is_local ?z) (remove1 m (s_mem z c)) = filter (is_local z) (remove1 m (s_mem z c))"
        using links_okD(1) [OF ok(1)] loc by (intro filter_cong) auto
      also have "\<dots> = remove1 m (filter (is_local z) (s_mem z c))" by (simp add: filter_remove1)
      also have "\<dots> = (if s_my z x then remove1 m (s_loc z c) else s_loc z c)"
        using m by (auto simp: links_okD(6) [OF ok(1)] is_local_def remove1_idem)
      finally show ?thesis using True by (simp add: sh_remove_def)
    next
      case False
      have "filter (is_local ?z) (s_mem z c') = filter (is_local z) (s_mem z c')"
        using elsewhere [OF False] by (intro filter_cong) (auto intro!: loc)
      then show ?thesis using False links_okD(6) [OF ok(1), of c'] by (simp add: sh_remove_def)
    qed
    show "s_cl ?z x'" if "s_link ?z m' = Some (x', c')" for m' x' c'
      using that links_okD(7) [OF ok(1), of m' x' c'] unfolding link by (auto simp: sh_remove_def split: if_splits)
  qed
  moreover have "invites_ok ?z" using ok(2) by (simp add: invites_ok_def sh_remove_def)
  moreover have "names_ok ?z"
    using names_okD [OF ok(3)] unfolding names_ok_def by (auto simp: sh_remove_def)
  ultimately show ?thesis by (simp add: shape_ok_def)
qed

lemma shape_uninvite:
  assumes "shape_ok z"
  shows "shape_ok (sh_uninvite c x z)"
proof -
  have ok: "links_ok z" "invites_ok z" "names_ok z" using assms by (auto simp: shape_ok_def)
  have "invites_ok (sh_uninvite c x z)"
    unfolding invites_ok_def
  proof (intro conjI allI impI)
    show "distinct (s_inv (sh_uninvite c x z) c')" for c' using invites_okD(1) [OF ok(2), of c'] by (auto simp: sh_uninvite_def)
    show "distinct (s_uinv (sh_uninvite c x z) x')" for x' using invites_okD(2) [OF ok(2), of x'] by (auto simp: sh_uninvite_def)
    show "x' \<in> set (s_inv (sh_uninvite c x z) c') \<longleftrightarrow> c' \<in> set (s_uinv (sh_uninvite c x z) x')" for c' x'
      using invites_okD(1) [OF ok(2), of c'] invites_okD(2) [OF ok(2), of x'] invites_okD(3) [OF ok(2), of x' c'] by (auto simp: sh_uninvite_def)
    show "s_my (sh_uninvite c x z) x'" if "x' \<in> set (s_inv (sh_uninvite c x z) c')" for c' x'
      using that invites_okD(4) [OF ok(2), of x' c'] by (auto simp: sh_uninvite_def split: if_splits dest: notin_set_remove1)
  qed
  moreover have "is_local (sh_uninvite c x z) = is_local z" by (simp add: is_local_def sh_uninvite_def fun_eq_iff split: option.splits)
  then have "links_ok (sh_uninvite c x z)" using ok(1) unfolding links_ok_def by (simp add: sh_uninvite_def)
  moreover have "names_ok (sh_uninvite c x z)"
    using ok(3) unfolding names_ok_def by (simp add: sh_uninvite_def)
  ultimately show ?thesis by (simp add: shape_ok_def)
qed

lemma shape_invite:
  assumes z: "shape_ok z" and c: "s_name z c \<noteq> None" "c \<notin> set (s_uinv z x)" and x: "s_my z x"
  shows "shape_ok (sh_invite c x z)"
proof -
  have ok: "links_ok z" "invites_ok z" "names_ok z" using z by (auto simp: shape_ok_def)
  have "x \<notin> set (s_inv z c)" using c invites_okD(3) [OF ok(2)] by blast
  then have "invites_ok (sh_invite c x z)"
    using ok(2) c(2) x unfolding invites_ok_def by (simp add: sh_invite_def)
  moreover have "is_local (sh_invite c x z) = is_local z" by (simp add: is_local_def sh_invite_def fun_eq_iff split: option.splits)
  then have "links_ok (sh_invite c x z)" using ok(1) unfolding links_ok_def by (simp add: sh_invite_def)
  moreover have "names_ok (sh_invite c x z)"
    using ok(3) c unfolding names_ok_def by (simp add: sh_invite_def)
  ultimately show ?thesis by (simp add: shape_ok_def)
qed

lemma shape_make:
  assumes z: "shape_ok z" and n: "\<And>c n'. s_name z c = Some n' \<Longrightarrow> irccmp n' n \<noteq> 0"
  shows "shape_ok (sh_make n z)"
proof -
  have ok: "links_ok z" "invites_ok z" "names_ok z" using z by (auto simp: shape_ok_def)
  have fresh: "s_name z (s_next z) = None" using names_okD(4) [OF ok(3)] by blast
  have n': "irccmp n n' \<noteq> 0" if "s_name z c = Some n'" for c n' using n [OF that] irccmp_sym [of n n'] by (rule contrapos_nn)
  have "names_ok (sh_make n z)"
    unfolding names_ok_def
  proof (intro conjI allI impI)
    show "distinct (s_list (sh_make n z))" using names_okD(1,2) [OF ok(3)] fresh by (simp add: sh_make_def)
    show "c \<in> set (s_list (sh_make n z)) \<longleftrightarrow> s_name (sh_make n z) c \<noteq> None" for c
      using names_okD(2) [OF ok(3), of c] by (simp add: sh_make_def)
    show "s_mem (sh_make n z) c = []" "s_inv (sh_make n z) c = []" if "s_name (sh_make n z) c = None" for c
      using that names_okD(3) [OF ok(3), of c] by (auto simp: sh_make_def split: if_splits)
    show "s_name (sh_make n z) a = None" "s_link (sh_make n z) a = None" if "s_next (sh_make n z) \<le> a" for a
      using that names_okD(4) [OF ok(3), of a] by (auto simp: sh_make_def)
    show "c = c'" if "s_name (sh_make n z) c = Some n1" "s_name (sh_make n z) c' = Some n2" "irccmp n1 n2 = 0" for c c' n1 n2
      using that names_okD(5) [OF ok(3), of c n1 c' n2] n [of c n1] n' [of c' n2] by (auto simp: sh_make_def split: if_splits)
  qed
  moreover have "is_local (sh_make n z) = is_local z" by (simp add: is_local_def sh_make_def fun_eq_iff split: option.splits)
  then have "links_ok (sh_make n z)" using ok(1) unfolding links_ok_def by (simp add: sh_make_def)
  moreover have "invites_ok (sh_make n z)" using ok(2) by (simp add: invites_ok_def sh_make_def)
  ultimately show ?thesis by (simp add: shape_ok_def)
qed

lemma shape_drop:
  assumes z: "shape_ok z" and c: "s_mem z c = []" "s_inv z c = []"
  shows "shape_ok (sh_drop c z)"
proof -
  have ok: "links_ok z" "invites_ok z" "names_ok z" using z by (auto simp: shape_ok_def)
  have loc: "s_loc z c = []" using links_okD(6) [OF ok(1), of c] c(1) by simp
  have same: "(s_mem z)(c := []) = s_mem z" "(s_inv z)(c := []) = s_inv z" "(s_loc z)(c := []) = s_loc z" using c loc by auto
  have "is_local (sh_drop c z) = is_local z" by (simp add: is_local_def sh_drop_def fun_eq_iff split: option.splits)
  then have "links_ok (sh_drop c z)" using ok(1) unfolding links_ok_def by (simp add: sh_drop_def same)
  moreover have "invites_ok (sh_drop c z)" using ok(2) by (simp add: invites_ok_def sh_drop_def same)
  moreover have "names_ok (sh_drop c z)"
    using ok(3) c unfolding names_ok_def by (simp add: sh_drop_def same)
  ultimately show ?thesis by (simp add: shape_ok_def)
qed

subsection \<open>The code's operations act on the shape\<close>

lemma shape_eqI: "\<lbrakk>s_name a = s_name b; s_mem a = s_mem b; s_loc a = s_loc b; s_inv a = s_inv b; s_link a = s_link b; s_uch a = s_uch b;
    s_uinv a = s_uinv b; s_my a = s_my b; s_cl a = s_cl b; s_list a = s_list b; s_next a = s_next b\<rbrakk> \<Longrightarrow> a = (b :: shape)"
  by simp

lemma shape_send_event [simp]: "shape_of (send_event e s) = shape_of s"
  by (simp add: shape_of_def send_event_def)

text \<open>Updates of other fields leave the shape alone.\<close>

lemma shape_upd_user_id:
  "uchannel (f (users s x)) = uchannel (users s x) \<Longrightarrow> uinvited (f (users s x)) = uinvited (users s x) \<Longrightarrow>
    uip (f (users s x)) = uip (users s x) \<Longrightarrow> uisclient (f (users s x)) = uisclient (users s x) \<Longrightarrow>
    shape_of (upd_user x f s) = shape_of s"
  by (rule shape_eqI) (auto simp: shape_of_def upd_user_def MyConnect_def fun_eq_iff)

lemma shape_upd_channel_id:
  assumes "channels s c = Some ch" "ch_name (f ch) = ch_name ch" "members (f ch) = members ch" "locmembers (f ch) = locmembers ch"
    "invites (f ch) = invites ch"
  shows "\<exists>s'. upd_channel c f s = Some s' \<and> shape_of s' = shape_of s \<and> users s' = users s \<and> channels s' c = Some (f ch)"
  using assms by (auto simp: upd_channel_def shape_of_def fun_eq_iff)

lemma add_user_shape:
  assumes "channels s c = Some ch" "uisclient (users s x)"
  shows "\<exists>s'. add_user_to_channel cfg c x flags fc s = Some s' \<and> shape_of s' = sh_add c x (shape_of s)"
proof -
  obtain ch1 told where ch1: "join_flood cfg fc ch = (ch1, told)" by fastforce
  then have "ch_name ch1 = ch_name ch" "members ch1 = members ch" "locmembers ch1 = locmembers ch" "invites ch1 = invites ch"
    by (auto simp: join_flood_def Let_def split: if_splits)
  then show ?thesis using assms ch1
    by (auto simp: add_user_to_channel_def upd_user_def MyConnect_def sh_add_def shape_of_def fun_eq_iff Let_def)
qed

lemma del_invite_shape:
  assumes "channels s c = Some ch" "MyConnect (users s x)"
  shows "\<exists>s'. del_invite c x s = Some s' \<and> shape_of s' = sh_uninvite c x (shape_of s) \<and>
    channels s' = (channels s)(c \<mapsto> ch\<lparr>invites := remove1 x (invites ch)\<rparr>)"
  using assms by (auto simp: del_invite_def upd_channel_def upd_user_def MyConnect_def sh_uninvite_def shape_of_def fun_eq_iff)

lemma make_channel_shape:
  assumes "n \<noteq> []" "channels s (next_addr s) = None"
  shows "\<exists>s'. make_channel cfg n s = Some (next_addr s, s') \<and> shape_of s' = sh_make (strlcpy_str n (CHANNELLEN + 1)) (shape_of s) \<and>
    users s' = users s \<and> channels s' (next_addr s) = Some (new_channel (CurrentTime cfg) n)"
  using assms by (auto simp: make_channel_def new_channel_def sh_make_def shape_of_def fun_eq_iff Let_def)

lemma shape_my: "shape_ok (shape_of s) \<Longrightarrow> channels s c = Some ch \<Longrightarrow> x \<in> set (invites ch) \<Longrightarrow> MyConnect (users s x)"
  using invites_okD(4) [of "shape_of s" x c] by (simp add: shape_ok_def shape_simps)

text \<open>Clearing the invitations of a channel.\<close>

lemma del_invites_ok:
  "shape_ok (shape_of s) \<Longrightarrow> channels s c = Some ch \<Longrightarrow> invites ch = xs \<Longrightarrow>
    \<exists>s' ch'. del_invites c xs s = Some s' \<and> shape_ok (shape_of s') \<and> channels s' c = Some ch' \<and> invites ch' = [] \<and>
      s_link (shape_of s') = s_link (shape_of s) \<and> s_mem (shape_of s') = s_mem (shape_of s) \<and> s_name (shape_of s') = s_name (shape_of s) \<and>
      s_my (shape_of s') = s_my (shape_of s) \<and> s_cl (shape_of s') = s_cl (shape_of s) \<and> channel_list s' = channel_list s"
proof (induction xs arbitrary: s ch)
  case (Cons x xs)
  have "MyConnect (users s x)" using shape_my [OF Cons.prems(1,2)] Cons.prems(3) by simp
  then obtain s1 where s1: "del_invite c x s = Some s1" "shape_of s1 = sh_uninvite c x (shape_of s)"
      "channels s1 c = Some (ch\<lparr>invites := xs\<rparr>)"
    using del_invite_shape [OF Cons.prems(2), of x] Cons.prems(3) by auto
  moreover have "shape_ok (shape_of s1)" using s1(2) shape_uninvite [OF Cons.prems(1)] by simp
  moreover have "channel_list s1 = channel_list s" using s1(2) shape_of_simps(10) [of s1] by (simp add: sh_uninvite_def shape_simps)
  ultimately show ?case using Cons.IH [of s1 "ch\<lparr>invites := xs\<rparr>"] by (fastforce simp: sh_uninvite_def)
qed auto

definition populated :: "shape \<Rightarrow> bool" where
  "populated z \<longleftrightarrow> (\<forall>c. s_name z c \<noteq> None \<longrightarrow> s_mem z c \<noteq> [])"

definition same_people :: "shape \<Rightarrow> shape \<Rightarrow> bool" where
  "same_people z z' \<longleftrightarrow> s_my z' = s_my z \<and> s_cl z' = s_cl z"

lemma same_people_trans: "same_people a b \<Longrightarrow> same_people b c \<Longrightarrow> same_people a c"
  by (simp add: same_people_def)

lemma channel_live: "shape_ok (shape_of s) \<Longrightarrow> channels s c = Some ch \<Longrightarrow> c \<in> set (channel_list s)"
  using names_okD(2) [of "shape_of s" c] by (simp add: shape_ok_def shape_simps)

lemma destroy_ok:
  assumes s: "net_ok s" "channels s c = Some ch" "members ch = []"
  shows "\<exists>s'. destroy_channel c s = Some s' \<and> net_ok s' \<and> s_link (shape_of s') = s_link (shape_of s) \<and>
    s_mem (shape_of s') = s_mem (shape_of s) \<and> s_name (shape_of s') = (s_name (shape_of s))(c := None) \<and>
    same_people (shape_of s) (shape_of s')"
proof -
  obtain s1 ch1 where s1: "del_invites c (invites ch) s = Some s1" "net_ok s1" "channels s1 c = Some ch1" "invites ch1 = []"
      "s_link (shape_of s1) = s_link (shape_of s)" "s_mem (shape_of s1) = s_mem (shape_of s)"
      "s_name (shape_of s1) = s_name (shape_of s)" "same_people (shape_of s) (shape_of s1)" "channel_list s1 = channel_list s"
    using del_invites_ok [OF s(1,2) refl] by (auto simp: same_people_def)
  define s2 where "s2 = s1\<lparr>channel_list := remove1 c (channel_list s1), channels := (channels s1)(c := None)\<rparr>"
  have "destroy_channel c s = Some s2"
    using s s1 channel_live [OF s(1,2)] by (simp add: destroy_channel_def clear_invites_def list_delete_def s2_def)
  moreover have shape: "shape_of s2 = sh_drop c (shape_of s1)"
    by (rule shape_eqI) (auto simp: shape_of_def s2_def sh_drop_def fun_eq_iff)
  moreover have mem: "s_mem (shape_of s1) c = []" "s_inv (shape_of s1) c = []"
    using s(2,3) s1(3,4,6) by (auto simp: shape_simps)
  then have "net_ok s2" using shape_drop [OF s1(2)] shape by simp
  moreover have "(s_mem (shape_of s1))(c := []) = s_mem (shape_of s1)" using mem(1) by auto
  ultimately show ?thesis using s1(5-8) by (auto simp: sh_drop_def same_people_def)
qed

lemma remove_user_ok:
  assumes s: "net_ok s" and m: "mships s m = Some mb"
  shows "\<exists>s'. remove_user_from_channel m s = Some s' \<and> net_ok s' \<and> s_link (shape_of s') = (s_link (shape_of s))(m := None) \<and>
    (populated (shape_of s) \<longrightarrow> populated (shape_of s')) \<and> same_people (shape_of s) (shape_of s')"
proof -
  define c x where "c = mchan mb" and "x = mclient mb"
  have link: "s_link (shape_of s) m = Some (x, c)" using m by (simp add: shape_simps c_def x_def)
  have ok: "links_ok (shape_of s)" "names_ok (shape_of s)" using s by (auto simp: shape_ok_def)
  have mem: "m \<in> set (s_mem (shape_of s) c)" "m \<in> set (s_uch (shape_of s) x)"
    using link links_okD(2,4) [OF ok(1)] by blast+
  then obtain ch where ch: "channels s c = Some ch" "m \<in> set (members ch)"
    by (cases "channels s c") (auto simp: shape_simps)
  have loc: "MyConnect (users s x) \<Longrightarrow> m \<in> set (locmembers ch)"
    using links_okD(6) [OF ok(1), of c] ch link by (auto simp: shape_simps is_local_def)
  define ch1 where "ch1 = ch\<lparr>members := remove1 m (members ch),
    locmembers := (if MyConnect (users s x) then remove1 m (locmembers ch) else locmembers ch)\<rparr>"
  define s1 where "s1 = upd_user x (\<lambda>u. u\<lparr>uchannel := remove1 m (uchannel (users s x))\<rparr>)
    (s\<lparr>channels := (channels s)(c \<mapsto> ch1), mships := (mships s)(m := None)\<rparr>)"
  have shape: "shape_of s1 = sh_remove m c x (shape_of s)"
    using ch by (intro shape_eqI) (auto simp: shape_of_def s1_def ch1_def sh_remove_def upd_user_def MyConnect_def fun_eq_iff)
  have step: "remove_user_from_channel m s = (if members ch1 = [] then destroy_channel c s1 else Some s1)"
    using m ch loc mem(2)
    by (auto simp: remove_user_from_channel_def list_delete_def s1_def ch1_def c_def [symmetric] x_def [symmetric] shape_simps)
  have s1: "net_ok s1" "s_link (shape_of s1) = (s_link (shape_of s))(m := None)" "same_people (shape_of s) (shape_of s1)"
    using shape shape_remove [OF s link] by (auto simp: sh_remove_def same_people_def)
  have ch1: "channels s1 c = Some ch1" by (simp add: s1_def upd_user_def)
  have pop: "s_mem (shape_of s1) c' \<noteq> []" if "populated (shape_of s)" "s_name (shape_of s1) c' \<noteq> None" "c' = c \<longrightarrow> members ch1 \<noteq> []" for c'
  proof (cases "c' = c")
    case True
    then show ?thesis using that(3) ch1 by (simp add: shape_simps)
  next
    case False
    then show ?thesis using that(1,2) unfolding shape by (simp add: populated_def sh_remove_def)
  qed
  show ?thesis
  proof (cases "members ch1 = []")
    case False
    then show ?thesis using step s1 pop by (auto simp: populated_def)
  next
    case True
    obtain s2 where s2: "destroy_channel c s1 = Some s2" "net_ok s2" "s_link (shape_of s2) = s_link (shape_of s1)"
        "s_mem (shape_of s2) = s_mem (shape_of s1)" "s_name (shape_of s2) = (s_name (shape_of s1))(c := None)"
        "same_people (shape_of s1) (shape_of s2)"
      using destroy_ok [OF s1(1) ch1 True] by blast
    have "populated (shape_of s2)" if "populated (shape_of s)"
      unfolding populated_def s2(4,5) using pop [OF that] by auto
    then show ?thesis using step True s1 s2 same_people_trans by auto
  qed
qed

lemma add_user_ok:
  assumes s: "net_ok s" "channels s c = Some ch" "uisclient (users s x)" and new: "\<And>m. s_link (shape_of s) m \<noteq> Some (x, c)"
  shows "\<exists>s'. add_user_to_channel cfg c x flags fc s = Some s' \<and> net_ok s' \<and>
    s_link (shape_of s') = (s_link (shape_of s))(next_addr s \<mapsto> (x, c)) \<and> s_name (shape_of s') = s_name (shape_of s) \<and>
    s_mem (shape_of s') = (s_mem (shape_of s))(c := next_addr s # s_mem (shape_of s) c) \<and> same_people (shape_of s) (shape_of s')"
proof -
  obtain s' where s': "add_user_to_channel cfg c x flags fc s = Some s'" "shape_of s' = sh_add c x (shape_of s)"
    using add_user_shape [OF s(2,3)] by blast
  have "net_ok s'" unfolding s'(2) using s new by (intro shape_add) (auto simp: shape_simps)
  then show ?thesis using s' by (auto simp: sh_add_def same_people_def shape_simps)
qed

lemma del_invite_ok:
  assumes s: "net_ok s" "channels s c = Some ch" "MyConnect (users s x)"
  shows "\<exists>s'. del_invite c x s = Some s' \<and> net_ok s' \<and> s_link (shape_of s') = s_link (shape_of s) \<and>
    s_name (shape_of s') = s_name (shape_of s) \<and> s_mem (shape_of s') = s_mem (shape_of s) \<and> same_people (shape_of s) (shape_of s') \<and>
    s_uinv (shape_of s') = (s_uinv (shape_of s))(x := remove1 c (s_uinv (shape_of s) x))"
  using del_invite_shape [OF s(2,3)] shape_uninvite [OF s(1), of c x] by (auto simp: sh_uninvite_def same_people_def)

lemma channel_of_name: "s_name (shape_of s) c \<noteq> None \<Longrightarrow> \<exists>ch. channels s c = Some ch"
  by (auto simp: shape_simps)

section \<open>Searches and bans\<close>

lemma find_eq_Some_unique:
  assumes "\<And>a b. a \<in> set xs \<Longrightarrow> b \<in> set xs \<Longrightarrow> P a \<Longrightarrow> P b \<Longrightarrow> a = b"
  shows "find P xs = Some a \<longleftrightarrow> a \<in> set xs \<and> P a"
  using assms by (induction xs) auto

lemma find_channel_link_iff:
  assumes s: "net_ok s" and c: "channels s c = Some ch" and x: "uisclient (users s x)"
  shows "find_channel_link x c s = Some m \<longleftrightarrow> s_link (shape_of s) m = Some (x, c)"
proof -
  have ok: "links_ok (shape_of s)" using s by (simp add: shape_ok_def)
  have mem: "m \<in> set (members ch) \<longleftrightarrow> (\<exists>y. s_link (shape_of s) m = Some (y, c))" for m
    using links_okD(2) [OF ok, of m c] c by (simp add: shape_simps)
  have uch: "m \<in> set (uchannel (users s x)) \<longleftrightarrow> (\<exists>d. s_link (shape_of s) m = Some (x, d))" for m
    using links_okD(4) [OF ok, of m x] by (simp add: shape_simps)
  have client: "map_option mclient (mships s m) = Some y \<longleftrightarrow> (\<exists>d. s_link (shape_of s) m = Some (y, d))" for m y
    by (auto simp: shape_simps)
  have chan: "map_option mchan (mships s m) = Some d \<longleftrightarrow> (\<exists>y. s_link (shape_of s) m = Some (y, d))" for m d
    by (auto simp: shape_simps)
  have uniq: "a = b" if "s_link (shape_of s) a = Some p" "s_link (shape_of s) b = Some p" for a b p
    using that links_okD(5) [OF ok] by blast
  have "find (\<lambda>m. map_option mclient (mships s m) = Some x) (members ch) = Some m \<longleftrightarrow> s_link (shape_of s) m = Some (x, c)"
    unfolding client by (subst find_eq_Some_unique) (use mem uniq in fastforce)+
  moreover have "find (\<lambda>m. map_option mchan (mships s m) = Some c) (uchannel (users s x)) = Some m \<longleftrightarrow> s_link (shape_of s) m = Some (x, c)"
    unfolding chan by (subst find_eq_Some_unique) (use uch uniq in fastforce)+
  ultimately show ?thesis using c x by (simp add: find_channel_link_def)
qed

lemma hash_find_channel_Some:
  "hash_find_channel n s = Some c \<Longrightarrow> \<exists>ch. channels s c = Some ch \<and> irccmp (ch_name ch) n = 0"
  by (auto simp: hash_find_channel_def find_Some_iff split: option.splits)

lemma hash_find_channel_None:
  "hash_find_channel n s = None \<Longrightarrow> net_ok s \<Longrightarrow> channels s c = Some ch \<Longrightarrow> irccmp (ch_name ch) n \<noteq> 0"
  using channel_live [of s c ch] by (fastforce simp: hash_find_channel_def find_None_iff)

definition plain_ban :: "Ban \<Rightarrow> bool" where
  "plain_ban b \<longleftrightarrow> CHR 0x5C \<notin> set (bname b) \<and> CHR 0x5C \<notin> set (buser b) \<and> CHR 0x5C \<notin> set (bhost b)"

definition ban_matches :: "user \<Rightarrow> Ban \<Rightarrow> bool" where
  "ban_matches u b \<longleftrightarrow> wild (bname b) (uname u) \<and> wild (buser b) (uusername u) \<and>
     (case bmask b of
        HM_HOST \<Rightarrow> wild (bhost b) (uhost u) \<or> wild (bhost b) (usockhost u)
      | HM_IPV4 a k \<Rightarrow> (\<exists>x. uip u = Some (V4 x) \<and> match_ipv4 x a k)
      | HM_IPV6 a k \<Rightarrow> (\<exists>x. uip u = Some (V6 x) \<and> match_ipv6 x a k))"

lemma match_zero_plain: "CHR 0x5C \<notin> set m \<Longrightarrow> match_zero m n = Some (wild m n)"
  by (simp add: match_zero_def match_plain_mask)

lemma ban_hits_plain: "plain_ban b \<Longrightarrow> uip u \<noteq> None \<Longrightarrow> ban_hits u b = Some (ban_matches u b)"
  by (auto simp: ban_hits_def plain_ban_def match_zero_plain ban_matches_def split: netmask.split address.split)

lemma find_bmask_plain: "\<forall>b \<in> set bs. plain_ban b \<Longrightarrow> uip u \<noteq> None \<Longrightarrow> find_bmask u bs = Some (\<exists>b \<in> set bs. ban_matches u b)"
  by (induction bs) (auto simp: ban_hits_plain)

definition banned :: "Channel \<Rightarrow> user \<Rightarrow> bool" where
  "banned ch u \<longleftrightarrow> (\<exists>b \<in> set (banlist ch). ban_matches u b) \<and> \<not> (\<exists>b \<in> set (exceptlist ch). ban_matches u b)"

definition plain_chan :: "Channel \<Rightarrow> bool" where
  "plain_chan ch \<longleftrightarrow> (\<forall>b \<in> set (banlist ch) \<union> set (exceptlist ch) \<union> set (invexlist ch). plain_ban b)"

definition plain_net :: "net \<Rightarrow> bool" where
  "plain_net s \<longleftrightarrow> (\<forall>c ch. channels s c = Some ch \<longrightarrow> plain_chan ch)"

definition plain_resv :: "chan_config \<Rightarrow> bool" where
  "plain_resv cfg \<longleftrightarrow> (\<forall>r \<in> set (cresv_items cfg). CHR 0x5C \<notin> set (rv_name r) \<and> (\<forall>e \<in> set (rv_exempt r). plain_ban (ex_mask e)))"

lemma is_banned_plain: "plain_chan ch \<Longrightarrow> uip u \<noteq> None \<Longrightarrow> is_banned ch u = Some (banned ch u)"
  by (auto simp: is_banned_def plain_chan_def find_bmask_plain banned_def)

lemma resv_find_exempt_total:
  "\<forall>e \<in> set es. plain_ban (ex_mask e) \<Longrightarrow> uip u \<noteq> None \<Longrightarrow> \<exists>b. resv_find_exempt u es = Some b"
  by (induction es) (auto simp: ban_hits_plain)

lemma resv_search_total: "\<forall>r \<in> set rs. CHR 0x5C \<notin> set (rv_name r) \<Longrightarrow> \<exists>o'. resv_search n rs = Some o' \<and> (\<forall>r. o' = Some r \<longrightarrow> r \<in> set rs)"
  by (induction rs) (auto simp: match_zero_plain)

lemma resv_blocks_total:
  assumes "plain_resv cfg" "uip u \<noteq> None"
  shows "\<exists>b. resv_blocks cfg u n = Some b"
proof -
  have "\<exists>o'. match_find_resv cfg n = Some o' \<and> (\<forall>r. o' = Some r \<longrightarrow> r \<in> set (cresv_items cfg))"
    using resv_search_total [of "cresv_items cfg" n] assms(1) by (auto simp: match_find_resv_def plain_resv_def)
  then obtain o' where o': "match_find_resv cfg n = Some o'" "\<And>r. o' = Some r \<Longrightarrow> r \<in> set (cresv_items cfg)" by blast
  show ?thesis
  proof (cases o')
    case None
    then show ?thesis using o'(1) by (auto simp: resv_blocks_def)
  next
    case (Some r)
    then have "\<exists>b. resv_find_exempt u (rv_exempt r) = Some b"
      using o'(2) assms by (intro resv_find_exempt_total) (auto simp: plain_resv_def)
    then show ?thesis using o'(1) Some by (auto simp: resv_blocks_def)
  qed
qed

text \<open>The decision of \<open>can_join\<close>, by the order of its tests.\<close>

lemma can_join_plain:
  assumes "channels s c = Some ch" "plain_chan ch" "uip (users s x) \<noteq> None"
  shows "can_join x c key s = Some
    (let u = users s x in
     if has_flag (ch_mode ch) MODE_SSLONLY \<and> \<not> has_flag (uumodes u) UMODE_SSL then ERR_SSLONLYCHAN
     else if has_flag (ch_mode ch) MODE_REGONLY \<and> \<not> has_flag (uumodes u) UMODE_REGISTERED then ERR_NEEDREGGEDNICK
     else if has_flag (ch_mode ch) MODE_OPERONLY \<and> \<not> has_flag (uumodes u) UMODE_OPER then ERR_OPERONLYCHAN
     else if has_flag (ch_mode ch) MODE_INVITEONLY \<and> c \<notin> set (uinvited u) \<and> \<not> (\<exists>b \<in> set (invexlist ch). ban_matches u b)
     then ERR_INVITEONLYCHAN
     else if ch_key ch \<noteq> [] \<and> key \<noteq> Some (ch_key ch) then ERR_BADCHANNELKEY
     else if ch_limit ch \<noteq> 0 \<and> length (members ch) \<ge> ch_limit ch then ERR_CHANNELISFULL
     else if banned ch u then ERR_BANNEDFROMCHAN else 0)"
proof -
  have "(if has_flag (ch_mode ch) MODE_INVITEONLY
         then (if uip (users s x) = None then None
               else if c \<in> set (uinvited (users s x)) then Some False
               else map_option Not (find_bmask (users s x) (invexlist ch)))
         else Some False) =
      Some (has_flag (ch_mode ch) MODE_INVITEONLY \<and> c \<notin> set (uinvited (users s x)) \<and> \<not> (\<exists>b \<in> set (invexlist ch). ban_matches (users s x) b))"
    using assms(2,3) by (auto simp: find_bmask_plain plain_chan_def)
  moreover have "(case key of None \<Rightarrow> True | Some k \<Rightarrow> ch_key ch \<noteq> k) \<longleftrightarrow> key \<noteq> Some (ch_key ch)"
    by (auto split: option.split)
  ultimately show ?thesis
    using assms(1) is_banned_plain [OF assms(2,3)] by (simp add: can_join_def Let_def)
qed

end
