(* ===== verification/ChannelMode.thy ===== *)
theory ChannelMode
  imports Channel
begin

text \<open>
  Channel modes, \<open>src/src/channel_mode.c\<close>: the mask lists with \<open>add_id\<close> and \<open>del_id\<close>, keys, the handler of
  every mode letter, \<open>set_channel_mode\<close> and the lines that announce the changes, with \<open>split_nuh\<close> of
  \<open>src/src/conf.c\<close> and \<open>find_chasing\<close> of \<open>src/src/client.c\<close>.

  The static variables and the counters a handler gets by reference are the record \<open>mode_state\<close>. The arrays
  \<open>mode_changes\<close>, \<open>nuh_mask\<close>, \<open>modebuf\<close> and \<open>parabuf\<close> keep their sizes: a write outside of them is \<open>None\<close>.
  The argument of a change is a pointer; the one that \<open>chm_key\<close> records points to the key in the channel and is read
  when the lines are built. The client tables behind \<open>find_chasing\<close> are the record \<open>directory\<close>; theories Hash and
  Whowas model them.
\<close>

section \<open>Constants\<close>

definition NICKLEN :: nat where "NICKLEN = 12"
definition USERLEN :: nat where "USERLEN = 40"
definition HOSTLEN :: nat where "HOSTLEN = 63"
definition KEYLEN :: nat where "KEYLEN = 23"
definition IRCD_BUFSIZE :: nat where "IRCD_BUFSIZE = 512"
definition MODEBUFLEN :: nat where "MODEBUFLEN = 200"
definition MAXMODEPARAMS :: nat where "MAXMODEPARAMS = 6"
definition MAXPARA :: nat where "MAXPARA = 15"
definition BAN_FUDGE :: nat where "BAN_FUDGE = 10"

definition CHFL_BAN :: u32 where "CHFL_BAN = 0x8"
definition CHFL_EXCEPTION :: u32 where "CHFL_EXCEPTION = 0x10"
definition CHFL_INVEX :: u32 where "CHFL_INVEX = 0x20"
definition MODE_REGISTERED :: u32 where "MODE_REGISTERED = 0x100"
definition FLAGS_HIDDEN :: u32 where "FLAGS_HIDDEN = 0x8000"
definition OPER_FLAG_OPME :: u32 where "OPER_FLAG_OPME = 0x800000"

definition CHACCESS_NOTONCHAN :: int where "CHACCESS_NOTONCHAN = -1"
definition CHACCESS_PEON :: int where "CHACCESS_PEON = 0"
definition CHACCESS_HALFOP :: int where "CHACCESS_HALFOP = 1"
definition CHACCESS_CHANOP :: int where "CHACCESS_CHANOP = 2"
definition CHACCESS_REMOTE :: int where "CHACCESS_REMOTE = 3"

definition SM_ERR_NOOPS :: u32 where "SM_ERR_NOOPS = 1"
definition SM_ERR_UNKNOWN :: u32 where "SM_ERR_UNKNOWN = 2"
definition SM_ERR_RPL_B :: u32 where "SM_ERR_RPL_B = 4"
definition SM_ERR_RPL_E :: u32 where "SM_ERR_RPL_E = 8"
definition SM_ERR_RPL_I :: u32 where "SM_ERR_RPL_I = 16"
definition SM_ERR_NOTONCHANNEL :: u32 where "SM_ERR_NOTONCHANNEL = 32"
definition SM_ERR_NOTOPER :: u32 where "SM_ERR_NOTOPER = 64"
definition SM_ERR_ONLYSERVER :: u32 where "SM_ERR_ONLYSERVER = 128"

datatype mode_dir = MODE_QUERY | MODE_ADD | MODE_DEL

definition chan_modes :: "(u32 \<times> char) list" where
  "chan_modes =
    [(MODE_NOCTRL, CHR ''c''), (MODE_INVITEONLY, CHR ''i''), (MODE_MODERATED, CHR ''m''), (MODE_NOPRIVMSGS, CHR ''n''),
     (MODE_PRIVATE, CHR ''p''), (MODE_REGISTERED, CHR ''r''), (MODE_SECRET, CHR ''s''), (MODE_TOPICLIMIT, CHR ''t''),
     (MODE_NOCTCP, CHR ''C''), (MODE_MODREG, CHR ''M''), (MODE_OPERONLY, CHR ''O''), (MODE_REGONLY, CHR ''R''),
     (MODE_SSLONLY, CHR ''S'')]"

section \<open>Masks\<close>

definition check_string :: "string \<Rightarrow> string" where
  "check_string s = (let t = takeWhile (\<lambda>c. \<not> IsSpace c) s in if t = [] then ''*'' else t)"

text \<open>\<open>split_nuh\<close>: the sizes of the three buffers, \<open>None\<close> for the nick if there is no buffer for it.\<close>

definition split_nuh :: "nat option \<Rightarrow> nat \<Rightarrow> nat \<Rightarrow> string \<Rightarrow> string option \<times> string \<times> string" where
  "split_nuh nicksize usersize hostsize nuhmask =
    (let nick = (\<lambda>n. map_option (strlcpy_str n) nicksize);
         or_star = (\<lambda>t. if t = [] then ''*'' else t)
     in if CHR ''!'' \<in> set nuhmask then
          (let p = tl (dropWhile (\<lambda>c. c \<noteq> CHR ''!'') nuhmask);
               q = (if CHR ''@'' \<in> set p then tl (dropWhile (\<lambda>c. c \<noteq> CHR ''@'') p) else [])
           in (nick (or_star (takeWhile (\<lambda>c. c \<noteq> CHR ''!'') nuhmask)), strlcpy_str (or_star (takeWhile (\<lambda>c. c \<noteq> CHR ''@'') p)) usersize,
               strlcpy_str (or_star q) hostsize))
        else if CHR ''@'' \<in> set nuhmask then
          (nick ''*'', strlcpy_str (or_star (takeWhile (\<lambda>c. c \<noteq> CHR ''@'') nuhmask)) usersize,
           strlcpy_str (or_star (tl (dropWhile (\<lambda>c. c \<noteq> CHR ''@'') nuhmask))) hostsize)
        else if nicksize = None \<or> CHR ''.'' \<in> set nuhmask \<or> CHR '':'' \<in> set nuhmask then
          (nick ''*'', strlcpy_str ''*'' usersize, strlcpy_str nuhmask hostsize)
        else (nick nuhmask, strlcpy_str ''*'' usersize, strlcpy_str ''*'' hostsize))"

definition mask_parts :: "string \<Rightarrow> string \<times> string \<times> string" where
  "mask_parts banid =
    (case split_nuh (Some (NICKLEN + 1)) (USERLEN + 1) (HOSTLEN + 1) (check_string banid) of
       (n, u, h) \<Rightarrow> (the n, u, h))"

definition nuh_text :: "string \<Rightarrow> string \<Rightarrow> string \<Rightarrow> string" where
  "nuh_text n u h = n @ ''!'' @ u @ ''@'' @ h"

definition mask_list :: "u32 \<Rightarrow> Channel \<Rightarrow> Ban list option" where
  "mask_list type ch =
    (if type = CHFL_BAN then Some (banlist ch) else if type = CHFL_EXCEPTION then Some (exceptlist ch)
     else if type = CHFL_INVEX then Some (invexlist ch) else None)"

definition set_mask_list :: "u32 \<Rightarrow> Ban list \<Rightarrow> Channel \<Rightarrow> Channel" where
  "set_mask_list type bs ch =
    (if type = CHFL_BAN then ch\<lparr>banlist := bs\<rparr> else if type = CHFL_EXCEPTION then ch\<lparr>exceptlist := bs\<rparr>
     else if type = CHFL_INVEX then ch\<lparr>invexlist := bs\<rparr> else ch)"

definition clear_cached :: "Membership \<Rightarrow> Membership" where
  "clear_cached mb = mb\<lparr>mflags := del_flag (mflags mb) (CHFL_BAN_SILENCED OR CHFL_BAN_CHECKED)\<rparr>"

fun clear_cache_loop :: "addr list \<Rightarrow> net \<Rightarrow> net option" where
  "clear_cache_loop [] s = Some s"
| "clear_cache_loop (m # ms) s = do {
     mb \<leftarrow> mships s m;
     clear_cache_loop ms (s\<lparr>mships := (mships s)(m \<mapsto> clear_cached mb)\<rparr>)
   }"

definition clear_ban_cache_channel :: "addr \<Rightarrow> net \<Rightarrow> net option" where
  "clear_ban_cache_channel c s = do { ch \<leftarrow> channels s c; clear_cache_loop (locmembers ch) s }"

definition clear_ban_cache_client :: "addr \<Rightarrow> net \<Rightarrow> net option" where
  "clear_ban_cache_client x s = clear_cache_loop (uchannel (users s x)) s"

definition same_mask :: "string \<Rightarrow> string \<Rightarrow> string \<Rightarrow> Ban \<Rightarrow> bool" where
  "same_mask n u h b \<longleftrightarrow> irccmp (bname b) n = 0 \<and> irccmp (buser b) u = 0 \<and> irccmp (bhost b) h = 0"

definition ban_who :: "chan_config \<Rightarrow> user \<Rightarrow> string" where
  "ban_who cfg u =
    strlcpy_str
      (if uisclient u then nuh_text (uname u) (uusername u) (uhost u)
       else if has_flag (uflags u) FLAGS_HIDDEN \<or> hide_servers cfg then me_name cfg else uname u)
      (NICKLEN + USERLEN + HOSTLEN + 3)"

text \<open>The result of \<open>add_id\<close> and \<open>del_id\<close> is the returned flag and the text left in \<open>banid\<close>.\<close>

definition add_id :: "chan_config \<Rightarrow> addr \<Rightarrow> addr \<Rightarrow> string \<Rightarrow> u32 \<Rightarrow> net \<Rightarrow> (bool \<times> string \<times> net) option" where
  "add_id cfg x c banid type s = do {
     ch \<leftarrow> channels s c;
     let u = users s x;
     if MyClient u \<and> length (banlist ch) + length (exceptlist ch) + length (invexlist ch) \<ge> max_bans cfg
     then Some (False, banid, send_event (Numeric x 478 banid) s)
     else do {
       let (n, us, h) = mask_parts (if MyClient u then collapse banid else banid);
       let banid' = strlcpy_str (nuh_text n us h) IRCD_BUFSIZE;
       s1 \<leftarrow> (if type = CHFL_BAN \<or> type = CHFL_EXCEPTION then clear_ban_cache_channel c s else Some s);
       list \<leftarrow> mask_list type ch;
       if (\<exists>b \<in> set list. same_mask n us h b) then Some (False, banid', s1)
       else do {
         mk \<leftarrow> (case parse_netmask h of Inl _ \<Rightarrow> None | Inr mk \<Rightarrow> Some mk);
         let ban = \<lparr>bname = n, buser = us, bhost = h, bwho = ban_who cfg u, blen = length (nuh_text n us h) - 2,
                    bwhen = CurrentTime cfg, bmask = mk\<rparr>;
         s2 \<leftarrow> upd_channel c (set_mask_list type (ban # list)) s1;
         Some (True, banid', s2)
       }
     }
   }"

definition del_id :: "addr \<Rightarrow> string \<Rightarrow> u32 \<Rightarrow> net \<Rightarrow> (bool \<times> string \<times> net) option" where
  "del_id c banid type s = do {
     ch \<leftarrow> channels s c;
     let (n, us, h) = mask_parts banid;
     let banid' = strlcpy_str (nuh_text n us h) IRCD_BUFSIZE;
     s1 \<leftarrow> (if type = CHFL_BAN \<or> type = CHFL_EXCEPTION then clear_ban_cache_channel c s else Some s);
     list \<leftarrow> mask_list type ch;
     (case find (same_mask n us h) list of
        None \<Rightarrow> Some (False, banid', s1)
      | Some b \<Rightarrow> do {
          s2 \<leftarrow> upd_channel c (set_mask_list type (remove1 b list)) s1;
          Some (True, banid', s2)
        })
   }"

section \<open>Modes as text, keys\<close>

text \<open>The limit is an \<open>unsigned int\<close> that is printed with \<open>%d\<close>.\<close>

definition show_limit :: "nat \<Rightarrow> string" where
  "show_limit n = (if n < 2 ^ 31 then show_nat n else ''-'' @ show_nat (2 ^ 32 - n))"

definition channel_modes :: "addr \<Rightarrow> addr \<Rightarrow> net \<Rightarrow> (string \<times> string) option" where
  "channel_modes c x s = do {
     ch \<leftarrow> channels s c;
     let u = users s x;
     let shown = (uisserver u \<or> has_flag (uflags u) FLAGS_SERVICE \<or> find_channel_link x c s \<noteq> None);
     let letters = map snd (filter (\<lambda>(m, l). has_flag (ch_mode ch) m) chan_modes);
     Some (''+'' @ letters @ (if ch_limit ch \<noteq> 0 then ''l'' else []) @ (if ch_key ch \<noteq> [] then ''k'' else []),
           (if ch_limit ch \<noteq> 0 \<and> shown then show_limit (ch_limit ch) @ '' '' else []) @
           (if ch_key ch \<noteq> [] \<and> shown then ch_key ch @ '' '' else []))
   }"

definition fix_key :: "string \<Rightarrow> string" where
  "fix_key arg =
    filter (\<lambda>c. c \<noteq> CHR '':'' \<and> (of_char c :: nat) > 32 \<and> c \<noteq> CHR '','') (map (\<lambda>c. char_of ((of_char c :: nat) mod 128)) arg)"

text \<open>\<open>atoi\<close>: \<open>strtol\<close> with a 64-bit \<open>long\<close>, which saturates, converted to \<open>int\<close>.\<close>

definition atoi :: "string \<Rightarrow> int" where
  "atoi s =
    (let (neg, t) = skip_sign (dropWhile IsSpace s);
         n = int (decimal (takeWhile IsDigit t));
         v = (if neg then max (- (2 ^ 63)) (- n) else min (2 ^ 63 - 1) n)
     in sint (word_of_int v :: u32))"

section \<open>Handlers\<close>

datatype change_arg = NoArg | ArgText string | ArgKey

record ChModeChange =
  letter :: char
  arg :: change_arg
  change_id :: "string option"
  change_dir :: mode_dir

record mode_state =
  mnet :: net
  mode_changes :: "ChModeChange list"
  mode_limit :: nat
  simple_modes_mask :: u32
  parn :: nat
  errors :: u32

record directory =
  dir_id :: "string \<Rightarrow> addr option"
  dir_client :: "string \<Rightarrow> addr option"
  dir_history :: "string \<Rightarrow> addr option"
  dir_from_server :: "addr \<Rightarrow> bool"

text \<open>What all handlers get: configuration, tables, the source, the channel, the parameters with the mode string
  first, and the access level.\<close>

record mode_env =
  me_cfg :: chan_config
  me_dir :: directory
  me_source :: addr
  me_chan :: addr
  me_parv :: "string list"
  me_alev :: int

type_synonym mode_func = "mode_env \<Rightarrow> mode_dir \<Rightarrow> char \<Rightarrow> u32 \<Rightarrow> mode_state \<Rightarrow> mode_state option"

definition HasOFlag :: "user \<Rightarrow> u32 \<Rightarrow> bool" where
  "HasOFlag u f \<longleftrightarrow> MyConnect u \<and> has_flag (uoperflags u) f"

definition find_person :: "directory \<Rightarrow> addr \<Rightarrow> string \<Rightarrow> net \<Rightarrow> addr option" where
  "find_person d x name s =
    (case (if IsDigit (deref name) then (if dir_from_server d x then dir_id d name else None) else dir_client d name) of
       None \<Rightarrow> None
     | Some y \<Rightarrow> if uisclient (users s y) then Some y else None)"

definition find_chasing :: "directory \<Rightarrow> addr \<Rightarrow> string \<Rightarrow> net \<Rightarrow> addr option \<times> net" where
  "find_chasing d x name s =
    (case find_person d x name s of
       Some y \<Rightarrow> (Some y, s)
     | None \<Rightarrow>
         if IsDigit (deref name) then (None, s)
         else case dir_history d name of
             None \<Rightarrow> (None, send_event (Numeric x 401 name) s)
           | Some y \<Rightarrow> (Some y, s))"

definition ms_send :: "chan_event \<Rightarrow> mode_state \<Rightarrow> mode_state" where
  "ms_send e ms = ms\<lparr>mnet := send_event e (mnet ms)\<rparr>"

text \<open>An error that is only sent once in a call.\<close>

definition once :: "u32 \<Rightarrow> addr \<Rightarrow> nat \<Rightarrow> string \<Rightarrow> mode_state \<Rightarrow> mode_state" where
  "once err x num what ms =
    (let ms1 = (if has_flag (errors ms) err then ms else ms_send (Numeric x num what) ms)
     in ms1\<lparr>errors := add_flag (errors ms1) err\<rparr>)"

definition refuse :: "u32 \<Rightarrow> nat \<Rightarrow> mode_env \<Rightarrow> mode_state \<Rightarrow> mode_state option" where
  "refuse err num env ms =
    map_option (\<lambda>ch. once err (me_source env) (if me_alev env = CHACCESS_NOTONCHAN then 442 else num) (ch_name ch) ms)
      (channels (mnet ms) (me_chan env))"

definition add_change :: "char \<Rightarrow> change_arg \<Rightarrow> string option \<Rightarrow> mode_dir \<Rightarrow> mode_state \<Rightarrow> mode_state option" where
  "add_change c a i dir ms =
    (if length (mode_changes ms) < IRCD_BUFSIZE
     then Some (ms\<lparr>mode_changes := mode_changes ms @ [\<lparr>letter = c, arg = a, change_id = i, change_dir = dir\<rparr>]\<rparr>) else None)"

definition set_channel :: "addr \<Rightarrow> (Channel \<Rightarrow> Channel) \<Rightarrow> mode_state \<Rightarrow> mode_state option" where
  "set_channel c f ms = map_option (\<lambda>s. ms\<lparr>mnet := s\<rparr>) (upd_channel c f (mnet ms))"

definition chm_nosuch :: mode_func where
  "chm_nosuch env dir c d ms = Some (once SM_ERR_UNKNOWN (me_source env) 472 [c] ms)"

text \<open>The common end of the handlers of simple modes.\<close>

definition simple_change :: mode_func where
  "simple_change env dir c d ms =
    (if has_flag (simple_modes_mask ms) d then Some ms
     else do {
       let ms1 = ms\<lparr>simple_modes_mask := add_flag (simple_modes_mask ms) d\<rparr>;
       (case dir of
          MODE_ADD \<Rightarrow> do { ms2 \<leftarrow> set_channel (me_chan env) (\<lambda>ch. ch\<lparr>ch_mode := add_flag (ch_mode ch) d\<rparr>) ms1; add_change c NoArg None dir ms2 }
        | MODE_DEL \<Rightarrow> do { ms2 \<leftarrow> set_channel (me_chan env) (\<lambda>ch. ch\<lparr>ch_mode := del_flag (ch_mode ch) d\<rparr>) ms1; add_change c NoArg None dir ms2 }
        | MODE_QUERY \<Rightarrow> Some ms1)
     })"

definition chm_simple :: mode_func where
  "chm_simple env dir c d ms =
    (if me_alev env < CHACCESS_HALFOP then refuse SM_ERR_NOOPS 482 env ms else simple_change env dir c d ms)"

definition chm_registered :: mode_func where
  "chm_registered env dir c d ms =
    (let u = users (mnet ms) (me_source env)
     in if \<not> uisserver u \<and> \<not> has_flag (uflags u) FLAGS_SERVICE then refuse SM_ERR_ONLYSERVER 468 env ms
        else simple_change env dir c d ms)"

definition below :: "int \<Rightarrow> mode_env \<Rightarrow> mode_state \<Rightarrow> bool" where
  "below level env ms \<longleftrightarrow> me_alev env < level \<and> \<not> HasOFlag (users (mnet ms) (me_source env)) OPER_FLAG_OPME"

definition chm_operonly :: mode_func where
  "chm_operonly env dir c d ms =
    (let u = users (mnet ms) (me_source env)
     in if below CHACCESS_HALFOP env ms then refuse SM_ERR_NOOPS 482 env ms
        else if MyClient u \<and> \<not> has_flag (uumodes u) UMODE_OPER then Some (once SM_ERR_NOTOPER (me_source env) 481 [] ms)
        else simple_change env dir c d ms)"

text \<open>\<open>MyClient(source_p) && (++mode_limit > MAXMODEPARAMS)\<close>: the counter and whether the change is dropped.\<close>

definition count_param :: "mode_env \<Rightarrow> mode_state \<Rightarrow> bool \<times> mode_state" where
  "count_param env ms =
    (if MyClient (users (mnet ms) (me_source env))
     then (mode_limit ms + 1 > MAXMODEPARAMS, ms\<lparr>mode_limit := mode_limit ms + 1\<rparr>) else (False, ms))"

definition list_reply :: "addr \<Rightarrow> nat \<Rightarrow> Ban list \<Rightarrow> mode_state \<Rightarrow> mode_state" where
  "list_reply x rpl bs ms = fold (\<lambda>b. ms_send (Numeric x rpl (nuh_text (bname b) (buser b) (bhost b)))) bs ms"

text \<open>The three handlers of mask lists differ in the list, the error bit and the reply numerics.\<close>

definition chm_mask :: "u32 \<Rightarrow> u32 \<Rightarrow> nat \<Rightarrow> nat \<Rightarrow> mode_func" where
  "chm_mask type err rpl endrpl env dir c d ms =
    (let x = me_source env; u = users (mnet ms) x in
     if dir = MODE_QUERY \<or> length (me_parv env) \<le> parn ms then
       (if has_flag (errors ms) err then Some ms
        else do {
          ch \<leftarrow> channels (mnet ms) (me_chan env);
          bs \<leftarrow> mask_list type ch;
          Some (ms_send (Numeric x endrpl (ch_name ch)) (list_reply x rpl bs (ms\<lparr>errors := add_flag (errors ms) err\<rparr>)))
        })
     else if below CHACCESS_HALFOP env ms then refuse SM_ERR_NOOPS 482 env ms
     else case count_param env ms of (full, ms1) \<Rightarrow>
       if full then Some ms1
       else if parn ms1 \<ge> MAXPARA then None
       else do {
         let text1 = strlcpy_str (me_parv env ! parn ms1) IRCD_BUFSIZE;
         let ms2 = ms1\<lparr>parn := parn ms1 + 1\<rparr>;
         if deref text1 = CHR '':'' \<or> \<not> MyConnect u \<and> CHR '' '' \<in> set text1 then Some ms2
         else do {
           (ok, text2, s) \<leftarrow> (if dir = MODE_ADD then add_id (me_cfg env) x (me_chan env) text1 type (mnet ms2)
                               else del_id (me_chan env) text1 type (mnet ms2));
           let ms3 = ms2\<lparr>mnet := s\<rparr>;
           if ok then add_change c (ArgText text2) None dir ms3 else Some ms3
         }
       })"

definition chm_ban :: mode_func where
  "chm_ban = chm_mask CHFL_BAN SM_ERR_RPL_B 367 368"

definition chm_except :: mode_func where
  "chm_except = chm_mask CHFL_EXCEPTION SM_ERR_RPL_E 348 349"

definition chm_invex :: mode_func where
  "chm_invex = chm_mask CHFL_INVEX SM_ERR_RPL_I 346 347"

definition set_member_flags :: "addr \<Rightarrow> (u32 \<Rightarrow> u32) \<Rightarrow> mode_state \<Rightarrow> mode_state option" where
  "set_member_flags m f ms =
    map_option (\<lambda>mb. ms\<lparr>mnet := (mnet ms)\<lparr>mships := (mships (mnet ms))(m \<mapsto> mb\<lparr>mflags := f (mflags mb)\<rparr>)\<rparr>\<rparr>) (mships (mnet ms) m)"

text \<open>The three handlers of member status; \<open>chm_op\<close> does not suppress a redundant \<open>+o\<close>.\<close>

definition chm_status :: "int \<Rightarrow> u32 \<Rightarrow> bool \<Rightarrow> mode_func" where
  "chm_status level flag skip_add env dir c d ms =
    (let x = me_source env in
     if below level env ms then refuse SM_ERR_NOOPS 482 env ms
     else if dir = MODE_QUERY \<or> length (me_parv env) \<le> parn ms then Some ms
     else case find_chasing (me_dir env) x (me_parv env ! parn ms) (mnet ms) of (target, s) \<Rightarrow>
       (let ms1 = ms\<lparr>parn := parn ms + 1, mnet := s\<rparr> in
        case target of
          None \<Rightarrow> Some ms1
        | Some y \<Rightarrow>
            (case find_channel_link y (me_chan env) s of
               None \<Rightarrow> Some (once SM_ERR_NOTONCHANNEL x 441 (uname (users s y)) ms1)
             | Some m \<Rightarrow>
                 (case count_param env ms1 of (full, ms2) \<Rightarrow>
                    if full then Some ms2
                    else if skip_add \<and> dir = MODE_ADD \<and> has_member_flags (mships s m) flag then Some ms2
                    else if dir = MODE_DEL \<and> \<not> has_member_flags (mships s m) flag then Some ms2
                    else do {
                      ms3 \<leftarrow> add_change c (ArgText (uname (users s y))) (Some (uid (users s y))) dir ms2;
                      set_member_flags m (\<lambda>f. if dir = MODE_ADD then add_flag f flag else del_flag f flag) ms3
                    }))))"

definition chm_voice :: mode_func where
  "chm_voice = chm_status CHACCESS_HALFOP CHFL_VOICE True"

definition chm_hop :: mode_func where
  "chm_hop = chm_status CHACCESS_CHANOP CHFL_HALFOP True"

definition chm_op :: mode_func where
  "chm_op = chm_status CHACCESS_CHANOP CHFL_CHANOP False"

text \<open>A second \<open>+k\<close> or \<open>+l\<close> in a command takes the place of the first.\<close>

definition drop_earlier :: "char \<Rightarrow> mode_state \<Rightarrow> mode_state" where
  "drop_earlier c ms =
    ms\<lparr>mode_changes := map (\<lambda>ch. if letter ch = c \<and> change_dir ch = MODE_ADD then ch\<lparr>letter := NUL\<rparr> else ch) (mode_changes ms)\<rparr>"

definition chm_limit :: mode_func where
  "chm_limit env dir c d ms =
    (if below CHACCESS_HALFOP env ms then refuse SM_ERR_NOOPS 482 env ms
     else if dir = MODE_ADD \<and> length (me_parv env) > parn ms then
       (let lstr = me_parv env ! parn ms; limit = atoi lstr; ms1 = ms\<lparr>parn := parn ms + 1\<rparr> in
        if lstr = [] \<or> limit \<le> 0 then Some ms1
        else do {
          ms2 \<leftarrow> add_change c (ArgText (show_nat (nat limit))) None dir (drop_earlier c ms1);
          set_channel (me_chan env) (\<lambda>ch. ch\<lparr>ch_limit := nat limit\<rparr>) ms2
        })
     else if dir = MODE_DEL then do {
       ch \<leftarrow> channels (mnet ms) (me_chan env);
       if ch_limit ch = 0 then Some ms
       else do { ms1 \<leftarrow> set_channel (me_chan env) (\<lambda>ch. ch\<lparr>ch_limit := 0\<rparr>) ms; add_change c NoArg None dir ms1 }
     }
     else Some ms)"

definition chm_key :: mode_func where
  "chm_key env dir c d ms =
    (if below CHACCESS_HALFOP env ms then refuse SM_ERR_NOOPS 482 env ms
     else if dir = MODE_ADD \<and> length (me_parv env) > parn ms then
       (let key = fix_key (me_parv env ! parn ms); ms1 = ms\<lparr>parn := parn ms + 1\<rparr> in
        if key = [] then Some ms1
        else do {
          ms2 \<leftarrow> set_channel (me_chan env) (\<lambda>ch. ch\<lparr>ch_key := strlcpy_str key (KEYLEN + 1)\<rparr>) ms1;
          add_change c ArgKey None dir (drop_earlier c ms2)
        })
     else if dir = MODE_DEL then do {
       let ms1 = (if length (me_parv env) > parn ms then ms\<lparr>parn := parn ms + 1\<rparr> else ms);
       ch \<leftarrow> channels (mnet ms1) (me_chan env);
       if ch_key ch = [] then Some ms1
       else do { ms2 \<leftarrow> set_channel (me_chan env) (\<lambda>ch. ch\<lparr>ch_key := []\<rparr>) ms1; add_change c (ArgText ''*'') None dir ms2 }
     }
     else Some ms)"

definition ModeTable :: "char \<Rightarrow> mode_func \<times> u32" where
  "ModeTable c =
    (if c = CHR ''C'' then (chm_simple, MODE_NOCTCP) else if c = CHR ''I'' then (chm_invex, 0)
     else if c = CHR ''M'' then (chm_simple, MODE_MODREG) else if c = CHR ''O'' then (chm_operonly, MODE_OPERONLY)
     else if c = CHR ''R'' then (chm_simple, MODE_REGONLY) else if c = CHR ''S'' then (chm_simple, MODE_SSLONLY)
     else if c = CHR ''b'' then (chm_ban, 0) else if c = CHR ''c'' then (chm_simple, MODE_NOCTRL)
     else if c = CHR ''e'' then (chm_except, 0) else if c = CHR ''h'' then (chm_hop, 0)
     else if c = CHR ''i'' then (chm_simple, MODE_INVITEONLY) else if c = CHR ''k'' then (chm_key, 0)
     else if c = CHR ''l'' then (chm_limit, 0) else if c = CHR ''m'' then (chm_simple, MODE_MODERATED)
     else if c = CHR ''n'' then (chm_simple, MODE_NOPRIVMSGS) else if c = CHR ''o'' then (chm_op, 0)
     else if c = CHR ''p'' then (chm_simple, MODE_PRIVATE) else if c = CHR ''r'' then (chm_registered, MODE_REGISTERED)
     else if c = CHR ''s'' then (chm_simple, MODE_SECRET) else if c = CHR ''t'' then (chm_simple, MODE_TOPICLIMIT)
     else if c = CHR ''v'' then (chm_voice, 0) else (chm_nosuch, 0))"

definition get_channel_access :: "user \<Rightarrow> Membership option \<Rightarrow> int" where
  "get_channel_access u member =
    (if \<not> MyClient u then CHACCESS_REMOTE
     else if member = None then CHACCESS_NOTONCHAN
     else if has_member_flags member CHFL_CHANOP then CHACCESS_CHANOP
     else if has_member_flags member CHFL_HALFOP then CHACCESS_HALFOP
     else CHACCESS_PEON)"

section \<open>Announcing the changes\<close>

text \<open>The loop that both announcing functions have: \<open>modebuf\<close> and \<open>parabuf\<close> are the strings in the buffers, so
  \<open>mbl\<close> and \<open>pbl\<close> are their lengths. A string in a buffer needs room for its terminator.\<close>

record line_state =
  modebuf :: string
  parabuf :: string
  ls_nc :: nat
  ls_mc :: nat
  ls_dir :: mode_dir
  ls_out :: "string list"

definition line_start :: "string \<Rightarrow> string list \<Rightarrow> line_state" where
  "line_start pre out = \<lparr>modebuf = pre, parabuf = [], ls_nc = 0, ls_mc = 0, ls_dir = MODE_QUERY, ls_out = out\<rparr>"

definition line_text :: "line_state \<Rightarrow> string" where
  "line_text l = modebuf l @ '' '' @ parabuf l"

definition line_full :: "nat \<Rightarrow> line_state \<Rightarrow> bool" where
  "line_full arglen l \<longleftrightarrow>
    ls_mc l = MAXMODEPARAMS \<or> arglen + length (modebuf l) + length (parabuf l) + 2 > IRCD_BUFSIZE \<or>
    length (parabuf l) + arglen + BAN_FUDGE \<ge> MODEBUFLEN"

definition flush_line :: "string \<Rightarrow> bool \<Rightarrow> line_state \<Rightarrow> line_state" where
  "flush_line pre trim l =
    (let l1 = (if trim \<and> modebuf l \<noteq> [] \<and> last (modebuf l) = CHR ''-'' then l\<lparr>modebuf := butlast (modebuf l)\<rparr> else l)
     in line_start pre (if ls_nc l1 \<noteq> 0 then ls_out l1 @ [line_text l1] else ls_out l1))"

definition put_change :: "char \<Rightarrow> string option \<Rightarrow> mode_dir \<Rightarrow> line_state \<Rightarrow> line_state option" where
  "put_change c a dir l =
    (let mb = modebuf l @ (if ls_dir l \<noteq> dir then (if dir = MODE_ADD then ''+'' else ''-'') else []) @ [c];
         pb = parabuf l @ (case a of None \<Rightarrow> [] | Some t \<Rightarrow> t @ '' '')
     in if length mb < IRCD_BUFSIZE \<and> length pb < MODEBUFLEN
        then Some (l\<lparr>modebuf := mb, parabuf := pb, ls_nc := ls_nc l + 1, ls_mc := ls_mc l + (if a = None then 0 else 1), ls_dir := dir\<rparr>)
        else None)"

fun mode_lines :: "string \<Rightarrow> bool \<Rightarrow> (char \<times> string option \<times> mode_dir) list \<Rightarrow> line_state \<Rightarrow> string list option" where
  "mode_lines pre trim [] l =
    (let l1 = (if parabuf l \<noteq> [] \<and> last (parabuf l) = CHR '' '' then l\<lparr>parabuf := butlast (parabuf l)\<rparr> else l)
     in Some (if ls_nc l1 \<noteq> 0 then ls_out l1 @ [line_text l1] else ls_out l1))"
| "mode_lines pre trim ((c, a, dir) # cs) l =
    (if c = NUL then mode_lines pre trim cs l
     else do {
       l1 \<leftarrow> put_change c a dir (if line_full (case a of None \<Rightarrow> 0 | Some t \<Rightarrow> length t) l then flush_line pre trim l else l);
       mode_lines pre trim cs l1
     })"

text \<open>\<open>snprintf\<close> returns the length it would need; a prefix that does not fit makes the following writes miss the buffer.\<close>

definition announce :: "string \<Rightarrow> bool \<Rightarrow> (char \<times> string option \<times> mode_dir) list \<Rightarrow> string list option" where
  "announce pre trim cs = (if length pre < IRCD_BUFSIZE then mode_lines pre trim cs (line_start pre []) else None)"

definition arg_text :: "Channel \<Rightarrow> change_arg \<Rightarrow> string option" where
  "arg_text ch a = (case a of NoArg \<Rightarrow> None | ArgText t \<Rightarrow> Some t | ArgKey \<Rightarrow> Some (ch_key ch))"

definition server_change :: "Channel \<Rightarrow> ChModeChange \<Rightarrow> char \<times> string option \<times> mode_dir" where
  "server_change ch d = (letter d, (case change_id d of Some i \<Rightarrow> Some i | None \<Rightarrow> arg_text ch (arg d)), change_dir d)"

definition client_change :: "Channel \<Rightarrow> ChModeChange \<Rightarrow> char \<times> string option \<times> mode_dir" where
  "client_change ch d = (letter d, arg_text ch (arg d), change_dir d)"

definition server_prefix :: "user \<Rightarrow> Channel \<Rightarrow> string" where
  "server_prefix u ch = '':'' @ uid u @ '' TMODE '' @ show_nat (nat (ch_creationtime ch mod 2 ^ 64)) @ '' '' @ ch_name ch @ '' ''"

definition client_prefix :: "chan_config \<Rightarrow> user \<Rightarrow> Channel \<Rightarrow> string" where
  "client_prefix cfg u ch =
    '':'' @ (if uisserver u then (if has_flag (uflags u) FLAGS_HIDDEN \<or> hide_servers cfg then me_name cfg else uname u)
             else nuh_text (uname u) (uusername u) (uhost u)) @ '' MODE '' @ ch_name ch @ '' ''"

definition send_mode_changes_server :: "addr \<Rightarrow> addr \<Rightarrow> ChModeChange list \<Rightarrow> net \<Rightarrow> net option" where
  "send_mode_changes_server x c cs s = do {
     ch \<leftarrow> channels s c;
     ls \<leftarrow> announce (server_prefix (users s x) ch) False (map (server_change ch) cs);
     Some (fold (\<lambda>t. send_event (ServerText x t)) ls s)
   }"

definition send_mode_changes_client :: "chan_config \<Rightarrow> addr \<Rightarrow> addr \<Rightarrow> ChModeChange list \<Rightarrow> net \<Rightarrow> net option" where
  "send_mode_changes_client cfg x c cs s = do {
     ch \<leftarrow> channels s c;
     ls \<leftarrow> announce (client_prefix cfg (users s x) ch) True (map (client_change ch) cs);
     Some (fold (\<lambda>t. send_event (ChannelText c t)) ls s)
   }"

fun mode_loop :: "mode_env \<Rightarrow> string \<Rightarrow> mode_dir \<Rightarrow> mode_state \<Rightarrow> mode_state option" where
  "mode_loop env [] dir ms = Some ms"
| "mode_loop env (c # ml) dir ms =
    (if c = CHR ''+'' then mode_loop env ml MODE_ADD ms
     else if c = CHR ''-'' then mode_loop env ml MODE_DEL ms
     else if c = CHR ''='' then mode_loop env ml MODE_QUERY ms
     else do { ms1 \<leftarrow> (case ModeTable c of (func, d) \<Rightarrow> func env dir c d ms); mode_loop env ml dir ms1 })"

definition mode_start :: "net \<Rightarrow> mode_state" where
  "mode_start s = \<lparr>mnet = s, mode_changes = [], mode_limit = 0, simple_modes_mask = 0, parn = 1, errors = 0\<rparr>"

definition set_channel_mode :: "chan_config \<Rightarrow> directory \<Rightarrow> addr \<Rightarrow> addr \<Rightarrow> addr option \<Rightarrow> string list \<Rightarrow> net \<Rightarrow> net option" where
  "set_channel_mode cfg dir x c member parv s =
    (if parv = [] then None
     else do {
       mb \<leftarrow> (case member of None \<Rightarrow> Some None
              | Some m \<Rightarrow> do { mb \<leftarrow> mships s m; if MyClient (users s x) \<and> mclient mb \<noteq> x then None else Some (Some mb) });
       let env = \<lparr>me_cfg = cfg, me_dir = dir, me_source = x, me_chan = c, me_parv = parv, me_alev = get_channel_access (users s x) mb\<rparr>;
       ms \<leftarrow> mode_loop env (hd parv) MODE_ADD (mode_start s);
       if mode_changes ms = [] then Some (mnet ms)
       else do {
         s1 \<leftarrow> send_mode_changes_client cfg x c (mode_changes ms) (mnet ms);
         send_mode_changes_server x c (mode_changes ms) s1
       }
     })"

end
