(* ===== verification/ChanInv.thy ===== *)
theory ChanInv
  imports Channel
begin

text \<open>
  The commands JOIN and PART and invitations keep the links between channels, memberships and clients
  consistent: the invariant of theory Channel with the mask lists free of escapes, carried through every
  operation of \<open>src/src/channel.c\<close> that changes the state, and the state machine these operations make.
\<close>

section \<open>The invariant through JOIN and PART\<close>

named_theorems plain_intros \<open>the mask lists of channels are kept\<close>

lemma plain_chan_simps [simp]:
  "plain_chan (ch\<lparr>members := a\<rparr>) = plain_chan ch" "plain_chan (ch\<lparr>locmembers := b\<rparr>) = plain_chan ch"
  "plain_chan (ch\<lparr>invites := d\<rparr>) = plain_chan ch" "plain_chan (fst (join_flood cfg fc ch)) = plain_chan ch"
  by (simp_all add: plain_chan_def join_flood_def Let_def)

lemma plain_upd_user [simp]: "plain_net (upd_user x f s) = plain_net s"
  by (simp add: plain_net_def upd_user_def)

lemma plain_send_event [simp]: "plain_net (send_event e s) = plain_net s"
  by (simp add: plain_net_def send_event_def)

lemma plain_upd_channel [plain_intros]:
  "upd_channel c f s = Some s' \<Longrightarrow> plain_net s \<Longrightarrow> (\<And>ch. plain_chan ch \<Longrightarrow> plain_chan (f ch)) \<Longrightarrow> plain_net s'"
  by (auto simp: upd_channel_def plain_net_def split: if_splits)

lemma plain_del_invite [plain_intros]: "del_invite c x s = Some s' \<Longrightarrow> plain_net s \<Longrightarrow> plain_net s'"
  by (auto simp: del_invite_def plain_chan_def split: if_splits intro: plain_upd_channel)

lemma plain_del_invites [plain_intros]: "del_invites c xs s = Some s' \<Longrightarrow> plain_net s \<Longrightarrow> plain_net s'"
proof (induction xs arbitrary: s)
  case (Cons x xs)
  then obtain s1 where "del_invite c x s = Some s1" "del_invites c xs s1 = Some s'" by (auto split: bind_splits)
  then show ?case using Cons plain_del_invite by blast
qed simp

lemma plain_destroy [plain_intros]: "destroy_channel c s = Some s' \<Longrightarrow> plain_net s \<Longrightarrow> plain_net s'"
proof -
  assume a: "destroy_channel c s = Some s'" "plain_net s"
  show "plain_net s'"
  proof (cases "clear_invites c s")
    case (Some s1)
    then have "plain_net s1" using a(2) plain_del_invites by (auto simp: clear_invites_def split: bind_splits)
    then show ?thesis using a(1) Some by (auto simp: destroy_channel_def plain_net_def split: bind_splits if_splits)
  qed (use a in \<open>simp add: destroy_channel_def\<close>)
qed

lemma plain_remove_user [plain_intros]:
  assumes "remove_user_from_channel m s = Some s'" "plain_net s"
  shows "plain_net s'"
proof -
  obtain mb ch ms ls us where mb: "mships s m = Some mb" "channels s (mchan mb) = Some ch" and
    s': "(if ms = [] then destroy_channel (mchan mb)
            (upd_user (mclient mb) (\<lambda>u. u\<lparr>uchannel := us\<rparr>)
              (s\<lparr>channels := (channels s)(mchan mb \<mapsto> ch\<lparr>members := ms, locmembers := ls\<rparr>), mships := (mships s)(m := None)\<rparr>))
          else Some (upd_user (mclient mb) (\<lambda>u. u\<lparr>uchannel := us\<rparr>)
              (s\<lparr>channels := (channels s)(mchan mb \<mapsto> ch\<lparr>members := ms, locmembers := ls\<rparr>), mships := (mships s)(m := None)\<rparr>))) = Some s'"
    using assms(1) by (auto simp: remove_user_from_channel_def Let_def split: bind_splits)
  have "plain_chan ch" using assms(2) mb(2) by (simp add: plain_net_def)
  then have "plain_net (s\<lparr>channels := (channels s)(mchan mb \<mapsto> ch\<lparr>members := ms, locmembers := ls\<rparr>), mships := (mships s)(m := None)\<rparr>)"
    using assms(2) by (auto simp: plain_net_def plain_chan_def)
  then show ?thesis using s' plain_destroy by (auto split: if_splits)
qed

lemma plain_add_user [plain_intros]: "add_user_to_channel cfg c x fl fc s = Some s' \<Longrightarrow> plain_net s \<Longrightarrow> plain_net s'"
proof -
  have "plain_chan ch1 = plain_chan ch" if "join_flood cfg fc ch = (ch1, told)" for ch ch1 told
    using that plain_chan_simps(4) [of cfg fc ch] by simp
  then show "add_user_to_channel cfg c x fl fc s = Some s' \<Longrightarrow> plain_net s \<Longrightarrow> plain_net s'"
    by (auto simp: add_user_to_channel_def plain_net_def Let_def upd_user_def split: bind_splits if_splits prod.splits)
qed

lemma plain_make_channel [plain_intros]: "make_channel cfg n s = Some (c, s') \<Longrightarrow> plain_net s \<Longrightarrow> plain_net s'"
  by (auto simp: make_channel_def plain_net_def plain_chan_def new_channel_def Let_def split: if_splits)

definition chan_inv :: "net \<Rightarrow> bool" where
  "chan_inv s \<longleftrightarrow> net_ok s \<and> populated (shape_of s) \<and> plain_net s"

text \<open>The state after an operation: the invariant again, and the same clients are local.\<close>

definition keeps_inv :: "net \<Rightarrow> net \<Rightarrow> bool" where
  "keeps_inv s s' \<longleftrightarrow> chan_inv s' \<and> same_people (shape_of s) (shape_of s')"

lemma keeps_inv_refl: "chan_inv s \<Longrightarrow> keeps_inv s s"
  by (simp add: keeps_inv_def same_people_def)

lemma keeps_inv_trans: "keeps_inv s s1 \<Longrightarrow> keeps_inv s1 s2 \<Longrightarrow> keeps_inv s s2"
  by (auto simp: keeps_inv_def intro: same_people_trans)

lemma keeps_inv_send: "keeps_inv s s' \<Longrightarrow> keeps_inv s (send_event e s')"
  by (simp add: keeps_inv_def chan_inv_def)

lemma keeps_inv_user:
  assumes "keeps_inv s s'" "uchannel (f (users s' x)) = uchannel (users s' x)" "uinvited (f (users s' x)) = uinvited (users s' x)"
    "uip (f (users s' x)) = uip (users s' x)" "uisclient (f (users s' x)) = uisclient (users s' x)"
  shows "keeps_inv s (upd_user x f s')"
  using assms shape_upd_user_id [of f s' x] by (simp add: keeps_inv_def chan_inv_def)

lemma keeps_inv_local: "keeps_inv s s' \<Longrightarrow> MyClient (users s' x) = MyClient (users s x)"
  by (metis (no_types) MyClient_def keeps_inv_def same_people_def shape_of_simps(8,9))

lemma remove_user_keeps:
  assumes "chan_inv s" "mships s m = Some mb"
  shows "\<exists>s'. remove_user_from_channel m s = Some s' \<and> keeps_inv s s' \<and> s_link (shape_of s') = (s_link (shape_of s))(m := None)"
  using remove_user_ok [OF _ assms(2)] assms plain_remove_user by (fastforce simp: keeps_inv_def chan_inv_def)

lemma spambot_shape:
  assumes "MyConnect (users s x)"
  shows "\<exists>s'. check_spambot_warning cfg x n s = Some s' \<and> shape_of s' = shape_of s \<and> channels s' = channels s \<and> mships s' = mships s"
proof -
  have "\<exists>f. check_spambot_warning cfg x n s \<in> {Some (upd_user x f s), Some (send_event (SpambotNotice x n) (upd_user x f s))} \<and>
      uchannel (f (users s x)) = uchannel (users s x) \<and> uinvited (f (users s x)) = uinvited (users s x) \<and>
      uip (f (users s x)) = uip (users s x) \<and> uisclient (f (users s x)) = uisclient (users s x)"
    using assms by (simp add: check_spambot_warning_def Let_def) (auto intro!: exI split: if_split_asm)
  then obtain f where f: "check_spambot_warning cfg x n s \<in> {Some (upd_user x f s), Some (send_event (SpambotNotice x n) (upd_user x f s))}"
      "uchannel (f (users s x)) = uchannel (users s x)" "uinvited (f (users s x)) = uinvited (users s x)"
      "uip (f (users s x)) = uip (users s x)" "uisclient (f (users s x)) = uisclient (users s x)"
    by blast
  then show ?thesis using shape_upd_user_id [of f s x, OF f(2-5)] by (auto simp: upd_user_def send_event_def shape_of_def)
qed

lemma plain_same_channels: "channels s' = channels s \<Longrightarrow> plain_net s' = plain_net s"
  by (simp add: plain_net_def)

lemma keeps_inv_same: "chan_inv s \<Longrightarrow> shape_of s' = shape_of s \<Longrightarrow> channels s' = channels s \<Longrightarrow> keeps_inv s s'"
  by (simp add: keeps_inv_def chan_inv_def same_people_def plain_net_def)

lemma spambot_keeps:
  assumes "chan_inv s" "MyConnect (users s x)"
  shows "\<exists>s'. check_spambot_warning cfg x n s = Some s' \<and> keeps_inv s s' \<and> shape_of s' = shape_of s \<and>
    channels s' = channels s \<and> mships s' = mships s"
  using spambot_shape [OF assms(2)] keeps_inv_same [OF assms(1)] by blast

lemma part_all_keeps:
  assumes "chan_inv s" "distinct ms" "\<forall>m \<in> set ms. mships s m \<noteq> None"
  shows "\<exists>s'. part_all x ms s = Some s' \<and> keeps_inv s s' \<and> (\<forall>m. s_link (shape_of s') m = (if m \<in> set ms then None else s_link (shape_of s) m))"
  using assms
proof (induction ms arbitrary: s)
  case Nil
  then show ?case by (simp add: keeps_inv_refl)
next
  case (Cons m ms)
  then obtain mb where mb: "mships s m = Some mb" by auto
  define s0 where "s0 = send_event (PartMsg (mchan mb) x None) s"
  have "mships s0 m = Some mb" "chan_inv s0" using mb Cons.prems(1) by (simp_all add: s0_def send_event_def chan_inv_def plain_net_def shape_of_def)
  then obtain s1 where s1: "remove_user_from_channel m s0 = Some s1" "keeps_inv s0 s1" "s_link (shape_of s1) = (s_link (shape_of s))(m := None)"
    using remove_user_keeps [of s0 m mb] by (auto simp: s0_def)
  have k: "keeps_inv s s1" using s1(2) by (simp add: keeps_inv_def s0_def)
  have "mships s1 m' \<noteq> None" if "m' \<in> set ms" for m'
  proof -
    have "m' \<noteq> m" using that Cons.prems(2) by auto
    then have "s_link (shape_of s1) m' \<noteq> None" using s1(3) that Cons.prems(3) by (auto simp: shape_simps)
    then show ?thesis by (simp add: shape_simps)
  qed
  then obtain s2 where s2: "part_all x ms s1 = Some s2" "keeps_inv s1 s2" "\<forall>m. s_link (shape_of s2) m = (if m \<in> set ms then None else s_link (shape_of s1) m)"
    using Cons.IH [of s1] k Cons.prems(2) by (auto simp: keeps_inv_def)
  then show ?case using mb s1 k keeps_inv_trans by (auto simp: s0_def)
qed

lemma uchannel_links:
  assumes "net_ok s"
  shows "distinct (uchannel (users s x))" "m \<in> set (uchannel (users s x)) \<longleftrightarrow> (\<exists>c. s_link (shape_of s) m = Some (x, c))"
  using assms links_okD(3) [of "shape_of s" x] links_okD(4) [of "shape_of s" m x] by (auto simp: shape_ok_def shape_simps)

lemma join_0_keeps_any:
  assumes "chan_inv s"
  shows "\<exists>s'. channel_do_join_0 cfg x s = Some s' \<and> keeps_inv s s'"
proof -
  obtain s1 where s1: "(if uchannel (users s x) \<noteq> [] \<and> MyConnect (users s x) \<and> \<not> has_flag (uumodes (users s x)) UMODE_OPER
      then check_spambot_warning cfg x None s else Some s) = Some s1" "keeps_inv s s1"
    using spambot_keeps [OF assms, of x cfg None] keeps_inv_refl [OF assms]
    by (cases "uchannel (users s x) \<noteq> [] \<and> MyConnect (users s x) \<and> \<not> has_flag (uumodes (users s x)) UMODE_OPER") auto
  have inv: "chan_inv s1" using s1(2) by (simp add: keeps_inv_def)
  then have "net_ok s1" by (simp add: chan_inv_def)
  from uchannel_links(1) [OF this, of x] uchannel_links(2) [OF this] have "distinct (uchannel (users s1 x))" "\<forall>m \<in> set (uchannel (users s1 x)). mships s1 m \<noteq> None"
    by (auto simp: shape_simps)
  then show ?thesis using part_all_keeps [OF inv] s1 keeps_inv_trans by (fastforce simp: channel_do_join_0_def)
qed

lemma join_0_keeps: "chan_inv s \<Longrightarrow> MyClient (users s x) \<Longrightarrow> \<exists>s'. channel_do_join_0 cfg x s = Some s' \<and> keeps_inv s s'"
  by (rule join_0_keeps_any)

lemma enter_channel_keeps:
  assumes s: "net_ok s" "plain_net s" "channels s c = Some ch" "MyClient (users s x)"
    and pop: "\<And>c'. c' \<noteq> c \<Longrightarrow> s_name (shape_of s) c' \<noteq> None \<Longrightarrow> s_mem (shape_of s) c' \<noteq> []"
    and new: "\<And>m. s_link (shape_of s) m \<noteq> Some (x, c)"
  shows "\<exists>s'. enter_channel cfg x c flags s = Some s' \<and> keeps_inv s s' \<and>
    s_link (shape_of s') = (s_link (shape_of s))(next_addr s \<mapsto> (x, c)) \<and> s_name (shape_of s') = s_name (shape_of s)"
proof -
  have my: "MyConnect (users s x)" "uisclient (users s x)" using s(4) by (auto simp: MyClient_def)
  obtain s1 where s1: "(if \<not> has_flag (uumodes (users s x)) UMODE_OPER then check_spambot_warning cfg x (Some (ch_name ch)) s else Some s) = Some s1"
      "shape_of s1 = shape_of s" "channels s1 = channels s"
    using spambot_shape [OF my(1), of cfg "Some (ch_name ch)"] by (cases "has_flag (uumodes (users s x)) UMODE_OPER") auto
  have next1: "next_addr s1 = next_addr s" using s1(2) shape_of_simps(11) by metis
  have cl1: "uisclient (users s1 x)" "MyConnect (users s1 x)" using s1(2) my shape_of_simps(8,9) by metis+
  obtain s2 where s2: "add_user_to_channel cfg c x flags True s1 = Some s2" "net_ok s2"
      "s_link (shape_of s2) = (s_link (shape_of s))(next_addr s \<mapsto> (x, c))" "s_name (shape_of s2) = s_name (shape_of s)"
      "s_mem (shape_of s2) = (s_mem (shape_of s))(c := next_addr s # s_mem (shape_of s) c)" "same_people (shape_of s) (shape_of s2)"
    using add_user_ok [of s1 c ch x cfg flags True] s s1 cl1 new next1 by auto
  have plain2: "plain_net s2" using plain_add_user [OF s2(1)] plain_same_channels [OF s1(3)] s(2) by simp
  obtain ch2 where ch2: "channels s2 c = Some ch2" using channel_of_name [of s2 c] s(3) s2(4) by (auto simp: shape_simps)
  define f :: "Channel \<Rightarrow> Channel" where "f = (\<lambda>ch. ch\<lparr>ch_creationtime := CurrentTime cfg, ch_mode := add_flag (add_flag (ch_mode ch) MODE_TOPICLIMIT) MODE_NOPRIVMSGS\<rparr>)"
  have f: "plain_chan (f ch) = plain_chan ch" "ch_name (f ch) = ch_name ch" "members (f ch) = members ch"
    "locmembers (f ch) = locmembers ch" "invites (f ch) = invites ch" for ch by (simp_all add: f_def plain_chan_def)
  obtain s3 where s3: "(if flags = CHFL_CHANOP then upd_channel c f s2 else Some s2) = Some s3" "shape_of s3 = shape_of s2" "plain_net s3"
    using shape_upd_channel_id [of s2 c ch2 f, OF ch2 f(2-5)] plain_upd_channel [of c f s2] plain2 f(1) by (cases "flags = CHFL_CHANOP") auto
  define s4 where "s4 = send_event (JoinMsg c x (flags = CHFL_CHANOP)) s3"
  have shape4: "shape_of s4 = shape_of s2" and plain4: "plain_net s4" using s3 by (simp_all add: s4_def)
  have my4: "MyConnect (users s4 x)" using my(1) s2(6) shape4 shape_of_simps(8) unfolding same_people_def by metis
  obtain ch4 where ch4: "channels s4 c = Some ch4" using channel_of_name [of s4 c] s(3) s2(4) shape4 by (auto simp: shape_simps)
  obtain s5 where s5: "del_invite c x s4 = Some s5" "net_ok s5" "s_link (shape_of s5) = s_link (shape_of s2)"
      "s_name (shape_of s5) = s_name (shape_of s2)" "s_mem (shape_of s5) = s_mem (shape_of s2)" "same_people (shape_of s2) (shape_of s5)"
    using del_invite_ok [OF _ ch4 my4] s2(2) shape4 by auto
  have "plain_net s5" using plain_del_invite [OF s5(1)] plain4 by simp
  moreover have "populated (shape_of s5)" unfolding populated_def s5(4,5) s2(4,5) using pop by auto
  ultimately have keeps5: "keeps_inv s s5"
    using s5(2) same_people_trans [OF s2(6) s5(6)] by (simp add: keeps_inv_def chan_inv_def)
  obtain ch5 where ch5: "channels s5 c = Some ch5" using channel_of_name [of s5 c] s(3) s2(4) s5(4) by (auto simp: shape_simps)
  define s6 where "s6 = (if ch_topic ch5 \<noteq> [] then send_event (TopicReply x c) s5 else s5)"
  define s7 where "s7 = upd_user x (\<lambda>u. u\<lparr>ulast_join_time := CurrentTime cfg\<rparr>) (send_event (NamesReply x c) s6)"
  have "keeps_inv s (send_event (NamesReply x c) s6)" using keeps5 keeps_inv_send by (auto simp: s6_def)
  then have "keeps_inv s s7" unfolding s7_def by (rule keeps_inv_user) simp_all
  moreover have "shape_of s7 = shape_of s5" by (auto simp: s7_def s6_def shape_upd_user_id)
  moreover have "enter_channel cfg x c flags s = Some s7"
    by (simp only: enter_channel_def f_def [symmetric] s(3) s1(1) s2(1) s3(1) s4_def [symmetric] s5(1) ch5 s6_def s7_def
        Option.bind.simps Let_def)
  ultimately show ?thesis using s5(3,4) s2(3,4) by auto
qed

primrec end_state :: "join_end \<Rightarrow> net" where
  "end_state (JoinNext s) = s"
| "end_state (JoinBreak s) = s"

lemma join_existing_keeps:
  assumes inv: "chan_inv s" and x: "MyClient (users s x)" and c: "hash_find_channel chan s = Some c" "channels s c = Some ch"
    and no: "find_channel_link x c s = None"
  shows "\<exists>s'. enter_channel cfg x c flags s = Some s' \<and> keeps_inv s s' \<and> s_link (shape_of s') = (s_link (shape_of s))(next_addr s \<mapsto> (x, c))"
proof -
  have ok: "net_ok s" "plain_net s" "populated (shape_of s)" using inv by (auto simp: chan_inv_def)
  have cl: "uisclient (users s x)" using x by (simp add: MyClient_def)
  have "s_link (shape_of s) m \<noteq> Some (x, c)" for m using find_channel_link_iff [OF ok(1) c(2) cl, of m] no by simp
  then show ?thesis using enter_channel_keeps [OF ok(1,2) c(2) x] ok(3) unfolding populated_def by blast
qed

lemma join_new_keeps:
  assumes inv: "chan_inv s" and x: "MyClient (users s x)" and chan: "hash_find_channel chan s = None" "check_channel_name cfg chan True"
  shows "\<exists>s1 s2. make_channel cfg chan s = Some (next_addr s, s1) \<and> enter_channel cfg x (next_addr s) CHFL_CHANOP s1 = Some s2 \<and> keeps_inv s s2 \<and>
    s_link (shape_of s2) = (s_link (shape_of s))(next_addr s1 \<mapsto> (x, next_addr s))"
proof -
  have ok: "net_ok s" "plain_net s" "populated (shape_of s)" using inv by (auto simp: chan_inv_def)
  then have names: "names_ok (shape_of s)" "links_ok (shape_of s)" by (auto simp: shape_ok_def)
  have len: "chan \<noteq> []" "length chan \<le> CHANNELLEN" using chan(2) by (auto simp: check_channel_name_def split: list.splits)
  then have same: "strlcpy_str chan (CHANNELLEN + 1) = chan" by (simp add: strlcpy_str_def)
  define c where "c = next_addr s"
  have fresh: "channels s c = None" "s_link (shape_of s) c = None"
    using names_okD(4) [OF names(1), of c] by (auto simp: shape_simps c_def)
  obtain s1 where s1: "make_channel cfg chan s = Some (c, s1)" "shape_of s1 = sh_make chan (shape_of s)" "users s1 = users s"
      "channels s1 c = Some (new_channel (CurrentTime cfg) chan)"
    using make_channel_shape [of chan s cfg, OF len(1)] fresh(1) unfolding same c_def by blast
  have "net_ok s1"
    unfolding s1(2) using hash_find_channel_None [OF chan(1) ok(1)] by (intro shape_make [OF ok(1)]) (auto simp: shape_simps)
  moreover have "plain_net s1" using plain_make_channel [OF s1(1)] ok(2) by simp
  moreover have "MyClient (users s1 x)" using x s1(3) by simp
  moreover have "s_link (shape_of s1) m \<noteq> Some (x, c)" for m
  proof -
    have "s_mem (shape_of s) c = []" using fresh(1) by (simp add: shape_simps)
    then show ?thesis using links_okD(2) [OF names(2), of m c] unfolding s1(2) by (auto simp: sh_make_def)
  qed
  moreover have "s_mem (shape_of s1) c' \<noteq> []" if "c' \<noteq> c" "s_name (shape_of s1) c' \<noteq> None" for c'
    using that ok(3) unfolding s1(2) by (auto simp: populated_def sh_make_def c_def shape_simps)
  ultimately obtain s2 where "enter_channel cfg x c CHFL_CHANOP s1 = Some s2" "keeps_inv s1 s2"
      "s_link (shape_of s2) = (s_link (shape_of s1))(next_addr s1 \<mapsto> (x, c))"
    using enter_channel_keeps [of s1 c "new_channel (CurrentTime cfg) chan" x cfg CHFL_CHANOP] s1(4) by blast
  moreover have "same_people (shape_of s) (shape_of s1)" "s_link (shape_of s1) = s_link (shape_of s)"
    using s1(2) by (simp_all add: same_people_def sh_make_def)
  ultimately show ?thesis using s1(1) by (auto simp: keeps_inv_def c_def intro: same_people_trans)
qed

text \<open>\<open>joined\<close>: the client became a member of one more channel, and was allowed to.\<close>

definition joined :: "chan_config \<Rightarrow> addr \<Rightarrow> string \<Rightarrow> string option \<Rightarrow> net \<Rightarrow> net \<Rightarrow> bool" where
  "joined cfg x chan key s s' \<longleftrightarrow>
    (\<exists>c m. s_link (shape_of s') = (s_link (shape_of s))(m \<mapsto> (x, c)) \<and>
       length (uchannel (users s x)) < (if uclass_max (users s x) \<noteq> 0 then uclass_max (users s x) else max_channels cfg) \<and>
       (case channels s c of None \<Rightarrow> hash_find_channel chan s = None
        | Some ch \<Rightarrow> hash_find_channel chan s = Some c \<and> can_join x c key s = Some 0))"

lemma join_one_keeps:
  assumes inv: "chan_inv s" and x: "MyClient (users s x)" and resv: "plain_resv cfg"
  shows "\<exists>r. join_one cfg x chan key s = Some r \<and> keeps_inv s (end_state r) \<and>
    (s_link (shape_of (end_state r)) = s_link (shape_of s) \<or> joined cfg x chan key s (end_state r))"
proof -
  define room where "room = (if uclass_max (users s x) \<noteq> 0 then uclass_max (users s x) else max_channels cfg)"
  have ip: "uip (users s x) \<noteq> None" using x by (simp add: MyClient_def MyConnect_def)
  have send: "keeps_inv s (send_event e s)" for e using keeps_inv_send [OF keeps_inv_refl [OF inv]] .
  note here = keeps_inv_refl [OF inv]
  obtain b where b: "resv_blocks cfg (users s x) chan = Some b" using resv_blocks_total [OF resv ip] by blast
  show ?thesis
  proof (cases "hash_find_channel chan s")
    case (Some c)
    then obtain ch where ch: "channels s c = Some ch" using hash_find_channel_Some by blast
    have "plain_chan ch" using inv ch by (auto simp: chan_inv_def plain_net_def)
    then obtain i where i: "can_join x c key s = Some i" using can_join_plain [OF ch _ ip] by blast
    obtain s' where s': "find_channel_link x c s = None \<Longrightarrow>
        enter_channel cfg x c (if members ch = [] then CHFL_CHANOP else 0) s = Some s' \<and> keeps_inv s s' \<and>
        s_link (shape_of s') = (s_link (shape_of s))(next_addr s \<mapsto> (x, c))"
      using join_existing_keeps [OF inv x Some ch] by blast
    have "joined cfg x chan key s s'" if "find_channel_link x c s = None" "i = 0" "length (uchannel (users s x)) < room"
      unfolding joined_def using s' that i ch Some by (intro exI [of _ c] exI [of _ "next_addr s"]) (simp add: room_def)
    then show ?thesis using s' send here i b ch Some
      unfolding join_one_def Let_def room_def [symmetric] by (simp add: not_le)
  next
    case None
    have fresh: "channels s (next_addr s) = None"
      using inv names_okD(4) [of "shape_of s" "next_addr s"] by (auto simp: chan_inv_def shape_ok_def shape_simps)
    obtain s1 s2 where "check_channel_name cfg chan True \<Longrightarrow>
        make_channel cfg chan s = Some (next_addr s, s1) \<and> enter_channel cfg x (next_addr s) CHFL_CHANOP s1 = Some s2 \<and> keeps_inv s s2 \<and>
        s_link (shape_of s2) = (s_link (shape_of s))(next_addr s1 \<mapsto> (x, next_addr s))"
      using join_new_keeps [OF inv x None] by blast
    note s2 = this
    have "joined cfg x chan key s s2" if "check_channel_name cfg chan True" "length (uchannel (users s x)) < room"
      unfolding joined_def using s2 that fresh None by (intro exI [of _ "next_addr s"] exI [of _ "next_addr s1"]) (simp add: room_def)
    then show ?thesis using s2 send b None
      unfolding join_one_def Let_def room_def [symmetric] by (simp add: not_le)
  qed
qed

lemma join_loop_keeps:
  "chan_inv s \<Longrightarrow> MyClient (users s x) \<Longrightarrow> plain_resv cfg \<Longrightarrow> \<exists>s'. join_loop cfg x chans keys s = Some s' \<and> keeps_inv s s'"
proof (induction chans arbitrary: s keys)
  case (Cons chan chans)
  obtain key keys' where keys: "take_key keys = (key, keys')" by fastforce
  obtain r where r: "join_one cfg x chan key s = Some r" "keeps_inv s (end_state r)" using join_one_keeps [OF Cons.prems] by blast
  show ?case
  proof (cases r)
    case (JoinNext s1)
    then obtain s2 where "join_loop cfg x chans keys' s1 = Some s2" "keeps_inv s1 s2"
      using Cons.IH [of s1 keys'] Cons.prems r(2) keeps_inv_local [of s s1 x] by (auto simp: keeps_inv_def)
    then show ?thesis using r keys JoinNext keeps_inv_trans by auto
  next
    case (JoinBreak s1)
    then show ?thesis using r keys by auto
  qed
qed (simp add: keeps_inv_refl)

lemma do_join_keeps:
  assumes inv: "chan_inv s" and x: "MyClient (users s x)" and resv: "plain_resv cfg"
  shows "\<exists>s'. channel_do_join cfg x chanlist keys s = Some s' \<and> keeps_inv s s'"
proof -
  obtain res join0 where last0: "find_last0 chanlist chanlist False = (res, join0)" by fastforce
  obtain s1 where s1: "(if join0 then channel_do_join_0 cfg x s else Some s) = Some s1" "keeps_inv s s1"
    using join_0_keeps [OF inv x] keeps_inv_refl [OF inv] by (cases join0) auto
  have "chan_inv s1" "MyClient (users s1 x)" using s1(2) x keeps_inv_local by (auto simp: keeps_inv_def)
  then obtain s2 where "join_loop cfg x (strtoken_all (Some res) '','') keys s1 = Some s2" "keeps_inv s1 s2"
    using join_loop_keeps resv by blast
  then show ?thesis using last0 s1 x keeps_inv_trans
    by (auto simp: channel_do_join_def channel_find_last0_def MyClient_def)
qed

subsection \<open>Sending and leaving\<close>

lemma shape_mflags:
  "mships s m = Some mb \<Longrightarrow> shape_of (s\<lparr>mships := (mships s)(m \<mapsto> mb\<lparr>mflags := f\<rparr>)\<rparr>) = shape_of s"
  by (rule shape_eqI) (auto simp: shape_of_def fun_eq_iff)

lemma send_banned_ok:
  assumes "plain_chan ch" "uip u \<noteq> None" "\<And>m. member = Some m \<Longrightarrow> mships s m \<noteq> None"
  shows "\<exists>b s'. send_banned ch u member s = Some (b, s') \<and> shape_of s' = shape_of s \<and> channels s' = channels s \<and> users s' = users s"
  using assms(3) is_banned_plain [OF assms(1,2)]
  by (cases member) (auto simp: send_banned_def shape_mflags Let_def)

lemma can_send_ok:
  assumes inv: "chan_inv s" and c: "channels s c = Some ch" and resv: "plain_resv cfg" and m: "\<And>m. member = Some m \<Longrightarrow> mships s m \<noteq> None"
  shows "\<exists>r s'. can_send cfg c x member message s = Some (r, s') \<and> r \<noteq> 0 \<and> shape_of s' = shape_of s \<and> channels s' = channels s \<and> users s' = users s"
proof -
  let ?u = "users s x"
  define member' where "member' = (case member of None \<Rightarrow> find_channel_link x c s | Some m \<Rightarrow> Some m)"
  have plain: "plain_chan ch" "net_ok s" using inv c by (auto simp: chan_inv_def plain_net_def)
  have live: "mships s m \<noteq> None" if "member' = Some m" for m
  proof (cases member)
    case None
    then have link: "find_channel_link x c s = Some m" using that by (simp add: member'_def)
    then have "uisclient ?u" by (auto simp: find_channel_link_def split: if_splits)
    then show ?thesis using find_channel_link_iff [OF plain(2) c] link by (auto simp: shape_simps)
  next
    case (Some m')
    then show ?thesis using that m by (simp add: member'_def)
  qed
  obtain rb where rb: "(if MyClient ?u then resv_blocks cfg ?u (ch_name ch) else Some False) = Some rb"
    using resv_blocks_total [OF resv, of ?u "ch_name ch"] by (cases "MyClient ?u") (auto simp: MyClient_def MyConnect_def intro: that [of False])
  obtain opv where opv: "(case member' of None \<Rightarrow> Some False | Some m \<Rightarrow> map_option (\<lambda>mb. has_flag (mflags mb) OPV) (mships s m)) = Some opv"
    using live by (cases member') auto
  have "\<exists>b s'. MyClient ?u \<longrightarrow> send_banned ch ?u member' s = Some (b, s') \<and> shape_of s' = shape_of s \<and> channels s' = channels s \<and> users s' = users s"
    using send_banned_ok [OF plain(1), of ?u member' s] live by (auto simp: MyClient_def MyConnect_def)
  then obtain b s' where b: "MyClient ?u \<longrightarrow> send_banned ch ?u member' s = Some (b, s') \<and> shape_of s' = shape_of s \<and> channels s' = channels s \<and> users s' = users s"
    by blast
  note codes = CAN_SEND_OPV_def CAN_SEND_NONOP_def ERR_CANNOTSENDTOCHAN_def ERR_NOCTRLSONCHAN_def ERR_NOCTCP_def ERR_NEEDREGGEDNICK_def
  show ?thesis
    using b unfolding can_send_def Let_def c Option.bind.simps rb member'_def [symmetric] opv
    by (auto simp: codes)
qed

lemma part_one_keeps:
  assumes inv: "chan_inv s" and x: "MyClient (users s x)" and resv: "plain_resv cfg"
  shows "\<exists>s'. channel_part_one_client cfg x name reason s = Some s' \<and> keeps_inv s s'"
proof (cases "hash_find_channel name s")
  case None
  then show ?thesis using keeps_inv_send [OF keeps_inv_refl [OF inv]] by (simp add: channel_part_one_client_def)
next
  case (Some c)
  then obtain ch where ch: "channels s c = Some ch" using hash_find_channel_Some by blast
  have my: "MyConnect (users s x)" "uisclient (users s x)" using x by (auto simp: MyClient_def)
  show ?thesis
  proof (cases "find_channel_link x c s")
    case None
    then show ?thesis using Some ch keeps_inv_send [OF keeps_inv_refl [OF inv]] by (simp add: channel_part_one_client_def)
  next
    case (Some m)
    have "net_ok s" using inv by (simp add: chan_inv_def)
    from find_channel_link_iff [OF this ch my(2), of m] Some have link: "s_link (shape_of s) m = Some (x, c)" by simp
    obtain s1 where s1: "(if MyConnect (users s x) \<and> \<not> has_flag (uumodes (users s x)) UMODE_OPER
        then check_spambot_warning cfg x None s else Some s) = Some s1" "shape_of s1 = shape_of s" "channels s1 = channels s"
      using spambot_shape [OF my(1), of cfg None] my(1) by (cases "has_flag (uumodes (users s x)) UMODE_OPER") auto
    have inv1: "chan_inv s1" "keeps_inv s s1" using keeps_inv_same [OF inv s1(2,3)] by (auto simp: keeps_inv_def)
    have live: "mships s1 m \<noteq> None" using link s1(2) shape_of_simps(5) [of s1 m] by (cases "mships s1 m") auto
    obtain r s2 where s2: "can_send cfg c x (Some m) reason s1 = Some (r, s2)" "shape_of s2 = shape_of s1" "channels s2 = channels s1"
      using can_send_ok [OF inv1(1), of c ch cfg "Some m" x reason] ch s1(3) resv live by auto
    have inv2: "keeps_inv s s2" using keeps_inv_trans [OF inv1(2) keeps_inv_same [OF inv1(1) s2(2,3)]] .
    have leave: "\<exists>s'. remove_user_from_channel m (send_event e t) = Some s' \<and> keeps_inv s s'"
      if t: "shape_of t = shape_of s" "keeps_inv s t" for t e
    proof -
      have "keeps_inv s (send_event e t)" by (rule keeps_inv_send [OF t(2)])
      moreover obtain mb where "mships (send_event e t) m = Some mb"
        using link t(1) shape_of_simps(5) [of t m] by (cases "mships t m") (auto simp: send_event_def)
      ultimately show ?thesis using remove_user_keeps keeps_inv_trans by (metis (no_types) keeps_inv_def)
    qed
    show ?thesis
    proof (cases "reason = []")
      case True
      then show ?thesis using Some \<open>hash_find_channel name s = Some c\<close> s1 leave [OF s1(2) inv1(2)]
        by (simp add: channel_part_one_client_def Let_def)
    next
      case False
      have "shape_of s2 = shape_of s" using s1(2) s2(2) by simp
      then show ?thesis using False Some \<open>hash_find_channel name s = Some c\<close> s1(1) s2(1) my leave [OF _ inv2]
        by (simp add: channel_part_one_client_def Let_def)
    qed
  qed
qed

lemma do_part_keeps:
  assumes "chan_inv s" "MyClient (users s x)" "plain_resv cfg"
  shows "\<exists>s'. channel_do_part cfg x names reason s = Some s' \<and> keeps_inv s s'"
proof -
  have "\<exists>s'. part_loop cfg x r ns s = Some s' \<and> keeps_inv s s'" for r ns
    using assms
  proof (induction ns arbitrary: s)
    case (Cons n ns)
    obtain s1 where s1: "channel_part_one_client cfg x n r s = Some s1" "keeps_inv s s1" using part_one_keeps [OF Cons.prems] by blast
    moreover obtain s2 where "part_loop cfg x r ns s1 = Some s2" "keeps_inv s1 s2"
      using Cons.IH [of s1] Cons.prems s1(2) keeps_inv_local by (auto simp: keeps_inv_def)
    ultimately show ?case using keeps_inv_trans by auto
  qed (simp add: keeps_inv_refl)
  then show ?thesis using assms(2) by (simp add: channel_do_part_def MyClient_def)
qed

lemma invite_shape:
  assumes "channels s c = Some ch"
  shows "\<exists>s3. upd_channel c (\<lambda>ch. ch\<lparr>invites := x # invites ch\<rparr>) s = Some s3 \<and>
    shape_of (upd_user x (\<lambda>u. u\<lparr>uinvited := c # uinvited u\<rparr>) s3) = sh_invite c x (shape_of s)"
  using assms by (auto simp: upd_channel_def upd_user_def MyConnect_def sh_invite_def shape_of_def fun_eq_iff)

lemma del_invite_keeps:
  assumes "chan_inv s" "channels s c = Some ch" "MyConnect (users s x)"
  shows "\<exists>s'. del_invite c x s = Some s' \<and> keeps_inv s s' \<and> s_name (shape_of s') = s_name (shape_of s) \<and>
    uinvited (users s' x) = remove1 c (uinvited (users s x))"
proof -
  obtain s' where s': "del_invite c x s = Some s'" "net_ok s'" "s_name (shape_of s') = s_name (shape_of s)" "s_mem (shape_of s') = s_mem (shape_of s)"
      "same_people (shape_of s) (shape_of s')" "s_uinv (shape_of s') = (s_uinv (shape_of s))(x := remove1 c (s_uinv (shape_of s) x))"
    using del_invite_ok [OF _ assms(2,3)] assms(1) by (auto simp: chan_inv_def)
  moreover have "plain_net s'" using plain_del_invite [OF s'(1)] assms(1) by (simp add: chan_inv_def)
  moreover have "uinvited (users s' x) = remove1 c (uinvited (users s x))"
    using s'(6) shape_of_simps(7) [of s' x] by (simp add: shape_simps)
  ultimately show ?thesis using assms(1) by (auto simp: keeps_inv_def chan_inv_def populated_def)
qed

lemma uinvited_ok:
  assumes "net_ok s"
  shows "distinct (uinvited (users s x))" "c \<in> set (uinvited (users s x)) \<Longrightarrow> channels s c \<noteq> None"
proof -
  have ok: "invites_ok (shape_of s)" "names_ok (shape_of s)" using assms by (auto simp: shape_ok_def)
  show "distinct (uinvited (users s x))" using invites_okD(2) [OF ok(1), of x] by (simp add: shape_simps)
  assume "c \<in> set (uinvited (users s x))"
  then have "x \<in> set (s_inv (shape_of s) c)" using invites_okD(3) [OF ok(1), of x c] by (simp add: shape_simps)
  then show "channels s c \<noteq> None" by (cases "channels s c") (auto simp: shape_simps)
qed

lemma add_invite_keeps:
  assumes inv: "chan_inv s" and x: "MyClient (users s x)" and c: "channels s c = Some ch" and max: "0 < max_channels cfg"
  shows "\<exists>s'. add_invite cfg c x s = Some s' \<and> keeps_inv s s' \<and> c \<in> set (uinvited (users s' x)) \<and> length (uinvited (users s' x)) \<le> max (max_channels cfg) (length (uinvited (users s x)) + 1)"
proof -
  have my: "MyConnect (users s x)" "uisclient (users s x)" using x by (auto simp: MyClient_def)
  obtain s1 where s1: "del_invite c x s = Some s1" "keeps_inv s s1" "s_name (shape_of s1) = s_name (shape_of s)"
      "uinvited (users s1 x) = remove1 c (uinvited (users s x))"
    using del_invite_keeps [OF inv c my(1)] by blast
  have "distinct (uinvited (users s x))" using uinvited_ok(1) inv by (simp add: chan_inv_def)
  then have out: "c \<notin> set (uinvited (users s1 x))" using s1(4) by simp
  have inv1: "chan_inv s1" "MyConnect (users s1 x)" using s1(2) my(1) keeps_inv_local [OF s1(2), of x] x by (auto simp: keeps_inv_def MyClient_def)
  define inv_list where "inv_list = uinvited (users s1 x)"
  obtain s2 where s2: "(if length inv_list \<ge> max_channels cfg then (if inv_list = [] then None else del_invite (last inv_list) x s1) else Some s1) = Some s2"
      "keeps_inv s1 s2" "s_name (shape_of s2) = s_name (shape_of s)" "c \<notin> set (uinvited (users s2 x))"
      "length (uinvited (users s2 x)) < max (max_channels cfg) (length inv_list + 1)"
  proof (cases "length inv_list \<ge> max_channels cfg")
    case True
    then have ne: "inv_list \<noteq> []" using max by auto
    then have "last inv_list \<in> set inv_list" by simp
    then obtain ch' where ch': "channels s1 (last inv_list) = Some ch'"
      using uinvited_ok(2) [of s1 "last inv_list" x] inv1(1) by (auto simp: chan_inv_def inv_list_def)
    obtain s2 where "del_invite (last inv_list) x s1 = Some s2" "keeps_inv s1 s2" "s_name (shape_of s2) = s_name (shape_of s1)"
        "uinvited (users s2 x) = remove1 (last inv_list) inv_list"
      using del_invite_keeps [OF inv1(1) ch' inv1(2)] by (auto simp: inv_list_def)
    then show ?thesis using True ne s1(3) out length_remove1 [of "last inv_list" inv_list]
      by (intro that [of s2]) (auto simp: inv_list_def dest: notin_set_remove1)
  next
    case False
    then show ?thesis using keeps_inv_refl [OF inv1(1)] s1(3) out by (intro that [of s1]) (auto simp: inv_list_def)
  qed
  have inv2: "chan_inv s2" "keeps_inv s s2" using s2(2) keeps_inv_trans [OF s1(2)] by (auto simp: keeps_inv_def)
  have my2: "MyConnect (users s2 x)" using keeps_inv_local [OF inv2(2), of x] x by (auto simp: MyClient_def)
  obtain ch2 where ch2: "channels s2 c = Some ch2" using s2(3) c channel_of_name [of s2 c] by (auto simp: shape_simps)
  obtain s3 where s3: "upd_channel c (\<lambda>ch. ch\<lparr>invites := x # invites ch\<rparr>) s2 = Some s3"
      "shape_of (upd_user x (\<lambda>u. u\<lparr>uinvited := c # uinvited u\<rparr>) s3) = sh_invite c x (shape_of s2)"
    using invite_shape [OF ch2] by blast
  define s4 where "s4 = upd_user x (\<lambda>u. u\<lparr>uinvited := c # uinvited u\<rparr>) s3"
  have "net_ok s4" unfolding s4_def s3(2)
    using inv2(1) ch2 s2(4) my2 by (intro shape_invite) (auto simp: chan_inv_def shape_simps)
  moreover have "populated (shape_of s4)" "same_people (shape_of s2) (shape_of s4)"
    unfolding s4_def s3(2) using inv2(1) by (auto simp: populated_def chan_inv_def same_people_def sh_invite_def)
  moreover have "plain_net s4" using plain_upd_channel [OF s3(1)] inv2(1) by (simp add: s4_def chan_inv_def)
  ultimately have "keeps_inv s s4" using keeps_inv_trans [OF inv2(2), of s4] by (simp add: keeps_inv_def chan_inv_def)
  moreover have "uinvited (users s4 x) = c # uinvited (users s2 x)" using s3(1) by (auto simp: s4_def upd_user_def upd_channel_def)
  moreover have "length inv_list \<le> length (uinvited (users s x))" using s1(4) by (simp add: inv_list_def length_remove1)
  moreover have "add_invite cfg c x s = Some s4"
    using my(2) by (simp only: add_invite_def not_not if_True if_False not_True_eq_False s1(1) Option.bind.simps Let_def
        inv_list_def [symmetric] s2(1) s3(1) s4_def)
  ultimately show ?thesis using s2(5) by auto
qed

end
