(* ===== verification/ModeInv.thy ===== *)
theory ModeInv
  imports ChannelMode ChanInv
begin

text \<open>
  Channel modes keep the channel state consistent: who may change what, that every handler leaves the links
  between channels, memberships and clients alone and never faults on masks the parsers can read, and that the
  cached results of the ban test stay correct.
\<close>

named_theorems mode_handlers \<open>definitions of the mode handlers\<close>

lemmas [mode_handlers] = chm_nosuch_def chm_simple_def chm_registered_def chm_operonly_def chm_ban_def chm_except_def chm_invex_def
  chm_voice_def chm_hop_def chm_op_def chm_limit_def chm_key_def

lemma ModeTable_all:
  assumes "\<And>d. P chm_nosuch d" "\<And>d. P chm_simple d" "\<And>d. P chm_registered d" "\<And>d. P chm_operonly d" "\<And>d. P chm_ban d"
    "\<And>d. P chm_except d" "\<And>d. P chm_invex d" "\<And>d. P chm_voice d" "\<And>d. P chm_hop d" "\<And>d. P chm_op d" "\<And>d. P chm_limit d"
    "\<And>d. P chm_key d"
  shows "P (fst (ModeTable c)) (snd (ModeTable c))"
  by (simp add: ModeTable_def assms)

lemma mode_loop_step [simp]:
  "c \<notin> {CHR ''+'', CHR ''-'', CHR ''=''} \<Longrightarrow>
    mode_loop env (c # ml) dir ms = Option.bind (fst (ModeTable c) env dir c (snd (ModeTable c)) ms) (mode_loop env ml dir)"
  by (simp add: case_prod_beta)

text \<open>A relation between the states before and after is kept by the whole loop if every handler keeps it.\<close>

lemma mode_loop_induct:
  assumes "mode_loop env ml dir ms = Some ms'" and refl: "\<And>ms. R ms ms" and trans: "\<And>a b c. R a b \<Longrightarrow> R b c \<Longrightarrow> R a c"
    and step: "\<And>dir c ms ms'. fst (ModeTable c) env dir c (snd (ModeTable c)) ms = Some ms' \<Longrightarrow> I ms \<Longrightarrow> R ms ms' \<and> I ms'" and "I ms"
  shows "R ms ms' \<and> I ms'"
  using assms(1,5)
proof (induction ml arbitrary: dir ms)
  case Nil
  then show ?case by (simp add: refl)
next
  case (Cons c ml)
  show ?case
  proof (cases "c \<in> {CHR ''+'', CHR ''-'', CHR ''=''}")
    case True
    then show ?thesis using Cons by auto
  next
    case False
    then obtain ms1 where ms1: "fst (ModeTable c) env dir c (snd (ModeTable c)) ms = Some ms1" "mode_loop env ml dir ms1 = Some ms'"
      using Cons.prems(1) by (auto simp del: mode_loop.simps split: bind_splits)
    then show ?thesis using Cons.IH [OF ms1(2)] step [OF ms1(1) Cons.prems(2)] trans by blast
  qed
qed

lemma send_event_fields [simp]:
  "channels (send_event e s) = channels s" "mships (send_event e s) = mships s" "users (send_event e s) = users s"
  "channel_list (send_event e s) = channel_list s" "next_addr (send_event e s) = next_addr s"
  by (simp_all add: send_event_def)

lemma fold_send_fields [simp]:
  "channels (fold (\<lambda>t. send_event (f t)) ts s) = channels s" "mships (fold (\<lambda>t. send_event (f t)) ts s) = mships s"
  "users (fold (\<lambda>t. send_event (f t)) ts s) = users s" "shape_of (fold (\<lambda>t. send_event (f t)) ts s) = shape_of s"
  by (induction ts arbitrary: s) simp_all

text \<open>What the invariant says of the objects themselves.\<close>

lemma net_ok_members:
  assumes "net_ok s" "channels s c = Some ch"
  shows "distinct (members ch)" "m \<in> set (members ch) \<longleftrightarrow> (\<exists>mb. mships s m = Some mb \<and> mchan mb = c)"
    "locmembers ch = filter (\<lambda>m. \<exists>mb. mships s m = Some mb \<and> MyConnect (users s (mclient mb))) (members ch)"
proof -
  have ok: "links_ok (shape_of s)" using assms(1) by (simp add: shape_ok_def)
  show "distinct (members ch)" using links_okD(1) [OF ok, of c] assms(2) by (simp add: shape_simps)
  show "m \<in> set (members ch) \<longleftrightarrow> (\<exists>mb. mships s m = Some mb \<and> mchan mb = c)"
    using links_okD(2) [OF ok, of m c] assms(2) by (auto simp: shape_simps)
  have "is_local (shape_of s) = (\<lambda>m. \<exists>mb. mships s m = Some mb \<and> MyConnect (users s (mclient mb)))"
    by (auto simp: fun_eq_iff is_local_def shape_simps split: option.splits)
  then show "locmembers ch = filter (\<lambda>m. \<exists>mb. mships s m = Some mb \<and> MyConnect (users s (mclient mb))) (members ch)"
    using links_okD(6) [OF ok, of c] assms(2) by (simp add: shape_simps)
qed

lemma net_ok_user:
  assumes "net_ok s"
  shows "m \<in> set (uchannel (users s x)) \<longleftrightarrow> (\<exists>mb. mships s m = Some mb \<and> mclient mb = x)"
    "mships s m = Some mb \<Longrightarrow> mships s m' = Some mb' \<Longrightarrow> mclient mb = mclient mb' \<Longrightarrow> mchan mb = mchan mb' \<Longrightarrow> m = m'"
proof -
  have ok: "links_ok (shape_of s)" using assms by (simp add: shape_ok_def)
  show "m \<in> set (uchannel (users s x)) \<longleftrightarrow> (\<exists>mb. mships s m = Some mb \<and> mclient mb = x)"
    using uchannel_links(2) [OF assms, of m x] by (auto simp: shape_simps)
  show "mships s m = Some mb \<Longrightarrow> mships s m' = Some mb' \<Longrightarrow> mclient mb = mclient mb' \<Longrightarrow> mchan mb = mchan mb' \<Longrightarrow> m = m'"
    using links_okD(5) [OF ok, of m "(mclient mb, mchan mb)" m'] by (simp add: shape_simps)
qed

section \<open>Who may change what\<close>

text \<open>\<open>quiet\<close>: nothing of the state but the events sent.\<close>

definition quiet :: "net \<Rightarrow> net \<Rightarrow> bool" where
  "quiet s s' \<longleftrightarrow> (\<exists>es. s' = s\<lparr>sent := sent s @ es\<rparr>)"

lemma quiet_refl [simp]: "quiet s s"
  by (auto simp: quiet_def intro: exI [of _ "[]"])

lemma quiet_trans: "quiet a b \<Longrightarrow> quiet b c \<Longrightarrow> quiet a c"
  by (auto simp: quiet_def)

lemma quiet_send [simp]: "quiet s s' \<Longrightarrow> quiet s (send_event e s')"
  by (auto simp: quiet_def send_event_def)

definition quietly :: "mode_state \<Rightarrow> mode_state \<Rightarrow> bool" where
  "quietly ms ms' \<longleftrightarrow> mode_changes ms' = mode_changes ms \<and> quiet (mnet ms) (mnet ms')"

lemma quietly_intros [simp]:
  "quietly ms (once err x num t ms)" "refuse err num env ms = Some ms' \<Longrightarrow> quietly ms ms'" "quietly ms (ms_send e ms)"
  "quietly ms (ms\<lparr>errors := f\<rparr>)"
  by (auto simp: quietly_def once_def refuse_def ms_send_def Let_def)

lemma quietly_trans: "quietly a b \<Longrightarrow> quietly b c \<Longrightarrow> quietly a c"
  by (auto simp: quietly_def intro: quiet_trans)

lemma quietly_list_reply: "quietly ms (list_reply x rpl bs ms)"
  unfolding list_reply_def
proof (induction bs arbitrary: ms)
  case (Cons b bs)
  show ?case using quietly_trans [OF quietly_intros(3) Cons.IH] by simp
qed (simp add: quietly_def)

text \<open>A source without rights: no status in the channel, not an operator with \<open>OPME\<close>, not a server or a service.\<close>

definition no_rights :: "mode_env \<Rightarrow> net \<Rightarrow> bool" where
  "no_rights env s \<longleftrightarrow> (let u = users s (me_source env) in
     me_alev env < CHACCESS_HALFOP \<and> \<not> HasOFlag u OPER_FLAG_OPME \<and> \<not> uisserver u \<and> \<not> has_flag (uflags u) FLAGS_SERVICE)"

lemma no_rights_below: "no_rights env (mnet ms) \<Longrightarrow> CHACCESS_HALFOP \<le> l \<Longrightarrow> below l env ms"
  by (auto simp: no_rights_def below_def Let_def)

lemma no_rights_mask: "no_rights env (mnet ms) \<Longrightarrow> chm_mask type err rpl endrpl env dir c d ms = Some ms' \<Longrightarrow> quietly ms ms'"
  using no_rights_below [of env ms CHACCESS_HALFOP]
  by (auto simp: chm_mask_def Let_def split: if_splits bind_splits
      intro: quietly_trans [OF quietly_trans [OF quietly_intros(4) quietly_list_reply] quietly_intros(3)])
    (auto simp: quietly_def)

lemma no_rights_handler:
  assumes "no_rights env (mnet ms)" "fst (ModeTable c) env dir c (snd (ModeTable c)) ms = Some ms'"
  shows "quietly ms ms'"
proof -
  note b = no_rights_below [OF assms(1)]
  have r: "me_alev env < CHACCESS_HALFOP" "\<not> uisserver (users (mnet ms) (me_source env))"
    "\<not> has_flag (uflags (users (mnet ms) (me_source env))) FLAGS_SERVICE" using assms(1) by (auto simp: no_rights_def Let_def)
  have ranks: "CHACCESS_HALFOP \<le> CHACCESS_CHANOP" by (simp add: CHACCESS_HALFOP_def CHACCESS_CHANOP_def)
  have "f env dir c d ms = Some ms' \<longrightarrow> quietly ms ms'" if "f = fst (ModeTable c)" "d = snd (ModeTable c)" for f d
    unfolding that
    by (rule ModeTable_all) (use b b [OF ranks] r no_rights_mask [OF assms(1)] in \<open>auto simp: mode_handlers chm_status_def Let_def\<close>)
  then show ?thesis using assms(2) by blast
qed

lemma no_rights_quiet: "no_rights env s \<Longrightarrow> quiet s s' \<Longrightarrow> no_rights env s'"
  by (auto simp: quiet_def no_rights_def)

lemma no_rights_loop:
  assumes "mode_loop env ml dir ms = Some ms'" "no_rights env (mnet ms)"
  shows "quietly ms ms'"
proof -
  have "quietly ms ms' \<and> no_rights env (mnet ms')"
  proof (rule mode_loop_induct [OF assms(1), where R = quietly and I = "\<lambda>ms. no_rights env (mnet ms)"])
    show "quietly a a" for a by (simp add: quietly_def)
    show "quietly a c" if "quietly a b" "quietly b c" for a b c using quietly_trans that .
    show "no_rights env (mnet ms)" by (rule assms(2))
  next
    fix dir c ms ms' assume h: "fst (ModeTable c) env dir c (snd (ModeTable c)) ms = Some ms'" "no_rights env (mnet ms)"
    have "quietly ms ms'" by (rule no_rights_handler [OF h(2,1)])
    then show "quietly ms ms' \<and> no_rights env (mnet ms')" using no_rights_quiet [OF h(2), of "mnet ms'"] by (simp add: quietly_def)
  qed
  then show ?thesis by simp
qed

section \<open>The links are left alone\<close>

text \<open>What a mode change leaves alone: the shape, the clients, other channels and their memberships.\<close>

definition mode_frame :: "addr \<Rightarrow> net \<Rightarrow> net \<Rightarrow> bool" where
  "mode_frame c s s' \<longleftrightarrow> shape_of s' = shape_of s \<and> users s' = users s \<and> (\<forall>c'. c' \<noteq> c \<longrightarrow> channels s' c' = channels s c') \<and>
    (\<forall>m mb. mships s m = Some mb \<longrightarrow> mchan mb \<noteq> c \<longrightarrow> mships s' m = Some mb)"

lemma frame_refl [simp]: "mode_frame c s s"
  by (simp add: mode_frame_def)

lemma frame_trans: "mode_frame c s s1 \<Longrightarrow> mode_frame c s1 s2 \<Longrightarrow> mode_frame c s s2"
  unfolding mode_frame_def by (metis (no_types, lifting))

lemma frame_send [simp]: "mode_frame c s s' \<Longrightarrow> mode_frame c s (send_event e s')"
  by (simp add: mode_frame_def)

lemma frame_upd_channel:
  assumes "channels s c = Some ch" "\<And>ch. ch_name (f ch) = ch_name ch \<and> members (f ch) = members ch \<and> locmembers (f ch) = locmembers ch \<and> invites (f ch) = invites ch"
  shows "\<exists>s'. upd_channel c f s = Some s' \<and> mode_frame c s s' \<and> channels s' c = Some (f ch) \<and> mships s' = mships s"
proof -
  obtain s' where "upd_channel c f s = Some s'" "shape_of s' = shape_of s" "users s' = users s" "channels s' c = Some (f ch)"
    using shape_upd_channel_id [of s c ch f] assms by blast
  then show ?thesis using assms(1) by (auto simp: mode_frame_def upd_channel_def)
qed

lemma frame_flags:
  assumes "mships s m = Some mb" "mchan mb = c"
  shows "mode_frame c s (s\<lparr>mships := (mships s)(m \<mapsto> mb\<lparr>mflags := f\<rparr>)\<rparr>)"
  using shape_mflags [OF assms(1), of f] assms by (auto simp: mode_frame_def)

lemma frame_live: "mode_frame c s s' \<Longrightarrow> channels s c = Some ch \<Longrightarrow> \<exists>ch'. channels s' c = Some ch' \<and> ch_name ch' = ch_name ch \<and>
    members ch' = members ch \<and> locmembers ch' = locmembers ch \<and> invites ch' = invites ch"
proof -
  assume a: "mode_frame c s s'" "channels s c = Some ch"
  then have sh: "shape_of s' = shape_of s" by (simp add: mode_frame_def)
  obtain ch' where "channels s' c = Some ch'" using a(2) sh channel_of_name [of s' c] by (auto simp: shape_simps)
  then show ?thesis using a(2) sh shape_of_simps(1-4) [of s' c] shape_of_simps(1-4) [of s c] by simp
qed

lemma clear_loop_ok:
  "\<forall>m \<in> set ms. \<exists>mb. mships s m = Some mb \<and> mchan mb = c \<Longrightarrow>
    \<exists>s'. clear_cache_loop ms s = Some s' \<and> mode_frame c s s' \<and> channels s' = channels s \<and>
      (\<forall>m. mships s' m = (if m \<in> set ms then map_option clear_cached (mships s m) else mships s m))"
proof (induction ms arbitrary: s)
  case (Cons m ms)
  then obtain mb where mb: "mships s m = Some mb" "mchan mb = c" by auto
  define s1 where "s1 = s\<lparr>mships := (mships s)(m \<mapsto> clear_cached mb)\<rparr>"
  have frame: "mode_frame c s s1" unfolding s1_def clear_cached_def by (rule frame_flags [OF mb])
  have "\<forall>m \<in> set ms. \<exists>mb. mships s1 m = Some mb \<and> mchan mb = c" using Cons.prems mb(2) by (auto simp: s1_def clear_cached_def)
  then obtain s2 where s2: "clear_cache_loop ms s1 = Some s2" "mode_frame c s1 s2" "channels s2 = channels s1"
      "\<And>m. mships s2 m = (if m \<in> set ms then map_option clear_cached (mships s1 m) else mships s1 m)"
    using Cons.IH [of s1] by blast
  have "clear_cached (clear_cached mb) = clear_cached mb" by (simp add: clear_cached_def del_flag_def and.assoc)
  then have "mships s2 m' = (if m' \<in> set (m # ms) then map_option clear_cached (mships s m') else mships s m')" for m'
    using s2(4) [of m'] mb(1) by (auto simp: s1_def)
  then show ?case using mb(1) s2(1-3) frame_trans [OF frame] by (auto simp: s1_def)
qed simp

lemma locmember_of:
  assumes "net_ok s" "channels s c = Some ch"
  shows "m \<in> set (locmembers ch) \<longleftrightarrow> (\<exists>mb. mships s m = Some mb \<and> mchan mb = c \<and> MyConnect (users s (mclient mb)))"
  using net_ok_members(2) [OF assms, of m] unfolding net_ok_members(3) [OF assms] by auto

lemma clear_channel_ok:
  assumes "net_ok s" "channels s c = Some ch"
  shows "\<exists>s'. clear_ban_cache_channel c s = Some s' \<and> mode_frame c s s' \<and> channels s' = channels s \<and>
    (\<forall>m. mships s' m = (if m \<in> set (locmembers ch) then map_option clear_cached (mships s m) else mships s m))"
proof -
  have "\<forall>m \<in> set (locmembers ch). \<exists>mb. mships s m = Some mb \<and> mchan mb = c" using locmember_of [OF assms] by blast
  from clear_loop_ok [OF this] show ?thesis using assms(2) by (simp add: clear_ban_cache_channel_def)
qed

text \<open>Masks that the mask parser can read and that have no escapes.\<close>

definition good_parts :: "string \<times> string \<times> string \<Rightarrow> bool" where
  "good_parts p = (case p of (n, u, h) \<Rightarrow>
     CHR 0x5C \<notin> set n \<and> CHR 0x5C \<notin> set u \<and> CHR 0x5C \<notin> set h \<and> (case parse_netmask h of Inl _ \<Rightarrow> False | Inr _ \<Rightarrow> True))"

definition good_mask :: "string \<Rightarrow> bool" where
  "good_mask p = (let t = strlcpy_str p IRCD_BUFSIZE in good_parts (mask_parts t) \<and> good_parts (mask_parts (collapse t)))"

lemma mask_list_cases:
  assumes "type \<in> {CHFL_BAN, CHFL_EXCEPTION, CHFL_INVEX}"
  shows "\<exists>bs. mask_list type ch = Some bs \<and> set bs \<subseteq> set (banlist ch) \<union> set (exceptlist ch) \<union> set (invexlist ch)"
  using assms by (auto simp: mask_list_def)

lemma set_mask_list_fields [simp]:
  "ch_name (set_mask_list type bs ch) = ch_name ch" "members (set_mask_list type bs ch) = members ch"
  "locmembers (set_mask_list type bs ch) = locmembers ch" "invites (set_mask_list type bs ch) = invites ch"
  "ch_key (set_mask_list type bs ch) = ch_key ch" "ch_limit (set_mask_list type bs ch) = ch_limit ch"
  "ch_mode (set_mask_list type bs ch) = ch_mode ch" "ch_topic (set_mask_list type bs ch) = ch_topic ch"
  "ch_topic_info (set_mask_list type bs ch) = ch_topic_info ch" "ch_creationtime (set_mask_list type bs ch) = ch_creationtime ch"
  by (simp_all add: set_mask_list_def)

lemma plain_set_mask_list: "plain_chan ch \<Longrightarrow> \<forall>b \<in> set bs. plain_ban b \<Longrightarrow> plain_chan (set_mask_list type bs ch)"
  by (auto simp: set_mask_list_def plain_chan_def)

text \<open>The frame and that the lists stay free of escapes; what every step of a mode change keeps.\<close>

definition plain_frame :: "addr \<Rightarrow> net \<Rightarrow> net \<Rightarrow> bool" where
  "plain_frame c s s' \<longleftrightarrow> mode_frame c s s' \<and> (plain_net s \<longrightarrow> plain_net s')"

lemma plain_frame_trans: "plain_frame c s s1 \<Longrightarrow> plain_frame c s1 s2 \<Longrightarrow> plain_frame c s s2"
  by (auto simp: plain_frame_def intro: frame_trans)

lemma plain_frame_refl [simp]: "plain_frame c s s"
  by (simp add: plain_frame_def)

lemma plain_frame_send [simp]: "plain_frame c s s' \<Longrightarrow> plain_frame c s (send_event e s')"
  by (simp add: plain_frame_def)

lemma plain_frame_upd:
  assumes "channels s c = Some ch" "\<And>ch. ch_name (f ch) = ch_name ch \<and> members (f ch) = members ch \<and> locmembers (f ch) = locmembers ch \<and> invites (f ch) = invites ch"
    and "plain_net s \<Longrightarrow> plain_chan (f ch)"
  shows "\<exists>s'. upd_channel c f s = Some s' \<and> plain_frame c s s' \<and> channels s' c = Some (f ch) \<and> mships s' = mships s"
proof -
  obtain s' where s': "upd_channel c f s = Some s'" "mode_frame c s s'" "channels s' c = Some (f ch)" "mships s' = mships s"
    using frame_upd_channel [of s c ch f] assms(1,2) by blast
  moreover have "plain_net s \<longrightarrow> plain_net s'"
    using s'(1) assms(1,3) by (auto simp: upd_channel_def plain_net_def split: if_splits)
  ultimately show ?thesis by (auto simp: plain_frame_def)
qed

lemma plain_frame_clear:
  assumes "net_ok s" "channels s c = Some ch"
  shows "\<exists>s'. (if P then clear_ban_cache_channel c s else Some s) = Some s' \<and> plain_frame c s s' \<and> channels s' = channels s \<and>
    (\<forall>m. mships s' m = (if P \<and> m \<in> set (locmembers ch) then map_option clear_cached (mships s m) else mships s m))"
proof (cases P)
  case True
  obtain s' where s': "clear_ban_cache_channel c s = Some s'" "mode_frame c s s'" "channels s' = channels s"
      "\<forall>m. mships s' m = (if m \<in> set (locmembers ch) then map_option clear_cached (mships s m) else mships s m)"
    using clear_channel_ok [OF assms] by blast
  then have "plain_frame c s s'" using plain_same_channels [of s' s] by (simp add: plain_frame_def)
  then show ?thesis using True s' by simp
qed simp

lemma add_id_ok:
  assumes s: "net_ok s" "channels s c = Some ch" and type: "type \<in> {CHFL_BAN, CHFL_EXCEPTION, CHFL_INVEX}"
    and mask: "good_parts (mask_parts banid)" "good_parts (mask_parts (collapse banid))"
  shows "\<exists>ok t s'. add_id cfg x c banid type s = Some (ok, t, s') \<and> plain_frame c s s'"
proof -
  define b where "b = (if MyClient (users s x) then collapse banid else banid)"
  obtain n us h where parts: "mask_parts b = (n, us, h)" by (metis prod_cases3)
  have "good_parts (n, us, h)" using mask parts by (auto simp: b_def split: if_splits)
  then obtain mk where mk: "parse_netmask h = Inr mk" and plain: "CHR 0x5C \<notin> set n \<and> CHR 0x5C \<notin> set us \<and> CHR 0x5C \<notin> set h"
    by (auto simp: good_parts_def split: sum.splits)
  obtain bs where bs: "mask_list type ch = Some bs" "set bs \<subseteq> set (banlist ch) \<union> set (exceptlist ch) \<union> set (invexlist ch)"
    using mask_list_cases [OF type] by blast
  obtain s1 where s1: "(if type = CHFL_BAN \<or> type = CHFL_EXCEPTION then clear_ban_cache_channel c s else Some s) = Some s1"
      "plain_frame c s s1" "channels s1 = channels s"
    using plain_frame_clear [OF s] by blast
  define ban where "ban = \<lparr>bname = n, buser = us, bhost = h, bwho = ban_who cfg (users s x), blen = length (nuh_text n us h) - 2,
    bwhen = CurrentTime cfg, bmask = mk\<rparr>"
  have "plain_net s1 \<Longrightarrow> plain_chan (set_mask_list type (ban # bs) ch)"
    using plain bs(2) s(2) s1(3) by (intro plain_set_mask_list) (auto simp: plain_net_def plain_chan_def plain_ban_def ban_def)
  then obtain s2 where s2: "upd_channel c (set_mask_list type (ban # bs)) s1 = Some s2" "plain_frame c s1 s2"
    using plain_frame_upd [of s1 c ch "set_mask_list type (ban # bs)"] s(2) s1(3) by auto
  show ?thesis
    using s1 s2 plain_frame_trans [OF s1(2) s2(2)]
    by (simp add: add_id_def s(2) Let_def b_def [symmetric] parts bs(1) mk ban_def [symmetric]) blast
qed

lemma del_id_ok:
  assumes s: "net_ok s" "channels s c = Some ch" and type: "type \<in> {CHFL_BAN, CHFL_EXCEPTION, CHFL_INVEX}"
  shows "\<exists>ok t s'. del_id c banid type s = Some (ok, t, s') \<and> plain_frame c s s'"
proof -
  obtain n us h where parts: "mask_parts banid = (n, us, h)" by (metis prod_cases3)
  obtain bs where bs: "mask_list type ch = Some bs" "set bs \<subseteq> set (banlist ch) \<union> set (exceptlist ch) \<union> set (invexlist ch)"
    using mask_list_cases [OF type] by blast
  obtain s1 where s1: "(if type = CHFL_BAN \<or> type = CHFL_EXCEPTION then clear_ban_cache_channel c s else Some s) = Some s1"
      "plain_frame c s s1" "channels s1 = channels s"
    using plain_frame_clear [OF s] by blast
  have "\<exists>s2. upd_channel c (set_mask_list type (remove1 b bs)) s1 = Some s2 \<and> plain_frame c s1 s2" for b
  proof -
    have "plain_net s1 \<Longrightarrow> plain_chan (set_mask_list type (remove1 b bs) ch)"
      using bs(2) s(2) s1(3) notin_set_remove1 [of _ bs b] by (intro plain_set_mask_list) (fastforce simp: plain_net_def plain_chan_def)+
    then show ?thesis using plain_frame_upd [of s1 c ch "set_mask_list type (remove1 b bs)"] s(2) s1(3) by auto
  qed
  note upd = this
  show ?thesis
  proof (cases "find (same_mask n us h) bs")
    case None
    then show ?thesis using s1 by (simp add: del_id_def s(2) Let_def parts bs(1)) blast
  next
    case (Some b)
    obtain s2 where "upd_channel c (set_mask_list type (remove1 b bs)) s1 = Some s2" "plain_frame c s1 s2" using upd by blast
    then show ?thesis using Some s1(1) plain_frame_trans [OF s1(2)] by (simp add: del_id_def s(2) Let_def parts bs(1)) blast
  qed
qed

section \<open>The handlers\<close>

definition env_ok :: "mode_env \<Rightarrow> bool" where
  "env_ok env \<longleftrightarrow> length (me_parv env) \<le> MAXPARA \<and> (\<forall>p \<in> set (tl (me_parv env)). good_mask p)"

definition state_ok :: "mode_env \<Rightarrow> mode_state \<Rightarrow> bool" where
  "state_ok env ms \<longleftrightarrow> net_ok (mnet ms) \<and> channels (mnet ms) (me_chan env) \<noteq> None \<and> 1 \<le> parn ms"

definition mode_res :: "mode_env \<Rightarrow> mode_state \<Rightarrow> mode_state \<Rightarrow> bool" where
  "mode_res env ms ms' \<longleftrightarrow> plain_frame (me_chan env) (mnet ms) (mnet ms') \<and>
    length (mode_changes ms') \<le> Suc (length (mode_changes ms)) \<and> parn ms \<le> parn ms'"

definition handler_ok :: "mode_env \<Rightarrow> mode_func \<Rightarrow> u32 \<Rightarrow> bool" where
  "handler_ok env f d \<longleftrightarrow> (\<forall>dir c ms. state_ok env ms \<longrightarrow> length (mode_changes ms) < IRCD_BUFSIZE \<longrightarrow>
     (\<exists>ms'. f env dir c d ms = Some ms' \<and> mode_res env ms ms'))"

lemma handler_okI:
  "(\<And>dir c ms ch. net_ok (mnet ms) \<Longrightarrow> channels (mnet ms) (me_chan env) = Some ch \<Longrightarrow> 1 \<le> parn ms \<Longrightarrow>
     length (mode_changes ms) < IRCD_BUFSIZE \<Longrightarrow> \<exists>ms'. f env dir c d ms = Some ms' \<and> mode_res env ms ms') \<Longrightarrow> handler_ok env f d"
  by (auto simp: handler_ok_def state_ok_def)

lemma quiet_frame: "quiet s s' \<Longrightarrow> plain_frame c s s'"
  by (auto simp: quiet_def plain_frame_def mode_frame_def shape_of_def plain_net_def)

lemma once_parn [simp]: "parn (once err x num t ms) = parn ms" "parn (ms_send e ms) = parn ms" "parn (list_reply x rpl bs ms) = parn ms"
proof -
  show "parn (list_reply x rpl bs ms) = parn ms"
    unfolding list_reply_def by (induction bs arbitrary: ms) (simp_all add: ms_send_def)
qed (simp_all add: once_def ms_send_def Let_def)

lemma quietly_res: "quietly ms ms' \<Longrightarrow> parn ms' = parn ms \<Longrightarrow> mode_res env ms ms'"
  by (simp add: quietly_def mode_res_def quiet_frame)

lemma res_refl [simp]: "mode_res env ms ms"
  by (simp add: mode_res_def)

lemma once_res [simp]: "mode_res env ms (once err x num t ms)"
  by (simp add: quietly_res)

lemma refuse_res:
  assumes "channels (mnet ms) (me_chan env) = Some ch"
  shows "\<exists>ms'. refuse err num env ms = Some ms' \<and> mode_res env ms ms'"
  using assms by (simp add: refuse_def)

lemma set_channel_res:
  assumes "channels (mnet ms) (me_chan env) = Some ch"
    and "\<And>ch. ch_name (f ch) = ch_name ch \<and> members (f ch) = members ch \<and> locmembers (f ch) = locmembers ch \<and> invites (f ch) = invites ch \<and>
      banlist (f ch) = banlist ch \<and> exceptlist (f ch) = exceptlist ch \<and> invexlist (f ch) = invexlist ch"
  shows "\<exists>s. set_channel (me_chan env) f ms = Some (ms\<lparr>mnet := s\<rparr>) \<and> plain_frame (me_chan env) (mnet ms) s \<and>
    channels s (me_chan env) = Some (f ch) \<and> mships s = mships (mnet ms)"
proof -
  have "plain_net (mnet ms) \<Longrightarrow> plain_chan (f ch)" using assms by (auto simp: plain_net_def plain_chan_def)
  then show ?thesis
    using plain_frame_upd [of "mnet ms" "me_chan env" ch f] assms by (auto simp: set_channel_def)
qed

lemma simple_change_ok:
  assumes "channels (mnet ms) (me_chan env) = Some ch" "length (mode_changes ms) < IRCD_BUFSIZE"
  shows "\<exists>ms'. simple_change env dir c d ms = Some ms' \<and> mode_res env ms ms'"
proof -
  define ms1 where "ms1 = ms\<lparr>simple_modes_mask := add_flag (simple_modes_mask ms) d\<rparr>"
  have ch: "channels (mnet ms1) (me_chan env) = Some ch" using assms(1) by (simp add: ms1_def)
  show ?thesis
    using set_channel_res [OF ch, of "\<lambda>ch. ch\<lparr>ch_mode := add_flag (ch_mode ch) d\<rparr>"] set_channel_res [OF ch, of "\<lambda>ch. ch\<lparr>ch_mode := del_flag (ch_mode ch) d\<rparr>"] assms(2)
    by (cases dir) (auto simp: simple_change_def ms1_def [symmetric] add_change_def mode_res_def, auto simp: ms1_def)
qed

lemma count_param_fields:
  assumes "count_param env ms = (full, ms1)"
  shows "mnet ms1 = mnet ms" "mode_changes ms1 = mode_changes ms" "parn ms1 = parn ms"
  using assms by (auto simp: count_param_def split: if_splits)

lemma handler_simple: "handler_ok env chm_nosuch d" "handler_ok env chm_simple d" "handler_ok env chm_registered d" "handler_ok env chm_operonly d"
  by (rule handler_okI, auto simp: mode_handlers Let_def intro: simple_change_ok refuse_res)+

lemma chm_mask_ok:
  assumes env: "env_ok env" and type: "type \<in> {CHFL_BAN, CHFL_EXCEPTION, CHFL_INVEX}"
  shows "handler_ok env (chm_mask type err rpl endrpl) d"
proof (rule handler_okI)
  fix dir c ch and ms :: mode_state
  assume ok: "net_ok (mnet ms)" "channels (mnet ms) (me_chan env) = Some ch" "1 \<le> parn ms" "length (mode_changes ms) < IRCD_BUFSIZE"
  let ?x = "me_source env"
  show "\<exists>ms'. chm_mask type err rpl endrpl env dir c d ms = Some ms' \<and> mode_res env ms ms'"
  proof (cases "dir = MODE_QUERY \<or> length (me_parv env) \<le> parn ms")
    case True
    obtain bs where "mask_list type ch = Some bs" using mask_list_cases [OF type] by blast
    moreover have "quietly ms (ms_send e (list_reply ?x rpl bs (ms\<lparr>errors := f\<rparr>)))" for e bs f
      by (rule quietly_trans [OF quietly_trans [OF quietly_intros(4) quietly_list_reply] quietly_intros(3)])
    ultimately show ?thesis using True ok(2) quietly_res by (simp add: chm_mask_def Let_def)
  next
    case False
    obtain full ms1 where ms1: "count_param env ms = (full, ms1)" by fastforce
    note fields = count_param_fields [OF ms1]
    have parn: "parn ms < MAXPARA" "me_parv env ! parn ms \<in> set (tl (me_parv env))"
      using False env ok(3) by (auto simp: env_ok_def in_set_conv_nth nth_tl intro!: exI [of _ "parn ms - 1"])
    define msk where "msk = strlcpy_str (me_parv env ! parn ms) IRCD_BUFSIZE"
    have good: "good_parts (mask_parts msk)" "good_parts (mask_parts (collapse msk))"
      using env parn(2) by (auto simp: env_ok_def good_mask_def msk_def Let_def)
    obtain r t s' where r: "(if dir = MODE_ADD then add_id (me_cfg env) ?x (me_chan env) msk type (mnet ms) else del_id (me_chan env) msk type (mnet ms)) = Some (r, t, s')"
        "plain_frame (me_chan env) (mnet ms) s'"
      using add_id_ok [OF ok(1,2) type good, of "me_cfg env" ?x] del_id_ok [OF ok(1,2) type, of msk] by (cases "dir = MODE_ADD") auto
    have "\<exists>ms'. (if r then add_change c (ArgText t) None dir (ms1\<lparr>parn := parn ms + 1, mnet := s'\<rparr>) else Some (ms1\<lparr>parn := parn ms + 1, mnet := s'\<rparr>)) = Some ms' \<and>
        mode_res env ms ms'"
      using r(2) ok(4) fields by (simp add: add_change_def mode_res_def)
    moreover have "mode_res env ms (ms1\<lparr>parn := parn ms + 1\<rparr>)" "mode_res env ms ms1" using fields by (simp_all add: mode_res_def)
    moreover have "below CHACCESS_HALFOP env ms \<Longrightarrow> \<exists>ms'. refuse SM_ERR_NOOPS 482 env ms = Some ms' \<and> mode_res env ms ms'"
      using refuse_res [OF ok(2)] by blast
    ultimately show ?thesis
      using False parn(1) ms1 r(1) by (cases "dir = MODE_ADD"; cases r; simp add: chm_mask_def Let_def fields msk_def [symmetric])
  qed
qed

lemma find_chasing_quiet: "find_chasing d x n s = (t, s') \<Longrightarrow> quiet s s'"
  by (auto simp: find_chasing_def split: option.splits if_splits)

lemma set_member_flags_ok:
  assumes "mships (mnet ms) m = Some mb" "mchan mb = c"
  shows "\<exists>s'. set_member_flags m f ms = Some (ms\<lparr>mnet := s'\<rparr>) \<and> plain_frame c (mnet ms) s'"
  using frame_flags [OF assms] assms(1) by (auto simp: set_member_flags_def plain_frame_def plain_net_def)

lemma chm_status_ok: "handler_ok env (chm_status level flag skip_add) d"
proof (rule handler_okI)
  fix dir c ch and ms :: mode_state
  assume ok: "net_ok (mnet ms)" "channels (mnet ms) (me_chan env) = Some ch" "1 \<le> parn ms" "length (mode_changes ms) < IRCD_BUFSIZE"
  obtain target s where fc: "find_chasing (me_dir env) (me_source env) (me_parv env ! parn ms) (mnet ms) = (target, s)" by fastforce
  have quiet: "quiet (mnet ms) s" using find_chasing_quiet [OF fc] .
  then have s: "net_ok s" "channels s = channels (mnet ms)" "mships s = mships (mnet ms)"
    using ok(1) by (auto simp: quiet_def shape_of_def)
  define ms1 where "ms1 = ms\<lparr>parn := Suc (parn ms), mnet := s\<rparr>"
  have res1: "mode_res env ms ms1" using quiet quiet_frame by (simp add: ms1_def mode_res_def)
  have step: "mode_res env ms ms'" if "mode_res env ms1 ms'" "mode_changes ms' = mode_changes ms" for ms'
    using that res1 plain_frame_trans by (auto simp: mode_res_def)
  have change: "\<exists>ms'. Option.bind (add_change c a i dir ms2) (set_member_flags m f) = Some ms' \<and> mode_res env ms ms'"
    if m: "find_channel_link y (me_chan env) s = Some m" and ms2: "count_param env ms1 = (full, ms2)" for a i m y f full ms2
  proof -
    note fields = count_param_fields [OF ms2]
    have "uisclient (users s y)" using m by (auto simp: find_channel_link_def split: if_splits)
    then have "s_link (shape_of s) m = Some (y, me_chan env)"
      using find_channel_link_iff [OF s(1), of "me_chan env" ch y m] m ok(2) s(2) by simp
    then obtain mb where "mships s m = Some mb" "mchan mb = me_chan env" by (auto simp: shape_simps)
    moreover obtain ms3 where ms3: "add_change c a i dir ms2 = Some ms3" "mnet ms3 = s" "parn ms3 = Suc (parn ms)"
        "length (mode_changes ms3) = Suc (length (mode_changes ms))"
      using ok(4) fields by (simp add: add_change_def ms1_def)
    ultimately obtain s' where "set_member_flags m f ms3 = Some (ms3\<lparr>mnet := s'\<rparr>)" "plain_frame (me_chan env) s s'"
      using set_member_flags_ok [of ms3 m mb "me_chan env" f] by auto
    then show ?thesis
      using ms3 plain_frame_trans [OF quiet_frame [OF quiet]] by (simp add: mode_res_def)
  qed
  show "\<exists>ms'. chm_status level flag skip_add env dir c d ms = Some ms' \<and> mode_res env ms ms'"
  proof (cases "below level env ms \<or> dir = MODE_QUERY \<or> length (me_parv env) \<le> parn ms")
    case True
    then show ?thesis using refuse_res [OF ok(2)] by (auto simp: chm_status_def Let_def)
  next
    case False
    show ?thesis
    proof (cases target)
      case None
      then show ?thesis using False fc res1 by (simp add: chm_status_def Let_def ms1_def)
    next
      case (Some y)
      obtain full ms2 where ms2: "count_param env ms1 = (full, ms2)" by fastforce
      have "mode_res env ms ms2" using step [of ms2] count_param_fields [OF ms2] by (simp add: mode_res_def ms1_def)
      moreover have "mode_res env ms (once err x num t ms1)" for err x num t
        using step [of "once err x num t ms1"] quietly_intros(1) by (simp add: quietly_def ms1_def)
      ultimately show ?thesis
        using False fc Some ms2 change by (cases "find_channel_link y (me_chan env) s") (auto simp: chm_status_def Let_def ms1_def [symmetric])
    qed
  qed
qed

lemma drop_earlier_fields [simp]:
  "mnet (drop_earlier c ms) = mnet ms" "parn (drop_earlier c ms) = parn ms" "length (mode_changes (drop_earlier c ms)) = length (mode_changes ms)"
  by (simp_all add: drop_earlier_def)

lemma set_then_change:
  assumes "channels (mnet ms) (me_chan env) = Some ch" "length (mode_changes ms) < IRCD_BUFSIZE"
    and "\<And>ch. ch_name (f ch) = ch_name ch \<and> members (f ch) = members ch \<and> locmembers (f ch) = locmembers ch \<and> invites (f ch) = invites ch \<and>
      banlist (f ch) = banlist ch \<and> exceptlist (f ch) = exceptlist ch \<and> invexlist (f ch) = invexlist ch"
    and g: "\<And>ms. mnet (g ms) = mnet ms \<and> parn (g ms) = parn ms \<and> length (mode_changes (g ms)) = length (mode_changes ms)"
  shows "\<exists>ms'. Option.bind (set_channel (me_chan env) f ms) (\<lambda>ms1. add_change c a i dir (g ms1)) = Some ms' \<and> mode_res env ms ms'"
proof -
  obtain s where "set_channel (me_chan env) f ms = Some (ms\<lparr>mnet := s\<rparr>)" "plain_frame (me_chan env) (mnet ms) s"
    using set_channel_res [OF assms(1,3)] by blast
  then show ?thesis using assms(2) g [of "ms\<lparr>mnet := s\<rparr>"] by (simp add: add_change_def mode_res_def)
qed

lemma res_parn: "mode_res env (ms\<lparr>parn := Suc (parn ms)\<rparr>) ms' \<Longrightarrow> mode_res env ms ms'" "mode_res env ms (ms\<lparr>parn := Suc (parn ms)\<rparr>)"
  by (auto simp: mode_res_def)

lemma chm_limit_ok: "handler_ok env chm_limit d"
proof (rule handler_okI)
  fix dir c ch and ms :: mode_state
  assume ok: "net_ok (mnet ms)" "channels (mnet ms) (me_chan env) = Some ch" "1 \<le> parn ms" "length (mode_changes ms) < IRCD_BUFSIZE"
  have add: "\<exists>ms'. Option.bind (add_change c a i dir (drop_earlier c (ms\<lparr>parn := Suc (parn ms)\<rparr>))) (set_channel (me_chan env) (\<lambda>ch. ch\<lparr>ch_limit := n\<rparr>)) = Some ms' \<and>
      mode_res env ms ms'" for a i n
  proof -
    obtain ms2 where ms2: "add_change c a i dir (drop_earlier c (ms\<lparr>parn := Suc (parn ms)\<rparr>)) = Some ms2" "mnet ms2 = mnet ms"
        "parn ms2 = Suc (parn ms)" "length (mode_changes ms2) = Suc (length (mode_changes ms))"
      using ok(4) by (simp add: add_change_def)
    then show ?thesis
      using set_channel_res [of ms2 env ch "\<lambda>ch. ch\<lparr>ch_limit := n\<rparr>"] ok(2) by (auto simp: mode_res_def)
  qed
  show "\<exists>ms'. chm_limit env dir c d ms = Some ms' \<and> mode_res env ms ms'"
    using add refuse_res [OF ok(2)] res_parn(2) ok(2) set_then_change [OF ok(2,4), of "\<lambda>ch. ch\<lparr>ch_limit := 0\<rparr>" id c NoArg None dir]
    by (auto simp: chm_limit_def Let_def)
qed

lemma chm_key_ok: "handler_ok env chm_key d"
proof (rule handler_okI)
  fix dir c ch and ms :: mode_state
  assume ok: "net_ok (mnet ms)" "channels (mnet ms) (me_chan env) = Some ch" "1 \<le> parn ms" "length (mode_changes ms) < IRCD_BUFSIZE"
  define ms1 where "ms1 = ms\<lparr>parn := Suc (parn ms)\<rparr>"
  have ok1: "channels (mnet ms1) (me_chan env) = Some ch" "length (mode_changes ms1) < IRCD_BUFSIZE" using ok by (simp_all add: ms1_def)
  note p = res_parn [of env ms, folded ms1_def]
  have add: "\<exists>ms'. Option.bind (set_channel (me_chan env) (\<lambda>ch. ch\<lparr>ch_key := k\<rparr>) ms1) (\<lambda>ms2. add_change c ArgKey None dir (drop_earlier c ms2)) = Some ms' \<and>
      mode_res env ms ms'" for k
    using set_then_change [OF ok1, of "\<lambda>ch. ch\<lparr>ch_key := k\<rparr>" "drop_earlier c" c ArgKey None dir] p(1) by auto
  show "\<exists>ms'. chm_key env dir c d ms = Some ms' \<and> mode_res env ms ms'"
    using add refuse_res [OF ok(2)] p ok(2) ok1(1) set_then_change [OF ok(2,4), of "\<lambda>ch. ch\<lparr>ch_key := []\<rparr>" id c "ArgText ''*''" None dir]
      set_then_change [OF ok1, of "\<lambda>ch. ch\<lparr>ch_key := []\<rparr>" id c "ArgText ''*''" None dir]
    by (auto simp: chm_key_def Let_def ms1_def [symmetric])
qed

lemma handlers_ok: "env_ok env \<Longrightarrow> handler_ok env (fst (ModeTable c)) (snd (ModeTable c))"
  by (rule ModeTable_all) (simp_all add: handler_simple chm_ban_def chm_except_def chm_invex_def chm_mask_ok chm_voice_def chm_hop_def
    chm_op_def chm_status_ok chm_limit_ok chm_key_ok)

lemma mode_res_ok:
  assumes "state_ok env ms" "mode_res env ms ms'"
  shows "state_ok env ms'"
proof -
  have "mode_frame (me_chan env) (mnet ms) (mnet ms')" using assms(2) by (simp add: mode_res_def plain_frame_def)
  moreover from this have "shape_of (mnet ms') = shape_of (mnet ms)" by (simp add: mode_frame_def)
  ultimately show ?thesis using assms frame_live by (fastforce simp: state_ok_def mode_res_def)
qed

lemma mode_loop_ok:
  assumes env: "env_ok env"
  shows "state_ok env ms \<Longrightarrow> length (mode_changes ms) + length ml \<le> IRCD_BUFSIZE \<Longrightarrow>
    \<exists>ms'. mode_loop env ml dir ms = Some ms' \<and> plain_frame (me_chan env) (mnet ms) (mnet ms') \<and>
      length (mode_changes ms') \<le> length (mode_changes ms) + length ml"
proof (induction ml arbitrary: dir ms)
  case (Cons c ml)
  show ?case
  proof (cases "c \<in> {CHR ''+'', CHR ''-'', CHR ''=''}")
    case True
    have "\<exists>ms'. mode_loop env ml d ms = Some ms' \<and> plain_frame (me_chan env) (mnet ms) (mnet ms') \<and>
        length (mode_changes ms') \<le> length (mode_changes ms) + length (c # ml)" for d
      using Cons.IH [OF Cons.prems(1), of d] Cons.prems(2) by fastforce
    then show ?thesis using True by auto
  next
    case False
    obtain ms1 where ms1: "fst (ModeTable c) env dir c (snd (ModeTable c)) ms = Some ms1" "mode_res env ms ms1"
      using handlers_ok [OF env, of c] Cons.prems by (fastforce simp: handler_ok_def)
    then have "length (mode_changes ms1) + length ml \<le> IRCD_BUFSIZE" using Cons.prems(2) by (simp add: mode_res_def)
    from Cons.IH [OF mode_res_ok [OF Cons.prems(1) ms1(2)] this, of dir] ms1 False show ?thesis
      using plain_frame_trans by (fastforce simp: mode_res_def simp del: mode_loop.simps)
  qed
qed simp

text \<open>What every handler keeps is kept by the loop.\<close>

lemma mode_loop_inv:
  assumes env: "env_ok env"
    and step: "\<And>dir c ms ms'. c \<notin> {CHR ''+'', CHR ''-'', CHR ''=''} \<Longrightarrow> state_ok env ms \<Longrightarrow> mode_res env ms ms' \<Longrightarrow> I ms \<Longrightarrow>
      fst (ModeTable c) env dir c (snd (ModeTable c)) ms = Some ms' \<Longrightarrow> I ms'"
  shows "state_ok env ms \<Longrightarrow> I ms \<Longrightarrow> length (mode_changes ms) + length ml \<le> IRCD_BUFSIZE \<Longrightarrow> mode_loop env ml dir ms = Some ms' \<Longrightarrow> I ms'"
proof (induction ml arbitrary: dir ms)
  case (Cons c ml)
  show ?case
  proof (cases "c \<in> {CHR ''+'', CHR ''-'', CHR ''=''}")
    case True
    then show ?thesis using Cons.IH [OF Cons.prems(1,2)] Cons.prems(3,4) by auto
  next
    case False
    obtain ms1 where ms1: "fst (ModeTable c) env dir c (snd (ModeTable c)) ms = Some ms1" "mode_res env ms ms1"
      using handlers_ok [OF env, of c] Cons.prems(1,3) by (fastforce simp: handler_ok_def)
    have "length (mode_changes ms1) + length ml \<le> IRCD_BUFSIZE" using ms1(2) Cons.prems(3) by (auto simp: mode_res_def)
    moreover have "I ms1" by (rule step [OF False Cons.prems(1) ms1(2) Cons.prems(2) ms1(1)])
    moreover have "mode_loop env ml dir ms1 = Some ms'" using Cons.prems(4) False ms1(1) by (simp del: mode_loop.simps)
    ultimately show ?thesis using Cons.IH [OF mode_res_ok [OF Cons.prems(1) ms1(2)]] by blast
  qed
qed simp

end
