(* ===== verification/ModeLines.thy ===== *)
theory ModeLines
  imports ChannelMode
begin

text \<open>
  The lines that announce mode changes: they stay within \<open>modebuf\<close> and \<open>parabuf\<close>, and read the way
  \<open>set_channel_mode\<close> reads a mode string they give back every change, once and in order, with its argument.
\<close>

type_synonym change = "char \<times> string option \<times> mode_dir"

definition shown :: "change list \<Rightarrow> change list" where
  "shown cs = filter (\<lambda>(c, a, d). c \<noteq> NUL) cs"

fun letters :: "mode_dir \<Rightarrow> change list \<Rightarrow> string" where
  "letters d [] = []"
| "letters d ((c, a, dir) # cs) = (if d \<noteq> dir then (if dir = MODE_ADD then ''+'' else ''-'') else []) @ c # letters dir cs"

definition args :: "change list \<Rightarrow> string list" where
  "args cs = concat (map (\<lambda>(c, a, d). case a of None \<Rightarrow> [] | Some t \<Rightarrow> [t]) cs)"

definition arg_words :: "change list \<Rightarrow> string" where
  "arg_words cs = concat (map (\<lambda>t. t @ '' '') (args cs))"

definition last_dir :: "change list \<Rightarrow> mode_dir" where
  "last_dir cs = (if cs = [] then MODE_QUERY else snd (snd (last cs)))"

definition args_fit :: "change list \<Rightarrow> bool" where
  "args_fit cs \<longleftrightarrow> (\<forall>t \<in> set (args cs). length t + 2 \<le> MODEBUFLEN)"

text \<open>A line as it is sent in the middle of an announcement, and the last one, without the final blank.\<close>

definition line_of :: "string \<Rightarrow> change list \<Rightarrow> string" where
  "line_of pre g = pre @ letters MODE_QUERY g @ '' '' @ arg_words g"

definition last_line_of :: "string \<Rightarrow> change list \<Rightarrow> string" where
  "last_line_of pre g = pre @ letters MODE_QUERY g @ '' '' @ (if args g = [] then [] else butlast (arg_words g))"

lemma letters_append: "letters d (cs @ [(c, a, dir)]) =
    letters d cs @ (if (if cs = [] then d else last_dir cs) \<noteq> dir then (if dir = MODE_ADD then ''+'' else ''-'') else []) @ [c]"
  by (induction d cs rule: letters.induct) (auto simp: last_dir_def)

lemma args_append [simp]: "args (cs @ ds) = args cs @ args ds" "args [] = []"
  "args ((c, a, d) # cs) = (case a of None \<Rightarrow> [] | Some t \<Rightarrow> [t]) @ args cs"
  by (simp_all add: args_def)

lemma set_args: "t \<in> set (args cs) \<longleftrightarrow> (\<exists>c d. (c, Some t, d) \<in> set cs)"
  by (induction cs) (auto split: option.splits)

lemma arg_words_append [simp]: "arg_words (cs @ ds) = arg_words cs @ arg_words ds" "arg_words [] = []"
  by (simp_all add: arg_words_def)

lemma arg_words_single: "arg_words [(c, a, d)] = (case a of None \<Rightarrow> [] | Some t \<Rightarrow> t @ '' '')"
  by (auto simp: arg_words_def split: option.split)

lemma length_letters: "length (letters d cs) \<le> 2 * length cs"
  by (induction d cs rule: letters.induct) auto

lemma letters_nonempty: "cs \<noteq> [] \<Longrightarrow> letters d cs \<noteq> []"
  by (cases "(d, cs)" rule: letters.cases) auto

lemma letters_last: "cs \<noteq> [] \<Longrightarrow> last (letters d cs) = fst (last cs)"
proof (induction d cs rule: letters.induct)
  case (2 d c a dir cs)
  then show ?case by (cases "cs = []") (auto simp: letters_nonempty)
qed simp

lemma arg_words_nil: "arg_words cs = [] \<longleftrightarrow> args cs = []" "args cs \<noteq> [] \<Longrightarrow> last (arg_words cs) = CHR '' ''"
proof -
  show "arg_words cs = [] \<longleftrightarrow> args cs = []" by (auto simp: arg_words_def)
  assume "args cs \<noteq> []"
  then obtain ts t where "args cs = ts @ [t]" by (metis rev_exhaust)
  then show "last (arg_words cs) = CHR '' ''" by (simp add: arg_words_def)
qed

text \<open>The state of the loop after the changes \<open>g\<close> of the current line.\<close>

definition in_line :: "string \<Rightarrow> change list \<Rightarrow> string list \<Rightarrow> line_state" where
  "in_line pre g out = \<lparr>modebuf = pre @ letters MODE_QUERY g, parabuf = arg_words g, ls_nc = length g, ls_mc = length (args g),
     ls_dir = last_dir g, ls_out = out\<rparr>"

lemma in_line_Nil: "line_start pre out = in_line pre [] out"
  by (simp add: line_start_def in_line_def last_dir_def)

definition letters_ok :: "change list \<Rightarrow> bool" where
  "letters_ok cs \<longleftrightarrow> (\<forall>(c, a, d) \<in> set cs. c \<notin> {CHR ''+'', CHR ''-'', CHR ''=''} \<and> d \<noteq> MODE_QUERY)"

lemma put_change_in_line:
  assumes "length (pre @ letters MODE_QUERY (g @ [(c, a, d)])) < IRCD_BUFSIZE" "length (arg_words (g @ [(c, a, d)])) < MODEBUFLEN"
  shows "put_change c a d (in_line pre g out) = Some (in_line pre (g @ [(c, a, d)]) out)"
proof -
  have "modebuf (in_line pre g out) @ (if ls_dir (in_line pre g out) \<noteq> d then if d = MODE_ADD then ''+'' else ''-'' else []) @ [c] =
      pre @ letters MODE_QUERY (g @ [(c, a, d)])"
    by (auto simp: in_line_def letters_append last_dir_def)
  moreover have "parabuf (in_line pre g out) @ (case a of None \<Rightarrow> [] | Some t \<Rightarrow> t @ '' '') = arg_words (g @ [(c, a, d)])"
    by (simp add: in_line_def arg_words_single)
  ultimately show ?thesis
    using assms unfolding put_change_def Let_def by (simp add: in_line_def last_dir_def split: option.split)
qed

lemma flush_in_line:
  assumes "g = [] \<or> fst (last g) \<noteq> CHR ''-''" "g = [] \<Longrightarrow> pre = [] \<or> last pre \<noteq> CHR ''-''"
  shows "flush_line pre trim (in_line pre g out) = in_line pre [] (if g = [] then out else out @ [line_of pre g])"
proof -
  have "\<not> (modebuf (in_line pre g out) \<noteq> [] \<and> last (modebuf (in_line pre g out)) = CHR ''-'')"
    using assms letters_last [of g] letters_nonempty [of g] by (cases "g = []") (auto simp: in_line_def)
  then show ?thesis
    by (auto simp: flush_line_def Let_def in_line_def line_start_def last_dir_def line_text_def line_of_def)
qed

text \<open>The lines for given groups of changes.\<close>

fun lines_of :: "string \<Rightarrow> change list list \<Rightarrow> string list" where
  "lines_of pre [] = []"
| "lines_of pre [g] = [last_line_of pre g]"
| "lines_of pre (g # gs) = line_of pre g # lines_of pre gs"

lemma mode_lines_groups:
  assumes pre: "pre = [] \<or> last pre \<noteq> CHR ''-''"
  shows "letters_ok cs \<Longrightarrow> args_fit (shown cs) \<Longrightarrow> letters_ok g \<Longrightarrow> length pre + 2 * length g + 2 * length (shown cs) < IRCD_BUFSIZE \<Longrightarrow>
    length (args g) \<le> MAXMODEPARAMS \<Longrightarrow>
    \<exists>gs. mode_lines pre trim cs (in_line pre g out) = Some (out @ lines_of pre gs) \<and> concat gs = g @ shown cs \<and>
      (\<forall>h \<in> set gs. h \<noteq> [] \<and> length (args h) \<le> MAXMODEPARAMS)"
proof (induction cs arbitrary: g out)
  case Nil
  have "mode_lines pre trim [] (in_line pre g out) = Some (if g = [] then out else out @ [last_line_of pre g])"
    using arg_words_nil [of g] by (auto simp: Let_def in_line_def line_text_def last_line_of_def)
  then show ?case
    using Nil by (intro exI [of _ "if g = [] then [] else [g]"]) (auto simp: shown_def)
next
  case (Cons x cs)
  obtain c a d where x: "x = (c, a, d)" by (metis prod_cases3)
  have cs: "letters_ok cs" "args_fit (shown cs)"
    using Cons.prems(1,2) by (auto simp: letters_ok_def args_fit_def shown_def x split: if_splits)
  show ?case
  proof (cases "c = NUL")
    case True
    then show ?thesis using Cons.IH [OF cs Cons.prems(3) _ Cons.prems(5)] Cons.prems(4) by (simp add: x shown_def)
  next
    case False
    let ?n = "case a of None \<Rightarrow> 0 | Some t \<Rightarrow> length t"
    have sh: "shown (x # cs) = (c, a, d) # shown cs" using False by (simp add: x shown_def)
    have fit: "?n + 2 \<le> MODEBUFLEN"
      using Cons.prems(2) by (cases a) (auto simp: sh args_fit_def MODEBUFLEN_def)
    have ok: "letters_ok [(c, a, d)]" using Cons.prems(1) by (simp add: letters_ok_def x)
    have words: "length (arg_words [(c, a, d)]) = (if a = None then 0 else Suc ?n)"
      by (auto simp: arg_words_single split: option.split)
    show ?thesis
    proof (cases "line_full ?n (in_line pre g out)")
      case True
      have flush: "flush_line pre trim (in_line pre g out) = in_line pre [] (if g = [] then out else out @ [line_of pre g])"
        using Cons.prems(3) pre by (intro flush_in_line) (auto simp: letters_ok_def dest!: last_in_set)
      have put: "put_change c a d (in_line pre [] out') = Some (in_line pre [(c, a, d)] out')" for out'
        using put_change_in_line [of pre "[]" c a d out'] Cons.prems(4) fit words by (auto simp: sh)
      have len: "length pre + 2 * length [(c, a, d)] + 2 * length (shown cs) < IRCD_BUFSIZE" using Cons.prems(4) by (simp add: sh)
      have one: "length (args [(c, a, d)]) \<le> MAXMODEPARAMS" by (simp add: MAXMODEPARAMS_def split: option.split)
      obtain gs where gs: "mode_lines pre trim cs (in_line pre [(c, a, d)] (if g = [] then out else out @ [line_of pre g])) =
          Some ((if g = [] then out else out @ [line_of pre g]) @ lines_of pre gs)" "concat gs = [(c, a, d)] @ shown cs"
          "\<forall>h \<in> set gs. h \<noteq> [] \<and> length (args h) \<le> MAXMODEPARAMS"
        using Cons.IH [OF cs ok len one] by blast
      have "lines_of pre (g # gs) = line_of pre g # lines_of pre gs" using gs(2) by (cases gs) auto
      then show ?thesis
        using gs True False flush put Cons.prems(5) by (intro exI [of _ "if g = [] then gs else g # gs"]) (auto simp: x sh [unfolded x])
    next
      case room: False
      have "length (letters MODE_QUERY (g @ [(c, a, d)])) \<le> 2 * length (g @ [(c, a, d)])" by (rule length_letters)
      then have "put_change c a d (in_line pre g out) = Some (in_line pre (g @ [(c, a, d)]) out)"
        using room Cons.prems(4) words by (intro put_change_in_line) (auto simp: sh line_full_def in_line_def BAN_FUDGE_def)
      moreover have "length (args (g @ [(c, a, d)])) \<le> MAXMODEPARAMS"
        using room Cons.prems(5) by (auto simp: line_full_def in_line_def split: option.split)
      moreover have "letters_ok (g @ [(c, a, d)])" using ok Cons.prems(3) by (auto simp: letters_ok_def)
      ultimately show ?thesis
        using Cons.IH [OF cs, of "g @ [(c, a, d)]" out] Cons.prems(4) room False by (simp add: x sh [unfolded x])
    qed
  qed
qed

lemma announce_groups:
  assumes "letters_ok cs" "args_fit (shown cs)" "length pre + 2 * length (shown cs) < IRCD_BUFSIZE" "pre = [] \<or> last pre \<noteq> CHR ''-''"
  shows "\<exists>gs. announce pre trim cs = Some (lines_of pre gs) \<and> concat gs = shown cs \<and> (\<forall>h \<in> set gs. h \<noteq> [] \<and> length (args h) \<le> MAXMODEPARAMS)"
proof -
  have nil: "letters_ok []" "length pre + 2 * length ([] :: change list) + 2 * length (shown cs) < IRCD_BUFSIZE" "length (args []) \<le> MAXMODEPARAMS"
    using assms(3) by (simp_all add: letters_ok_def)
  obtain gs where "mode_lines pre trim cs (in_line pre [] []) = Some ([] @ lines_of pre gs)" "concat gs = [] @ shown cs"
      "\<forall>h \<in> set gs. h \<noteq> [] \<and> length (args h) \<le> MAXMODEPARAMS"
    using mode_lines_groups [OF assms(4,1,2) nil] by blast
  then show ?thesis using assms(3) by (auto simp: announce_def in_line_Nil)
qed

text \<open>Reading a mode string: the direction in force for every letter.\<close>

fun read_letters :: "mode_dir \<Rightarrow> string \<Rightarrow> (char \<times> mode_dir) list" where
  "read_letters d [] = []"
| "read_letters d (c # s) =
    (if c = CHR ''+'' then read_letters MODE_ADD s else if c = CHR ''-'' then read_letters MODE_DEL s
     else if c = CHR ''='' then read_letters MODE_QUERY s else (c, d) # read_letters d s)"

lemma read_letters_letters: "letters_ok cs \<Longrightarrow> read_letters d (letters d cs) = map (\<lambda>(c, a, dir). (c, dir)) cs"
proof (induction d cs rule: letters.induct)
  case (2 d c a dir cs)
  then have "letters_ok cs" "c \<notin> {CHR ''+'', CHR ''-'', CHR ''=''}" "dir \<noteq> MODE_QUERY" by (auto simp: letters_ok_def)
  then show ?case using 2 by (cases dir) auto
qed simp

end
