(* ===== verification/ModeText.thy ===== *)
theory ModeText
  imports ModeInv ModeLines
begin

text \<open>
  The changes that \<open>set_channel_mode\<close> collects: how many there can be in a call, that their arguments are short
  and hence that announcing them never leaves the buffers, so that the whole of \<open>set_channel_mode\<close> runs to its end.
\<close>

section \<open>Strings that fit their arrays\<close>

definition IDLEN :: nat where "IDLEN = 12"

definition user_fits :: "user \<Rightarrow> bool" where
  "user_fits u \<longleftrightarrow> length (uid u) \<le> IDLEN \<and> length (uname u) \<le> HOSTLEN \<and> length (uusername u) \<le> USERLEN \<and> length (uhost u) \<le> HOSTLEN"

definition names_fit :: "chan_config \<Rightarrow> net \<Rightarrow> bool" where
  "names_fit cfg s \<longleftrightarrow> length (me_name cfg) \<le> HOSTLEN \<and> (\<forall>x. user_fits (users s x)) \<and>
    (\<forall>c ch. channels s c = Some ch \<longrightarrow> length (ch_name ch) \<le> CHANNELLEN)"

definition MASKLEN :: nat where "MASKLEN = NICKLEN + USERLEN + HOSTLEN + 2"

lemma split_nuh_lengths:
  "split_nuh (Some (Suc a)) (Suc b) (Suc c) m = (Some n, u, h) \<Longrightarrow> length n \<le> a \<and> length u \<le> b \<and> length h \<le> c"
  by (auto simp: split_nuh_def Let_def strlcpy_str_def split: if_splits)

lemma split_nuh_nick: "\<exists>n u h. split_nuh (Some a) b c m = (Some n, u, h)"
  by (auto simp: split_nuh_def Let_def)

lemma mask_parts_lengths:
  assumes "mask_parts t = (n, u, h)"
  shows "length n \<le> NICKLEN \<and> length u \<le> USERLEN \<and> length h \<le> HOSTLEN"
proof -
  obtain n' u' h' where s: "split_nuh (Some (NICKLEN + 1)) (USERLEN + 1) (HOSTLEN + 1) (check_string t) = (Some n', u', h')"
    using split_nuh_nick by blast
  then show ?thesis using assms split_nuh_lengths [of NICKLEN USERLEN HOSTLEN "check_string t" n' u' h'] by (simp add: mask_parts_def)
qed

lemma length_nuh_text: "length (nuh_text n u h) = length n + length u + length h + 2"
  by (simp add: nuh_text_def)

lemma mask_text_length:
  "add_id cfg x c b type s = Some (True, t, s') \<Longrightarrow> length t \<le> MASKLEN" "del_id c b type s = Some (True, t, s') \<Longrightarrow> length t \<le> MASKLEN"
proof -
  have len: "length (strlcpy_str (nuh_text n u h) k) \<le> MASKLEN" if "mask_parts m = (n, u, h)" for n u h m k
    using mask_parts_lengths [OF that] by (auto simp: strlcpy_str_def length_nuh_text MASKLEN_def min_def)
  show "add_id cfg x c b type s = Some (True, t, s') \<Longrightarrow> length t \<le> MASKLEN"
    using len by (auto simp: add_id_def Let_def split: bind_splits prod.splits if_splits)
  show "del_id c b type s = Some (True, t, s') \<Longrightarrow> length t \<le> MASKLEN"
    using len by (auto simp: del_id_def Let_def split: bind_splits prod.splits option.splits)
qed

lemma length_show_nat: "n < 10 ^ Suc k \<Longrightarrow> length (show_nat n) \<le> Suc k"
proof (induction k arbitrary: n)
  case 0
  then show ?case by (simp add: show_nat.simps [of n])
next
  case (Suc k)
  show ?case
  proof (cases "n < 10")
    case True
    then show ?thesis by (simp add: show_nat.simps [of n])
  next
    case False
    have "n div 10 < 10 ^ Suc k" using Suc.prems by (simp add: less_mult_imp_div_less mult.commute)
    then show ?thesis using Suc.IH [of "n div 10"] False by (simp add: show_nat.simps [of n])
  qed
qed

lemma atoi_less: "atoi s < 2 ^ 31"
  using sint_less [where 'a = 32] by (simp add: atoi_def Let_def split: prod.split)

lemma limit_text_length: "length (show_nat (nat (atoi s))) \<le> MASKLEN"
proof -
  have "nat (atoi s) < 10 ^ Suc 9" using atoi_less [of s] by simp
  from length_show_nat [OF this] show ?thesis by (simp add: MASKLEN_def NICKLEN_def USERLEN_def HOSTLEN_def)
qed

section \<open>Counting changes\<close>

definition simple_count :: "u32 \<Rightarrow> nat" where
  "simple_count w = length (filter (\<lambda>(m, l). has_flag w m) chan_modes)"

lemma simple_count_le: "simple_count w \<le> 13"
  using length_filter_le [of "\<lambda>(m, l). has_flag w m" chan_modes] by (simp add: simple_count_def chan_modes_def)

lemma has_flag_add: "has_flag (add_flag w d) m \<longleftrightarrow> has_flag w m \<or> has_flag d m"
  by (simp add: has_flag_def add_flag_def bit.conj_disj_distrib2 or_eq_zero_iff)

lemmas mode_bits = MODE_NOCTRL_def MODE_INVITEONLY_def MODE_MODERATED_def MODE_NOPRIVMSGS_def MODE_PRIVATE_def MODE_REGISTERED_def
  MODE_SECRET_def MODE_TOPICLIMIT_def MODE_NOCTCP_def MODE_MODREG_def MODE_OPERONLY_def MODE_REGONLY_def MODE_SSLONLY_def

lemma chan_modes_disjoint:
  "\<forall>p \<in> set chan_modes. \<forall>q \<in> set chan_modes. has_flag (fst p) (fst q) = (p = q)"
  by code_simp

lemma simple_count_add:
  assumes "d \<in> fst ` set chan_modes" "\<not> has_flag w d"
  shows "simple_count (add_flag w d) = Suc (simple_count w)"
proof -
  obtain l where p: "(d, l) \<in> set chan_modes" using assms(1) by auto
  have "distinct chan_modes" by code_simp
  have "filter (\<lambda>(m, l). has_flag (add_flag w d) m) chan_modes = filter (\<lambda>q. q = (d, l) \<or> (case q of (m, l) \<Rightarrow> has_flag w m)) chan_modes"
  proof (rule filter_cong)
    fix q assume "q \<in> set chan_modes"
    then have "has_flag d (fst q) = (q = (d, l))" using chan_modes_disjoint p by (metis fst_conv)
    then show "(case q of (m, l) \<Rightarrow> has_flag (add_flag w d) m) = (q = (d, l) \<or> (case q of (m, l) \<Rightarrow> has_flag w m))"
      by (auto simp: has_flag_add case_prod_beta)
  qed simp
  also have "length \<dots> = Suc (simple_count w)"
  proof -
    have "length (filter (\<lambda>q. q = a \<or> Q q) xs) = Suc (length (filter Q xs))" if "distinct xs" "a \<in> set xs" "\<not> Q a" for Q :: "u32 \<times> char \<Rightarrow> bool" and a xs
      using that
    proof (induction xs)
      case (Cons x xs)
      show ?case
      proof (cases "x = a")
        case True
        then have "filter (\<lambda>q. q = a \<or> Q q) xs = filter Q xs" using Cons.prems(1) by (intro filter_cong) auto
        then show ?thesis using True Cons.prems(3) by simp
      qed (use Cons in auto)
    qed simp
    from this [OF \<open>distinct chan_modes\<close> p] show ?thesis using assms(2) by (simp add: simple_count_def)
  qed
  finally show ?thesis by (simp add: simple_count_def)
qed

lemma ModeTable_bits:
  assumes "\<And>d. P chm_nosuch d" "\<And>d. d \<in> fst ` set chan_modes \<Longrightarrow> P chm_simple d" "\<And>d. d \<in> fst ` set chan_modes \<Longrightarrow> P chm_registered d"
    "\<And>d. d \<in> fst ` set chan_modes \<Longrightarrow> P chm_operonly d" "\<And>d. P chm_ban d" "\<And>d. P chm_except d" "\<And>d. P chm_invex d" "\<And>d. P chm_voice d"
    "\<And>d. P chm_hop d" "\<And>d. P chm_op d" "\<And>d. P chm_limit d" "\<And>d. P chm_key d"
  shows "P (fst (ModeTable c)) (snd (ModeTable c))"
  by (simp add: ModeTable_def chan_modes_def assms)

definition change_ok :: "Channel \<Rightarrow> ChModeChange \<Rightarrow> bool" where
  "change_ok ch d \<longleftrightarrow> letter d \<notin> {CHR ''+'', CHR ''-'', CHR ''=''} \<and> change_dir d \<noteq> MODE_QUERY \<and>
    (\<forall>t. arg_text ch (arg d) = Some t \<longrightarrow> length t \<le> MASKLEN) \<and> (\<forall>i. change_id d = Some i \<longrightarrow> length i \<le> IDLEN)"

text \<open>Every change is paid for by a parameter, a simple mode, or a limit or key that was set before.\<close>

definition tally :: "Channel \<Rightarrow> mode_state \<Rightarrow> bool" where
  "tally ch ms \<longleftrightarrow> length (mode_changes ms) + of_bool (ch_limit ch \<noteq> 0) + of_bool (ch_key ch \<noteq> []) \<le>
    simple_count (simple_modes_mask ms) + 2 * (parn ms - 1) + 2"

definition tally_ok :: "mode_env \<Rightarrow> mode_state \<Rightarrow> bool" where
  "tally_ok env ms \<longleftrightarrow> 1 \<le> parn ms \<and> parn ms \<le> max 1 (length (me_parv env)) \<and>
    (\<exists>ch. channels (mnet ms) (me_chan env) = Some ch \<and> tally ch ms \<and> (\<forall>d \<in> set (mode_changes ms). change_ok ch d))"

lemma tally_quiet:
  assumes "tally_ok env ms" "quietly ms ms'" "parn ms' = parn ms" "simple_modes_mask ms' = simple_modes_mask ms"
  shows "tally_ok env ms'"
  using assms by (auto simp: tally_ok_def tally_def quietly_def quiet_def)

lemma once_mask [simp]: "simple_modes_mask (once err x num t ms) = simple_modes_mask ms" "simple_modes_mask (ms_send e ms) = simple_modes_mask ms"
  "simple_modes_mask (list_reply x rpl bs ms) = simple_modes_mask ms"
proof -
  show "simple_modes_mask (list_reply x rpl bs ms) = simple_modes_mask ms"
    unfolding list_reply_def by (induction bs arbitrary: ms) (simp_all add: ms_send_def)
qed (simp_all add: once_def ms_send_def Let_def)

lemma tally_once: "tally_ok env ms \<Longrightarrow> tally_ok env (once err x num t ms)"
  by (erule tally_quiet) simp_all

lemma tally_refuse: "refuse err num env ms = Some ms' \<Longrightarrow> tally_ok env ms \<Longrightarrow> tally_ok env ms'"
  by (auto simp: refuse_def intro: tally_once)

lemma MASKLEN_pos: "1 \<le> MASKLEN" "KEYLEN \<le> MASKLEN" "HOSTLEN \<le> MASKLEN"
  by (simp_all add: MASKLEN_def KEYLEN_def NICKLEN_def USERLEN_def HOSTLEN_def)

text \<open>Recording a change keeps the tally if something was paid for it.\<close>

lemma tally_add:
  assumes "tally_ok env ms" "add_change c a i dir ms1 = Some ms'" "channels (mnet ms) (me_chan env) = Some ch"
    and ch': "channels (mnet ms1) (me_chan env) = Some ch'"
    and c: "c \<notin> {CHR ''+'', CHR ''-'', CHR ''=''}" "dir \<noteq> MODE_QUERY" "\<And>t. arg_text ch' a = Some t \<Longrightarrow> length t \<le> MASKLEN"
      "\<And>j. i = Some j \<Longrightarrow> length j \<le> IDLEN"
    and key: "\<forall>d \<in> set (mode_changes ms1). change_ok ch' d" "length (mode_changes ms1) = length (mode_changes ms)"
    and parn: "parn ms \<le> parn ms1" "parn ms1 \<le> max 1 (length (me_parv env))"
    and paid: "Suc (of_bool (ch_limit ch' \<noteq> 0) + of_bool (ch_key ch' \<noteq> []) + simple_count (simple_modes_mask ms) + 2 * parn ms) \<le>
      of_bool (ch_limit ch \<noteq> 0) + of_bool (ch_key ch \<noteq> []) + simple_count (simple_modes_mask ms1) + 2 * parn ms1"
  shows "tally_ok env ms'"
proof -
  have ms': "ms' = ms1\<lparr>mode_changes := mode_changes ms1 @ [\<lparr>letter = c, arg = a, change_id = i, change_dir = dir\<rparr>]\<rparr>"
    using assms(2) by (simp add: add_change_def split: if_splits)
  have "change_ok ch' \<lparr>letter = c, arg = a, change_id = i, change_dir = dir\<rparr>" using c by (simp add: change_ok_def)
  moreover have "tally ch' ms'" using assms(1,3) key(2) paid parn(1) by (auto simp: tally_ok_def tally_def ms' of_bool_def split: if_splits)
  ultimately show ?thesis using assms(1) ch' key(1) parn by (auto simp: tally_ok_def ms')
qed

lemma tallyE:
  assumes "tally_ok env ms"
  obtains ch where "channels (mnet ms) (me_chan env) = Some ch" "\<forall>d \<in> set (mode_changes ms). change_ok ch d" "1 \<le> parn ms"
    "parn ms \<le> max 1 (length (me_parv env))"
  using assms by (auto simp: tally_ok_def)

lemma change_ok_same_key: "ch_key ch' = ch_key ch \<Longrightarrow> change_ok ch' d = change_ok ch d"
  by (simp add: change_ok_def arg_text_def split: change_arg.split)

lemma tally_simple:
  assumes "tally_ok env ms" "simple_change env dir c d ms = Some ms'" "c \<notin> {CHR ''+'', CHR ''-'', CHR ''=''}" "d \<in> fst ` set chan_modes"
  shows "tally_ok env ms'"
proof (cases "has_flag (simple_modes_mask ms) d")
  case True
  then show ?thesis using assms(1,2) by (simp add: simple_change_def)
next
  case False
  define ms1 where "ms1 = ms\<lparr>simple_modes_mask := add_flag (simple_modes_mask ms) d\<rparr>"
  have count: "simple_count (simple_modes_mask ms1) = Suc (simple_count (simple_modes_mask ms))" using simple_count_add [OF assms(4) False] by (simp add: ms1_def)
  obtain ch where ch: "channels (mnet ms) (me_chan env) = Some ch" "\<forall>d \<in> set (mode_changes ms). change_ok ch d" "1 \<le> parn ms" "parn ms \<le> max 1 (length (me_parv env))"
    using tallyE [OF assms(1)] by blast
  have change: "tally_ok env ms'"
    if "Option.bind (set_channel (me_chan env) (\<lambda>ch. ch\<lparr>ch_mode := g (ch_mode ch)\<rparr>) ms1) (add_change c NoArg None dir) = Some ms'" "dir \<noteq> MODE_QUERY" for g
  proof -
    define s where "s = (mnet ms)\<lparr>channels := (channels (mnet ms))(me_chan env \<mapsto> ch\<lparr>ch_mode := g (ch_mode ch)\<rparr>)\<rparr>"
    have add: "add_change c NoArg None dir (ms1\<lparr>mnet := s\<rparr>) = Some ms'"
      using that(1) ch(1) by (simp add: set_channel_def upd_channel_def ms1_def s_def)
    show ?thesis
      using assms(3) ch that(2) change_ok_same_key [of "ch\<lparr>ch_mode := g (ch_mode ch)\<rparr>" ch] count
      by (intro tally_add [where ch' = "ch\<lparr>ch_mode := g (ch_mode ch)\<rparr>", OF assms(1) add ch(1)]) (auto simp: s_def ms1_def arg_text_def)
  qed
  show ?thesis
  proof (cases dir)
    case MODE_QUERY
    then show ?thesis using assms(1,2) False count by (auto simp: simple_change_def tally_ok_def tally_def ms1_def)
  next
    case MODE_ADD
    then show ?thesis using change [of "\<lambda>m. add_flag m d"] assms(2) False by (simp add: simple_change_def ms1_def)
  next
    case MODE_DEL
    then show ?thesis using change [of "\<lambda>m. del_flag m d"] assms(2) False by (simp add: simple_change_def ms1_def)
  qed
qed

lemma tally_parn:
  "tally_ok env ms \<Longrightarrow> parn ms < length (me_parv env) \<Longrightarrow> tally_ok env (ms\<lparr>parn := Suc (parn ms)\<rparr>)"
  "tally_ok env (ms\<lparr>mode_limit := n\<rparr>) = tally_ok env ms"
  by (auto simp: tally_ok_def tally_def)

lemma tally_net:
  assumes "tally_ok env ms" "channels (mnet ms) (me_chan env) = Some ch" "channels s (me_chan env) = Some ch'" "ch_key ch' = ch_key ch" "ch_limit ch' = ch_limit ch"
  shows "tally_ok env (ms\<lparr>mnet := s\<rparr>)"
  using assms change_ok_same_key [OF assms(4)] by (auto simp: tally_ok_def tally_def)

lemma mask_ops_key:
  assumes "channels s c = Some ch"
  shows "add_id cfg x c b type s = Some (ok, t, s') \<Longrightarrow> \<exists>ch'. channels s' c = Some ch' \<and> ch_key ch' = ch_key ch \<and> ch_limit ch' = ch_limit ch"
    "del_id c b type s = Some (ok, t, s') \<Longrightarrow> \<exists>ch'. channels s' c = Some ch' \<and> ch_key ch' = ch_key ch \<and> ch_limit ch' = ch_limit ch"
proof -
  have loop: "clear_cache_loop ms s = Some s1 \<Longrightarrow> channels s1 = channels s" for ms s s1
    by (induction ms arbitrary: s) (auto split: bind_splits)
  then have clear: "clear_ban_cache_channel c s = Some s1 \<Longrightarrow> channels s1 = channels s" for s1
    by (auto simp: clear_ban_cache_channel_def split: bind_splits)
  show "add_id cfg x c b type s = Some (ok, t, s') \<Longrightarrow> \<exists>ch'. channels s' c = Some ch' \<and> ch_key ch' = ch_key ch \<and> ch_limit ch' = ch_limit ch"
    using assms by (auto simp: add_id_def upd_channel_def Let_def split: bind_splits prod.splits if_splits dest!: clear)
  show "del_id c b type s = Some (ok, t, s') \<Longrightarrow> \<exists>ch'. channels s' c = Some ch' \<and> ch_key ch' = ch_key ch \<and> ch_limit ch' = ch_limit ch"
    using assms by (auto simp: del_id_def upd_channel_def Let_def split: bind_splits prod.splits if_splits option.splits dest!: clear)
qed

lemma tally_count:
  assumes "count_param env ms = (full, ms1)"
  shows "tally_ok env ms1 = tally_ok env ms" "simple_modes_mask ms1 = simple_modes_mask ms"
  using assms by (auto simp: count_param_def tally_parn split: if_splits)

lemma tally_mask:
  assumes ok: "tally_ok env ms" and c: "c \<notin> {CHR ''+'', CHR ''-'', CHR ''=''}" and res: "chm_mask type err rpl endrpl env dir c d ms = Some ms'"
  shows "tally_ok env ms'"
proof (cases "dir = MODE_QUERY \<or> length (me_parv env) \<le> parn ms")
  case True
  have "tally_ok env (ms_send e (list_reply (me_source env) rpl bs (ms\<lparr>errors := f\<rparr>)))" for e bs f
    by (rule tally_quiet [OF ok quietly_trans [OF quietly_trans [OF quietly_intros(4) quietly_list_reply] quietly_intros(3)]]) simp_all
  then show ?thesis using True res ok by (auto simp: chm_mask_def Let_def split: if_splits bind_splits)
next
  case False
  obtain ch where ch: "channels (mnet ms) (me_chan env) = Some ch" "\<forall>d \<in> set (mode_changes ms). change_ok ch d" using tallyE [OF ok] by blast
  obtain full ms1 where ms1: "count_param env ms = (full, ms1)" by fastforce
  note fields = count_param_fields [OF ms1] tally_count [OF ms1]
  define ms2 where "ms2 = ms1\<lparr>parn := Suc (parn ms)\<rparr>"
  have ok2: "tally_ok env ms2" using tally_parn(1) [of env ms1] False fields ok by (simp add: ms2_def)
  have change: "tally_ok env ms'"
    if op: "(if dir = MODE_ADD then add_id (me_cfg env) (me_source env) (me_chan env) b type (mnet ms) else del_id (me_chan env) b type (mnet ms)) = Some (r, t, s)"
      and "(if r then add_change c (ArgText t) None dir (ms2\<lparr>mnet := s\<rparr>) else Some (ms2\<lparr>mnet := s\<rparr>)) = Some ms'" for b r t s
  proof -
    obtain ch' where ch': "channels s (me_chan env) = Some ch'" "ch_key ch' = ch_key ch" "ch_limit ch' = ch_limit ch"
      using op mask_ops_key(1) [OF ch(1), of "me_cfg env" "me_source env" b type r t s] mask_ops_key(2) [OF ch(1), of b type r t s]
      by (cases "dir = MODE_ADD") auto
    have len: "length t \<le> MASKLEN" if r using op that mask_text_length by (cases "dir = MODE_ADD") auto
    show ?thesis
    proof (cases r)
      case True
      then have add: "add_change c (ArgText t) None dir (ms2\<lparr>mnet := s\<rparr>) = Some ms'" using that(2) by simp
      show ?thesis
        using c False ch(2) ch' len [OF True] fields(1-3,5) change_ok_same_key [OF ch'(2)]
        by (intro tally_add [where ch' = ch', OF ok add ch(1)]) (auto simp: ms2_def arg_text_def)
    next
      case r: False
      have "tally_ok env (ms2\<lparr>mnet := s\<rparr>)" using tally_net [OF ok2 _ ch'] ch(1) fields(1) by (simp add: ms2_def)
      then show ?thesis using that(2) r by simp
    qed
  qed
  have "tally_ok env ms1" "tally_ok env (ms1\<lparr>parn := Suc (parn ms)\<rparr>)" using ok ok2 fields by (simp_all add: ms2_def)
  then show ?thesis
    using False res ms1 change tally_refuse [OF _ ok] fields(1,3)
    by (auto simp: chm_mask_def Let_def ms2_def split: if_splits bind_splits)
qed

lemma tally_status:
  assumes ok: "tally_ok env ms" and c: "c \<notin> {CHR ''+'', CHR ''-'', CHR ''=''}" and fit: "\<And>y. user_fits (users (mnet ms) y)"
    and res: "chm_status level flag skip_add env dir c d ms = Some ms'"
  shows "tally_ok env ms'"
proof (cases "below level env ms \<or> dir = MODE_QUERY \<or> length (me_parv env) \<le> parn ms")
  case True
  then show ?thesis using res ok tally_refuse by (auto simp: chm_status_def Let_def split: if_splits)
next
  case False
  obtain ch where ch: "channels (mnet ms) (me_chan env) = Some ch" "\<forall>d \<in> set (mode_changes ms). change_ok ch d" using tallyE [OF ok] by blast
  obtain target s where fc: "find_chasing (me_dir env) (me_source env) (me_parv env ! parn ms) (mnet ms) = (target, s)" by fastforce
  have s: "channels s = channels (mnet ms)" "users s = users (mnet ms)" using find_chasing_quiet [OF fc] by (auto simp: quiet_def)
  define ms1 where "ms1 = ms\<lparr>parn := Suc (parn ms), mnet := s\<rparr>"
  have ok1: "tally_ok env ms1" using tally_net [OF tally_parn(1) [OF ok], of ch s ch] False ch(1) s(1) by (simp add: ms1_def)
  show ?thesis
  proof (cases target)
    case None
    then show ?thesis using False res fc ok1 by (simp add: chm_status_def Let_def ms1_def)
  next
    case (Some y)
    obtain full ms2 where ms2: "count_param env ms1 = (full, ms2)" by fastforce
    note fields = count_param_fields [OF ms2] tally_count [OF ms2]
    have "tally_ok env ms'"
      if add: "add_change c (ArgText (uname (users s y))) (Some (uid (users s y))) dir ms2 = Some ms3" "set_member_flags m f ms3 = Some ms'" for ms3 m f
    proof -
      have "tally_ok env ms3"
        using c False ch s fit [of y] fields MASKLEN_pos(3)
        by (intro tally_add [where ch' = ch, OF ok add(1) ch(1)]) (auto simp: ms1_def arg_text_def user_fits_def)
      then show ?thesis using add(2) by (auto simp: set_member_flags_def tally_ok_def tally_def)
    qed
    note change = this
    show ?thesis
    proof (cases "find_channel_link y (me_chan env) s")
      case None
      then show ?thesis using False res fc Some tally_once [OF ok1] by (auto simp: chm_status_def Let_def ms1_def)
    next
      case m: (Some m)
      then show ?thesis
        using False res fc Some ms2 ok1 fields(4) change by (auto simp: chm_status_def Let_def ms1_def [symmetric] split: if_splits bind_splits)
    qed
  qed
qed

lemma drop_earlier_mask [simp]: "simple_modes_mask (drop_earlier c ms) = simple_modes_mask ms"
  by (simp add: drop_earlier_def)

lemma drop_earlier_ok:
  assumes "\<forall>d \<in> set (mode_changes ms). change_ok ch d"
  shows "\<forall>d \<in> set (mode_changes (drop_earlier c ms)). change_ok ch d"
  using assms by (auto simp: drop_earlier_def change_ok_def)

lemma change_ok_key: "change_ok ch d \<Longrightarrow> length (ch_key ch') \<le> MASKLEN \<Longrightarrow> change_ok ch' d"
  by (auto simp: change_ok_def arg_text_def split: change_arg.splits)

lemma tally_limit:
  assumes ok: "tally_ok env ms" and c: "c \<notin> {CHR ''+'', CHR ''-'', CHR ''=''}" and res: "chm_limit env dir c d ms = Some ms'"
  shows "tally_ok env ms'"
proof -
  obtain ch where ch: "channels (mnet ms) (me_chan env) = Some ch" "\<forall>d \<in> set (mode_changes ms). change_ok ch d" "1 \<le> parn ms"
      "parn ms \<le> max 1 (length (me_parv env))" using tallyE [OF ok] by blast
  define set_limit where "set_limit n s = s\<lparr>channels := (channels s)(me_chan env \<mapsto> ch\<lparr>ch_limit := n\<rparr>)\<rparr>" for n and s :: net
  consider "below CHACCESS_HALFOP env ms" | "ms' = ms" | "parn ms < length (me_parv env)" "ms' = ms\<lparr>parn := Suc (parn ms)\<rparr>"
    | t n where "dir = MODE_ADD" "parn ms < length (me_parv env)" "length t \<le> MASKLEN"
        "Option.bind (add_change c (ArgText t) None dir (drop_earlier c (ms\<lparr>parn := Suc (parn ms)\<rparr>))) (set_channel (me_chan env) (\<lambda>ch. ch\<lparr>ch_limit := n\<rparr>)) = Some ms'"
    | "dir = MODE_DEL" "ch_limit ch \<noteq> 0" "Option.bind (set_channel (me_chan env) (\<lambda>ch. ch\<lparr>ch_limit := 0\<rparr>) ms) (add_change c NoArg None dir) = Some ms'"
  proof (cases "below CHACCESS_HALFOP env ms")
    case False
    show thesis
    proof (cases dir)
      case MODE_QUERY
      then show thesis using that(2) res False by (simp add: chm_limit_def)
    next
      case MODE_DEL
      then show thesis using that(2,5) res False ch(1) by (cases "ch_limit ch = 0") (simp_all add: chm_limit_def)
    next
      case MODE_ADD
      let ?l = "me_parv env ! parn ms"
      consider "length (me_parv env) \<le> parn ms" | "parn ms < length (me_parv env)" "?l = [] \<or> atoi ?l \<le> 0"
        | "parn ms < length (me_parv env)" "\<not> (?l = [] \<or> atoi ?l \<le> 0)" by linarith
      then show thesis
      proof cases
        case 1
        then show thesis using that(2) res False MODE_ADD by (simp add: chm_limit_def)
      next
        case 2
        then show thesis using that(3) res False MODE_ADD by (simp add: chm_limit_def Let_def)
      next
        case 3
        then show thesis using that(4) [OF MODE_ADD _ limit_text_length [of ?l]] res False MODE_ADD by (simp add: chm_limit_def Let_def)
      qed
    qed
  qed (rule that(1))
  then show ?thesis
  proof cases
    case 1
    then show ?thesis using res tally_refuse [OF _ ok] by (simp add: chm_limit_def)
  next
    case 2
    then show ?thesis using ok by simp
  next
    case 3
    then show ?thesis using tally_parn(1) [OF ok] by simp
  next
    case (4 t n)
    let ?ms = "ms\<lparr>parn := Suc (parn ms), mnet := set_limit n (mnet ms)\<rparr>"
    have add: "add_change c (ArgText t) None dir (drop_earlier c ?ms) = Some ms'"
      using 4(4) ch(1) by (auto simp: add_change_def set_channel_def upd_channel_def set_limit_def drop_earlier_def split: if_splits)
    have old: "\<forall>d \<in> set (mode_changes (drop_earlier c ?ms)). change_ok (ch\<lparr>ch_limit := n\<rparr>) d"
      using ch(2) change_ok_same_key [of "ch\<lparr>ch_limit := n\<rparr>" ch] by (intro drop_earlier_ok) simp
    show ?thesis
      using c 4 ch(1,3,4) old by (intro tally_add [where ch' = "ch\<lparr>ch_limit := n\<rparr>", OF ok add ch(1)]) (auto simp: arg_text_def set_limit_def of_bool_def)
  next
    case 5
    have add: "add_change c NoArg None dir (ms\<lparr>mnet := set_limit 0 (mnet ms)\<rparr>) = Some ms'"
      using 5(3) ch(1) by (simp add: set_channel_def upd_channel_def set_limit_def)
    show ?thesis
      using c 5 ch change_ok_same_key [of "ch\<lparr>ch_limit := 0\<rparr>" ch]
      by (intro tally_add [where ch' = "ch\<lparr>ch_limit := 0\<rparr>", OF ok add ch(1)]) (auto simp: arg_text_def set_limit_def of_bool_def)
  qed
qed

lemma tally_key:
  assumes ok: "tally_ok env ms" and c: "c \<notin> {CHR ''+'', CHR ''-'', CHR ''=''}" and res: "chm_key env dir c d ms = Some ms'"
  shows "tally_ok env ms'"
proof -
  obtain ch where ch: "channels (mnet ms) (me_chan env) = Some ch" "\<forall>d \<in> set (mode_changes ms). change_ok ch d" "1 \<le> parn ms"
      "parn ms \<le> max 1 (length (me_parv env))" using tallyE [OF ok] by blast
  define set_key where "set_key k s = s\<lparr>channels := (channels s)(me_chan env \<mapsto> ch\<lparr>ch_key := k\<rparr>)\<rparr>" for k and s :: net
  have old: "\<forall>d \<in> set (mode_changes ms). change_ok (ch\<lparr>ch_key := k\<rparr>) d" if "length k \<le> MASKLEN" for k
    using ch(2) change_ok_key that by fastforce
  consider "below CHACCESS_HALFOP env ms" | "ms' = ms" | "parn ms < length (me_parv env)" "ms' = ms\<lparr>parn := Suc (parn ms)\<rparr>"
    | k where "dir = MODE_ADD" "parn ms < length (me_parv env)" "length k \<le> MASKLEN"
        "Option.bind (set_channel (me_chan env) (\<lambda>ch. ch\<lparr>ch_key := k\<rparr>) (ms\<lparr>parn := Suc (parn ms)\<rparr>)) (\<lambda>ms2. add_change c ArgKey None dir (drop_earlier c ms2)) = Some ms'"
    | n where "dir = MODE_DEL" "ch_key ch \<noteq> []" "n \<in> {parn ms, Suc (parn ms)}" "n \<le> max 1 (length (me_parv env))"
        "Option.bind (set_channel (me_chan env) (\<lambda>ch. ch\<lparr>ch_key := []\<rparr>) (ms\<lparr>parn := n\<rparr>)) (add_change c (ArgText ''*'') None dir) = Some ms'"
  proof (cases dir)
    case MODE_DEL
    have "ms\<lparr>parn := parn ms\<rparr> = ms" by simp
    then show thesis
      using MODE_DEL res ch(1,4) that(1,2,3) that(5) [of "parn ms"] that(5) [of "Suc (parn ms)"] by (auto simp: chm_key_def Let_def split: if_splits)
  next
    case MODE_ADD
    let ?k = "fix_key (me_parv env ! parn ms)"
    have len: "length (strlcpy_str ?k (KEYLEN + 1)) \<le> MASKLEN" using MASKLEN_pos(2) by (simp add: strlcpy_str_def min_def)
    consider "below CHACCESS_HALFOP env ms" | "\<not> below CHACCESS_HALFOP env ms" "length (me_parv env) \<le> parn ms"
      | "\<not> below CHACCESS_HALFOP env ms" "parn ms < length (me_parv env)" "?k = []"
      | "\<not> below CHACCESS_HALFOP env ms" "parn ms < length (me_parv env)" "?k \<noteq> []" by linarith
    then show thesis
    proof cases
      case 1
      then show thesis by (rule that(1))
    next
      case 2
      then show thesis using that(2) res MODE_ADD by (simp add: chm_key_def)
    next
      case 3
      then show thesis using that(3) res MODE_ADD by (simp add: chm_key_def Let_def)
    next
      case 4
      then show thesis using that(4) [OF MODE_ADD _ len] res MODE_ADD by (simp add: chm_key_def Let_def)
    qed
  next
    case MODE_QUERY
    then show thesis using res that(1,2) by (cases "below CHACCESS_HALFOP env ms") (simp_all add: chm_key_def)
  qed
  then show ?thesis
  proof cases
    case 1
    then show ?thesis using res tally_refuse [OF _ ok] by (simp add: chm_key_def)
  next
    case 2
    then show ?thesis using ok by simp
  next
    case 3
    then show ?thesis using tally_parn(1) [OF ok] by simp
  next
    case (4 k)
    let ?ms = "ms\<lparr>parn := Suc (parn ms), mnet := set_key k (mnet ms)\<rparr>"
    have add: "add_change c ArgKey None dir (drop_earlier c ?ms) = Some ms'"
      using 4(4) ch(1) by (simp add: set_channel_def upd_channel_def set_key_def)
    have "\<forall>d \<in> set (mode_changes (drop_earlier c ?ms)). change_ok (ch\<lparr>ch_key := k\<rparr>) d"
      using old [OF 4(3)] by (intro drop_earlier_ok) simp
    then show ?thesis
      using c 4 ch(1,3,4) by (intro tally_add [where ch' = "ch\<lparr>ch_key := k\<rparr>", OF ok add ch(1)]) (auto simp: arg_text_def set_key_def of_bool_def)
  next
    case (5 n)
    have add: "add_change c (ArgText ''*'') None dir (ms\<lparr>parn := n, mnet := set_key [] (mnet ms)\<rparr>) = Some ms'"
      using 5(5) ch(1) by (simp add: set_channel_def upd_channel_def set_key_def)
    show ?thesis
      using c 5 ch(1,3,4) old [of "[]"] MASKLEN_pos(1)
      by (intro tally_add [where ch' = "ch\<lparr>ch_key := []\<rparr>", OF ok add ch(1)]) (auto simp: arg_text_def set_key_def of_bool_def)
  qed
qed

lemma tally_handler:
  assumes ok: "tally_ok env ms" and c: "c \<notin> {CHR ''+'', CHR ''-'', CHR ''=''}" and fit: "\<And>y. user_fits (users (mnet ms) y)"
    and res: "fst (ModeTable c) env dir c (snd (ModeTable c)) ms = Some ms'"
  shows "tally_ok env ms'"
proof -
  note refused = tally_refuse [OF _ ok] and simple = tally_simple [OF ok _ c]
  let ?P = "\<lambda>f d. f env dir c d ms = Some ms' \<longrightarrow> tally_ok env ms'"
  have "?P (fst (ModeTable c)) (snd (ModeTable c))"
  proof (rule ModeTable_bits)
    show "?P chm_nosuch d" for d using tally_once [OF ok] by (auto simp: chm_nosuch_def)
    show "?P chm_simple d" if "d \<in> fst ` set chan_modes" for d using refused simple [OF _ that] by (simp add: chm_simple_def)
    show "?P chm_registered d" if "d \<in> fst ` set chan_modes" for d using refused simple [OF _ that] by (simp add: chm_registered_def Let_def)
    show "?P chm_operonly d" if "d \<in> fst ` set chan_modes" for d
      using refused simple [OF _ that] tally_once [OF ok] by (auto simp: chm_operonly_def Let_def)
  qed (use tally_mask [OF ok c] tally_status [OF ok c fit] tally_limit [OF ok c] tally_key [OF ok c] in
      \<open>simp_all add: chm_ban_def chm_except_def chm_invex_def chm_voice_def chm_hop_def chm_op_def\<close>)
  then show ?thesis using res by blast
qed

section \<open>The whole command\<close>

lemma mode_loop_tally:
  assumes env: "env_ok env" and fit: "\<And>y. user_fits (users (mnet ms) y)"
    and "state_ok env ms" "tally_ok env ms" "length (mode_changes ms) + length ml \<le> IRCD_BUFSIZE" "mode_loop env ml dir ms = Some ms'"
  shows "tally_ok env ms'"
proof -
  have "tally_ok env ms' \<and> users (mnet ms') = users (mnet ms)"
  proof (rule mode_loop_inv [OF env, where I = "\<lambda>ms1. tally_ok env ms1 \<and> users (mnet ms1) = users (mnet ms)", OF _ assms(3) _ assms(5,6)])
    fix dir c ms1 ms2 assume a: "c \<notin> {CHR ''+'', CHR ''-'', CHR ''=''}" "mode_res env ms1 ms2" "tally_ok env ms1 \<and> users (mnet ms1) = users (mnet ms)"
      "fst (ModeTable c) env dir c (snd (ModeTable c)) ms1 = Some ms2"
    have "tally_ok env ms2" using tally_handler [OF _ a(1) _ a(4)] a(3) fit by auto
    moreover have "users (mnet ms2) = users (mnet ms1)" using a(2) by (auto simp: mode_res_def plain_frame_def mode_frame_def)
    ultimately show "tally_ok env ms2 \<and> users (mnet ms2) = users (mnet ms)" using a(3) by simp
  qed (use assms(4) in simp)
  then show ?thesis ..
qed

lemma tally_length:
  assumes "tally_ok env ms" "length (me_parv env) \<le> MAXPARA"
  shows "length (mode_changes ms) \<le> 43"
proof -
  have "parn ms - 1 \<le> 14" using assms by (auto simp: tally_ok_def MAXPARA_def)
  then show ?thesis using assms(1) simple_count_le [of "simple_modes_mask ms"] by (auto simp: tally_ok_def tally_def)
qed

lemma length_shown: "length (shown cs) \<le> length cs"
  by (simp add: shown_def)

lemma announce_changes:
  assumes cs: "\<forall>d \<in> set cs. change_ok ch d" "length cs \<le> 43" and f: "f = client_change ch \<or> f = server_change ch"
    and pre: "length pre \<le> 400" "pre \<noteq> []" "last pre = CHR '' ''"
  shows "\<exists>gs. announce pre trim (map f cs) = Some (lines_of pre gs) \<and> concat gs = shown (map f cs) \<and>
    (\<forall>g \<in> set gs. g \<noteq> [] \<and> length (args g) \<le> MAXMODEPARAMS)"
proof (rule announce_groups)
  show "letters_ok (map f cs)" using cs(1) f by (auto simp: letters_ok_def change_ok_def client_change_def server_change_def)
  have "length t + 2 \<le> MODEBUFLEN" if "d \<in> set cs" "fst (snd (f d)) = Some t" for d t
  proof -
    have "length t \<le> MASKLEN \<or> length t \<le> IDLEN"
      using that cs(1) f by (auto simp: change_ok_def client_change_def server_change_def split: option.splits)
    then show ?thesis by (auto simp: MASKLEN_def IDLEN_def NICKLEN_def USERLEN_def HOSTLEN_def MODEBUFLEN_def)
  qed
  then show "args_fit (shown (map f cs))" by (auto simp: args_fit_def set_args shown_def) (metis fst_conv snd_conv)
  show "length pre + 2 * length (shown (map f cs)) < IRCD_BUFSIZE"
    using pre(1) cs(2) length_shown [of "map f cs"] by (simp add: IRCD_BUFSIZE_def)
qed (use pre in simp)

lemma prefix_lengths:
  assumes fit: "user_fits u" "length (ch_name ch) \<le> CHANNELLEN" "length (me_name cfg) \<le> HOSTLEN"
  shows "length (client_prefix cfg u ch) \<le> 400" "length (server_prefix u ch) \<le> 400"
proof -
  show "length (client_prefix cfg u ch) \<le> 400"
    using fit by (auto simp: client_prefix_def length_nuh_text user_fits_def HOSTLEN_def USERLEN_def CHANNELLEN_def)
  have "nat (ch_creationtime ch mod 2 ^ 64) < 10 ^ Suc 19"
    using pos_mod_bound [of "2 ^ 64" "ch_creationtime ch"] by simp
  from length_show_nat [OF this] show "length (server_prefix u ch) \<le> 400"
    using fit by (simp add: server_prefix_def user_fits_def IDLEN_def CHANNELLEN_def)
qed

lemma sent_fold [simp]: "sent (fold (\<lambda>t. send_event (f t)) ts s) = sent s @ map f ts"
  by (induction ts arbitrary: s) (simp_all add: send_event_def)

text \<open>What a call needs: a channel, parameters that fit, masks without escapes and that the mask parser can read, and
  a membership of the source, if any.\<close>

definition mode_call_ok :: "chan_config \<Rightarrow> addr \<Rightarrow> addr \<Rightarrow> addr option \<Rightarrow> string list \<Rightarrow> net \<Rightarrow> bool" where
  "mode_call_ok cfg x c member parv s \<longleftrightarrow> net_ok s \<and> names_fit cfg s \<and> channels s c \<noteq> None \<and>
    parv \<noteq> [] \<and> length parv \<le> MAXPARA \<and> length (hd parv) \<le> IRCD_BUFSIZE \<and> (\<forall>p \<in> set (tl parv). good_mask p) \<and>
    (case member of None \<Rightarrow> True | Some m \<Rightarrow> (\<exists>mb. mships s m = Some mb \<and> mclient mb = x))"

definition call_env :: "chan_config \<Rightarrow> directory \<Rightarrow> addr \<Rightarrow> addr \<Rightarrow> addr option \<Rightarrow> string list \<Rightarrow> net \<Rightarrow> mode_env" where
  "call_env cfg dir x c member parv s = \<lparr>me_cfg = cfg, me_dir = dir, me_source = x, me_chan = c, me_parv = parv,
     me_alev = get_channel_access (users s x) (Option.bind member (mships s))\<rparr>"

lemma set_channel_mode_unfold:
  assumes "mode_call_ok cfg x c member parv s"
  shows "set_channel_mode cfg dir x c member parv s = do {
    ms \<leftarrow> mode_loop (call_env cfg dir x c member parv s) (hd parv) MODE_ADD (mode_start s);
    if mode_changes ms = [] then Some (mnet ms)
    else do { s1 \<leftarrow> send_mode_changes_client cfg x c (mode_changes ms) (mnet ms); send_mode_changes_server x c (mode_changes ms) s1 } }"
  using assms by (cases member) (auto simp: set_channel_mode_def mode_call_ok_def call_env_def Let_def)

lemma set_channel_mode_ok:
  assumes ok: "mode_call_ok cfg x c member parv s"
  shows "\<exists>ms ch gs hs s'. mode_loop (call_env cfg dir x c member parv s) (hd parv) MODE_ADD (mode_start s) = Some ms \<and>
    set_channel_mode cfg dir x c member parv s = Some s' \<and> plain_frame c s s' \<and> channels s' = channels (mnet ms) \<and> mships s' = mships (mnet ms) \<and>
    channels s' c = Some ch \<and>
    sent s' = sent (mnet ms) @ map (ChannelText c) (lines_of (client_prefix cfg (users s x) ch) gs) @
      map (ServerText x) (lines_of (server_prefix (users s x) ch) hs) \<and>
    concat gs = shown (map (client_change ch) (mode_changes ms)) \<and> concat hs = shown (map (server_change ch) (mode_changes ms)) \<and>
    (\<forall>g \<in> set gs \<union> set hs. g \<noteq> [] \<and> length (args g) \<le> MAXMODEPARAMS) \<and> (\<forall>d \<in> set (mode_changes ms). change_ok ch d)"
proof -
  let ?env = "call_env cfg dir x c member parv s"
  have env: "env_ok ?env" using ok by (simp add: env_ok_def mode_call_ok_def call_env_def)
  have st: "state_ok ?env (mode_start s)" using ok by (simp add: state_ok_def mode_call_ok_def call_env_def mode_start_def)
  obtain ch0 where ch0: "channels s c = Some ch0" using ok by (auto simp: mode_call_ok_def)
  have tally: "tally_ok ?env (mode_start s)" using ch0 by (simp add: tally_ok_def tally_def mode_start_def call_env_def)
  have fit: "\<And>y. user_fits (users s y)" "names_fit cfg s" using ok by (auto simp: mode_call_ok_def names_fit_def)
  have len: "length (mode_changes (mode_start s)) + length (hd parv) \<le> IRCD_BUFSIZE" using ok by (simp add: mode_start_def mode_call_ok_def)
  obtain ms where ms: "mode_loop ?env (hd parv) MODE_ADD (mode_start s) = Some ms" "plain_frame c s (mnet ms)"
    using mode_loop_ok [OF env st len, of MODE_ADD] by (auto simp: call_env_def mode_start_def)
  have tallied: "tally_ok ?env ms" using mode_loop_tally [OF env _ st tally len ms(1)] fit(1) by (simp add: mode_start_def)
  then obtain ch where ch: "channels (mnet ms) c = Some ch" "\<forall>d \<in> set (mode_changes ms). change_ok ch d"
    by (auto simp: tally_ok_def call_env_def)
  have few: "length (mode_changes ms) \<le> 43" using tally_length [OF tallied] env by (simp add: env_ok_def)
  have us: "users (mnet ms) = users s" "shape_of (mnet ms) = shape_of s" using ms(2) by (auto simp: plain_frame_def mode_frame_def)
  have "ch_name ch = ch_name ch0" using us(2) ch(1) ch0 shape_of_simps(1) [of "mnet ms" c] shape_of_simps(1) [of s c] by simp
  then have pre: "length (client_prefix cfg (users s x) ch) \<le> 400" "length (server_prefix (users s x) ch) \<le> 400"
    using prefix_lengths [OF fit(1) [of x], of ch cfg] fit(2) ch0 by (auto simp: names_fit_def)
  have ends: "client_prefix cfg (users s x) ch \<noteq> []" "last (client_prefix cfg (users s x) ch) = CHR '' ''"
      "server_prefix (users s x) ch \<noteq> []" "last (server_prefix (users s x) ch) = CHR '' ''"
    by (simp_all add: client_prefix_def server_prefix_def)
  obtain gs where gs: "announce (client_prefix cfg (users s x) ch) True (map (client_change ch) (mode_changes ms)) = Some (lines_of (client_prefix cfg (users s x) ch) gs)"
      "concat gs = shown (map (client_change ch) (mode_changes ms))" "\<forall>g \<in> set gs. g \<noteq> [] \<and> length (args g) \<le> MAXMODEPARAMS"
    using announce_changes [OF ch(2) few disjI1 [OF refl] pre(1) ends(1,2)] by blast
  obtain hs where hs: "announce (server_prefix (users s x) ch) False (map (server_change ch) (mode_changes ms)) = Some (lines_of (server_prefix (users s x) ch) hs)"
      "concat hs = shown (map (server_change ch) (mode_changes ms))" "\<forall>g \<in> set hs. g \<noteq> [] \<and> length (args g) \<le> MAXMODEPARAMS"
    using announce_changes [OF ch(2) few disjI2 [OF refl] pre(2) ends(3,4)] by blast
  define s1 where "s1 = fold (\<lambda>t. send_event (ChannelText c t)) (lines_of (client_prefix cfg (users s x) ch) gs) (mnet ms)"
  define s2 where "s2 = fold (\<lambda>t. send_event (ServerText x t)) (lines_of (server_prefix (users s x) ch) hs) s1"
  have none: "gs = [] \<and> hs = []" if "mode_changes ms = []"
    using gs(2,3) hs(2,3) that by (auto simp: shown_def)
  then have "set_channel_mode cfg dir x c member parv s = Some s2"
    unfolding set_channel_mode_unfold [OF ok] using ms(1) ch(1) gs(1) hs(1) us(1)
    by (auto simp: send_mode_changes_client_def send_mode_changes_server_def s1_def s2_def)
  moreover have "plain_frame c s s2" using ms(2) by (simp add: plain_frame_def mode_frame_def s1_def s2_def plain_net_def)
  ultimately show ?thesis using ms(1) ch gs(2,3) hs(2,3) by (intro exI [of _ ms] exI [of _ ch] exI [of _ gs] exI [of _ hs] exI [of _ s2]) (auto simp: s1_def s2_def)
qed

end
