(* ===== verification/BanCache.thy ===== *)
theory BanCache
  imports ModeText
begin

text \<open>
  The cache of the ban test: \<open>can_send\<close> remembers in the flags of a membership whether its client is banned, and
  everything that changes a ban or exception list has to forget it. The flags of local members always agree with
  the lists, so the cached answer is the answer of the test.
\<close>

definition cached :: "Membership \<Rightarrow> bool \<times> bool" where
  "cached mb = (has_flag (mflags mb) CHFL_BAN_CHECKED, has_flag (mflags mb) CHFL_BAN_SILENCED)"

definition agrees :: "Membership \<Rightarrow> Channel \<Rightarrow> user \<Rightarrow> bool" where
  "agrees mb ch u \<longleftrightarrow> (snd (cached mb) \<longrightarrow> banned ch u) \<and> (fst (cached mb) \<and> \<not> snd (cached mb) \<longrightarrow> \<not> banned ch u)"

definition cache_ok :: "net \<Rightarrow> bool" where
  "cache_ok s \<longleftrightarrow> (\<forall>m mb ch. mships s m = Some mb \<longrightarrow> channels s (mchan mb) = Some ch \<longrightarrow> MyConnect (users s (mclient mb)) \<longrightarrow>
     agrees mb ch (users s (mclient mb)))"

lemma banned_same_lists: "banlist ch' = banlist ch \<Longrightarrow> exceptlist ch' = exceptlist ch \<Longrightarrow> banned ch' u = banned ch u"
  by (simp add: banned_def)

lemma cache_okI:
  assumes "cache_ok s" "users s' = users s"
    and "\<And>m mb' ch'. mships s' m = Some mb' \<Longrightarrow> channels s' (mchan mb') = Some ch' \<Longrightarrow> MyConnect (users s (mclient mb')) \<Longrightarrow>
      cached mb' = (False, False) \<or>
      (\<exists>mb ch. mships s m = Some mb \<and> mchan mb = mchan mb' \<and> mclient mb = mclient mb' \<and> cached mb = cached mb' \<and>
         channels s (mchan mb) = Some ch \<and> banlist ch' = banlist ch \<and> exceptlist ch' = exceptlist ch)"
  shows "cache_ok s'"
  unfolding cache_ok_def
proof (intro allI impI)
  fix m mb' ch' assume a: "mships s' m = Some mb'" "channels s' (mchan mb') = Some ch'" "MyConnect (users s' (mclient mb'))"
  from assms(3) [OF a(1,2)] a(3) assms(2) consider "cached mb' = (False, False)"
    | mb ch where "mships s m = Some mb" "mchan mb = mchan mb'" "mclient mb = mclient mb'" "cached mb = cached mb'"
        "channels s (mchan mb) = Some ch" "banlist ch' = banlist ch" "exceptlist ch' = exceptlist ch" by auto
  then show "agrees mb' ch' (users s' (mclient mb'))"
  proof cases
    case 1
    then show ?thesis by (simp add: agrees_def)
  next
    case (2 mb ch)
    have "agrees mb ch (users s (mclient mb))" using assms(1,2) a(3) 2(1,3,5) unfolding cache_ok_def by metis
    then show ?thesis using 2 assms(2) banned_same_lists [OF 2(6,7)] by (simp add: agrees_def)
  qed
qed

lemma cached_clear [simp]: "cached (clear_cached mb) = (False, False)"
proof -
  have "\<not> has_flag (del_flag w (CHFL_BAN_SILENCED OR CHFL_BAN_CHECKED)) CHFL_BAN_CHECKED" "\<not> has_flag (del_flag w (CHFL_BAN_SILENCED OR CHFL_BAN_CHECKED)) CHFL_BAN_SILENCED" for w
    using has_flag_del_same [of w "CHFL_BAN_SILENCED OR CHFL_BAN_CHECKED"] has_flag_or [of _ CHFL_BAN_SILENCED CHFL_BAN_CHECKED] by auto
  then show ?thesis by (simp add: cached_def clear_cached_def)
qed

lemma cache_quiet: "cache_ok s \<Longrightarrow> quiet s s' \<Longrightarrow> cache_ok s'"
  by (auto simp: quiet_def cache_ok_def)

lemma cache_set_channel:
  assumes "set_channel c f ms = Some ms'" "cache_ok (mnet ms)" "\<And>ch. banlist (f ch) = banlist ch \<and> exceptlist (f ch) = exceptlist ch"
  shows "cache_ok (mnet ms')"
  by (rule cache_okI [OF assms(2)]) (use assms(1,3) in \<open>auto simp: set_channel_def upd_channel_def split: if_splits\<close>)

lemma cache_flags:
  assumes "set_member_flags m f ms = Some ms'" "cache_ok (mnet ms)" "\<And>w b. b \<in> {CHFL_BAN_CHECKED, CHFL_BAN_SILENCED} \<Longrightarrow> has_flag (f w) b = has_flag w b"
    and "\<And>m mb. mships (mnet ms) m = Some mb \<Longrightarrow> channels (mnet ms) (mchan mb) \<noteq> None"
  shows "cache_ok (mnet ms')"
  by (rule cache_okI [OF assms(2)]) (use assms in \<open>auto simp: set_member_flags_def cached_def split: if_splits\<close>)

text \<open>After the caches of a channel are cleared, its ban and exception lists may change.\<close>

lemma cache_lists:
  assumes ok: "cache_ok s" "net_ok s" "channels s c = Some ch" and s1: "clear_ban_cache_channel c s = Some s1"
    and s2: "s2 = s1 \<or> (\<exists>f. upd_channel c f s1 = Some s2)"
  shows "cache_ok s2"
proof -
  obtain s1' where "clear_ban_cache_channel c s = Some s1'" and frame: "mode_frame c s s1'" and chans: "channels s1' = channels s"
      and ms: "\<And>m. mships s1' m = (if m \<in> set (locmembers ch) then map_option clear_cached (mships s m) else mships s m)"
    using clear_channel_ok [OF ok(2,3)] by blast
  then have eq: "s1' = s1" using s1 by simp
  have us: "users s2 = users s" "mships s2 = mships s1" "\<And>c'. c' \<noteq> c \<Longrightarrow> channels s2 c' = channels s c'"
    using s2 frame chans by (auto simp: eq mode_frame_def upd_channel_def)
  show ?thesis
  proof (rule cache_okI [OF ok(1) us(1)])
    fix m mb' ch' assume a: "mships s2 m = Some mb'" "channels s2 (mchan mb') = Some ch'" "MyConnect (users s (mclient mb'))"
    show "cached mb' = (False, False) \<or> (\<exists>mb ch. mships s m = Some mb \<and> mchan mb = mchan mb' \<and> mclient mb = mclient mb' \<and>
        cached mb = cached mb' \<and> channels s (mchan mb) = Some ch \<and> banlist ch' = banlist ch \<and> exceptlist ch' = exceptlist ch)"
    proof (cases "m \<in> set (locmembers ch)")
      case True
      then show ?thesis using a(1) us(2) ms [of m] by (cases "mships s m") (auto simp: eq)
    next
      case False
      then have "mships s m = Some mb'" using a(1) us(2) ms [of m] by (simp add: eq)
      then have "mchan mb' \<noteq> c" using False locmember_of [OF ok(2,3), of m] a(3) by auto
      then show ?thesis using a(2) us(3) \<open>mships s m = Some mb'\<close> by auto
    qed
  qed
qed

lemma net_ok_channel:
  assumes "net_ok s" "mships s m = Some mb"
  shows "channels s (mchan mb) \<noteq> None"
proof
  assume none: "channels s (mchan mb) = None"
  have ok: "links_ok (shape_of s)" "names_ok (shape_of s)" using assms(1) by (auto simp: shape_ok_def)
  have "s_mem (shape_of s) (mchan mb) = []" using none by (simp add: shape_simps)
  then show False using links_okD(2) [OF ok(1), of m "mchan mb"] assms(2) by (simp add: shape_simps)
qed

lemma cache_invex:
  assumes "cache_ok s" "net_ok s" "upd_channel c (set_mask_list CHFL_INVEX bs) s = Some s'"
  shows "cache_ok s'"
  by (rule cache_okI [OF assms(1)])
    (use assms net_ok_channel [OF assms(2)] in \<open>auto simp: upd_channel_def set_mask_list_def CHFL_INVEX_def CHFL_BAN_def CHFL_EXCEPTION_def split: if_splits\<close>)

lemma mask_ops_cache:
  assumes ok: "cache_ok s" "net_ok s" "channels s c = Some ch" and type: "type \<in> {CHFL_BAN, CHFL_EXCEPTION, CHFL_INVEX}"
  shows "add_id cfg x c b type s = Some (r, t, s') \<Longrightarrow> cache_ok s'" "del_id c b type s = Some (r, t, s') \<Longrightarrow> cache_ok s'"
proof -
  have lists: "cache_ok s2" if "(if type = CHFL_BAN \<or> type = CHFL_EXCEPTION then clear_ban_cache_channel c s else Some s) = Some s1"
      "s2 = s1 \<or> (\<exists>bs. upd_channel c (set_mask_list type bs) s1 = Some s2)" for s1 s2
    using that cache_lists [OF ok, of s1 s2] cache_invex [OF ok(1,2)] ok(1) type by (auto split: if_splits)
  show "cache_ok s'" if "add_id cfg x c b type s = Some (r, t, s')"
    using that ok(1,3) lists by (auto simp: add_id_def Let_def intro: cache_quiet split: bind_splits prod.splits if_splits)
  show "cache_ok s'" if "del_id c b type s = Some (r, t, s')"
    using that ok(3) lists by (auto simp: del_id_def Let_def split: bind_splits prod.splits if_splits option.splits)
qed

section \<open>Modes keep the cache correct\<close>

lemma add_change_net: "add_change c a i dir ms = Some ms' \<Longrightarrow> mnet ms' = mnet ms"
  by (auto simp: add_change_def split: if_splits)

lemma cache_quietly: "quietly ms ms' \<Longrightarrow> cache_ok (mnet ms) \<Longrightarrow> cache_ok (mnet ms')"
  by (auto simp: quietly_def intro: cache_quiet)

lemma cache_simple:
  assumes "simple_change env dir c d ms = Some ms'" "cache_ok (mnet ms)"
  shows "cache_ok (mnet ms')"
proof -
  have "cache_ok (mnet ms')"
    if "set_channel (me_chan env) (\<lambda>ch. ch\<lparr>ch_mode := g (ch_mode ch)\<rparr>) (ms\<lparr>simple_modes_mask := w\<rparr>) = Some ms2" "add_change c NoArg None dir ms2 = Some ms'" for g w ms2
    using cache_set_channel [OF that(1)] assms(2) add_change_net [OF that(2)] by simp
  then show ?thesis
    using assms by (cases dir) (auto simp: simple_change_def Let_def split: if_splits bind_splits)
qed

lemma cache_mask:
  assumes ok: "net_ok (mnet ms)" "channels (mnet ms) (me_chan env) = Some ch" "cache_ok (mnet ms)" and type: "type \<in> {CHFL_BAN, CHFL_EXCEPTION, CHFL_INVEX}"
    and res: "chm_mask type err rpl endrpl env dir c d ms = Some ms'"
  shows "cache_ok (mnet ms')"
proof (cases "dir = MODE_QUERY \<or> length (me_parv env) \<le> parn ms")
  case True
  have "cache_ok (mnet (ms_send e (list_reply (me_source env) rpl bs (ms\<lparr>errors := f\<rparr>))))" for e bs f
    by (rule cache_quietly [OF quietly_trans [OF quietly_trans [OF quietly_intros(4) quietly_list_reply] quietly_intros(3)] ok(3)])
  then show ?thesis using True res ok(3) by (auto simp: chm_mask_def Let_def split: if_splits bind_splits)
next
  case False
  obtain full ms1 where ms1: "count_param env ms = (full, ms1)" by fastforce
  note fields = count_param_fields [OF ms1] and ops = mask_ops_cache [OF ok(3,1,2) type]
  have ok1: "cache_ok (mnet ms1)" using ok(3) fields(1) by simp
  show ?thesis
  proof (cases "full \<or> below CHACCESS_HALFOP env ms")
    case True
    then show ?thesis
      using False res ms1 ok1 ok(3) cache_quietly [OF quietly_intros(2)] by (auto simp: chm_mask_def Let_def split: if_splits)
  next
    case room: False
    then show ?thesis
      using False res ms1 ok(3) ops by (auto simp: chm_mask_def Let_def fields dest!: add_change_net split: if_splits bind_splits)
  qed
qed

lemma cache_status:
  assumes ok: "net_ok (mnet ms)" "channels (mnet ms) (me_chan env) = Some ch" "cache_ok (mnet ms)"
    and flag: "flag AND (CHFL_BAN_CHECKED OR CHFL_BAN_SILENCED) = 0"
    and res: "chm_status level flag skip_add env dir c d ms = Some ms'"
  shows "cache_ok (mnet ms')"
proof (cases "below level env ms \<or> dir = MODE_QUERY \<or> length (me_parv env) \<le> parn ms")
  case True
  then show ?thesis using res ok(3) cache_quietly [OF quietly_intros(2)] by (auto simp: chm_status_def Let_def split: if_splits)
next
  case False
  have bits: "flag AND b = 0" if "b \<in> {CHFL_BAN_CHECKED, CHFL_BAN_SILENCED}" for b
    using flag that by (auto simp: bit.conj_disj_distrib or_eq_zero_iff)
  obtain target s where fc: "find_chasing (me_dir env) (me_source env) (me_parv env ! parn ms) (mnet ms) = (target, s)" by fastforce
  have quiet: "quiet (mnet ms) s" using find_chasing_quiet [OF fc] .
  have s: "cache_ok s" "net_ok s" using cache_quiet [OF ok(3) quiet] quiet ok(1) by (auto simp: quiet_def shape_of_def)
  define ms1 where "ms1 = ms\<lparr>parn := Suc (parn ms), mnet := s\<rparr>"
  show ?thesis
  proof (cases target)
    case None
    then show ?thesis using False res fc s(1) by (auto simp: chm_status_def Let_def)
  next
    case (Some y)
    obtain full ms2 where ms2: "count_param env ms1 = (full, ms2)" by fastforce
    have net2: "mnet ms2 = s" using count_param_fields(1) [OF ms2] by (simp add: ms1_def)
    have "cache_ok (mnet ms')"
      if add: "add_change c a i dir ms2 = Some ms3" "set_member_flags m (\<lambda>f. if dir = MODE_ADD then add_flag f flag else del_flag f flag) ms3 = Some ms'" for ms3 m a i
      by (rule cache_flags [OF add(2)]) (use add_change_net [OF add(1)] net2 s net_ok_channel bits in \<open>auto simp: has_flag_add_other has_flag_del_other\<close>)
    note change = this
    show ?thesis
    proof (cases "find_channel_link y (me_chan env) s")
      case None
      have "cache_ok (mnet (once err x num t ms1))" for err x num t using cache_quietly [OF quietly_intros(1), of ms1] s(1) by (simp add: ms1_def)
      then show ?thesis using False res fc Some None by (auto simp: chm_status_def Let_def ms1_def)
    next
      case m: (Some m)
      then show ?thesis
        using False res fc Some ms2 net2 s(1) change by (auto simp: chm_status_def Let_def ms1_def [symmetric] split: if_splits bind_splits)
    qed
  qed
qed

lemma cache_limit_key:
  assumes "cache_ok (mnet ms)"
  shows "chm_limit env dir c d ms = Some ms' \<Longrightarrow> cache_ok (mnet ms')" "chm_key env dir c d ms = Some ms' \<Longrightarrow> cache_ok (mnet ms')"
proof -
  note refused = cache_quietly [OF quietly_intros(2) assms]
  have set: "cache_ok (mnet b)" if "set_channel (me_chan env) f a = Some b" "mnet a = mnet ms"
      "\<And>ch. banlist (f ch) = banlist ch \<and> exceptlist (f ch) = exceptlist ch" for f a b
    using cache_set_channel [OF that(1)] that(2,3) assms by simp
  show "chm_limit env dir c d ms = Some ms' \<Longrightarrow> cache_ok (mnet ms')"
    using assms refused by (fastforce simp: chm_limit_def Let_def split: if_splits bind_splits dest!: add_change_net dest: set)
  show "chm_key env dir c d ms = Some ms' \<Longrightarrow> cache_ok (mnet ms')"
    using assms refused by (fastforce simp: chm_key_def Let_def split: if_splits bind_splits dest!: add_change_net dest: set)
qed

lemma cache_handler:
  assumes ok: "net_ok (mnet ms)" "channels (mnet ms) (me_chan env) = Some ch" "cache_ok (mnet ms)"
    and res: "fst (ModeTable c) env dir c (snd (ModeTable c)) ms = Some ms'"
  shows "cache_ok (mnet ms')"
proof -
  note refused = cache_quietly [OF quietly_intros(2) ok(3)] and once = cache_quietly [OF quietly_intros(1) ok(3)] and simple = cache_simple [OF _ ok(3)]
  let ?P = "\<lambda>f d. f env dir c d ms = Some ms' \<longrightarrow> cache_ok (mnet ms')"
  have "?P (fst (ModeTable c)) (snd (ModeTable c))"
  proof (rule ModeTable_all)
    show "?P chm_nosuch d" for d using once by (auto simp: chm_nosuch_def)
    show "?P chm_simple d" for d using refused simple by (simp add: chm_simple_def)
    show "?P chm_registered d" for d using refused simple by (simp add: chm_registered_def Let_def)
    show "?P chm_operonly d" for d using refused simple once by (auto simp: chm_operonly_def Let_def)
    show "?P chm_ban d" "?P chm_except d" "?P chm_invex d" for d
      using cache_mask [OF ok, of CHFL_BAN] cache_mask [OF ok, of CHFL_EXCEPTION] cache_mask [OF ok, of CHFL_INVEX]
      by (auto simp: chm_ban_def chm_except_def chm_invex_def)
    have "flag AND (CHFL_BAN_CHECKED OR CHFL_BAN_SILENCED) = 0" if "flag \<in> {CHFL_VOICE, CHFL_HALFOP, CHFL_CHANOP}" for flag
      using that by (auto simp: CHFL_VOICE_def CHFL_HALFOP_def CHFL_CHANOP_def CHFL_BAN_CHECKED_def CHFL_BAN_SILENCED_def)
    then show "?P chm_voice d" "?P chm_hop d" "?P chm_op d" for d
      using cache_status [OF ok, of CHFL_VOICE] cache_status [OF ok, of CHFL_HALFOP] cache_status [OF ok, of CHFL_CHANOP]
      by (auto simp: chm_voice_def chm_hop_def chm_op_def)
    show "?P chm_limit d" "?P chm_key d" for d using cache_limit_key [OF ok(3)] by auto
  qed
  then show ?thesis using res by blast
qed

lemma set_channel_mode_cache:
  assumes ok: "mode_call_ok cfg x c member parv s" and cache: "cache_ok s" and res: "set_channel_mode cfg dir x c member parv s = Some s'"
  shows "cache_ok s'"
proof -
  let ?env = "call_env cfg dir x c member parv s"
  have env: "env_ok ?env" and st: "state_ok ?env (mode_start s)" and len: "length (mode_changes (mode_start s)) + length (hd parv) \<le> IRCD_BUFSIZE"
    using ok by (auto simp: env_ok_def state_ok_def mode_call_ok_def call_env_def mode_start_def)
  obtain ms where ms: "mode_loop ?env (hd parv) MODE_ADD (mode_start s) = Some ms" "plain_frame c s s'" "channels s' = channels (mnet ms)" "mships s' = mships (mnet ms)"
    using set_channel_mode_ok [OF ok, of dir] res by auto
  have "cache_ok (mnet ms) \<and> users (mnet ms) = users s"
  proof (rule mode_loop_inv [OF env, where I = "\<lambda>ms. cache_ok (mnet ms) \<and> users (mnet ms) = users s", OF _ st _ len ms(1)])
    fix dir c ms1 ms2 assume a: "state_ok ?env ms1" "mode_res ?env ms1 ms2" "cache_ok (mnet ms1) \<and> users (mnet ms1) = users s"
      "fst (ModeTable c) ?env dir c (snd (ModeTable c)) ms1 = Some ms2"
    obtain ch where "channels (mnet ms1) (me_chan ?env) = Some ch" "net_ok (mnet ms1)" using a(1) by (auto simp: state_ok_def)
    then have "cache_ok (mnet ms2)" using cache_handler a(3,4) by blast
    then show "cache_ok (mnet ms2) \<and> users (mnet ms2) = users s" using a(2,3) by (auto simp: mode_res_def plain_frame_def mode_frame_def)
  qed (use cache in \<open>simp add: mode_start_def\<close>)
  moreover have "users s' = users s" using ms(2) by (simp add: plain_frame_def mode_frame_def)
  ultimately show ?thesis using ms(3,4) by (auto simp: cache_ok_def)
qed

section \<open>Using the cache\<close>

text \<open>The answer of the ban test for a member agrees with the lists, whatever is cached.\<close>

lemma send_banned_answer:
  assumes cache: "cache_ok s" and ch: "channels s c = Some ch" "plain_chan ch" and x: "MyConnect (users s x)"
    and m: "\<And>m. member = Some m \<Longrightarrow> \<exists>mb. mships s m = Some mb \<and> mchan mb = c \<and> mclient mb = x"
  shows "\<exists>s'. send_banned ch (users s x) member s = Some (banned ch (users s x), s') \<and> cache_ok s' \<and> channels s' = channels s \<and> users s' = users s"
proof (cases member)
  case None
  then show ?thesis using is_banned_plain [OF ch(2)] x cache by (simp add: send_banned_def MyConnect_def)
next
  case (Some m)
  obtain mb where mb: "mships s m = Some mb" "mchan mb = c" "mclient mb = x" using m [OF Some] by blast
  have agrees: "agrees mb ch (users s x)" using cache mb ch(1) x unfolding cache_ok_def by metis
  define w where "w = add_flag (mflags mb) (if banned ch (users s x) then CHFL_BAN_CHECKED OR CHFL_BAN_SILENCED else CHFL_BAN_CHECKED)"
  define s' where "s' = s\<lparr>mships := (mships s)(m \<mapsto> mb\<lparr>mflags := w\<rparr>)\<rparr>"
  have "cache_ok s'" if "\<not> has_flag (mflags mb) CHFL_BAN_SILENCED"
    unfolding cache_ok_def
  proof (intro allI impI)
    fix m' mb' ch' assume a: "mships s' m' = Some mb'" "channels s' (mchan mb') = Some ch'" "MyConnect (users s' (mclient mb'))"
    show "agrees mb' ch' (users s' (mclient mb'))"
    proof (cases "m' = m")
      case True
      have "has_flag CHFL_BAN_CHECKED CHFL_BAN_SILENCED = False" by (simp add: has_flag_def CHFL_BAN_CHECKED_def CHFL_BAN_SILENCED_def)
      moreover have "has_flag CHFL_BAN_CHECKED CHFL_BAN_CHECKED" "has_flag CHFL_BAN_SILENCED CHFL_BAN_SILENCED"
        by (simp_all add: has_flag_def CHFL_BAN_CHECKED_def CHFL_BAN_SILENCED_def)
      ultimately show ?thesis
        using True a mb ch(1) that by (auto simp: s'_def w_def agrees_def cached_def add_flag_def has_flag_def bit.conj_disj_distrib2 or_eq_zero_iff split: if_splits)
    next
      case False
      then show ?thesis using a cache unfolding cache_ok_def s'_def by simp
    qed
  qed
  then show ?thesis
    using Some mb(1) agrees cache is_banned_plain [OF ch(2)] x
    by (auto simp: send_banned_def Let_def agrees_def cached_def s'_def w_def MyConnect_def)
qed

text \<open>The state with every cached answer forgotten.\<close>

definition forget :: "net \<Rightarrow> net" where
  "forget s = s\<lparr>mships := (\<lambda>m. map_option clear_cached (mships s m))\<rparr>"

lemma clear_cached_fields [simp]: "mchan (clear_cached mb) = mchan mb" "mclient (clear_cached mb) = mclient mb"
  by (simp_all add: clear_cached_def)

lemma clear_cached_opv: "has_flag (mflags (clear_cached mb)) OPV = has_flag (mflags mb) OPV"
proof -
  have "(CHFL_BAN_SILENCED OR CHFL_BAN_CHECKED) AND OPV = 0"
    by (simp add: CHFL_BAN_SILENCED_def CHFL_BAN_CHECKED_def OPV_def CHFL_CHANOP_def CHFL_HALFOP_def CHFL_VOICE_def)
  then show ?thesis by (simp add: clear_cached_def has_flag_del_other)
qed

lemma forget_simps [simp]: "channels (forget s) = channels s" "users (forget s) = users s" "cache_ok (forget s)"
  "find_channel_link x c (forget s) = find_channel_link x c s"
proof -
  show "cache_ok (forget s)" by (auto simp: cache_ok_def forget_def agrees_def)
  have fields: "map_option mclient (mships (forget s) m) = map_option mclient (mships s m)" "map_option mchan (mships (forget s) m) = map_option mchan (mships s m)"
      "channels (forget s) = channels s" "users (forget s) = users s" for m
    by (simp_all add: forget_def option.map_comp comp_def)
  show "find_channel_link x c (forget s) = find_channel_link x c s" unfolding find_channel_link_def fields by (rule refl)
qed (simp_all add: forget_def)

lemma can_send_cached:
  assumes inv: "net_ok s" "plain_net s" "cache_ok s" and c: "channels s c = Some ch"
    and member: "\<And>m. member = Some m \<Longrightarrow> \<exists>mb. mships s m = Some mb \<and> mchan mb = c \<and> mclient mb = x"
  shows "map_option fst (can_send cfg c x member msg s) = map_option fst (can_send cfg c x member msg (forget s)) \<and>
    (\<forall>r s'. can_send cfg c x member msg s = Some (r, s') \<longrightarrow> cache_ok s')"
proof -
  let ?u = "users s x"
  have plain: "plain_chan ch" using inv(2) c by (auto simp: plain_net_def)
  define member' where "member' = (case member of None \<Rightarrow> find_channel_link x c s | Some m \<Rightarrow> Some m)"
  have link: "\<exists>mb. mships s m = Some mb \<and> mchan mb = c \<and> mclient mb = x" if "member' = Some m" for m
  proof (cases member)
    case None
    then have m: "find_channel_link x c s = Some m" using that by (simp add: member'_def)
    then have "uisclient ?u" by (auto simp: find_channel_link_def split: if_splits)
    then show ?thesis using find_channel_link_iff [OF inv(1) c, of x m] m by (auto simp: shape_simps)
  next
    case (Some m')
    then show ?thesis using member that by (simp add: member'_def)
  qed
  then have flink: "\<exists>mb. mships (forget s) m = Some mb \<and> mchan mb = c \<and> mclient mb = x" if "member' = Some m" for m
    using that by (fastforce simp: forget_def)
  have opv: "(case member' of None \<Rightarrow> Some False | Some m \<Rightarrow> map_option (\<lambda>mb. has_flag (mflags mb) OPV) (mships (forget s) m)) =
      (case member' of None \<Rightarrow> Some False | Some m \<Rightarrow> map_option (\<lambda>mb. has_flag (mflags mb) OPV) (mships s m))"
    by (cases member') (simp_all add: forget_def option.map_comp comp_def clear_cached_opv)
  have "\<exists>s1 s2. MyClient ?u \<longrightarrow> send_banned ch ?u member' s = Some (banned ch ?u, s1) \<and> cache_ok s1 \<and>
      send_banned ch ?u member' (forget s) = Some (banned ch ?u, s2)"
    using send_banned_answer [OF inv(3) c plain, of x member', OF _ link] send_banned_answer [of "forget s" c ch x member', OF _ _ plain _ flink] c
    by (auto simp: MyClient_def)
  then obtain s1 s2 where sb: "MyClient ?u \<longrightarrow> send_banned ch ?u member' s = Some (banned ch ?u, s1) \<and> cache_ok s1 \<and>
      send_banned ch ?u member' (forget s) = Some (banned ch ?u, s2)" by blast
  show ?thesis
  proof (cases "if MyClient ?u then resv_blocks cfg ?u (ch_name ch) else Some False")
    case None
    then show ?thesis
      unfolding can_send_def Let_def forget_simps c Option.bind.simps using inv(3) by (simp del: None_eq_map_option_iff)
  next
    case (Some rb)
    show ?thesis
    proof (cases "case member' of None \<Rightarrow> Some False | Some m \<Rightarrow> map_option (\<lambda>mb. has_flag (mflags mb) OPV) (mships s m)")
      case opv_None: None
      show ?thesis
        unfolding can_send_def Let_def forget_simps c Option.bind.simps member'_def [symmetric] opv Some opv_None using inv(3) by simp
    next
      case opv_Some: (Some v)
      show ?thesis
        unfolding can_send_def Let_def forget_simps c Option.bind.simps member'_def [symmetric] opv Some opv_Some
        using inv(3) sb by (cases "MyClient ?u") simp_all
    qed
  qed
qed

section \<open>The cache through JOIN and PART\<close>

definition ident :: "user \<Rightarrow> string \<times> string \<times> string \<times> string \<times> address option" where
  "ident u = (uname u, uusername u, uhost u, usockhost u, uip u)"

text \<open>Every cached answer of the second state is one of the first, for the same client, channel and lists.\<close>

definition cache_le :: "net \<Rightarrow> net \<Rightarrow> bool" where
  "cache_le s s' \<longleftrightarrow> (\<forall>x. ident (users s' x) = ident (users s x)) \<and>
    (\<forall>m mb'. mships s' m = Some mb' \<longrightarrow> cached mb' = (False, False) \<or>
      (\<exists>mb. mships s m = Some mb \<and> mchan mb = mchan mb' \<and> mclient mb = mclient mb' \<and> cached mb = cached mb' \<and>
        (\<forall>ch'. channels s' (mchan mb) = Some ch' \<longrightarrow>
          (\<exists>ch. channels s (mchan mb) = Some ch \<and> banlist ch' = banlist ch \<and> exceptlist ch' = exceptlist ch))))"

lemma banned_ident: "ident u' = ident u \<Longrightarrow> banned ch u' = banned ch u"
proof -
  assume "ident u' = ident u"
  then have "ban_matches u' b = ban_matches u b" for b by (cases "bmask b") (simp_all add: ban_matches_def ident_def)
  then show ?thesis by (simp add: banned_def)
qed

lemma cache_le_ok:
  assumes "cache_le s s'" "cache_ok s"
  shows "cache_ok s'"
  unfolding cache_ok_def
proof (intro allI impI)
  fix m mb' ch' assume a: "mships s' m = Some mb'" "channels s' (mchan mb') = Some ch'" "MyConnect (users s' (mclient mb'))"
  have same: "ident (users s' x) = ident (users s x)" for x using assms(1) by (simp add: cache_le_def)
  from assms(1) a(1) consider "cached mb' = (False, False)"
    | mb where "mships s m = Some mb" "mchan mb = mchan mb'" "mclient mb = mclient mb'" "cached mb = cached mb'"
        "\<forall>ch'. channels s' (mchan mb) = Some ch' \<longrightarrow> (\<exists>ch. channels s (mchan mb) = Some ch \<and> banlist ch' = banlist ch \<and> exceptlist ch' = exceptlist ch)"
    unfolding cache_le_def by blast
  then show "agrees mb' ch' (users s' (mclient mb'))"
  proof cases
    case 1
    then show ?thesis by (simp add: agrees_def)
  next
    case (2 mb)
    obtain ch where ch: "channels s (mchan mb) = Some ch" "banlist ch' = banlist ch" "exceptlist ch' = exceptlist ch" using 2(2,5) a(2) by auto
    have "MyConnect (users s (mclient mb))" using a(3) same [of "mclient mb'"] 2(3) by (simp add: ident_def MyConnect_def)
    then have "agrees mb ch (users s (mclient mb))" using assms(2) 2(1) ch(1) unfolding cache_ok_def by blast
    then show ?thesis using 2(3,4) banned_same_lists [OF ch(2,3)] banned_ident [OF same] by (simp add: agrees_def)
  qed
qed

lemma cache_le_trans:
  assumes "cache_le s s1" "cache_le s1 s2"
  shows "cache_le s s2"
  unfolding cache_le_def
proof (intro conjI allI impI)
  show "ident (users s2 x) = ident (users s x)" for x using assms by (simp add: cache_le_def)
next
  fix m mb2 assume "mships s2 m = Some mb2"
  with assms(2) consider "cached mb2 = (False, False)" | mb1 where "mships s1 m = Some mb1" "mchan mb1 = mchan mb2" "mclient mb1 = mclient mb2" "cached mb1 = cached mb2"
      "\<forall>ch'. channels s2 (mchan mb1) = Some ch' \<longrightarrow> (\<exists>ch. channels s1 (mchan mb1) = Some ch \<and> banlist ch' = banlist ch \<and> exceptlist ch' = exceptlist ch)"
    unfolding cache_le_def by blast
  then show "cached mb2 = (False, False) \<or> (\<exists>mb. mships s m = Some mb \<and> mchan mb = mchan mb2 \<and> mclient mb = mclient mb2 \<and> cached mb = cached mb2 \<and>
        (\<forall>ch'. channels s2 (mchan mb) = Some ch' \<longrightarrow> (\<exists>ch. channels s (mchan mb) = Some ch \<and> banlist ch' = banlist ch \<and> exceptlist ch' = exceptlist ch)))"
  proof cases
    case (2 mb1)
    from assms(1) 2(1) consider "cached mb1 = (False, False)" | mb where "mships s m = Some mb" "mchan mb = mchan mb1" "mclient mb = mclient mb1" "cached mb = cached mb1"
        "\<forall>ch'. channels s1 (mchan mb) = Some ch' \<longrightarrow> (\<exists>ch. channels s (mchan mb) = Some ch \<and> banlist ch' = banlist ch \<and> exceptlist ch' = exceptlist ch)"
      unfolding cache_le_def by blast
    then show ?thesis using 2 by cases (simp, metis)
  qed simp
qed

lemma cache_le_same:
  assumes "mships s' = mships s" "channels s' = channels s" "\<And>x. ident (users s' x) = ident (users s x)"
  shows "cache_le s s'"
  using assms by (simp add: cache_le_def)

lemma cache_le_user:
  assumes "cache_le s s'" "ident (f (users s' x)) = ident (users s' x)"
  shows "cache_le s (upd_user x f s')"
  by (rule cache_le_trans [OF assms(1)], rule cache_le_same) (use assms(2) in \<open>auto simp: upd_user_def\<close>)

lemma cache_le_send: "cache_le s s' \<Longrightarrow> cache_le s (send_event e s')"
  by (erule cache_le_trans) (simp add: cache_le_same)

lemma cache_le_refl [simp]: "cache_le s s"
  by (simp add: cache_le_same)

lemma cache_le_channel:
  assumes "upd_channel c f s = Some s'" "\<And>ch. banlist (f ch) = banlist ch \<and> exceptlist (f ch) = exceptlist ch"
  shows "cache_le s s'"
  using assms by (auto simp: upd_channel_def cache_le_def split: if_splits)

lemma cache_le_spambot: "check_spambot_warning cfg x n s = Some s' \<Longrightarrow> cache_le s s'"
  by (auto simp: check_spambot_warning_def Let_def upd_user_def ident_def send_event_def intro!: cache_le_same split: if_splits)

lemma cache_le_del_invite: "del_invite c x s = Some s' \<Longrightarrow> cache_le s s'"
proof -
  assume a: "del_invite c x s = Some s'"
  let ?u = "upd_user x (\<lambda>u. u\<lparr>uinvited := remove1 c (uinvited u)\<rparr>) s"
  have "cache_le s ?u" by (rule cache_le_user) (simp_all add: ident_def)
  moreover have "cache_le ?u s'" using a by (auto simp: del_invite_def intro: cache_le_channel split: if_splits)
  ultimately show ?thesis by (rule cache_le_trans)
qed

lemma cache_le_del_invites: "del_invites c xs s = Some s' \<Longrightarrow> cache_le s s'"
proof (induction xs arbitrary: s)
  case (Cons x xs)
  then obtain s1 where "del_invite c x s = Some s1" "del_invites c xs s1 = Some s'" by (auto split: bind_splits)
  then show ?case using Cons.IH cache_le_del_invite cache_le_trans by blast
qed simp

lemma cache_le_destroy: "destroy_channel c s = Some s' \<Longrightarrow> cache_le s s'"
proof -
  assume "destroy_channel c s = Some s'"
  then obtain s1 cl where s1: "clear_invites c s = Some s1" "s' = s1\<lparr>channel_list := cl, channels := (channels s1)(c := None)\<rparr>"
    by (auto simp: destroy_channel_def split: bind_splits)
  have "cache_le s s1" using s1(1) cache_le_del_invites by (auto simp: clear_invites_def split: bind_splits)
  moreover have "cache_le s1 s'" by (auto simp: s1(2) cache_le_def)
  ultimately show ?thesis by (rule cache_le_trans)
qed

lemma cache_le_remove: "remove_user_from_channel m s = Some s' \<Longrightarrow> cache_le s s'"
proof -
  assume "remove_user_from_channel m s = Some s'"
  then obtain mb ch ms ls us s1 where ch: "mships s m = Some mb" "channels s (mchan mb) = Some ch" and
    s1: "s1 = upd_user (mclient mb) (\<lambda>u. u\<lparr>uchannel := us\<rparr>)
              (s\<lparr>channels := (channels s)(mchan mb \<mapsto> ch\<lparr>members := ms, locmembers := ls\<rparr>), mships := (mships s)(m := None)\<rparr>)" and
    s': "(if ms = [] then destroy_channel (mchan mb) s1 else Some s1) = Some s'"
    by (auto simp: remove_user_from_channel_def Let_def split: bind_splits)
  have "cache_le s s1" using ch(2) by (auto simp: s1 upd_user_def cache_le_def ident_def)
  moreover have "s1 = s' \<or> destroy_channel (mchan mb) s1 = Some s'" using s' by (auto split: if_splits)
  ultimately show ?thesis using cache_le_destroy cache_le_trans by blast
qed

lemma cache_le_add_user:
  assumes "add_user_to_channel cfg c x flags fc s = Some s'" "\<not> has_flag flags CHFL_BAN_CHECKED" "\<not> has_flag flags CHFL_BAN_SILENCED"
  shows "cache_le s s'"
proof -
  have flood: "banlist ch1 = banlist ch" "exceptlist ch1 = exceptlist ch" if "join_flood cfg fc ch = (ch1, told)" for ch ch1 told
    using that by (auto simp: join_flood_def Let_def split: if_splits)
  have new: "cached \<lparr>mchan = c, mclient = x, mflags = flags\<rparr> = (False, False)" using assms(2,3) by (simp add: cached_def)
  obtain ch where ch0: "channels s c = Some ch" "uisclient (users s x)"
    using assms(1) by (cases "channels s c"; cases "uisclient (users s x)") (auto simp: add_user_to_channel_def)
  obtain ch1 told where ch: "channels s c = Some ch" "join_flood cfg fc ch = (ch1, told)" "uisclient (users s x)"
    using ch0 by fastforce
  have s': "mships s' = (mships s)(next_addr s \<mapsto> \<lparr>mchan = c, mclient = x, mflags = flags\<rparr>)" "\<And>y. ident (users s' y) = ident (users s y)"
      "\<And>d ch'. channels s' d = Some ch' \<Longrightarrow> \<exists>ch. channels s d = Some ch \<and> banlist ch' = banlist ch \<and> exceptlist ch' = exceptlist ch"
    using assms(1) ch flood [OF ch(2)] by (auto simp: add_user_to_channel_def Let_def upd_user_def ident_def split: if_splits)
  then show ?thesis using new unfolding cache_le_def by (simp split: if_splits)
qed

lemma cache_le_enter:
  assumes "enter_channel cfg x c flags s = Some s'" "flags \<in> {0, CHFL_CHANOP}"
  shows "cache_le s s'"
proof -
  have flags: "\<not> has_flag flags CHFL_BAN_CHECKED" "\<not> has_flag flags CHFL_BAN_SILENCED"
    using assms(2) by (auto simp: has_flag_def CHFL_CHANOP_def CHFL_BAN_CHECKED_def CHFL_BAN_SILENCED_def)
  obtain ch s1 s2 s3 s5 and ch5 :: Channel where st: "channels s c = Some ch"
      "(if \<not> has_flag (uumodes (users s x)) UMODE_OPER then check_spambot_warning cfg x (Some (ch_name ch)) s else Some s) = Some s1"
      "add_user_to_channel cfg c x flags True s1 = Some s2"
      "(if flags = CHFL_CHANOP then upd_channel c (\<lambda>ch. ch\<lparr>ch_creationtime := CurrentTime cfg,
         ch_mode := add_flag (add_flag (ch_mode ch) MODE_TOPICLIMIT) MODE_NOPRIVMSGS\<rparr>) s2 else Some s2) = Some s3"
      "del_invite c x (send_event (JoinMsg c x (flags = CHFL_CHANOP)) s3) = Some s5"
      "s' = upd_user x (\<lambda>u. u\<lparr>ulast_join_time := CurrentTime cfg\<rparr>) (send_event (NamesReply x c)
         (if ch_topic ch5 \<noteq> [] then send_event (TopicReply x c) s5 else s5))"
    using assms(1) unfolding enter_channel_def Let_def bind_eq_Some_conv option.inject
    by (elim exE conjE) (rule that; (assumption | (rule sym, assumption)))
  have "cache_le s s1" using st(2) cache_le_spambot by (auto split: if_splits)
  moreover have "cache_le s1 s2" by (rule cache_le_add_user [OF st(3) flags])
  moreover have "cache_le s2 s3" using st(4) by (auto intro: cache_le_channel split: if_splits)
  moreover have "cache_le s3 s5" using cache_le_trans [OF cache_le_send [OF cache_le_refl] cache_le_del_invite [OF st(5)]] .
  moreover have "cache_le s5 s'" unfolding st(6) by (rule cache_le_user) (auto intro!: cache_le_send simp: ident_def)
  ultimately show ?thesis using cache_le_trans by blast
qed

lemma cache_le_make:
  assumes "make_channel cfg n s = Some (c, s')" "net_ok s"
  shows "cache_le s s'"
proof -
  have "names_ok (shape_of s)" using assms(2) by (simp add: shape_ok_def)
  then have fresh: "channels s (next_addr s) = None" using names_okD(4) [of "shape_of s" "next_addr s"] by (simp add: shape_simps)
  have "mchan mb \<noteq> next_addr s" if "mships s m = Some mb" for m mb using net_ok_channel [OF assms(2) that] fresh by auto
  then show ?thesis using assms(1) by (auto simp: make_channel_def Let_def cache_le_def split: if_splits)
qed

text \<open>How one turn of the loop over channel names can end.\<close>

lemma join_one_outcome:
  assumes "join_one cfg x chan key s = Some r"
  shows "end_state r = s \<or> (\<exists>e. end_state r = send_event e s) \<or>
    (\<exists>c f s1. (s1 = s \<or> make_channel cfg chan s = Some (c, s1)) \<and> f \<in> {0, CHFL_CHANOP} \<and> enter_channel cfg x c f s1 = Some (end_state r))"
proof (cases "hash_find_channel chan s")
  case None
  then have "(\<exists>e. r = JoinNext (send_event e s)) \<or> (\<exists>e. r = JoinBreak (send_event e s)) \<or>
      (\<exists>c s1 s2. make_channel cfg chan s = Some (c, s1) \<and> enter_channel cfg x c CHFL_CHANOP s1 = Some s2 \<and> r = JoinNext s2)"
    using assms unfolding join_one_def Let_def by (simp split: if_split_asm bind_split_asm) (auto simp: bind_eq_Some_conv)
  then show ?thesis by fastforce
next
  case (Some c)
  then have "r = JoinNext s \<or> (\<exists>e. r = JoinNext (send_event e s)) \<or> (\<exists>e. r = JoinBreak (send_event e s)) \<or>
      (\<exists>f s2. enter_channel cfg x c f s = Some s2 \<and> f \<in> {0, CHFL_CHANOP} \<and> r = JoinNext s2)"
    using assms(1) unfolding join_one_def Let_def by (simp split: if_split_asm bind_split_asm) (auto simp: bind_eq_Some_conv)
  then show ?thesis by fastforce
qed

lemma cache_le_join_one:
  assumes "join_one cfg x chan key s = Some r" "net_ok s"
  shows "cache_le s (end_state r)"
  using join_one_outcome [OF assms(1)] cache_le_send [OF cache_le_refl] cache_le_trans [OF cache_le_make [OF _ assms(2)] cache_le_enter] cache_le_enter
  by fastforce

lemma cache_le_part_all: "part_all x ms s = Some s' \<Longrightarrow> cache_le s s'"
proof (induction ms arbitrary: s)
  case (Cons m ms)
  obtain mb :: Membership and s1 where "remove_user_from_channel m (send_event (PartMsg (mchan mb) x None) s) = Some s1" "part_all x ms s1 = Some s'"
    using Cons.prems unfolding part_all.simps bind_eq_Some_conv by blast
  then show ?case using Cons.IH cache_le_remove cache_le_trans [OF cache_le_send [OF cache_le_refl]] cache_le_trans by blast
qed simp

lemma cache_le_join_0: "channel_do_join_0 cfg x s = Some s' \<Longrightarrow> cache_le s s'"
proof -
  assume "channel_do_join_0 cfg x s = Some s'"
  then obtain s1 where "s1 = s \<or> check_spambot_warning cfg x None s = Some s1" "part_all x (uchannel (users s1 x)) s1 = Some s'"
    by (auto simp: channel_do_join_0_def Let_def split: bind_splits if_splits)
  then show ?thesis using cache_le_spambot cache_le_part_all cache_le_trans by blast
qed

lemma cache_le_add_invite: "add_invite cfg c x s = Some s' \<Longrightarrow> cache_le s s'"
proof -
  assume "add_invite cfg c x s = Some s'"
  then obtain s1 s2 s3 d where st: "del_invite c x s = Some s1" "s2 = s1 \<or> del_invite d x s1 = Some s2"
      "upd_channel c (\<lambda>ch. ch\<lparr>invites := x # invites ch\<rparr>) s2 = Some s3" "s' = upd_user x (\<lambda>u. u\<lparr>uinvited := c # uinvited u\<rparr>) s3"
    by (auto simp: add_invite_def Let_def split: bind_splits if_splits)
  have "cache_le s s1" by (rule cache_le_del_invite [OF st(1)])
  moreover have "cache_le s1 s2" using st(2) cache_le_del_invite by auto
  moreover have "cache_le s2 s3" by (rule cache_le_channel [OF st(3)]) simp
  moreover have "cache_le s3 s'" unfolding st(4) by (rule cache_le_user) (simp_all add: ident_def)
  ultimately show ?thesis using cache_le_trans by blast
qed

lemma cache_le_join_loop:
  assumes "chan_inv s" "MyClient (users s x)" "plain_resv cfg" "join_loop cfg x chans keys s = Some s'"
  shows "cache_le s s'"
  using assms(1,2,4)
proof (induction chans arbitrary: s keys)
  case (Cons chan chans)
  obtain key keys' where keys: "take_key keys = (key, keys')" by fastforce
  obtain r where r: "join_one cfg x chan key s = Some r" "keeps_inv s (end_state r)" using join_one_keeps [OF Cons.prems(1,2) assms(3)] by blast
  have le: "cache_le s (end_state r)" using cache_le_join_one [OF r(1)] Cons.prems(1) by (simp add: chan_inv_def)
  show ?case
  proof (cases r)
    case (JoinNext s1)
    have "cache_le s1 s'"
      using Cons.IH [of s1 keys'] Cons.prems r(2) keeps_inv_local [of s s1 x] JoinNext keys r(1) by (auto simp: keeps_inv_def)
    then show ?thesis using le JoinNext cache_le_trans by auto
  next
    case (JoinBreak s1)
    then show ?thesis using r keys Cons.prems(3) le by auto
  qed
qed simp

lemma cache_do_join:
  assumes inv: "chan_inv s" "MyClient (users s x)" "plain_resv cfg" and res: "channel_do_join cfg x chans keys s = Some s'"
  shows "cache_le s s'"
proof -
  obtain list s1 where s1: "channel_find_last0 cfg x chans s = Some (list, s1)" "join_loop cfg x (strtoken_all (Some list) '','') keys s1 = Some s'"
    using res unfolding channel_do_join_def by (auto simp: bind_eq_Some_conv split: if_split_asm)
  then have "s1 = s \<or> channel_do_join_0 cfg x s = Some s1" by (auto simp: channel_find_last0_def bind_eq_Some_conv split: prod.splits if_split_asm)
  then have le: "cache_le s s1" "keeps_inv s s1"
    using cache_le_join_0 join_0_keeps [OF inv(1,2), of cfg] keeps_inv_refl [OF inv(1)] by auto
  have "cache_le s1 s'"
    by (rule cache_le_join_loop [OF _ _ inv(3) s1(2)]) (use le(2) inv(2) keeps_inv_local in \<open>auto simp: keeps_inv_def\<close>)
  then show ?thesis using cache_le_trans [OF le(1)] by blast
qed

lemma cache_part_one:
  assumes inv: "chan_inv s" "MyClient (users s x)" "plain_resv cfg" "cache_ok s" and res: "channel_part_one_client cfg x name reason s = Some s'"
  shows "cache_ok s'"
proof (cases "Option.bind (hash_find_channel name s) (\<lambda>c. find_channel_link x c s)")
  case None
  then have "\<exists>e. s' = send_event e s" using res by (auto simp: channel_part_one_client_def split: option.splits)
  then show ?thesis using cache_le_ok [OF cache_le_send [OF cache_le_refl] inv(4)] by auto
next
  case (Some m)
  then obtain c where c: "hash_find_channel name s = Some c" "find_channel_link x c s = Some m" by (auto simp: bind_eq_Some_conv)
  obtain ch where ch: "channels s c = Some ch" using hash_find_channel_Some [OF c(1)] by blast
  have my: "MyConnect (users s x)" "uisclient (users s x)" using inv(2) by (auto simp: MyClient_def)
  obtain s1 where s1: "(if MyConnect (users s x) \<and> \<not> has_flag (uumodes (users s x)) UMODE_OPER then check_spambot_warning cfg x None s else Some s) = Some s1"
      "shape_of s1 = shape_of s" "channels s1 = channels s" "mships s1 = mships s"
    using spambot_shape [OF my(1), of cfg None] my(1) by (cases "has_flag (uumodes (users s x)) UMODE_OPER") auto
  have "cache_le s s1" using s1(1) cache_le_spambot by (auto split: if_splits)
  then have ok1: "cache_ok s1" "net_ok s1" "plain_net s1"
    using cache_le_ok inv(1,4) s1(2,3) plain_same_channels [of s1 s] by (auto simp: chan_inv_def)
  have "\<exists>mb. mships s1 m = Some mb \<and> mchan mb = c \<and> mclient mb = x"
    using find_channel_link_iff [of s c ch x m] c(2) ch my(2) inv(1) s1(4) by (auto simp: chan_inv_def shape_simps)
  then have send: "can_send cfg c x (Some m) reason s1 = Some (r, s2) \<Longrightarrow> cache_ok s2" for r s2
    using can_send_cached [OF ok1(2,3,1), of c ch "Some m" x cfg reason] ch s1(3) by auto
  obtain s2 e where s2: "cache_ok s2" "remove_user_from_channel m (send_event e s2) = Some s'"
    using res s1(1) send ok1(1) my(1) by (auto simp: channel_part_one_client_def c Let_def bind_eq_Some_conv split: if_split_asm)
  then show ?thesis using cache_le_ok [OF cache_le_trans [OF cache_le_send [OF cache_le_refl] cache_le_remove [OF s2(2)]]] by blast
qed

lemma cache_do_part:
  assumes "chan_inv s" "MyClient (users s x)" "plain_resv cfg" "cache_ok s" "channel_do_part cfg x names reason s = Some s'"
  shows "cache_ok s'"
proof -
  have "cache_ok s'" if "part_loop cfg x r ns s = Some s'" for r ns
    using assms(1,2,4) that
  proof (induction ns arbitrary: s)
    case (Cons n ns)
    obtain s1 where s1: "channel_part_one_client cfg x n r s = Some s1" "keeps_inv s s1" using part_one_keeps [OF Cons.prems(1,2) assms(3)] by blast
    have "cache_ok s1" by (rule cache_part_one [OF Cons.prems(1,2) assms(3) Cons.prems(3) s1(1)])
    then show ?case using Cons.IH [of s1] Cons.prems(2,4) s1 keeps_inv_local [OF s1(2)] by (simp add: keeps_inv_def)
  qed simp
  then show ?thesis using assms(2,5) by (auto simp: channel_do_part_def MyClient_def)
qed

text \<open>Forgetting the cached answers of one client, as a nick change does.\<close>

lemma cache_clear_client:
  assumes "cache_ok s" "net_ok s" "clear_ban_cache_client x (upd_user x f s) = Some s'"
    and f: "uchannel (f (users s x)) = uchannel (users s x)"
  shows "cache_ok s'"
proof -
  have loop: "clear_cache_loop ms s0 = Some s1 \<Longrightarrow> channels s1 = channels s0 \<and> users s1 = users s0 \<and>
      (\<forall>m. (m \<notin> set ms \<longrightarrow> mships s1 m = mships s0 m) \<and> (m \<in> set ms \<longrightarrow> (\<forall>mb. mships s1 m = Some mb \<longrightarrow> cached mb = (False, False))))" for ms s0 s1
  proof (induction ms arbitrary: s0)
    case (Cons m ms)
    then obtain mb where mb: "mships s0 m = Some mb" "clear_cache_loop ms (s0\<lparr>mships := (mships s0)(m \<mapsto> clear_cached mb)\<rparr>) = Some s1"
      by (auto simp: bind_eq_Some_conv)
    from Cons.IH [OF mb(2)] show ?case by (auto split: if_splits) (metis cached_clear)
  qed simp
  have uch: "uchannel (users (upd_user x f s) x) = uchannel (users s x)" using f by (simp add: upd_user_def)
  have s': "channels s' = channels s" "users s' = (users s)(x := f (users s x))"
      "\<And>m. m \<notin> set (uchannel (users s x)) \<Longrightarrow> mships s' m = mships s m"
      "\<And>m mb. m \<in> set (uchannel (users s x)) \<Longrightarrow> mships s' m = Some mb \<Longrightarrow> cached mb = (False, False)"
    using loop [of "uchannel (users s x)" "upd_user x f s" s'] assms(3) unfolding clear_ban_cache_client_def uch by (auto simp: upd_user_def)
  show ?thesis
    unfolding cache_ok_def
  proof (intro allI impI)
    fix m mb ch assume a: "mships s' m = Some mb" "channels s' (mchan mb) = Some ch" "MyConnect (users s' (mclient mb))"
    show "agrees mb ch (users s' (mclient mb))"
    proof (cases "m \<in> set (uchannel (users s x))")
      case True
      then show ?thesis using s'(4) a(1) by (simp add: agrees_def)
    next
      case False
      then have m: "mships s m = Some mb" using s'(3) a(1) by simp
      then have "mclient mb \<noteq> x" using False net_ok_user(1) [OF assms(2), of m x] by auto
      then show ?thesis using a m s'(1,2) assms(1) unfolding cache_ok_def by simp
    qed
  qed
qed

end
