(* ===== verification/ChanFits.thy ===== *)
theory ChanFits
  imports BanCache
begin

text \<open>
  Every string of a channel, a mask and a client stays within its array of \<open>include/channel.h\<close> and
  \<open>include/client.h\<close>, whatever the channel commands do.
\<close>

definition ban_fits :: "Ban \<Rightarrow> bool" where
  "ban_fits b \<longleftrightarrow> length (bname b) \<le> NICKLEN \<and> length (buser b) \<le> USERLEN \<and> length (bhost b) \<le> HOSTLEN \<and>
    length (bwho b) \<le> NICKLEN + USERLEN + HOSTLEN + 2 \<and> blen b = length (bname b) + length (buser b) + length (bhost b)"

definition chan_fits :: "Channel \<Rightarrow> bool" where
  "chan_fits ch \<longleftrightarrow> length (ch_name ch) \<le> CHANNELLEN \<and> length (ch_key ch) \<le> KEYLEN \<and> ch_limit ch < 2 ^ 32 \<and> length (ch_topic ch) \<le> TOPICLEN \<and>
    length (ch_topic_info ch) < USERHOST_REPLYLEN \<and> (\<forall>b \<in> set (banlist ch) \<union> set (exceptlist ch) \<union> set (invexlist ch). ban_fits b)"

definition fits :: "net \<Rightarrow> bool" where
  "fits s \<longleftrightarrow> (\<forall>x. user_fits (users s x)) \<and> (\<forall>c ch. channels s c = Some ch \<longrightarrow> chan_fits ch)"

named_theorems fits_rules \<open>operations keep strings within their arrays\<close>

lemma fits_same: "fits s \<Longrightarrow> users s' = users s \<Longrightarrow> channels s' = channels s \<Longrightarrow> fits s'"
  by (simp add: fits_def)

lemma fits_send [simp]: "fits (send_event e s) = fits s"
  by (simp add: fits_def send_event_def)

lemma fits_user: "fits s \<Longrightarrow> (user_fits (users s x) \<Longrightarrow> user_fits (f (users s x))) \<Longrightarrow> fits (upd_user x f s)"
  by (simp add: fits_def upd_user_def)

lemma fits_channel: "upd_channel c f s = Some s' \<Longrightarrow> fits s \<Longrightarrow> (\<And>ch. chan_fits ch \<Longrightarrow> chan_fits (f ch)) \<Longrightarrow> fits s'"
  by (auto simp: fits_def upd_channel_def split: if_splits)

lemma strlcpy_str_fits: "0 < n \<Longrightarrow> length (strlcpy_str t n) \<le> n - 1"
  by (simp add: strlcpy_str_def)

section \<open>JOIN, PART and INVITE\<close>

lemma fits_spambot: "check_spambot_warning cfg x n s = Some s' \<Longrightarrow> fits s \<Longrightarrow> fits s'"
  by (auto simp: check_spambot_warning_def Let_def user_fits_def intro!: fits_user split: if_splits)

lemma fits_del_invite: "del_invite c x s = Some s' \<Longrightarrow> fits s \<Longrightarrow> fits s'"
proof -
  assume a: "del_invite c x s = Some s'" "fits s"
  have "fits (upd_user x (\<lambda>u. u\<lparr>uinvited := remove1 c (uinvited u)\<rparr>) s)" by (rule fits_user [OF a(2)]) (simp add: user_fits_def)
  then show ?thesis using a(1) by (auto simp: del_invite_def chan_fits_def intro: fits_channel split: if_splits)
qed

lemma fits_del_invites: "del_invites c xs s = Some s' \<Longrightarrow> fits s \<Longrightarrow> fits s'"
  by (induction xs arbitrary: s) (auto simp: bind_eq_Some_conv dest: fits_del_invite)

lemma fits_destroy: "destroy_channel c s = Some s' \<Longrightarrow> fits s \<Longrightarrow> fits s'"
  by (auto simp: destroy_channel_def clear_invites_def bind_eq_Some_conv fits_def split: if_splits dest!: fits_del_invites [unfolded fits_def])

lemma fits_remove: "remove_user_from_channel m s = Some s' \<Longrightarrow> fits s \<Longrightarrow> fits s'"
proof -
  assume a: "remove_user_from_channel m s = Some s'" "fits s"
  then obtain mb ch ms ls us s1 where ch: "mships s m = Some mb" "channels s (mchan mb) = Some ch" and
    s1: "s1 = upd_user (mclient mb) (\<lambda>u. u\<lparr>uchannel := us\<rparr>)
              (s\<lparr>channels := (channels s)(mchan mb \<mapsto> ch\<lparr>members := ms, locmembers := ls\<rparr>), mships := (mships s)(m := None)\<rparr>)" and
    s': "(if ms = [] then destroy_channel (mchan mb) s1 else Some s1) = Some s'"
    by (auto simp: remove_user_from_channel_def Let_def split: bind_splits)
  have "fits s1" using a(2) ch(2) by (auto simp: s1 fits_def upd_user_def user_fits_def chan_fits_def)
  then show ?thesis using s' fits_destroy by (auto split: if_splits)
qed

lemma fits_add_user: "add_user_to_channel cfg c x flags fc s = Some s' \<Longrightarrow> fits s \<Longrightarrow> fits s'"
proof -
  assume a: "add_user_to_channel cfg c x flags fc s = Some s'" "fits s"
  have flood: "chan_fits (fst (join_flood cfg fc ch))" if "chan_fits ch" for ch
    using that by (simp add: join_flood_def chan_fits_def Let_def)
  obtain ch where "channels s c = Some ch" "uisclient (users s x)"
    using a(1) by (cases "channels s c"; cases "uisclient (users s x)") (auto simp: add_user_to_channel_def)
  then show ?thesis
    using a flood [of ch] by (auto simp: add_user_to_channel_def Let_def fits_def upd_user_def user_fits_def chan_fits_def split: prod.splits if_splits)
qed

lemma fits_enter: "enter_channel cfg x c flags s = Some s' \<Longrightarrow> fits s \<Longrightarrow> fits s'"
proof -
  assume a: "enter_channel cfg x c flags s = Some s'" "fits s"
  obtain ch s1 s2 s3 s5 and ch5 :: Channel where st: "channels s c = Some ch"
      "(if \<not> has_flag (uumodes (users s x)) UMODE_OPER then check_spambot_warning cfg x (Some (ch_name ch)) s else Some s) = Some s1"
      "add_user_to_channel cfg c x flags True s1 = Some s2"
      "(if flags = CHFL_CHANOP then upd_channel c (\<lambda>ch. ch\<lparr>ch_creationtime := CurrentTime cfg,
         ch_mode := add_flag (add_flag (ch_mode ch) MODE_TOPICLIMIT) MODE_NOPRIVMSGS\<rparr>) s2 else Some s2) = Some s3"
      "del_invite c x (send_event (JoinMsg c x (flags = CHFL_CHANOP)) s3) = Some s5"
      "s' = upd_user x (\<lambda>u. u\<lparr>ulast_join_time := CurrentTime cfg\<rparr>) (send_event (NamesReply x c)
         (if ch_topic ch5 \<noteq> [] then send_event (TopicReply x c) s5 else s5))"
    using a(1) unfolding enter_channel_def Let_def bind_eq_Some_conv option.inject
    by (elim exE conjE) (rule that; (assumption | (rule sym, assumption)))
  have "fits s1" using st(2) a(2) fits_spambot by (auto split: if_splits)
  then have "fits s2" by (rule fits_add_user [OF st(3)])
  then have "fits s3" using st(4) by (auto simp: chan_fits_def intro: fits_channel split: if_splits)
  then have "fits s5" using fits_del_invite [OF st(5)] by simp
  then show ?thesis unfolding st(6) by (intro fits_user) (simp_all add: user_fits_def)
qed

lemma fits_make: "make_channel cfg n s = Some (c, s') \<Longrightarrow> fits s \<Longrightarrow> fits s'"
  by (auto simp: make_channel_def Let_def fits_def chan_fits_def new_channel_def strlcpy_str_def CHANNELLEN_def USERHOST_REPLYLEN_def split: if_splits)

lemma fits_join_one: "join_one cfg x chan key s = Some r \<Longrightarrow> fits s \<Longrightarrow> fits (end_state r)"
  using join_one_outcome [of cfg x chan key s r] fits_enter fits_make by fastforce

lemma fits_join_loop: "join_loop cfg x chans keys s = Some s' \<Longrightarrow> fits s \<Longrightarrow> fits s'"
proof (induction chans arbitrary: keys s)
  case (Cons chan chans)
  obtain key keys' where keys: "take_key keys = (key, keys')" by fastforce
  then obtain r where r: "join_one cfg x chan key s = Some r" "(case r of JoinNext s1 \<Rightarrow> join_loop cfg x chans keys' s1 | JoinBreak s1 \<Rightarrow> Some s1) = Some s'"
    using Cons.prems(1) by (auto simp: bind_eq_Some_conv)
  then show ?case using fits_join_one [OF r(1) Cons.prems(2)] Cons.IH by (cases r) auto
qed simp

lemma fits_part_all: "part_all x ms s = Some s' \<Longrightarrow> fits s \<Longrightarrow> fits s'"
  by (induction ms arbitrary: s) (auto simp: bind_eq_Some_conv dest: fits_remove)

lemma fits_join_0: "channel_do_join_0 cfg x s = Some s' \<Longrightarrow> fits s \<Longrightarrow> fits s'"
  by (auto simp: channel_do_join_0_def Let_def bind_eq_Some_conv split: if_split_asm dest: fits_spambot fits_part_all)

lemma fits_do_join: "channel_do_join cfg x chans keys s = Some s' \<Longrightarrow> fits s \<Longrightarrow> fits s'"
  by (auto simp: channel_do_join_def channel_find_last0_def bind_eq_Some_conv split: if_split_asm prod.splits dest: fits_join_0 fits_join_loop)

lemma fits_add_invite: "add_invite cfg c x s = Some s' \<Longrightarrow> fits s \<Longrightarrow> fits s'"
proof -
  assume a: "add_invite cfg c x s = Some s'" "fits s"
  then obtain s1 s2 s3 d where st: "del_invite c x s = Some s1" "s2 = s1 \<or> del_invite d x s1 = Some s2"
      "upd_channel c (\<lambda>ch. ch\<lparr>invites := x # invites ch\<rparr>) s2 = Some s3" "s' = upd_user x (\<lambda>u. u\<lparr>uinvited := c # uinvited u\<rparr>) s3"
    by (auto simp: add_invite_def Let_def split: bind_splits if_splits)
  have "fits s2" using st(1,2) a(2) fits_del_invite by blast
  then have "fits s3" by (rule fits_channel [OF st(3)]) (simp add: chan_fits_def)
  then show ?thesis unfolding st(4) by (rule fits_user) (simp add: user_fits_def)
qed

lemma fits_can_send: "can_send cfg c x member msg s = Some (r, s') \<Longrightarrow> fits s \<Longrightarrow> fits s'"
proof -
  assume a: "can_send cfg c x member msg s = Some (r, s')" "fits s"
  have "s' = s \<or> (\<exists>ch u m b. send_banned ch u m s = Some (b, s'))"
    using a(1) unfolding can_send_def Let_def by (simp split: if_split_asm bind_split_asm) (auto simp: bind_eq_Some_conv split: if_split_asm)
  then show ?thesis
    using a(2) by (auto simp: send_banned_def Let_def bind_eq_Some_conv fits_def split: option.split_asm if_split_asm)
qed

lemma fits_part_one: "channel_part_one_client cfg x name reason s = Some s' \<Longrightarrow> fits s \<Longrightarrow> fits s'"
proof -
  assume a: "channel_part_one_client cfg x name reason s = Some s'" "fits s"
  have away: "fits s'" if "remove_user_from_channel m (send_event e s2) = Some s'" "fits s2" for m e s2
    using fits_remove [OF that(1)] that(2) by simp
  have warned: "fits s1" if "check_spambot_warning cfg x None s = Some s1" for s1 using fits_spambot [OF that a(2)] .
  have asked: "fits s'" if "can_send cfg c x (Some m) reason s1 = Some (r, s2)" "fits s1" "remove_user_from_channel m (send_event e s2) = Some s'" for c m r s1 s2 e
    using away [OF that(3) fits_can_send [OF that(1,2)]] .
  have "fits s'" if m: "find_channel_link x c s = Some m" "hash_find_channel name s = Some c" for c m
  proof -
    obtain s1 where s1: "(if MyConnect (users s x) \<and> \<not> has_flag (uumodes (users s x)) UMODE_OPER then check_spambot_warning cfg x None s else Some s) = Some s1"
      using a(1) m by (auto simp: channel_part_one_client_def Let_def bind_eq_Some_conv)
    then have "fits s1" using warned a(2) by (auto split: if_splits)
    moreover obtain sr s2 e where "(if reason = [] then Some (False, s1) else if \<not> MyConnect (users s x) then Some (True, s1)
        else do { (r, s2) \<leftarrow> can_send cfg c x (Some m) reason s1;
                  Some (r \<noteq> 0 \<and> ufirsttime (users s x) + anti_spam_exit_message_time cfg < CurrentTime cfg, s2) }) = Some (sr, s2)"
      "remove_user_from_channel m (send_event e s2) = Some s'"
      using a(1) m s1 by (auto simp: channel_part_one_client_def Let_def bind_eq_Some_conv simp del: if_split split: if_split_asm)
    ultimately show ?thesis using away asked by (fastforce simp: bind_eq_Some_conv split: if_split_asm)
  qed
  then show ?thesis using a by (cases "hash_find_channel name s"; cases "find_channel_link x (the (hash_find_channel name s)) s")
    (auto simp: channel_part_one_client_def)
qed

lemma fits_do_part: "channel_do_part cfg x names reason s = Some s' \<Longrightarrow> fits s \<Longrightarrow> fits s'"
proof -
  have "part_loop cfg x r ns s = Some s' \<Longrightarrow> fits s \<Longrightarrow> fits s'" for r ns s
    by (induction ns arbitrary: s) (auto simp: bind_eq_Some_conv dest: fits_part_one)
  then show "channel_do_part cfg x names reason s = Some s' \<Longrightarrow> fits s \<Longrightarrow> fits s'" by (auto simp: channel_do_part_def split: if_splits)
qed

section \<open>MODE\<close>

lemma fits_quietly: "quietly ms ms' \<Longrightarrow> fits (mnet ms) \<Longrightarrow> fits (mnet ms')"
  by (auto simp: quietly_def quiet_def fits_def)

lemma fits_set_channel: "set_channel c f ms = Some ms' \<Longrightarrow> fits (mnet ms) \<Longrightarrow> (\<And>ch. chan_fits ch \<Longrightarrow> chan_fits (f ch)) \<Longrightarrow> fits (mnet ms')"
  by (auto simp: set_channel_def dest: fits_channel)

lemma fits_simple: "simple_change env dir c d ms = Some ms' \<Longrightarrow> fits (mnet ms) \<Longrightarrow> fits (mnet ms')"
  by (cases dir) (auto simp: simple_change_def Let_def bind_eq_Some_conv chan_fits_def split: if_split_asm dest!: add_change_net fits_set_channel)

lemma clear_loop_fits: "clear_cache_loop ms s = Some s' \<Longrightarrow> users s' = users s \<and> channels s' = channels s"
proof (induction ms arbitrary: s)
  case (Cons m ms)
  then obtain mb where "clear_cache_loop ms (s\<lparr>mships := (mships s)(m \<mapsto> clear_cached mb)\<rparr>) = Some s'" by (auto simp: bind_eq_Some_conv)
  from Cons.IH [OF this] show ?case by simp
qed simp

lemma fits_clear: "clear_ban_cache_channel c s = Some s' \<Longrightarrow> fits s' = fits s"
  using clear_loop_fits by (auto simp: clear_ban_cache_channel_def bind_eq_Some_conv fits_def)

lemma set_mask_list_fits: "chan_fits ch \<Longrightarrow> \<forall>b \<in> set bs. ban_fits b \<Longrightarrow> chan_fits (set_mask_list type bs ch)"
  by (auto simp: set_mask_list_def chan_fits_def)

lemma mask_list_fits: "mask_list type ch = Some bs \<Longrightarrow> chan_fits ch \<Longrightarrow> b \<in> set bs \<Longrightarrow> ban_fits b"
  by (auto simp: mask_list_def chan_fits_def split: if_splits)

lemma ban_who_fits: "length (ban_who cfg u) \<le> NICKLEN + USERLEN + HOSTLEN + 2"
proof -
  have "length (strlcpy_str t (NICKLEN + USERLEN + HOSTLEN + 3)) \<le> NICKLEN + USERLEN + HOSTLEN + 2" for t
    using strlcpy_str_fits [of "NICKLEN + USERLEN + HOSTLEN + 3" t] by simp
  then show ?thesis unfolding ban_who_def by blast
qed

lemma fits_add_id: "add_id cfg x c b type s = Some (r, t, s') \<Longrightarrow> fits s \<Longrightarrow> fits s'"
proof -
  assume a: "add_id cfg x c b type s = Some (r, t, s')" "fits s"
  then obtain ch where ch: "channels s c = Some ch" "chan_fits ch" by (auto simp: add_id_def bind_eq_Some_conv fits_def)
  obtain n u h where parts: "mask_parts (if MyClient (users s x) then collapse b else b) = (n, u, h)" by (metis prod_cases3)
  have new: "ban_fits \<lparr>bname = n, buser = u, bhost = h, bwho = ban_who cfg (users s x), blen = length (nuh_text n u h) - 2, bwhen = w, bmask = mk\<rparr>" for w mk
    using mask_parts_lengths [OF parts] ban_who_fits by (simp add: ban_fits_def length_nuh_text)
  consider e where "s' = send_event e s" | s1 where "(if type = CHFL_BAN \<or> type = CHFL_EXCEPTION then clear_ban_cache_channel c s else Some s) = Some s1"
      "s' = s1 \<or> (\<exists>bn bs. mask_list type ch = Some bs \<and> ban_fits bn \<and> upd_channel c (set_mask_list type (bn # bs)) s1 = Some s')"
    using a(1) ch(1) parts new by (auto simp: add_id_def Let_def bind_eq_Some_conv split: if_split_asm)
  then show ?thesis
  proof cases
    case (2 s1)
    have "fits s1" using 2(1) a(2) fits_clear by (auto split: if_splits)
    then show ?thesis
      using 2(2) fits_channel set_mask_list_fits mask_list_fits [OF _ ch(2)] by (metis set_ConsD)
  qed (use a(2) in simp)
qed

lemma fits_del_id: "del_id c b type s = Some (r, t, s') \<Longrightarrow> fits s \<Longrightarrow> fits s'"
proof -
  assume a: "del_id c b type s = Some (r, t, s')" "fits s"
  then obtain ch where ch: "channels s c = Some ch" "chan_fits ch" by (auto simp: del_id_def bind_eq_Some_conv fits_def)
  obtain s1 where s1: "(if type = CHFL_BAN \<or> type = CHFL_EXCEPTION then clear_ban_cache_channel c s else Some s) = Some s1"
      "s' = s1 \<or> (\<exists>bn bs. mask_list type ch = Some bs \<and> upd_channel c (set_mask_list type (remove1 bn bs)) s1 = Some s')"
    using a(1) ch(1) by (auto simp: del_id_def Let_def bind_eq_Some_conv split: prod.splits option.split_asm)
  have "fits s1" using s1(1) a(2) fits_clear by (auto split: if_splits)
  then show ?thesis
    using s1(2) fits_channel set_mask_list_fits mask_list_fits [OF _ ch(2)] by (metis notin_set_remove1)
qed

text \<open>What a handler of masks or of member status does to the state.\<close>

lemma chm_mask_outcome:
  assumes "chm_mask type err rpl endrpl env dir c d ms = Some ms'"
  shows "quiet (mnet ms) (mnet ms') \<or> (\<exists>b r t. add_id (me_cfg env) (me_source env) (me_chan env) b type (mnet ms) = Some (r, t, mnet ms')) \<or>
    (\<exists>b r t. del_id (me_chan env) b type (mnet ms) = Some (r, t, mnet ms'))"
proof (cases "dir = MODE_QUERY \<or> length (me_parv env) \<le> parn ms")
  case True
  have "quietly ms (ms_send e (list_reply (me_source env) rpl bs (ms\<lparr>errors := f\<rparr>)))" for e bs f
    by (rule quietly_trans [OF quietly_trans [OF quietly_intros(4) quietly_list_reply] quietly_intros(3)])
  then show ?thesis using True assms by (auto simp: chm_mask_def Let_def bind_eq_Some_conv quietly_def split: if_split_asm)
next
  case False
  obtain full ms1 where ms1: "count_param env ms = (full, ms1)" by fastforce
  note fields = count_param_fields [OF ms1]
  have "refuse err num env ms = Some ms' \<Longrightarrow> quiet (mnet ms) (mnet ms')" for err num using quietly_intros(2) by (simp add: quietly_def)
  then show ?thesis
    using assms False ms1 fields by (cases "dir = MODE_ADD") (auto simp: chm_mask_def Let_def bind_eq_Some_conv split: if_split_asm dest!: add_change_net)
qed

lemma chm_status_outcome:
  assumes "chm_status level flag skip_add env dir c d ms = Some ms'"
  shows "quiet (mnet ms) (mnet ms') \<or> (\<exists>s m mb. quiet (mnet ms) s \<and> \<not> below level env ms \<and> mships s m = Some mb \<and>
    mnet ms' = s\<lparr>mships := (mships s)(m \<mapsto> mb\<lparr>mflags := (if dir = MODE_ADD then add_flag (mflags mb) flag else del_flag (mflags mb) flag)\<rparr>)\<rparr>)"
proof -
  obtain target s where fc: "find_chasing (me_dir env) (me_source env) (me_parv env ! parn ms) (mnet ms) = (target, s)" by fastforce
  have s: "quiet (mnet ms) s" using find_chasing_quiet [OF fc] .
  define ms1 where "ms1 = ms\<lparr>parn := Suc (parn ms), mnet := s\<rparr>"
  obtain full ms2 where ms2: "count_param env ms1 = (full, ms2)" by fastforce
  have net2: "mnet ms2 = s" using count_param_fields(1) [OF ms2] by (simp add: ms1_def)
  have told: "quiet (mnet ms) (mnet (once err x num t ms1))" for err x num t
    using quietly_intros(1) [of ms1 err x num t] quiet_trans [OF s] by (simp add: quietly_def ms1_def)
  have refused: "refuse err num env ms = Some ms' \<Longrightarrow> quiet (mnet ms) (mnet ms')" for err num using quietly_intros(2) by (simp add: quietly_def)
  show ?thesis
  proof (cases "below level env ms \<or> dir = MODE_QUERY \<or> length (me_parv env) \<le> parn ms \<or> target = None")
    case True
    then have "quiet (mnet ms) (mnet ms')" using assms fc s refused by (auto simp: chm_status_def Let_def split: if_split_asm)
    then show ?thesis ..
  next
    case False
    then obtain y where y: "target = Some y" by blast
    have flags: "\<exists>mb. mships s m = Some mb \<and> mnet ms' = s\<lparr>mships := (mships s)(m \<mapsto> mb\<lparr>mflags := f (mflags mb)\<rparr>)\<rparr>"
      if "Option.bind (add_change c a i dir ms2) (set_member_flags m f) = Some ms'" for a i m f
      using that net2 by (auto simp: set_member_flags_def bind_eq_Some_conv dest!: add_change_net)
    show ?thesis
    proof (cases "find_channel_link y (me_chan env) s")
      case None
      then have "ms' = once SM_ERR_NOTONCHANNEL (me_source env) 441 (uname (users s y)) ms1"
        using assms False fc y by (simp add: chm_status_def Let_def ms1_def)
      then show ?thesis using told by simp
    next
      case (Some m)
      then have "ms' = ms2 \<or> Option.bind (add_change c (ArgText (uname (users s y))) (Some (uid (users s y))) dir ms2)
          (set_member_flags m (\<lambda>f. if dir = MODE_ADD then add_flag f flag else del_flag f flag)) = Some ms'"
        using assms False fc y ms2 by (simp add: chm_status_def Let_def ms1_def [symmetric] split: if_split_asm)
      then show ?thesis using s net2 False flags by blast
    qed
  qed
qed

lemma fits_mask: "chm_mask type err rpl endrpl env dir c d ms = Some ms' \<Longrightarrow> fits (mnet ms) \<Longrightarrow> fits (mnet ms')"
  using chm_mask_outcome [of type err rpl endrpl env dir c d ms ms'] fits_add_id fits_del_id by (auto simp: quiet_def fits_def)

lemma fits_status: "chm_status level flag skip_add env dir c d ms = Some ms' \<Longrightarrow> fits (mnet ms) \<Longrightarrow> fits (mnet ms')"
  using chm_status_outcome [of level flag skip_add env dir c d ms ms'] by (auto simp: quiet_def fits_def)

lemma fits_limit_key:
  assumes "fits (mnet ms)"
  shows "chm_limit env dir c d ms = Some ms' \<Longrightarrow> fits (mnet ms')" "chm_key env dir c d ms = Some ms' \<Longrightarrow> fits (mnet ms')"
proof -
  note refused = fits_quietly [OF quietly_intros(2) assms]
  have set: "fits (mnet b)" if "set_channel (me_chan env) f a = Some b" "mnet a = mnet ms" "\<And>ch. chan_fits ch \<Longrightarrow> chan_fits (f ch)" for f a b
    using fits_set_channel [OF that(1)] that(2,3) assms by simp
  have key: "length (strlcpy_str k (KEYLEN + 1)) \<le> KEYLEN" for k using strlcpy_str_fits [of "KEYLEN + 1"] by simp
  have lim: "nat (atoi t) < 2 ^ 32" for t using atoi_less [of t] by simp
  show "chm_limit env dir c d ms = Some ms' \<Longrightarrow> fits (mnet ms')"
    using assms refused lim by (fastforce simp: chm_limit_def Let_def chan_fits_def split: if_splits bind_splits dest!: add_change_net dest: set)
  show "chm_key env dir c d ms = Some ms' \<Longrightarrow> fits (mnet ms')"
    using assms refused key by (fastforce simp: chm_key_def Let_def chan_fits_def split: if_splits bind_splits dest!: add_change_net dest: set)
qed

lemma fits_handler:
  assumes ok: "fits (mnet ms)" and res: "fst (ModeTable c) env dir c (snd (ModeTable c)) ms = Some ms'"
  shows "fits (mnet ms')"
proof -
  note refused = fits_quietly [OF quietly_intros(2) ok] and told = fits_quietly [OF quietly_intros(1) ok] and simple = fits_simple [OF _ ok]
  let ?P = "\<lambda>f d. f env dir c d ms = Some ms' \<longrightarrow> fits (mnet ms')"
  have "?P (fst (ModeTable c)) (snd (ModeTable c))"
  proof (rule ModeTable_all)
    show "?P chm_nosuch d" for d using told by (auto simp: chm_nosuch_def)
    show "?P chm_simple d" for d using refused simple by (simp add: chm_simple_def)
    show "?P chm_registered d" for d using refused simple by (simp add: chm_registered_def Let_def)
    show "?P chm_operonly d" for d using refused simple told by (auto simp: chm_operonly_def Let_def)
    show "?P chm_limit d" "?P chm_key d" for d using fits_limit_key [OF ok] by auto
  qed (use ok in \<open>auto simp: chm_ban_def chm_except_def chm_invex_def chm_voice_def chm_hop_def chm_op_def intro: fits_mask fits_status\<close>)
  then show ?thesis using res by blast
qed

lemma fits_command:
  assumes "fits s" "set_channel_mode cfg dir x c member parv s = Some s'"
  shows "fits s'"
proof -
  have told: "fits (fold (\<lambda>t. send_event (f t)) ts s1) = fits s1" for f ts s1 by (simp add: fits_def)
  obtain env ms where ms: "mode_loop env (hd parv) MODE_ADD (mode_start s) = Some ms" "fits s' = fits (mnet ms)"
    using assms(2) by (fastforce simp: set_channel_mode_def Let_def bind_eq_Some_conv send_mode_changes_client_def send_mode_changes_server_def told split: if_split_asm option.split_asm)
  have "True \<and> fits (mnet ms)"
    by (rule mode_loop_induct [OF ms(1), where R = "\<lambda>_ _. True" and I = "\<lambda>ms. fits (mnet ms)"]) (use assms(1) fits_handler in \<open>auto simp: mode_start_def\<close>)
  then show ?thesis using ms(2) by simp
qed

section \<open>Topics\<close>

lemma fits_topic: "upd_channel c (channel_set_topic cfg topic info topicts local) s = Some s' \<Longrightarrow> fits s \<Longrightarrow> fits s'"
proof (rule fits_channel)
  fix ch assume ch: "chan_fits ch"
  have "length (strlcpy_str topic (min (TOPICLEN + 1) (max_topic_length cfg + 1))) \<le> TOPICLEN" "length (strlcpy_str topic (TOPICLEN + 1)) \<le> TOPICLEN"
      "length (strlcpy_str info USERHOST_REPLYLEN) < USERHOST_REPLYLEN"
    using strlcpy_str_fits [of "min (TOPICLEN + 1) (max_topic_length cfg + 1)" topic] strlcpy_str_fits [of "TOPICLEN + 1" topic]
      strlcpy_str_fits [of USERHOST_REPLYLEN info] by (auto simp: USERHOST_REPLYLEN_def)
  then show "chan_fits (channel_set_topic cfg topic info topicts local ch)" using ch by (simp add: chan_fits_def channel_set_topic_def)
qed

end
