(* ===== verification/Sjoin.thy ===== *)
theory Sjoin
  imports ChanFits
begin

text \<open>
  Channels that another server introduces, \<open>src/modules/core/m_sjoin.c\<close>: the comparison of the two creation times, the
  modes that win or are merged, the loss of status, masks, invitations and topic on the side that created the channel
  later, the members that enter and the lines for local members and for the other servers.

  The arrays keep their sizes and a write outside of them is \<open>None\<close>. \<open>modebuf\<close> is an array of characters, since the
  code reads it again after it has been partly overwritten; what an earlier call left in it is an argument. The link
  through which a client or server is reached, its field \<open>from\<close>, is an argument.
\<close>

section \<open>Parameters\<close>

record Mode =
  md_mode :: u32
  md_limit :: nat
  md_key :: string

record sjoin_env =
  sj_cfg :: chan_config
  sj_dir :: directory
  sj_from :: "addr \<Rightarrow> addr"
  sj_ignore_bogus_ts :: bool
  sj_source :: addr
  sj_parv :: "string list"
  sj_modebuf :: string

text \<open>\<open>atol\<close> and the conversion of a time to text with \<open>%lu\<close>.\<close>

definition atol :: "string \<Rightarrow> int" where
  "atol s =
    (let (neg, t) = skip_sign (dropWhile IsSpace s); n = int (decimal (takeWhile IsDigit t))
     in if neg then max (- (2 ^ 63)) (- n) else min (2 ^ 63 - 1) n)"

definition show_time :: "int \<Rightarrow> string" where
  "show_time t = show_nat (nat (t mod 2 ^ 64))"

text \<open>The modes of the message. The result is \<open>Some None\<close> where the code returns because a parameter is missing.\<close>

fun sjoin_modes :: "string list \<Rightarrow> string \<Rightarrow> nat \<Rightarrow> Mode \<Rightarrow> (nat \<times> Mode) option option" where
  "sjoin_modes parv [] nargs md = Some (Some (nargs, md))"
| "sjoin_modes parv (c # cs) nargs md =
    (if c = CHR ''k'' \<or> c = CHR ''l'' then
       (if length parv \<le> 4 + nargs then None
        else let a = parv ! (4 + nargs);
                 md' = (if c = CHR ''k'' then md\<lparr>md_key := strlcpy_str a (KEYLEN + 1)\<rparr> else md\<lparr>md_limit := nat (atoi a mod 2 ^ 32)\<rparr>)
             in if length parv < 5 + (nargs + 1) then Some None else sjoin_modes parv cs (nargs + 1) md')
     else sjoin_modes parv cs nargs (md\<lparr>md_mode := md_mode md OR snd (ModeTable c)\<rparr>))"

section \<open>Creation times\<close>

text \<open>The creation time of the channel, the one that is sent on, and whether our modes and the new ones are kept.\<close>

definition bogus_ts :: "bool \<Rightarrow> int \<Rightarrow> int \<Rightarrow> int" where
  "bogus_ts ignore oldts newts = (if ignore \<and> newts < 800000000 then (if oldts = 0 then 0 else 800000000) else newts)"

definition sjoin_ts :: "bool \<Rightarrow> int \<Rightarrow> int \<Rightarrow> int \<times> bool \<times> bool" where
  "sjoin_ts isnew oldts newts =
    (if isnew then (newts, True, True)
     else if newts = 0 \<or> oldts = 0 then (0, True, True)
     else if newts = oldts then (oldts, True, True)
     else if newts < oldts then (newts, False, True)
     else (oldts, True, False))"

section \<open>Modes\<close>

text \<open>\<open>strcmp(s, t) < 0\<close>.\<close>

fun str_less :: "string \<Rightarrow> string \<Rightarrow> bool" where
  "str_less [] t = (t \<noteq> [])"
| "str_less (a # s) [] = False"
| "str_less (a # s) (b # t) = ((of_char a :: nat) < of_char b \<or> a = b \<and> str_less s t)"

definition chan_mode_of :: "Channel \<Rightarrow> Mode" where
  "chan_mode_of ch = \<lparr>md_mode = ch_mode ch, md_limit = ch_limit ch, md_key = ch_key ch\<rparr>"

definition set_chan_mode :: "Mode \<Rightarrow> Channel \<Rightarrow> Channel" where
  "set_chan_mode md ch = ch\<lparr>ch_mode := md_mode md, ch_limit := md_limit md, ch_key := md_key md\<rparr>"

definition merge_modes :: "bool \<Rightarrow> bool \<Rightarrow> Mode \<Rightarrow> Mode \<Rightarrow> Mode" where
  "merge_modes keep_our keep_new md old =
    (if \<not> keep_new then old
     else if keep_our then
       \<lparr>md_mode = md_mode md OR md_mode old,
        md_limit = (if md_limit old > md_limit md then md_limit old else md_limit md),
        md_key = (if str_less (md_key md) (md_key old) then strlcpy_str (md_key old) (KEYLEN + 1) else md_key md)\<rparr>
     else md)"

text \<open>The text of the changes from the old modes to the new ones, and its arguments.\<close>

definition set_final_mode :: "Mode \<Rightarrow> Mode \<Rightarrow> string \<times> string" where
  "set_final_mode md old =
    (let gone = map snd (filter (\<lambda>(m, l). has_flag (md_mode old) m \<and> \<not> has_flag (md_mode md) m) chan_modes) @
                (if md_limit old \<noteq> 0 \<and> md_limit md = 0 then ''l'' else []) @
                (if md_key old \<noteq> [] \<and> md_key md = [] then ''k'' else []);
         new = map snd (filter (\<lambda>(m, l). has_flag (md_mode md) m \<and> \<not> has_flag (md_mode old) m) chan_modes) @
               (if md_limit md \<noteq> 0 \<and> md_limit old \<noteq> md_limit md then ''l'' else []) @
               (if md_key md \<noteq> [] \<and> md_key old \<noteq> md_key md then ''k'' else [])
     in ((if gone = [] then [] else ''-'' @ gone) @ (if new = [] then [] else ''+'' @ new),
         (if md_key old \<noteq> [] \<and> md_key md = [] then md_key old @ '' '' else []) @
         (if md_limit md \<noteq> 0 \<and> md_limit old \<noteq> md_limit md then show_limit (md_limit md) @ '' '' else []) @
         (if md_key md \<noteq> [] \<and> md_key old \<noteq> md_key md then md_key md @ '' '' else [])))"

section \<open>Losing\<close>

definition server_label :: "chan_config \<Rightarrow> user \<Rightarrow> string" where
  "server_label cfg u = (if hide_servers cfg \<or> has_flag (uflags u) FLAGS_HIDDEN then me_name cfg else uname u)"

definition mode_line :: "string \<Rightarrow> string \<Rightarrow> string \<Rightarrow> string list \<Rightarrow> string" where
  "mode_line server name modes nicks = '':'' @ server @ '' MODE '' @ name @ '' '' @ modes @ concat (map (\<lambda>n. '' '' @ n) nicks)"

text \<open>\<open>sendbuf\<close> holds the names of at most \<open>MAXMODEPARAMS\<close> members.\<close>

definition nicks_fit :: "string list \<Rightarrow> bool" where
  "nicks_fit nicks \<longleftrightarrow> length (concat (map (\<lambda>n. '' '' @ n) nicks)) < MODEBUFLEN"

fun remove_a_mode_loop :: "addr \<Rightarrow> string \<Rightarrow> string \<Rightarrow> u32 \<Rightarrow> char \<Rightarrow> addr list \<Rightarrow> string list \<Rightarrow> net \<Rightarrow> (string list \<times> net) option" where
  "remove_a_mode_loop c server name flag l [] nicks s = Some (nicks, s)"
| "remove_a_mode_loop c server name flag l (m # ms) nicks s = do {
     mb \<leftarrow> mships s m;
     if \<not> has_flag (mflags mb) flag then remove_a_mode_loop c server name flag l ms nicks s
     else do {
       let s1 = s\<lparr>mships := (mships s)(m \<mapsto> mb\<lparr>mflags := del_flag (mflags mb) flag\<rparr>)\<rparr>;
       let nicks1 = nicks @ [uname (users s (mclient mb))];
       if length nicks1 \<ge> MAXMODEPARAMS then
         (if \<not> nicks_fit nicks1 then None
          else remove_a_mode_loop c server name flag l ms []
                 (send_event (ChannelText c (mode_line server name (''-'' @ replicate (length nicks1) l) nicks1)) s1))
       else remove_a_mode_loop c server name flag l ms nicks1 s1
     }
   }"

definition remove_a_mode :: "chan_config \<Rightarrow> addr \<Rightarrow> addr \<Rightarrow> u32 \<Rightarrow> char \<Rightarrow> net \<Rightarrow> net option" where
  "remove_a_mode cfg c x flag l s = do {
     ch \<leftarrow> channels s c;
     let server = server_label cfg (users s x);
     (nicks, s1) \<leftarrow> remove_a_mode_loop c server (ch_name ch) flag l (members ch) [] s;
     (if nicks = [] then Some s1
      else if \<not> nicks_fit nicks then None
      else Some (send_event (ChannelText c (mode_line server (ch_name ch) (''-'' @ replicate (length nicks) l) nicks)) s1))
   }"

definition remove_our_modes :: "chan_config \<Rightarrow> addr \<Rightarrow> addr \<Rightarrow> net \<Rightarrow> net option" where
  "remove_our_modes cfg c x s = do {
     s1 \<leftarrow> remove_a_mode cfg c x CHFL_CHANOP (CHR ''o'') s;
     s2 \<leftarrow> remove_a_mode cfg c x CHFL_HALFOP (CHR ''h'') s1;
     remove_a_mode cfg c x CHFL_VOICE (CHR ''v'') s2
   }"

text \<open>The lines that take a list of masks away: \<open>lts\<close> and \<open>ps\<close> are what \<open>lmodebuf\<close> has behind its first part \<open>hdr\<close>
  and what \<open>lparabuf\<close> has, with a space behind every mask; ending a line without masks would write before \<open>lparabuf\<close>.\<close>

definition ban_put :: "string \<Rightarrow> char \<Rightarrow> Ban \<Rightarrow> nat \<times> string \<times> string \<Rightarrow> (string list \<times> nat \<times> string \<times> string) option" where
  "ban_put hdr l b = (\<lambda>(cur_len, lts, ps).
    (let plen = blen b + 4;
         full = (length lts \<ge> MAXMODEPARAMS \<or> cur_len + 1 + (plen - 1) > IRCD_BUFSIZE - 2);
         (cur1, lts1, ps1) = (if full then (length hdr, [], []) else (cur_len, lts, ps));
         lts2 = lts1 @ [l];
         ps2 = ps1 @ nuh_text (bname b) (buser b) (bhost b) @ '' ''
     in if (full \<and> ps = []) \<or> length hdr + length lts2 \<ge> MODEBUFLEN \<or> length ps2 \<ge> IRCD_BUFSIZE then None
        else Some (if full then [hdr @ lts @ '' '' @ butlast ps] else [], cur1 + plen, lts2, ps2)))"

fun ban_lines :: "string \<Rightarrow> char \<Rightarrow> Ban list \<Rightarrow> nat \<times> string \<times> string \<Rightarrow> string list option" where
  "ban_lines hdr l [] st = (case st of (_, lts, ps) \<Rightarrow> if ps = [] then None else Some [hdr @ lts @ '' '' @ butlast ps])"
| "ban_lines hdr l (b # bs) st = do {
     (out, st1) \<leftarrow> ban_put hdr l b st;
     rest \<leftarrow> ban_lines hdr l bs st1;
     Some (out @ rest)
   }"

definition remove_ban_list :: "addr \<Rightarrow> addr \<Rightarrow> u32 \<Rightarrow> char \<Rightarrow> net \<Rightarrow> net option" where
  "remove_ban_list c x type l s = do {
     ch \<leftarrow> channels s c;
     bs \<leftarrow> mask_list type ch;
     let hdr = '':'' @ uname (users s x) @ '' MODE '' @ ch_name ch @ '' -'';
     out \<leftarrow> ban_lines hdr l bs (length hdr, [], []);
     s1 \<leftarrow> upd_channel c (set_mask_list type []) s;
     Some (fold (\<lambda>t. send_event (ChannelText c t)) out s1)
   }"

definition remove_masks :: "addr \<Rightarrow> addr \<Rightarrow> u32 \<Rightarrow> char \<Rightarrow> net \<Rightarrow> net option" where
  "remove_masks c x type l s = do {
     ch \<leftarrow> channels s c;
     bs \<leftarrow> mask_list type ch;
     if bs = [] then Some s else remove_ban_list c x type l s
   }"

definition sjoin_lose :: "sjoin_env \<Rightarrow> addr \<Rightarrow> bool \<Rightarrow> int \<Rightarrow> int \<Rightarrow> net \<Rightarrow> net option" where
  "sjoin_lose env c isnew oldts newts s = do {
     let cfg = sj_cfg env; let x = sj_source env;
     s1 \<leftarrow> (if isnew then Some s else upd_channel c (\<lambda>ch. ch\<lparr>ch_name := strlcpy_str (sj_parv env ! 2) (CHANNELLEN + 1)\<rparr>) s);
     s2 \<leftarrow> remove_our_modes cfg c x s1;
     s3 \<leftarrow> remove_masks c x CHFL_BAN (CHR ''b'') s2;
     s4 \<leftarrow> remove_masks c x CHFL_EXCEPTION (CHR ''e'') s3;
     s5 \<leftarrow> remove_masks c x CHFL_INVEX (CHR ''I'') s4;
     s6 \<leftarrow> clear_ban_cache_channel c s5;
     s7 \<leftarrow> clear_invites c s6;
     ch \<leftarrow> channels s7 c;
     s8 \<leftarrow> (if ch_topic ch = [] then Some s7
            else map_option (send_event (ChannelText c ('':'' @ server_label cfg (users s7 x) @ '' TOPIC '' @ ch_name ch @ '' :'')))
                   (upd_channel c (channel_set_topic cfg [] [] 0 False) s7));
     Some (send_event (ChannelText c ('':'' @ me_name cfg @ '' NOTICE '' @ ch_name ch @ '' :*** Notice -- TS for '' @ ch_name ch @
       '' changed from '' @ show_time oldts @ '' to '' @ show_time newts)) s8)
   }"

section \<open>Members\<close>

text \<open>\<open>modebuf\<close> as an array, \<open>mpos\<close> where \<open>mbuf\<close> points to, \<open>uid_buf\<close> up to \<open>uid_ptr\<close>.\<close>

record sjoin_state =
  sj_net :: net
  mode_arr :: string
  mpos :: nat
  para :: "string list"
  uid_buf :: string

text \<open>A string with its terminator at the start of an array, and one character.\<close>

definition put_text :: "string \<Rightarrow> string \<Rightarrow> string option" where
  "put_text t arr = (if length t < length arr then Some (t @ [NUL] @ drop (Suc (length t)) arr) else None)"

definition put_char :: "char \<Rightarrow> sjoin_state \<Rightarrow> sjoin_state option" where
  "put_char ch st = (if mpos st < length (mode_arr st) then Some (st\<lparr>mode_arr := (mode_arr st)[mpos st := ch], mpos := mpos st + 1\<rparr>) else None)"

definition arr_text :: "string \<Rightarrow> string" where
  "arr_text arr = takeWhile (\<lambda>ch. ch \<noteq> NUL) arr"

text \<open>The line of status changes for the local members is sent and begun again.\<close>

definition send_status :: "string \<Rightarrow> addr \<Rightarrow> sjoin_state \<Rightarrow> sjoin_state option" where
  "send_status server c st =
    (if mpos st < length (mode_arr st) \<and> nicks_fit (para st) then do {
       ch \<leftarrow> channels (sj_net st) c;
       let arr = (mode_arr st)[mpos st := NUL];
       Some (st\<lparr>sj_net := send_event (ChannelText c (mode_line server (ch_name ch) (arr_text arr) (para st))) (sj_net st), mode_arr := arr\<rparr>)
     } else None)"

definition put_status :: "string \<Rightarrow> addr \<Rightarrow> string \<Rightarrow> char \<Rightarrow> sjoin_state \<Rightarrow> sjoin_state option" where
  "put_status server c nick l st = do {
     st1 \<leftarrow> put_char l st;
     let st2 = st1\<lparr>para := para st1 @ [nick]\<rparr>;
     if length (para st2) \<ge> MAXMODEPARAMS then do {
       st3 \<leftarrow> send_status server c st2;
       put_char (CHR ''+'') (st3\<lparr>mpos := 0, para := []\<rparr>)
     } else Some st2
   }"

definition put_statuses :: "string \<Rightarrow> addr \<Rightarrow> string \<Rightarrow> u32 \<Rightarrow> sjoin_state \<Rightarrow> sjoin_state option" where
  "put_statuses server c nick fl st = do {
     st1 \<leftarrow> (if has_flag fl CHFL_CHANOP then put_status server c nick (CHR ''o'') st else Some st);
     st2 \<leftarrow> (if has_flag fl CHFL_HALFOP then put_status server c nick (CHR ''h'') st1 else Some st1);
     (if has_flag fl CHFL_VOICE then put_status server c nick (CHR ''v'') st2 else Some st2)
   }"

definition sjoin_flag :: "char \<Rightarrow> u32" where
  "sjoin_flag ch = (if ch = CHR ''@'' then CHFL_CHANOP else if ch = CHR ''%'' then CHFL_HALFOP else if ch = CHR ''+'' then CHFL_VOICE else 0)"

definition sjoin_prefix :: "string \<Rightarrow> u32 \<times> string" where
  "sjoin_prefix s = (fold (\<lambda>ch fl. add_flag fl (sjoin_flag ch)) (takeWhile (\<lambda>ch. sjoin_flag ch \<noteq> 0) s) 0, dropWhile (\<lambda>ch. sjoin_flag ch \<noteq> 0) s)"

definition uid_prefix :: "u32 \<Rightarrow> string" where
  "uid_prefix fl = (if has_flag fl CHFL_CHANOP then ''@'' else []) @ (if has_flag fl CHFL_HALFOP then ''%'' else []) @ (if has_flag fl CHFL_VOICE then ''+'' else [])"

definition sjoin_head :: "user \<Rightarrow> int \<Rightarrow> string \<Rightarrow> string \<Rightarrow> string \<Rightarrow> string" where
  "sjoin_head u ts name modes params = '':'' @ uid u @ '' SJOIN '' @ show_time ts @ '' '' @ name @ '' '' @ modes @ '' '' @ params @ '':''"

text \<open>A line that has no room for the next member is sent to the other servers, and a new one begun.\<close>

definition put_uid :: "sjoin_env \<Rightarrow> addr \<Rightarrow> int \<Rightarrow> string \<Rightarrow> string \<Rightarrow> sjoin_state \<Rightarrow> sjoin_state option" where
  "put_uid env c ts params t st = do {
     ch \<leftarrow> channels (sj_net st) c;
     let x = sj_source env;
     st1 \<leftarrow>
       (if length (uid_buf st) + length t > IRCD_BUFSIZE - 2 then
          (let h = sjoin_head (users (sj_net st) x) ts (ch_name ch) (arr_text (mode_arr st)) params
           in if length h < IRCD_BUFSIZE then Some (st\<lparr>sj_net := send_event (ServerText x (uid_buf st)) (sj_net st), uid_buf := h\<rparr>) else None)
        else Some st);
     let b = uid_buf st1 @ t @ '' '';
     if length b < IRCD_BUFSIZE then Some (st1\<lparr>uid_buf := b\<rparr>) else None
   }"

definition sjoin_enter :: "chan_config \<Rightarrow> addr \<Rightarrow> addr \<Rightarrow> u32 \<Rightarrow> bool \<Rightarrow> net \<Rightarrow> net option" where
  "sjoin_enter cfg c y fl flood_ctrl s =
    (if find_channel_link y c s = None then map_option (send_event (LocalJoin c y)) (add_user_to_channel cfg c y fl flood_ctrl s) else Some s)"

definition sjoin_nick :: "sjoin_env \<Rightarrow> addr \<Rightarrow> int \<Rightarrow> string \<Rightarrow> bool \<Rightarrow> bool \<Rightarrow> string \<Rightarrow> sjoin_state \<Rightarrow> sjoin_state option" where
  "sjoin_nick env c ts params keep_new many tok st =
    (let x = sj_source env; server = server_label (sj_cfg env) (users (sj_net st) x); (fl0, name) = sjoin_prefix tok in
     case find_chasing (sj_dir env) x name (sj_net st) of
       (None, s1) \<Rightarrow> Some (st\<lparr>sj_net := s1\<rparr>)
     | (Some y, s1) \<Rightarrow>
         if sj_from env y \<noteq> sj_from env x then Some (st\<lparr>sj_net := s1\<rparr>)
         else do {
           let fl = (if keep_new then fl0 else 0); let nick = uname (users s1 y);
           st1 \<leftarrow> put_uid env c ts params (uid_prefix fl @ uid (users s1 y)) (st\<lparr>sj_net := s1\<rparr>);
           s2 \<leftarrow> sjoin_enter (sj_cfg env) c y fl (\<not> many) (sj_net st1);
           put_statuses server c nick fl (st1\<lparr>sj_net := s2\<rparr>)
         })"

fun sjoin_nicks :: "sjoin_env \<Rightarrow> addr \<Rightarrow> int \<Rightarrow> string \<Rightarrow> bool \<Rightarrow> bool \<Rightarrow> string list \<Rightarrow> sjoin_state \<Rightarrow> sjoin_state option" where
  "sjoin_nicks env c ts params keep_new many [] st = Some st"
| "sjoin_nicks env c ts params keep_new many (t # ts') st = do {
     st1 \<leftarrow> sjoin_nick env c ts params keep_new many t st;
     sjoin_nicks env c ts params keep_new many ts' st1
   }"

text \<open>The words of the last parameter.\<close>

function nick_words :: "string \<Rightarrow> string list" where
  "nick_words s = (case dropWhile (\<lambda>ch. ch = CHR '' '') s of [] \<Rightarrow> []
     | a # t \<Rightarrow> (a # takeWhile (\<lambda>ch. ch \<noteq> CHR '' '') t) # nick_words (dropWhile (\<lambda>ch. ch \<noteq> CHR '' '') t))"
  by pat_completeness auto
termination
proof (relation "measure length")
  fix s a t assume "dropWhile (\<lambda>ch. ch = CHR '' '') s = a # t"
  then have "length (a # t) \<le> length s" by (metis length_dropWhile_le)
  then have "length t < length s" by simp
  then show "(dropWhile (\<lambda>ch. ch \<noteq> CHR '' '') t, s) \<in> measure length"
    by (simp add: order.strict_trans1 [OF length_dropWhile_le])
qed simp

declare nick_words.simps [simp del]

section \<open>The message\<close>

definition sjoin_ts_notice :: "sjoin_env \<Rightarrow> addr \<Rightarrow> Channel \<Rightarrow> bool \<Rightarrow> int \<Rightarrow> net \<Rightarrow> net" where
  "sjoin_ts_notice env c ch isnew newts s =
    (let cfg = sj_cfg env; x = users s (sj_source env); via = users s (sj_from env (sj_source env)) in
     if sj_ignore_bogus_ts env then
       (if newts < 800000000 then
          send_event (OperNotice (''*** Bogus TS '' @ show_time newts @ '' on '' @ ch_name ch @ '' ignored from '' @ uname x @ ''(via '' @ uname via @ '')'')) s
        else s)
     else if newts = 0 \<and> \<not> isnew \<and> ch_creationtime ch \<noteq> 0 then
       send_event (OperNotice (''Server '' @ uname x @ '' changing TS on '' @ ch_name ch @ '' from '' @ show_time (ch_creationtime ch) @ '' to 0''))
         (send_event (ChannelText c ('':'' @ me_name cfg @ '' NOTICE '' @ ch_name ch @ '' :*** Notice -- TS for '' @ ch_name ch @
            '' changed from '' @ show_time (ch_creationtime ch) @ '' to 0'')) s)
     else s)"

text \<open>Behind the nicks: the last line of status changes, a new channel without members, the line for the servers.\<close>

definition sjoin_finish :: "sjoin_env \<Rightarrow> addr \<Rightarrow> bool \<Rightarrow> string \<Rightarrow> sjoin_state \<Rightarrow> net option" where
  "sjoin_finish env c isnew nicks st = do {
     let x = sj_source env;
     st1 \<leftarrow> (if para st = [] then (if mpos st < length (mode_arr st) then Some st else None)
             else send_status (server_label (sj_cfg env) (users (sj_net st) x)) c st);
     ch \<leftarrow> channels (sj_net st1) c;
     if members ch = [] \<and> isnew then destroy_channel c (sj_net st1)
     else if nicks = [] then Some (sj_net st1)
     else Some (send_event (ServerText x (butlast (uid_buf st1))) (sj_net st1))
   }"

text \<open>From the modes on: \<open>modes\<close> and \<open>params\<close> are what \<open>set_final_mode\<close> wrote.\<close>

definition sjoin_body :: "sjoin_env \<Rightarrow> addr \<Rightarrow> bool \<Rightarrow> int \<Rightarrow> bool \<Rightarrow> string \<Rightarrow> string \<Rightarrow> string \<Rightarrow> net \<Rightarrow> net option" where
  "sjoin_body env c isnew ts keep_new nicks modes params s = do {
     let x = sj_source env; let u = users s x;
     ch \<leftarrow> channels s c;
     arr0 \<leftarrow> put_text modes (sj_modebuf env);
     let s1 = (if modes = [] then s
               else send_event (ChannelText c ('':'' @ server_label (sj_cfg env) u @ '' MODE '' @ ch_name ch @ '' '' @ modes @ '' '' @ params)) s);
     (modes1, params1) \<leftarrow> (if deref (sj_parv env ! 3) \<noteq> CHR ''0'' \<and> keep_new then channel_modes c x s1 else Some (''0'', params));
     arr1 \<leftarrow> put_text modes1 arr0;
     let h = sjoin_head u ts (ch_name ch) modes1 params1;
     if length params1 \<ge> MODEBUFLEN then None
     else if length h \<ge> IRCD_BUFSIZE - max NICKLEN IDLEN - 2 - 3 - 1 then
       Some (send_event (OperNotice (''Long SJOIN from server: '' @ uname u @ ''(via '' @ uname (users s (sj_from env x)) @ '') (ignored)'')) s1)
     else do {
       st \<leftarrow> put_char (CHR ''+'') \<lparr>sj_net = s1, mode_arr = arr1, mpos = 0, para = [], uid_buf = h\<rparr>;
       let ws = nick_words nicks;
       st1 \<leftarrow> sjoin_nicks env c ts params1 keep_new (length ws > 1) ws st;
       sjoin_finish env c isnew nicks st1
     }
   }"

definition sjoin_channel :: "sjoin_env \<Rightarrow> net \<Rightarrow> (addr \<times> bool \<times> net) option" where
  "sjoin_channel env s =
    (case hash_find_channel (sj_parv env ! 2) s of
       Some c \<Rightarrow> Some (c, False, s)
     | None \<Rightarrow> map_option (\<lambda>(c, s'). (c, True, s')) (make_channel (sj_cfg env) (sj_parv env ! 2) s))"

text \<open>Everything once the channel is found or made.\<close>

definition sjoin_apply :: "sjoin_env \<Rightarrow> addr \<Rightarrow> bool \<Rightarrow> nat \<Rightarrow> Mode \<Rightarrow> net \<Rightarrow> net option" where
  "sjoin_apply env c isnew nargs md s = do {
     ch \<leftarrow> channels s c;
     let sent_ts = atol (sj_parv env ! 1);
     let oldts = ch_creationtime ch; let old = chan_mode_of ch;
     let newts = bogus_ts (sj_ignore_bogus_ts env) oldts sent_ts;
     let s1 = sjoin_ts_notice env c ch isnew sent_ts s;
     let (ts, keep_our, keep_new) = sjoin_ts isnew oldts newts;
     let md1 = merge_modes keep_our keep_new md old;
     let (modes, params) = set_final_mode md1 old;
     s2 \<leftarrow> upd_channel c (\<lambda>ch. set_chan_mode md1 (ch\<lparr>ch_creationtime := ts\<rparr>)) s1;
     s3 \<leftarrow> (if keep_our then Some s2 else sjoin_lose env c isnew oldts newts s2);
     sjoin_body env c isnew ts keep_new (sj_parv env ! (4 + nargs)) modes params s3
   }"

definition ms_sjoin :: "sjoin_env \<Rightarrow> net \<Rightarrow> net option" where
  "ms_sjoin env s =
    (let cfg = sj_cfg env; x = sj_source env; u = users s x; parv = sj_parv env in
     if length parv < 5 then None
     else if \<not> uisserver u then Some s
     else if \<not> check_channel_name cfg (parv ! 2) False then
       Some (send_event (OperNotice (''*** Too long or invalid channel name from '' @ uname u @ ''(via '' @ uname (users s (sj_from env x)) @ ''): '' @ parv ! 2)) s)
     else do {
       r \<leftarrow> sjoin_modes parv (parv ! 3) 0 \<lparr>md_mode = 0, md_limit = 0, md_key = []\<rparr>;
       (case r of
          None \<Rightarrow> Some s
        | Some (nargs, md) \<Rightarrow> do {
            (c, isnew, s1) \<leftarrow> sjoin_channel env s;
            sjoin_apply env c isnew nargs md s1
          })
     })"

end
