(* ===== verification/SjoinInv.thy ===== *)
theory SjoinInv
  imports Sjoin
begin

text \<open>
  The message SJOIN keeps the invariant of the channels and never faults: the arrays are large enough, and every
  pointer it follows is live.
\<close>

section \<open>Every step keeps the invariant\<close>

text \<open>While the message is processed the channel may have no members yet.\<close>

definition nicks_ok :: "net \<Rightarrow> bool" where
  "nicks_ok s \<longleftrightarrow> (\<forall>x. uisclient (users s x) \<longrightarrow> length (uname (users s x)) \<le> NICKLEN)"

definition sj_inv :: "addr \<Rightarrow> net \<Rightarrow> bool" where
  "sj_inv c s \<longleftrightarrow> net_ok s \<and> plain_net s \<and> fits s \<and> nicks_ok s \<and> channels s c \<noteq> None \<and>
    (\<forall>c'. c' \<noteq> c \<longrightarrow> s_name (shape_of s) c' \<noteq> None \<longrightarrow> s_mem (shape_of s) c' \<noteq> [])"

text \<open>The clients and servers stay who they are.\<close>

definition who :: "user \<Rightarrow> string \<times> string \<times> bool \<times> bool \<times> u32 \<times> address option" where
  "who u = (uid u, uname u, uisclient u, uisserver u, uflags u, uip u)"

definition same_who :: "net \<Rightarrow> net \<Rightarrow> bool" where
  "same_who s s' \<longleftrightarrow> (\<forall>x. who (users s' x) = who (users s x))"

lemma same_who_simps:
  assumes "same_who s s'"
  shows "uid (users s' x) = uid (users s x)" "uname (users s' x) = uname (users s x)" "uisclient (users s' x) = uisclient (users s x)"
    "uisserver (users s' x) = uisserver (users s x)" "uflags (users s' x) = uflags (users s x)" "MyConnect (users s' x) = MyConnect (users s x)"
  using assms by (auto simp: same_who_def who_def MyConnect_def)

lemma same_who_refl [simp]: "same_who s s"
  by (simp add: same_who_def)

lemma same_who_trans: "same_who s s1 \<Longrightarrow> same_who s1 s2 \<Longrightarrow> same_who s s2"
  by (simp add: same_who_def)

lemma same_who_users: "users s' = users s \<Longrightarrow> same_who s s'"
  by (simp add: same_who_def)

lemma same_who_nicks: "same_who s s' \<Longrightarrow> nicks_ok s' = nicks_ok s"
  by (simp add: nicks_ok_def same_who_simps)

lemma same_who_people: "same_who s s' \<Longrightarrow> same_people (shape_of s) (shape_of s')"
  by (simp add: same_people_def fun_eq_iff shape_simps same_who_simps)



lemma sj_inv_send [simp]: "sj_inv c (send_event e s) = sj_inv c s" "same_who s (send_event e s') = same_who s s'"
  "cache_ok (send_event e s) = cache_ok s"
  by (simp_all add: sj_inv_def nicks_ok_def same_who_def cache_ok_def send_event_def shape_of_def plain_net_def fits_def)

text \<open>A change of the channel that keeps its name, members and invitations.\<close>

lemma sj_inv_shape:
  assumes "sj_inv c s" "shape_of s' = shape_of s" "users s' = users s" "plain_net s'" "fits s'"
  shows "sj_inv c s'"
proof -
  have "channels s c \<noteq> None" using assms(1) by (simp add: sj_inv_def)
  then have "channels s' c \<noteq> None" using channel_of_name [of s' c] assms(2) by (auto simp: shape_simps)
  then show ?thesis using assms by (simp add: sj_inv_def nicks_ok_def)
qed

lemma sj_upd:
  assumes inv: "sj_inv c s" and f: "\<And>ch. ch_name (f ch) = ch_name ch \<and> members (f ch) = members ch \<and> locmembers (f ch) = locmembers ch \<and> invites (f ch) = invites ch"
    "\<And>ch. plain_chan ch \<Longrightarrow> plain_chan (f ch)" "\<And>ch. chan_fits ch \<Longrightarrow> chan_fits (f ch)"
  shows "\<exists>s' ch. channels s c = Some ch \<and> upd_channel c f s = Some s' \<and> sj_inv c s' \<and> channels s' c = Some (f ch) \<and> mode_frame c s s' \<and> mships s' = mships s"
proof -
  obtain ch where ch: "channels s c = Some ch" using inv by (auto simp: sj_inv_def)
  obtain s' where s': "upd_channel c f s = Some s'" "mode_frame c s s'" "channels s' c = Some (f ch)" "mships s' = mships s"
    using frame_upd_channel [OF ch f(1)] by blast
  have "plain_net s'" using plain_upd_channel [OF s'(1)] f(2) inv by (simp add: sj_inv_def)
  moreover have "fits s'" using fits_channel [OF s'(1)] f(3) inv by (simp add: sj_inv_def)
  ultimately show ?thesis using ch s' sj_inv_shape [OF inv, of s'] by (auto simp: mode_frame_def)
qed

section \<open>Losing the channel\<close>

lemma sj_rename:
  assumes inv: "sj_inv c s" and n: "channels s c = Some ch" "irccmp (ch_name ch) n = 0" "length n \<le> CHANNELLEN"
  shows "\<exists>s'. upd_channel c (\<lambda>ch. ch\<lparr>ch_name := strlcpy_str n (CHANNELLEN + 1)\<rparr>) s = Some s' \<and> sj_inv c s' \<and> users s' = users s \<and>
    channels s' = (channels s)(c \<mapsto> ch\<lparr>ch_name := n\<rparr>) \<and> mships s' = mships s \<and> cache_le s s'"
proof -
  define s' where "s' = s\<lparr>channels := (channels s)(c \<mapsto> ch\<lparr>ch_name := n\<rparr>)\<rparr>"
  have upd: "upd_channel c (\<lambda>ch. ch\<lparr>ch_name := strlcpy_str n (CHANNELLEN + 1)\<rparr>) s = Some s'"
    using n by (simp add: upd_channel_def s'_def strlcpy_str_def)
  have shape: "shape_of s' = (shape_of s)\<lparr>s_name := (s_name (shape_of s))(c \<mapsto> n)\<rparr>"
    using n(1) by (intro shape_eqI) (auto simp: shape_of_def s'_def)
  have old: "names_ok (shape_of s)" "links_ok (shape_of s)" "invites_ok (shape_of s)" using inv by (auto simp: sj_inv_def shape_ok_def)
  have old_name: "s_name (shape_of s) c = Some (ch_name ch)" using n(1) by (simp add: shape_simps)
  have "names_ok (shape_of s')"
    unfolding names_ok_def
  proof (intro conjI allI impI)
    show "d = d'" if "s_name (shape_of s') d = Some a" "s_name (shape_of s') d' = Some b" "irccmp a b = 0" for d d' a b
    proof -
      have "\<exists>a'. s_name (shape_of s) d = Some a' \<and> irccmp a' a = 0" "\<exists>b'. s_name (shape_of s) d' = Some b' \<and> irccmp b b' = 0"
        using that(1,2) n(2) irccmp_sym [OF n(2)] old_name by (auto simp: shape split: if_splits)
      then show ?thesis using names_okD(5) [OF old(1)] that(3) irccmp_trans by metis
    qed
  qed (use names_okD [OF old(1)] old_name in \<open>auto simp: shape split: if_splits\<close>)
  moreover have "is_local (shape_of s') = is_local (shape_of s)" by (auto simp: shape is_local_def fun_eq_iff split: option.splits)
  ultimately have "net_ok s'" using old(2,3) by (simp add: shape_ok_def links_ok_def invites_ok_def shape)
  moreover have "plain_net s'" "fits s'" using inv n by (auto simp: sj_inv_def plain_net_def fits_def s'_def plain_chan_def chan_fits_def)
  moreover have "nicks_ok s'" "channels s' c \<noteq> None" using inv by (simp_all add: sj_inv_def nicks_ok_def s'_def)
  ultimately have "sj_inv c s'" using inv by (simp add: sj_inv_def shape)
  then show ?thesis using upd cache_le_channel [OF upd] by (auto simp: s'_def)
qed

lemma nicks_fitI:
  assumes "length ns \<le> MAXMODEPARAMS" "\<forall>n \<in> set ns. length n \<le> NICKLEN"
  shows "nicks_fit ns"
proof -
  have "length (concat (map (\<lambda>n. '' '' @ n) ns)) \<le> length ns * (NICKLEN + 1)"
    using assms(2) by (induction ns) auto
  also have "\<dots> \<le> MAXMODEPARAMS * (NICKLEN + 1)" using assms(1) by (rule mult_le_mono1)
  finally show ?thesis by (simp add: nicks_fit_def MAXMODEPARAMS_def NICKLEN_def MODEBUFLEN_def)
qed

definition drop_flag :: "u32 \<Rightarrow> Membership \<Rightarrow> Membership" where
  "drop_flag f mb = mb\<lparr>mflags := del_flag (mflags mb) f\<rparr>"

lemma drop_flag_id: "\<not> has_flag (mflags mb) f \<Longrightarrow> drop_flag f mb = mb"
  using and_not_disjoint [of f "mflags mb"] by (simp add: drop_flag_def del_flag_def has_flag_def and.commute)

lemma drop_flag_idem [simp]: "drop_flag f (drop_flag f mb) = drop_flag f mb"
  by (simp add: drop_flag_def del_flag_def and.assoc)

lemma remove_loop_ok:
  assumes "\<forall>m \<in> set ms. \<exists>mb. mships s m = Some mb \<and> mchan mb = c \<and> length (uname (users s (mclient mb))) \<le> NICKLEN"
    "length ns < MAXMODEPARAMS" "\<forall>n \<in> set ns. length n \<le> NICKLEN"
  shows "\<exists>ns' s'. remove_a_mode_loop c server name f l ms ns s = Some (ns', s') \<and> length ns' < MAXMODEPARAMS \<and> (\<forall>n \<in> set ns'. length n \<le> NICKLEN) \<and>
    mode_frame c s s' \<and> channels s' = channels s \<and> (\<forall>m. mships s' m = (if m \<in> set ms then map_option (drop_flag f) (mships s m) else mships s m))"
  using assms
proof (induction ms arbitrary: ns s)
  case (Cons m ms)
  then obtain mb where mb: "mships s m = Some mb" "mchan mb = c" "length (uname (users s (mclient mb))) \<le> NICKLEN" by auto
  show ?case
  proof (cases "has_flag (mflags mb) f")
    case False
    then have "drop_flag f mb = mb" by (rule drop_flag_id)
    moreover have "\<forall>m \<in> set ms. \<exists>mb. mships s m = Some mb \<and> mchan mb = c \<and> length (uname (users s (mclient mb))) \<le> NICKLEN" using Cons.prems(1) by simp
    from Cons.IH [OF this Cons.prems(2,3)] obtain ns' s' where
      "remove_a_mode_loop c server name f l ms ns s = Some (ns', s')" "length ns' < MAXMODEPARAMS" "\<forall>n \<in> set ns'. length n \<le> NICKLEN"
      "mode_frame c s s'" "channels s' = channels s" "\<forall>m. mships s' m = (if m \<in> set ms then map_option (drop_flag f) (mships s m) else mships s m)" by blast
    ultimately show ?thesis using False mb(1) by (intro exI [of _ ns'] exI [of _ s']) auto
  next
    case True
    define ns1 where "ns1 = ns @ [uname (users s (mclient mb))]"
    define full where "full = (length ns1 \<ge> MAXMODEPARAMS)"
    define s0 where "s0 = s\<lparr>mships := (mships s)(m \<mapsto> drop_flag f mb)\<rparr>"
    define s1 where "s1 = (if full then send_event (ChannelText c (mode_line server name (''-'' @ replicate (length ns1) l) ns1)) s0 else s0)"
    have ns1: "length ns1 \<le> MAXMODEPARAMS" "\<forall>n \<in> set ns1. length n \<le> NICKLEN" using Cons.prems(2,3) mb(3) by (auto simp: ns1_def)
    have step: "remove_a_mode_loop c server name f l (m # ms) ns s = remove_a_mode_loop c server name f l ms (if full then [] else ns1) s1"
      using mb(1) True nicks_fitI [OF ns1] by (simp add: ns1_def [symmetric] full_def s1_def s0_def drop_flag_def Let_def)
    have s1: "mode_frame c s s1" "channels s1 = channels s" "users s1 = users s" "mships s1 = (mships s)(m \<mapsto> drop_flag f mb)"
      using frame_flags [OF mb(1,2), of "del_flag (mflags mb) f"] by (auto simp: s1_def s0_def drop_flag_def send_event_def mode_frame_def shape_of_def)
    have "\<forall>m \<in> set ms. \<exists>mb. mships s1 m = Some mb \<and> mchan mb = c \<and> length (uname (users s1 (mclient mb))) \<le> NICKLEN"
      using Cons.prems(1) mb by (auto simp: s1(3,4) drop_flag_def)
    moreover have "length (if full then [] else ns1) < MAXMODEPARAMS" by (simp add: full_def MAXMODEPARAMS_def)
    moreover have "\<forall>n \<in> set (if full then [] else ns1). length n \<le> NICKLEN" using ns1(2) by simp
    ultimately obtain ns' s' where s': "remove_a_mode_loop c server name f l ms (if full then [] else ns1) s1 = Some (ns', s')"
      "length ns' < MAXMODEPARAMS" "\<forall>n \<in> set ns'. length n \<le> NICKLEN" "mode_frame c s1 s'" "channels s' = channels s1"
      "\<forall>m. mships s' m = (if m \<in> set ms then map_option (drop_flag f) (mships s1 m) else mships s1 m)"
      using Cons.IH [of s1 "if full then [] else ns1"] by blast
    have "mships s' m' = (if m' \<in> set (m # ms) then map_option (drop_flag f) (mships s m') else mships s m')" for m'
      using s'(6) mb(1) by (simp add: s1(4))
    then show ?thesis using step s'(1-5) s1(2) frame_trans [OF s1(1) s'(4)] by auto
  qed
qed simp

lemma sj_frame:
  assumes "sj_inv c s" "mode_frame c s s'" "channels s' = channels s"
  shows "sj_inv c s'"
  using assms by (intro sj_inv_shape [OF assms(1)]) (auto simp: mode_frame_def sj_inv_def plain_net_def fits_def)

lemma member_nicks:
  assumes "sj_inv c s" "channels s c = Some ch"
  shows "\<forall>m \<in> set (members ch). \<exists>mb. mships s m = Some mb \<and> mchan mb = c \<and> length (uname (users s (mclient mb))) \<le> NICKLEN"
proof
  fix m assume "m \<in> set (members ch)"
  moreover have ok: "net_ok s" "links_ok (shape_of s)" using assms(1) by (auto simp: sj_inv_def shape_ok_def)
  ultimately obtain mb where mb: "mships s m = Some mb" "mchan mb = c" using net_ok_members(2) [OF ok(1) assms(2)] by blast
  have "uisclient (users s (mclient mb))" using links_okD(7) [OF ok(2), of m "mclient mb" c] mb by (simp add: shape_simps)
  then show "\<exists>mb. mships s m = Some mb \<and> mchan mb = c \<and> length (uname (users s (mclient mb))) \<le> NICKLEN"
    using mb assms(1) by (auto simp: sj_inv_def nicks_ok_def)
qed

definition in_channel :: "addr \<Rightarrow> Membership option \<Rightarrow> bool" where
  "in_channel c o' \<longleftrightarrow> (\<exists>mb. o' = Some mb \<and> mchan mb = c)"

text \<open>One kind of status is taken from all members.\<close>

lemma remove_a_mode_ok:
  assumes inv: "sj_inv c s"
  shows "\<exists>s'. remove_a_mode cfg c x f l s = Some s' \<and> mode_frame c s s' \<and> channels s' = channels s \<and>
    (\<forall>m. mships s' m = (if in_channel c (mships s m) then map_option (drop_flag f) (mships s m) else mships s m))"
proof -
  obtain ch where ch: "channels s c = Some ch" using inv by (auto simp: sj_inv_def)
  obtain ns s1 where s1: "remove_a_mode_loop c (server_label cfg (users s x)) (ch_name ch) f l (members ch) [] s = Some (ns, s1)"
      "length ns < MAXMODEPARAMS" "\<forall>n \<in> set ns. length n \<le> NICKLEN" "mode_frame c s s1" "channels s1 = channels s"
      "\<And>m. mships s1 m = (if m \<in> set (members ch) then map_option (drop_flag f) (mships s m) else mships s m)"
    using remove_loop_ok [OF member_nicks [OF inv ch], of "[]" "server_label cfg (users s x)" "ch_name ch" f l] by (auto simp: MAXMODEPARAMS_def)
  have mem: "m \<in> set (members ch) \<longleftrightarrow> in_channel c (mships s m)" for m
    using net_ok_members(2) [OF _ ch, of m] inv by (auto simp: sj_inv_def in_channel_def)
  define s2 where "s2 = (if ns = [] then s1 else send_event (ChannelText c (mode_line (server_label cfg (users s x)) (ch_name ch) (''-'' @ replicate (length ns) l) ns)) s1)"
  have "remove_a_mode cfg c x f l s = Some s2"
    using s1(1-3) ch nicks_fitI [of ns] by (simp add: remove_a_mode_def Let_def s2_def)
  moreover have "mode_frame c s s2" "channels s2 = channels s" "mships s2 = mships s1"
    using s1(4,5) by (auto simp: s2_def send_event_def mode_frame_def shape_of_def)
  ultimately show ?thesis using s1(6) mem by auto
qed



definition no_status :: "Membership \<Rightarrow> Membership" where
  "no_status mb = drop_flag CHFL_VOICE (drop_flag CHFL_HALFOP (drop_flag CHFL_CHANOP mb))"

lemma remove_our_modes_ok:
  assumes inv: "sj_inv c s"
  shows "\<exists>s'. remove_our_modes cfg c x s = Some s' \<and> mode_frame c s s' \<and> channels s' = channels s \<and>
    (\<forall>m. mships s' m = (if in_channel c (mships s m) then map_option no_status (mships s m) else mships s m))"
proof -

  obtain s1 where s1: "remove_a_mode cfg c x CHFL_CHANOP (CHR ''o'') s = Some s1" "mode_frame c s s1" "channels s1 = channels s"
      "\<And>m. mships s1 m = (if in_channel c (mships s m) then map_option (drop_flag CHFL_CHANOP) (mships s m) else mships s m)"
    using remove_a_mode_ok [OF inv] by blast
  have inv1: "sj_inv c s1" by (rule sj_frame [OF inv s1(2,3)])
  obtain s2 where s2: "remove_a_mode cfg c x CHFL_HALFOP (CHR ''h'') s1 = Some s2" "mode_frame c s1 s2" "channels s2 = channels s1"
      "\<And>m. mships s2 m = (if in_channel c (mships s1 m) then map_option (drop_flag CHFL_HALFOP) (mships s1 m) else mships s1 m)"
    using remove_a_mode_ok [OF inv1] by blast
  have inv2: "sj_inv c s2" by (rule sj_frame [OF inv1 s2(2,3)])
  obtain s3 where s3: "remove_a_mode cfg c x CHFL_VOICE (CHR ''v'') s2 = Some s3" "mode_frame c s2 s3" "channels s3 = channels s2"
      "\<And>m. mships s3 m = (if in_channel c (mships s2 m) then map_option (drop_flag CHFL_VOICE) (mships s2 m) else mships s2 m)"
    using remove_a_mode_ok [OF inv2] by blast
  have "remove_our_modes cfg c x s = Some s3" using s1(1) s2(1) s3(1) by (simp add: remove_our_modes_def)
  moreover have "mode_frame c s s3" using frame_trans s1(2) s2(2) s3(2) by blast
  moreover have "mships s3 m = (if in_channel c (mships s m) then map_option no_status (mships s m) else mships s m)" for m
    by (cases "mships s m") (auto simp: s3(4) s2(4) s1(4) in_channel_def drop_flag_def no_status_def)
  ultimately show ?thesis using s1(3) s2(3) s3(3) by auto
qed

text \<open>The lines for a list of masks fit: \<open>cur_len\<close> is never less than what has been written.\<close>

lemma ban_lines_ok:
  assumes "\<forall>b \<in> set bs. ban_fits b" "length hdr \<le> 122"
    "length lts \<le> MAXMODEPARAMS" "length hdr + length ps \<le> cur" "cur \<le> IRCD_BUFSIZE" "lts \<noteq> [] \<longrightarrow> ps \<noteq> []" "lts = [] \<longrightarrow> cur = length hdr" "bs \<noteq> [] \<or> ps \<noteq> []"
  shows "\<exists>out. ban_lines hdr l bs (cur, lts, ps) = Some out"
  using assms
proof (induction bs arbitrary: cur lts ps)
  case (Cons b bs)
  define full where "full = (length lts \<ge> MAXMODEPARAMS \<or> cur + 1 + (blen b + 4 - 1) > IRCD_BUFSIZE - 2)"
  define st where "st = (if full then (length hdr, [], []) else (cur, lts, ps))"
  obtain cur1 lts1 ps1 where st1: "st = (cur1, lts1, ps1)" by (cases st)
  have b: "blen b \<le> 115" "length (nuh_text (bname b) (buser b) (bhost b)) = blen b + 2"
    using Cons.prems(1) by (auto simp: ban_fits_def length_nuh_text NICKLEN_def USERLEN_def HOSTLEN_def)
  have start: "length lts1 < MAXMODEPARAMS" "length hdr + length ps1 \<le> cur1" "cur1 + blen b + 4 \<le> IRCD_BUFSIZE"
    using Cons.prems(2-5) st1 b(1) by (auto simp: st_def full_def IRCD_BUFSIZE_def MAXMODEPARAMS_def split: if_splits)
  have "\<not> (full \<and> ps = [])"
    using Cons.prems(2,6,7) b(1) by (auto simp: full_def IRCD_BUFSIZE_def MAXMODEPARAMS_def)
  moreover have "length hdr + length (lts1 @ [l]) < MODEBUFLEN" using Cons.prems(2) start(1) by (simp add: MODEBUFLEN_def MAXMODEPARAMS_def)
  moreover have "length (ps1 @ nuh_text (bname b) (buser b) (bhost b) @ '' '') < IRCD_BUFSIZE" using start b(2) by simp
  ultimately have put: "ban_put hdr l b (cur, lts, ps) = Some (if full then [hdr @ lts @ '' '' @ butlast ps] else [], cur1 + (blen b + 4), lts1 @ [l],
      ps1 @ nuh_text (bname b) (buser b) (bhost b) @ '' '')"
    using st1 unfolding ban_put_def Let_def full_def [symmetric] prod.case st_def [symmetric] by simp
  have "\<exists>out. ban_lines hdr l bs (cur1 + (blen b + 4), lts1 @ [l], ps1 @ nuh_text (bname b) (buser b) (bhost b) @ '' '') = Some out"
    by (rule Cons.IH) (use Cons.prems(1,2) start b(2) in auto)
  then show ?case using put by auto
qed simp

lemma fold_send: "fold (\<lambda>t. send_event (f t)) ts s = s\<lparr>sent := sent s @ map f ts\<rparr>"
  by (induction ts arbitrary: s) (simp_all add: send_event_def)

lemma remove_masks_ok:
  assumes inv: "sj_inv c s" and type: "type \<in> {CHFL_BAN, CHFL_EXCEPTION, CHFL_INVEX}"
  shows "\<exists>s' ch. channels s c = Some ch \<and> remove_masks c x type l s = Some s' \<and> sj_inv c s' \<and> mode_frame c s s' \<and>
    mships s' = mships s \<and> channels s' c = Some (set_mask_list type [] ch)"
proof -
  obtain ch where ch: "channels s c = Some ch" using inv by (auto simp: sj_inv_def)
  have "mask_list type ch \<noteq> None" using type by (auto simp: mask_list_def)
  then obtain bs where bs: "mask_list type ch = Some bs" by blast
  have fit: "chan_fits ch" "user_fits (users s x)" using inv ch by (auto simp: sj_inv_def fits_def)
  show ?thesis
  proof (cases "bs = []")
    case True
    have "set_mask_list type [] ch = ch"
      using bs unfolding True by (cases ch) (auto simp: mask_list_def set_mask_list_def split: if_split_asm)
    then show ?thesis using True ch bs inv by (simp add: remove_masks_def)
  next
    case False
    let ?hdr = "'':'' @ uname (users s x) @ '' MODE '' @ ch_name ch @ '' -''"
    have hdr: "length ?hdr \<le> 122" using fit by (simp add: chan_fits_def user_fits_def HOSTLEN_def CHANNELLEN_def)
    have "\<forall>b \<in> set bs. ban_fits b" using mask_list_fits [OF bs fit(1)] by blast
    then obtain out where out: "ban_lines ?hdr l bs (length ?hdr, [], []) = Some out"
      using ban_lines_ok [of bs ?hdr "[]" "[]" "length ?hdr" l] hdr False by (auto simp: IRCD_BUFSIZE_def)
    have f: "ch_name (set_mask_list type [] ch) = ch_name ch \<and> members (set_mask_list type [] ch) = members ch \<and>
        locmembers (set_mask_list type [] ch) = locmembers ch \<and> invites (set_mask_list type [] ch) = invites ch" for ch by simp
    obtain s1 where s1: "upd_channel c (set_mask_list type []) s = Some s1" "sj_inv c s1" "channels s1 c = Some (set_mask_list type [] ch)"
        "mode_frame c s s1" "mships s1 = mships s"
      using sj_upd [OF inv f plain_set_mask_list set_mask_list_fits] ch by auto
    have "remove_masks c x type l s = Some (fold (\<lambda>t. send_event (ChannelText c t)) out s1)"
      using False ch bs out s1(1) by (simp add: remove_masks_def remove_ban_list_def Let_def)
    moreover have "sj_inv c (fold (\<lambda>t. send_event (ChannelText c t)) out s1)"
      using s1(2) by (induction out arbitrary: s1) simp_all
    moreover have "mode_frame c s (fold (\<lambda>t. send_event (ChannelText c t)) out s1)"
      using s1(4) by (simp add: fold_send mode_frame_def shape_of_def)
    ultimately show ?thesis using ch s1(3,5) by (auto simp: fold_send)
  qed
qed

lemma all_masks_ok:
  assumes inv: "sj_inv c s" and ch: "channels s c = Some ch"
  shows "\<exists>s1 s2 s3. remove_masks c x CHFL_BAN (CHR ''b'') s = Some s1 \<and> remove_masks c x CHFL_EXCEPTION (CHR ''e'') s1 = Some s2 \<and>
    remove_masks c x CHFL_INVEX (CHR ''I'') s2 = Some s3 \<and> sj_inv c s3 \<and> mode_frame c s s3 \<and> mships s3 = mships s \<and>
    channels s3 c = Some (ch\<lparr>banlist := [], exceptlist := [], invexlist := []\<rparr>)"
proof -
  obtain s1 where s1: "remove_masks c x CHFL_BAN (CHR ''b'') s = Some s1" "sj_inv c s1" "mode_frame c s s1" "mships s1 = mships s"
      "channels s1 c = Some (set_mask_list CHFL_BAN [] ch)"
    using remove_masks_ok [OF inv, of CHFL_BAN x "CHR ''b''"] ch by auto
  obtain s2 where s2: "remove_masks c x CHFL_EXCEPTION (CHR ''e'') s1 = Some s2" "sj_inv c s2" "mode_frame c s1 s2" "mships s2 = mships s1"
      "channels s2 c = Some (set_mask_list CHFL_EXCEPTION [] (set_mask_list CHFL_BAN [] ch))"
    using remove_masks_ok [OF s1(2), of CHFL_EXCEPTION x "CHR ''e''"] s1(5) by auto
  obtain s3 where s3: "remove_masks c x CHFL_INVEX (CHR ''I'') s2 = Some s3" "sj_inv c s3" "mode_frame c s2 s3" "mships s3 = mships s2"
      "channels s3 c = Some (set_mask_list CHFL_INVEX [] (set_mask_list CHFL_EXCEPTION [] (set_mask_list CHFL_BAN [] ch)))"
    using remove_masks_ok [OF s2(2), of CHFL_INVEX x "CHR ''I''"] s2(5) by auto
  have "mode_frame c s s3" using frame_trans s1(3) s2(3) s3(3) by blast
  then show ?thesis using s1(1,4) s2(1,4) s3 by (auto simp: set_mask_list_def CHFL_BAN_def CHFL_EXCEPTION_def CHFL_INVEX_def)
qed

text \<open>Clearing the cached results after the lists are gone makes the cache correct again.\<close>

lemma cleared_cache_ok:
  assumes ok: "cache_ok s" "mode_frame c s s5" "net_ok s5" "channels s5 c = Some ch" "clear_ban_cache_channel c s5 = Some s6"
    and flags: "\<And>m mb'. mships s5 m = Some mb' \<Longrightarrow> mchan mb' \<noteq> c \<Longrightarrow> mships s m = Some mb'"
  shows "cache_ok s6"
proof -
  obtain s6' where "clear_ban_cache_channel c s5 = Some s6'" and frame: "mode_frame c s5 s6'" and chans: "channels s6' = channels s5"
      and ms: "\<And>m. mships s6' m = (if m \<in> set (locmembers ch) then map_option clear_cached (mships s5 m) else mships s5 m)"
    using clear_channel_ok [OF ok(3,4)] by blast
  then have eq: "s6' = s6" using ok(5) by simp
  have us: "users s6 = users s" using ok(2) frame by (simp add: eq mode_frame_def)
  show ?thesis
  proof (rule cache_okI [OF ok(1) us])
    fix m mb' ch' assume a: "mships s6 m = Some mb'" "channels s6 (mchan mb') = Some ch'" "MyConnect (users s (mclient mb'))"
    show "cached mb' = (False, False) \<or> (\<exists>mb ch. mships s m = Some mb \<and> mchan mb = mchan mb' \<and> mclient mb = mclient mb' \<and>
        cached mb = cached mb' \<and> channels s (mchan mb) = Some ch \<and> banlist ch' = banlist ch \<and> exceptlist ch' = exceptlist ch)"
    proof (cases "m \<in> set (locmembers ch)")
      case True
      then show ?thesis using a(1) ms [of m] by (cases "mships s5 m") (auto simp: eq)
    next
      case False
      then have m: "mships s5 m = Some mb'" using a(1) ms [of m] by (simp add: eq)
      have "users s5 = users s" using ok(2) by (simp add: mode_frame_def)
      then have other: "mchan mb' \<noteq> c" using False locmember_of [OF ok(3,4), of m] m a(3) by auto
      then have "channels s (mchan mb') = Some ch'" using a(2) ok(2) chans by (simp add: eq mode_frame_def)
      then show ?thesis using flags [OF m other] by blast
    qed
  qed
qed

lemma del_invites_who: "del_invites c xs s = Some s' \<Longrightarrow> same_who s s'"
proof (induction xs arbitrary: s)
  case (Cons x xs)
  then obtain s1 where "del_invite c x s = Some s1" "del_invites c xs s1 = Some s'" by (auto split: bind_splits)
  moreover from this have "same_who s s1" by (auto simp: del_invite_def upd_channel_def upd_user_def same_who_def who_def split: if_splits)
  ultimately show ?case using Cons.IH same_who_trans by blast
qed simp

lemma clear_invites_ok:
  assumes inv: "sj_inv c s" and ch: "channels s c = Some ch"
  shows "\<exists>s' ch'. clear_invites c s = Some s' \<and> sj_inv c s' \<and> same_who s s' \<and> cache_le s s' \<and> mships s' = mships s \<and>
    channels s' c = Some (ch\<lparr>invites := []\<rparr>)"
proof -
  obtain s' ch' where s': "del_invites c (invites ch) s = Some s'" "net_ok s'" "channels s' c = Some ch'" "invites ch' = []"
      "s_mem (shape_of s') = s_mem (shape_of s)" "s_name (shape_of s') = s_name (shape_of s)"
    using del_invites_ok [OF _ ch refl] inv by (auto simp: sj_inv_def)
  have who: "same_who s s'" by (rule del_invites_who [OF s'(1)])
  have fields: "mships s' = mships s \<and> (\<forall>ch. channels s c = Some ch \<longrightarrow> (\<exists>is'. channels s' c = Some (ch\<lparr>invites := is'\<rparr>)))"
    if "del_invites c xs s = Some s'" for xs s s'
    using that
  proof (induction xs arbitrary: s)
    case (Cons x xs)
    then obtain s1 where s1: "del_invite c x s = Some s1" "del_invites c xs s1 = Some s'" by (auto split: bind_splits)
    have "mships s1 = mships s \<and> (\<forall>ch. channels s c = Some ch \<longrightarrow> (\<exists>is'. channels s1 c = Some (ch\<lparr>invites := is'\<rparr>)))"
      using s1(1) by (auto simp: del_invite_def upd_channel_def upd_user_def split: if_splits)
    then show ?case using Cons.IH [OF s1(2)] by fastforce
  next
    case Nil
    have "\<exists>is'. ch = ch\<lparr>invites := is'\<rparr>" for ch :: Channel by (rule exI [of _ "invites ch"]) simp
    then show ?case using Nil by simp
  qed
  obtain is' where "channels s' c = Some (ch\<lparr>invites := is'\<rparr>)" "mships s' = mships s" using fields [OF s'(1)] ch by blast
  then have "channels s' c = Some (ch\<lparr>invites := []\<rparr>)" using s'(3,4) by auto
  moreover have "sj_inv c s'"
    using inv s'(2,3,5,6) plain_del_invites [OF s'(1)] fits_del_invites [OF s'(1)] same_who_nicks [OF who] by (simp add: sj_inv_def)
  ultimately show ?thesis
    using s'(1) ch who cache_le_del_invites [OF s'(1)] \<open>mships s' = mships s\<close> by (auto simp: clear_invites_def)
qed

text \<open>What is left of a channel on the side that loses.\<close>

definition lost :: "string \<Rightarrow> Channel \<Rightarrow> Channel" where
  "lost n ch = ch\<lparr>ch_name := n, banlist := [], exceptlist := [], invexlist := [], invites := []\<rparr>"

definition lost_member :: "addr \<Rightarrow> Membership option \<Rightarrow> Membership option \<Rightarrow> bool" where
  "lost_member c o' o'' \<longleftrightarrow> (if in_channel c o' then map_option no_status o' = o'' \<or> map_option (clear_cached \<circ> no_status) o' = o'' else o'' = o')"

lemma sj_lose_parts:
  assumes inv: "sj_inv c s" "cache_ok s" and n: "channels s c = Some ch" "irccmp (ch_name ch) n = 0" "length n \<le> CHANNELLEN"
  shows "\<exists>s1 s2 s3 s4 s5 s6 s7. upd_channel c (\<lambda>ch. ch\<lparr>ch_name := strlcpy_str n (CHANNELLEN + 1)\<rparr>) s = Some s1 \<and>
    remove_our_modes cfg c x s1 = Some s2 \<and> remove_masks c x CHFL_BAN (CHR ''b'') s2 = Some s3 \<and>
    remove_masks c x CHFL_EXCEPTION (CHR ''e'') s3 = Some s4 \<and> remove_masks c x CHFL_INVEX (CHR ''I'') s4 = Some s5 \<and>
    clear_ban_cache_channel c s5 = Some s6 \<and> clear_invites c s6 = Some s7 \<and>
    sj_inv c s7 \<and> cache_ok s7 \<and> same_who s s7 \<and> channels s7 c = Some (lost n ch) \<and> (\<forall>m. lost_member c (mships s m) (mships s7 m))"
proof -
  obtain s1 where s1: "upd_channel c (\<lambda>ch. ch\<lparr>ch_name := strlcpy_str n (CHANNELLEN + 1)\<rparr>) s = Some s1" "sj_inv c s1" "users s1 = users s"
      "channels s1 = (channels s)(c \<mapsto> ch\<lparr>ch_name := n\<rparr>)" "mships s1 = mships s" "cache_le s s1"
    using sj_rename [OF inv(1) n] by blast
  obtain s2 where s2: "remove_our_modes cfg c x s1 = Some s2" "mode_frame c s1 s2" "channels s2 = channels s1"
      "\<And>m. mships s2 m = (if in_channel c (mships s1 m) then map_option no_status (mships s1 m) else mships s1 m)"
    using remove_our_modes_ok [OF s1(2)] by blast
  have inv2: "sj_inv c s2" by (rule sj_frame [OF s1(2) s2(2,3)])
  have ch2: "channels s2 c = Some (ch\<lparr>ch_name := n\<rparr>)" by (simp add: s2(3) s1(4))
  obtain s3 s4 s5 where s5: "remove_masks c x CHFL_BAN (CHR ''b'') s2 = Some s3" "remove_masks c x CHFL_EXCEPTION (CHR ''e'') s3 = Some s4"
      "remove_masks c x CHFL_INVEX (CHR ''I'') s4 = Some s5" "sj_inv c s5" "mode_frame c s2 s5" "mships s5 = mships s2"
      "channels s5 c = Some (ch\<lparr>ch_name := n, banlist := [], exceptlist := [], invexlist := []\<rparr>)"
    using all_masks_ok [OF inv2 ch2, of x] by auto
  have ok5: "net_ok s5" using s5(4) by (simp add: sj_inv_def)
  have frame5: "mode_frame c s1 s5" using frame_trans s2(2) s5(5) by blast
  obtain s6 where s6: "clear_ban_cache_channel c s5 = Some s6" "mode_frame c s5 s6" "channels s6 = channels s5"
      "\<And>m. mships s6 m = (if m \<in> set (locmembers (ch\<lparr>ch_name := n, banlist := [], exceptlist := [], invexlist := []\<rparr>)) then map_option clear_cached (mships s5 m) else mships s5 m)"
    using clear_channel_ok [OF ok5 s5(7)] by blast
  have other: "mships s1 m = Some mb'" if "mships s5 m = Some mb'" "mchan mb' \<noteq> c" for m mb'
    using that unfolding s5(6) s2(4) by (cases "mships s1 m") (auto simp: in_channel_def no_status_def drop_flag_def split: if_splits)
  have "cache_ok s1" using cache_le_ok [OF s1(6) inv(2)] .
  from cleared_cache_ok [OF this frame5 ok5 s5(7) s6(1) other] have cache6: "cache_ok s6" .
  have inv6: "sj_inv c s6" by (rule sj_frame [OF s5(4) s6(2,3)])
  have ch6: "channels s6 c = Some (ch\<lparr>ch_name := n, banlist := [], exceptlist := [], invexlist := []\<rparr>)" by (simp add: s6(3) s5(7))
  obtain s7 where s7: "clear_invites c s6 = Some s7" "sj_inv c s7" "same_who s6 s7" "cache_le s6 s7" "mships s7 = mships s6"
      "channels s7 c = Some (ch\<lparr>ch_name := n, banlist := [], exceptlist := [], invexlist := [], invites := []\<rparr>)"
    using clear_invites_ok [OF inv6 ch6] by auto
  have "users s6 = users s" using s1(3) frame5 s6(2) by (simp add: mode_frame_def)
  then have who: "same_who s s7" using same_who_trans [OF same_who_users s7(3)] by blast
  have local_in: "m \<in> set (locmembers ch) \<Longrightarrow> in_channel c (mships s m)" for m
  proof -
    have "net_ok s" using inv(1) by (simp add: sj_inv_def)
    then show "m \<in> set (locmembers ch) \<Longrightarrow> in_channel c (mships s m)" using locmember_of [OF _ n(1), of m] by (auto simp: in_channel_def)
  qed
  have "lost_member c (mships s m) (mships s7 m)" for m
    using local_in [of m] unfolding s7(5) s6(4) s5(6) s2(4) s1(5) lost_member_def by (cases "mships s m") auto
  moreover have "cache_ok s7" "channels s7 c = Some (lost n ch)" using cache_le_ok [OF s7(4) cache6] s7(6) by (simp_all add: lost_def)
  ultimately show ?thesis using s1(1) s2(1) s5(1-3) s6(1) s7(1,2) who by blast
qed

lemma sj_topic:
  assumes "sj_inv c s" "channels s c = Some ch"
  shows "\<exists>s'. upd_channel c (channel_set_topic cfg [] [] 0 False) s = Some s' \<and> sj_inv c s' \<and> cache_le s s' \<and> users s' = users s \<and> mships s' = mships s \<and>
    channels s' c = Some (channel_set_topic cfg [] [] 0 False ch)"
proof -
  have f: "ch_name (channel_set_topic cfg [] [] 0 False ch) = ch_name ch \<and> members (channel_set_topic cfg [] [] 0 False ch) = members ch \<and>
      locmembers (channel_set_topic cfg [] [] 0 False ch) = locmembers ch \<and> invites (channel_set_topic cfg [] [] 0 False ch) = invites ch"
    "plain_chan ch \<Longrightarrow> plain_chan (channel_set_topic cfg [] [] 0 False ch)" "chan_fits ch \<Longrightarrow> chan_fits (channel_set_topic cfg [] [] 0 False ch)" for ch
    by (auto simp: channel_set_topic_def plain_chan_def chan_fits_def strlcpy_str_def USERHOST_REPLYLEN_def)
  obtain s' where s': "upd_channel c (channel_set_topic cfg [] [] 0 False) s = Some s'" "sj_inv c s'" "channels s' c = Some (channel_set_topic cfg [] [] 0 False ch)"
      "mode_frame c s s'" "mships s' = mships s"
    using sj_upd [OF assms(1) f] assms(2) by auto
  moreover have "cache_le s s'" by (rule cache_le_channel [OF s'(1)]) (simp add: channel_set_topic_def)
  ultimately show ?thesis by (auto simp: mode_frame_def)
qed

definition lost_topic :: "chan_config \<Rightarrow> Channel \<Rightarrow> Channel" where
  "lost_topic cfg ch = (if ch_topic ch = [] then ch else channel_set_topic cfg [] [] 0 False ch)"

lemma sjoin_lose_ok:
  assumes inv: "sj_inv c s" "cache_ok s" and n: "channels s c = Some ch" "irccmp (ch_name ch) (sj_parv env ! 2) = 0" "length (sj_parv env ! 2) \<le> CHANNELLEN"
  shows "\<exists>s'. sjoin_lose env c False oldts newts s = Some s' \<and> sj_inv c s' \<and> cache_ok s' \<and> same_who s s' \<and>
    channels s' c = Some (lost_topic (sj_cfg env) (lost (sj_parv env ! 2) ch)) \<and> (\<forall>m. lost_member c (mships s m) (mships s' m))"
proof -
  let ?cfg = "sj_cfg env" and ?x = "sj_source env" and ?n = "sj_parv env ! 2"
  from sj_lose_parts [OF inv n, of ?cfg ?x] obtain s1 s2 s3 s4 s5 s6 s7 where
    parts: "upd_channel c (\<lambda>ch. ch\<lparr>ch_name := strlcpy_str ?n (CHANNELLEN + 1)\<rparr>) s = Some s1"
      "remove_our_modes ?cfg c ?x s1 = Some s2" "remove_masks c ?x CHFL_BAN (CHR ''b'') s2 = Some s3"
      "remove_masks c ?x CHFL_EXCEPTION (CHR ''e'') s3 = Some s4" "remove_masks c ?x CHFL_INVEX (CHR ''I'') s4 = Some s5"
      "clear_ban_cache_channel c s5 = Some s6" "clear_invites c s6 = Some s7" and
    s7: "sj_inv c s7" "cache_ok s7" "same_who s s7" "channels s7 c = Some (lost ?n ch)" "\<forall>m. lost_member c (mships s m) (mships s7 m)"
    by blast
  obtain s8 where s8: "upd_channel c (channel_set_topic ?cfg [] [] 0 False) s7 = Some s8" "sj_inv c s8" "cache_le s7 s8" "users s8 = users s7" "mships s8 = mships s7"
      "channels s8 c = Some (channel_set_topic ?cfg [] [] 0 False (lost ?n ch))"
    using sj_topic [OF s7(1,4)] by blast
  have who8: "same_who s s8" using same_who_trans [OF s7(3) same_who_users [OF s8(4)]] .
  have cache8: "cache_ok s8" using cache_le_ok [OF s8(3) s7(2)] .
  show ?thesis
    using s7 s8 who8 cache8 parts by (cases "ch_topic (lost ?n ch) = []") (simp_all add: sjoin_lose_def Let_def lost_topic_def)
qed

section \<open>Members\<close>

text \<open>What the nicks of the message do to the state: old memberships stay as they are, new ones are in the channel.\<close>

definition settled :: "Channel \<Rightarrow> string \<times> u32 \<times> nat \<times> string \<times> int \<times> Ban list \<times> Ban list \<times> Ban list \<times> addr list \<times> string" where
  "settled ch = (ch_name ch, ch_mode ch, ch_limit ch, ch_key ch, ch_creationtime ch, banlist ch, exceptlist ch, invexlist ch, invites ch, ch_topic ch)"

definition grown :: "addr \<Rightarrow> (u32 \<Rightarrow> bool) \<Rightarrow> net \<Rightarrow> net \<Rightarrow> bool" where
  "grown c P s s' \<longleftrightarrow> same_who s s' \<and> (\<forall>m mb. mships s m = Some mb \<longrightarrow> mships s' m = Some mb) \<and>
    (\<forall>m mb. mships s' m = Some mb \<longrightarrow> mships s m = Some mb \<or> mships s m = None \<and> mchan mb = c \<and> P (mflags mb)) \<and>
    (\<forall>c'. c' \<noteq> c \<longrightarrow> channels s' c' = channels s c') \<and>
    (\<forall>ch. channels s c = Some ch \<longrightarrow> (\<exists>ch'. channels s' c = Some ch' \<and> settled ch' = settled ch))"

lemma grown_trans:
  assumes "grown c P s s1" "grown c P s1 s2"
  shows "grown c P s s2"
proof -
  have "mships s m = Some mb \<or> mships s m = None \<and> mchan mb = c \<and> P (mflags mb)" if "mships s2 m = Some mb" for m mb
  proof -
    have "mships s1 m = Some mb \<or> mships s1 m = None \<and> mchan mb = c \<and> P (mflags mb)" using that assms(2) by (simp add: grown_def)
    then show ?thesis using assms(1) unfolding grown_def by (metis option.exhaust option.distinct(1))
  qed
  moreover have "\<exists>ch'. channels s2 c = Some ch' \<and> settled ch' = settled ch" if "channels s c = Some ch" for ch
    using that assms unfolding grown_def by metis
  moreover have "same_who s s2" using assms same_who_trans [of s s1 s2] by (simp add: grown_def)
  ultimately show ?thesis using assms unfolding grown_def by simp
qed

lemma grown_quiet: "quiet s s' \<Longrightarrow> grown c P s s'"
  by (auto simp: grown_def quiet_def same_who_def)

lemma quiet_sj: "quiet s s' \<Longrightarrow> sj_inv c s \<Longrightarrow> cache_ok s \<Longrightarrow> sj_inv c s' \<and> cache_ok s'"
proof -
  assume a: "quiet s s'" "sj_inv c s" "cache_ok s"
  have "sj_inv c s'" using a(1,2) by (intro sj_inv_shape [OF a(2)]) (auto simp: quiet_def sj_inv_def plain_net_def fits_def shape_of_def)
  then show ?thesis using cache_quiet [OF a(3,1)] by simp
qed

text \<open>The arrays while the nicks are read.\<close>

definition sj_ok :: "sjoin_state \<Rightarrow> bool" where
  "sj_ok st \<longleftrightarrow> length (mode_arr st) = MODEBUFLEN \<and> mpos st = Suc (length (para st)) \<and> length (para st) < MAXMODEPARAMS \<and>
    (\<forall>n \<in> set (para st). length n \<le> NICKLEN) \<and> length (uid_buf st) < IRCD_BUFSIZE"

lemma put_status_ok:
  assumes ok: "sj_ok st" and live: "channels (sj_net st) c \<noteq> None" and nick: "length nick \<le> NICKLEN"
  shows "\<exists>st'. put_status server c nick l st = Some st' \<and> sj_ok st' \<and> uid_buf st' = uid_buf st \<and> quiet (sj_net st) (sj_net st')"
proof -
  obtain ch where ch: "channels (sj_net st) c = Some ch" using live by blast
  have pos: "mpos st < length (mode_arr st)" "Suc (mpos st) < length (mode_arr st)" "length (mode_arr st) = MODEBUFLEN"
    using ok by (auto simp: sj_ok_def MAXMODEPARAMS_def MODEBUFLEN_def)
  have nicks: "length (para st @ [nick]) \<le> MAXMODEPARAMS" "\<forall>n \<in> set (para st @ [nick]). length n \<le> NICKLEN" using ok nick by (auto simp: sj_ok_def)
  show ?thesis
    using ok pos nicks nicks_fitI [OF nicks] ch
    by (cases "length (para st @ [nick]) \<ge> MAXMODEPARAMS")
      (auto simp: put_status_def put_char_def send_status_def sj_ok_def Let_def MAXMODEPARAMS_def MODEBUFLEN_def)
qed

lemma put_status_if:
  assumes "sj_ok st" "channels (sj_net st) c \<noteq> None" "length nick \<le> NICKLEN"
  shows "\<exists>st'. (if P then put_status server c nick l st else Some st) = Some st' \<and> sj_ok st' \<and> uid_buf st' = uid_buf st \<and> quiet (sj_net st) (sj_net st')"
  using put_status_ok [OF assms] assms(1) by (cases P) auto

lemma put_statuses_ok:
  assumes st: "sj_ok st" "channels (sj_net st) c \<noteq> None" and nick: "length nick \<le> NICKLEN"
  shows "\<exists>st'. put_statuses server c nick fl st = Some st' \<and> sj_ok st' \<and> quiet (sj_net st) (sj_net st')"
proof -
  obtain st1 where st1: "(if has_flag fl CHFL_CHANOP then put_status server c nick (CHR ''o'') st else Some st) = Some st1" "sj_ok st1" "quiet (sj_net st) (sj_net st1)"
    using put_status_if [OF st nick] by metis
  then have ch1: "channels (sj_net st1) c \<noteq> None" using st(2) by (auto simp: quiet_def)
  obtain st2 where st2: "(if has_flag fl CHFL_HALFOP then put_status server c nick (CHR ''h'') st1 else Some st1) = Some st2" "sj_ok st2" "quiet (sj_net st1) (sj_net st2)"
    using put_status_if [OF st1(2) ch1 nick] by metis
  then have ch2: "channels (sj_net st2) c \<noteq> None" using ch1 by (auto simp: quiet_def)
  obtain st3 where st3: "(if has_flag fl CHFL_VOICE then put_status server c nick (CHR ''v'') st2 else Some st2) = Some st3" "sj_ok st3" "quiet (sj_net st2) (sj_net st3)"
    using put_status_if [OF st2(2) ch2 nick] by metis
  have "put_statuses server c nick fl st = Some st3"
    unfolding put_statuses_def st1(1) Option.bind.bind_lunit st2(1) using st3(1) by simp
  then show ?thesis using st3(2) quiet_trans st1(3) st2(3) st3(3) by blast
qed

lemma length_show_time: "length (show_time t) \<le> 20"
proof -
  have "nat (t mod 2 ^ 64) < 10 ^ Suc 19" by (simp add: nat_less_iff)
  then show ?thesis using length_show_nat [of _ 19] by (simp add: show_time_def)
qed

lemma length_sjoin_head:
  assumes "user_fits u" "length n \<le> CHANNELLEN"
  shows "length (sjoin_head u ts n modes params) \<le> 94 + length modes + length params"
  using assms length_show_time [of ts] by (simp add: sjoin_head_def user_fits_def IDLEN_def CHANNELLEN_def)

lemma put_uid_ok:
  assumes ok: "sj_ok st" and inv: "sj_inv c (sj_net st)" and t: "length t \<le> 15" and params: "length params < MODEBUFLEN"
  shows "\<exists>st'. put_uid env c ts params t st = Some st' \<and> sj_ok st' \<and> quiet (sj_net st) (sj_net st')"
proof -
  obtain ch where ch: "channels (sj_net st) c = Some ch" using inv by (auto simp: sj_inv_def)
  have fit: "user_fits (users (sj_net st) (sj_source env))" "length (ch_name ch) \<le> CHANNELLEN" using inv ch by (auto simp: sj_inv_def fits_def chan_fits_def)
  have "length (arr_text (mode_arr st)) \<le> 200"
    using ok length_takeWhile_le [of "\<lambda>ch. ch \<noteq> NUL" "mode_arr st"] by (simp add: arr_text_def sj_ok_def MODEBUFLEN_def)
  then have "length (sjoin_head (users (sj_net st) (sj_source env)) ts (ch_name ch) (arr_text (mode_arr st)) params) \<le> 493"
    using length_sjoin_head [OF fit, of ts "arr_text (mode_arr st)" params] params by (simp add: MODEBUFLEN_def)
  then show ?thesis
    using ok t ch by (cases "length (uid_buf st) + length t > IRCD_BUFSIZE - 2") (auto simp: put_uid_def sj_ok_def Let_def IRCD_BUFSIZE_def)
qed

lemma sjoin_enter_ok:
  assumes inv: "sj_inv c s" "cache_ok s" and y: "uisclient (users s y)"
    and fl: "\<not> has_flag fl CHFL_BAN_CHECKED" "\<not> has_flag fl CHFL_BAN_SILENCED" "P fl"
  shows "\<exists>s'. sjoin_enter cfg c y fl fc s = Some s' \<and> sj_inv c s' \<and> cache_ok s' \<and> grown c P s s' \<and> (\<exists>m. s_link (shape_of s') m = Some (y, c))"
proof -
  have ok: "net_ok s" "plain_net s" "fits s" using inv(1) by (auto simp: sj_inv_def)
  obtain ch where ch: "channels s c = Some ch" using inv by (auto simp: sj_inv_def)
  show ?thesis
  proof (cases "find_channel_link y c s")
    case (Some m)
    then have "s_link (shape_of s) m = Some (y, c)" using find_channel_link_iff [OF ok(1) ch y] by blast
    then show ?thesis using Some inv grown_quiet [OF quiet_refl] by (auto simp: sjoin_enter_def)
  next
    case None
    then have new: "s_link (shape_of s) m \<noteq> Some (y, c)" for m using find_channel_link_iff [OF ok(1) ch y, of m] by simp
    obtain s1 where s1: "add_user_to_channel cfg c y fl fc s = Some s1" "net_ok s1" "s_link (shape_of s1) = (s_link (shape_of s))(next_addr s \<mapsto> (y, c))"
        "s_name (shape_of s1) = s_name (shape_of s)" "s_mem (shape_of s1) = (s_mem (shape_of s))(c := next_addr s # s_mem (shape_of s) c)"
      using add_user_ok [OF ok(1) ch y new] by blast
    have fresh: "mships s (next_addr s) = None" using ok(1) names_okD(4) [of "shape_of s" "next_addr s"] by (simp add: shape_ok_def shape_simps)
    have settled: "settled (fst (join_flood cfg fc ch)) = settled ch" by (simp add: join_flood_def settled_def Let_def)
    have "grown c P s s1"
      using s1(1) ch y fl(3) fresh settled
      by (auto simp: add_user_to_channel_def Let_def grown_def upd_user_def same_who_def who_def settled_def split: prod.splits if_splits)
    moreover from this have "nicks_ok s1" using same_who_nicks [of s s1] inv(1) by (simp add: grown_def sj_inv_def)
    then have "sj_inv c s1"
      using inv(1) s1(2,4,5) plain_add_user [OF s1(1) ok(2)] fits_add_user [OF s1(1) ok(3)] channel_of_name [of s1 c] ch
      by (auto simp: sj_inv_def shape_simps)
    moreover have "cache_ok s1" using cache_le_ok [OF cache_le_add_user [OF s1(1) fl(1,2)] inv(2)] .
    moreover have "grown c P s (send_event (LocalJoin c y) s1)"
      using grown_trans [OF \<open>grown c P s s1\<close> grown_quiet [OF quiet_send [OF quiet_refl]]] .
    ultimately show ?thesis using None s1(1,3) by (auto simp: sjoin_enter_def)
  qed
qed

lemma sjoin_flag_cases: "sjoin_flag a \<in> {0, CHFL_CHANOP, CHFL_HALFOP, CHFL_VOICE}"
  by (simp add: sjoin_flag_def)

lemma has_flag_add_or: "has_flag (add_flag w f) g \<longleftrightarrow> has_flag w g \<or> has_flag f g"
  by (simp add: has_flag_def add_flag_def bit.conj_disj_distrib2 or_eq_zero_iff)

lemma sjoin_prefix_flags:
  assumes "g AND (CHFL_CHANOP OR CHFL_HALFOP OR CHFL_VOICE) = 0"
  shows "\<not> has_flag (fst (sjoin_prefix t)) g"
proof -
  have one: "\<not> has_flag (sjoin_flag a) g" for a
    using sjoin_flag_cases [of a] assms by (auto simp: has_flag_def and.commute bit.conj_disj_distrib or_eq_zero_iff)
  have "\<not> has_flag (fold (\<lambda>a w. add_flag w (sjoin_flag a)) as w) g" if "\<not> has_flag w g" for as w
    using that by (induction as arbitrary: w) (simp_all add: has_flag_add_or one)
  then show ?thesis by (simp add: sjoin_prefix_def)
qed

lemma sjoin_ban_flags: "\<not> has_flag (fst (sjoin_prefix t)) CHFL_BAN_CHECKED" "\<not> has_flag (fst (sjoin_prefix t)) CHFL_BAN_SILENCED"
  by (rule sjoin_prefix_flags, simp add: CHFL_BAN_CHECKED_def CHFL_BAN_SILENCED_def CHFL_CHANOP_def CHFL_HALFOP_def CHFL_VOICE_def)+

text \<open>Clients that the history knows are clients.\<close>

definition history_ok :: "directory \<Rightarrow> net \<Rightarrow> bool" where
  "history_ok d s \<longleftrightarrow> (\<forall>n y. dir_history d n = Some y \<longrightarrow> uisclient (users s y))"

lemma history_ok_who: "same_who s s' \<Longrightarrow> history_ok d s \<Longrightarrow> history_ok d s'"
  by (simp add: history_ok_def same_who_simps)

lemma find_chasing_client: "find_chasing d x n s = (Some y, s') \<Longrightarrow> history_ok d s \<Longrightarrow> uisclient (users s y)"
  by (auto simp: find_chasing_def find_person_def history_ok_def split: option.splits if_splits)

lemma find_chasing_who:
  assumes "same_who s s'"
  shows "fst (find_chasing d x n s') = fst (find_chasing d x n s)"
  by (simp add: find_chasing_def find_person_def same_who_simps [OF assms] split: option.split)

text \<open>A word of the message that names a client behind the link the message came from.\<close>

definition introduces :: "sjoin_env \<Rightarrow> net \<Rightarrow> string \<Rightarrow> addr \<Rightarrow> bool" where
  "introduces env s t y \<longleftrightarrow>
    fst (find_chasing (sj_dir env) (sj_source env) (snd (sjoin_prefix t)) s) = Some y \<and> sj_from env y = sj_from env (sj_source env)"

definition is_member :: "addr \<Rightarrow> addr \<Rightarrow> net \<Rightarrow> bool" where
  "is_member y c s \<longleftrightarrow> (\<exists>m mb. mships s m = Some mb \<and> mclient mb = y \<and> mchan mb = c)"

lemma sjoin_nick_ok:
  assumes ok: "sj_ok st" "sj_inv c (sj_net st)" "cache_ok (sj_net st)" "history_ok (sj_dir env) (sj_net st)" and params: "length params < MODEBUFLEN"
  shows "\<exists>st'. sjoin_nick env c ts params keep many t st = Some st' \<and> sj_ok st' \<and> sj_inv c (sj_net st') \<and> cache_ok (sj_net st') \<and>
    grown c (\<lambda>fl. \<not> keep \<longrightarrow> fl = 0) (sj_net st) (sj_net st') \<and> (\<forall>y. introduces env (sj_net st) t y \<longrightarrow> is_member y c (sj_net st'))"
proof -
  let ?x = "sj_source env" and ?P = "\<lambda>fl. \<not> keep \<longrightarrow> fl = (0 :: u32)"
  obtain fl0 name where pre: "sjoin_prefix t = (fl0, name)" by (cases "sjoin_prefix t")
  obtain target s1 where find: "find_chasing (sj_dir env) ?x name (sj_net st) = (target, s1)" by (cases "find_chasing (sj_dir env) ?x name (sj_net st)")
  have quiet1: "quiet (sj_net st) s1" by (rule find_chasing_quiet [OF find])
  have s1: "sj_inv c s1" "cache_ok s1" "grown c ?P (sj_net st) s1" using quiet_sj [OF quiet1 ok(2,3)] grown_quiet [OF quiet1] by auto
  show ?thesis
  proof (cases "\<exists>y. target = Some y \<and> sj_from env y = sj_from env ?x")
    case False
    then have "sjoin_nick env c ts params keep many t st = Some (st\<lparr>sj_net := s1\<rparr>)"
      using find pre by (cases target) (auto simp: sjoin_nick_def)
    moreover have "\<not> introduces env (sj_net st) t y" for y using False find pre by (auto simp: introduces_def)
    ultimately show ?thesis using s1 ok(1) by (simp add: sj_ok_def)
  next
    case True
    then obtain y where y: "target = Some y" "sj_from env y = sj_from env ?x" by blast
    have cl: "uisclient (users (sj_net st) y)" using find_chasing_client [OF find [unfolded y(1)] ok(4)] .
    then have cl1: "uisclient (users s1 y)" using quiet1 by (auto simp: quiet_def)
    define fl where "fl = (if keep then fl0 else 0)"
    have fl: "\<not> has_flag fl CHFL_BAN_CHECKED" "\<not> has_flag fl CHFL_BAN_SILENCED" "?P fl" using sjoin_ban_flags [of t] pre by (auto simp: fl_def)
    have nick: "length (uname (users s1 y)) \<le> NICKLEN" "length (uid (users s1 y)) \<le> 12"
      using s1(1) cl1 by (auto simp: sj_inv_def nicks_ok_def fits_def user_fits_def IDLEN_def)
    have len: "length (uid_prefix fl @ uid (users s1 y)) \<le> 15" using nick(2) by (simp add: uid_prefix_def)
    have "sj_ok (st\<lparr>sj_net := s1\<rparr>)" using ok(1) by (simp add: sj_ok_def)
    from put_uid_ok [OF this _ len params, of c env ts] s1(1) obtain st1 where st1: "put_uid env c ts params (uid_prefix fl @ uid (users s1 y)) (st\<lparr>sj_net := s1\<rparr>) = Some st1"
        "sj_ok st1" "quiet s1 (sj_net st1)" by auto
    have inv1: "sj_inv c (sj_net st1)" "cache_ok (sj_net st1)" "uisclient (users (sj_net st1) y)"
      using quiet_sj [OF st1(3) s1(1,2)] cl1 st1(3) by (auto simp: quiet_def)
    obtain s2 where s2: "sjoin_enter (sj_cfg env) c y fl (\<not> many) (sj_net st1) = Some s2" "sj_inv c s2" "cache_ok s2" "grown c ?P (sj_net st1) s2"
        "\<exists>m. s_link (shape_of s2) m = Some (y, c)"
      using sjoin_enter_ok [where P = ?P, OF inv1 fl] by blast
    have "sj_ok (st1\<lparr>sj_net := s2\<rparr>)" "channels s2 c \<noteq> None" using st1(2) s2(2) by (auto simp: sj_ok_def sj_inv_def)
    then obtain st5 where st5: "put_statuses (server_label (sj_cfg env) (users (sj_net st) ?x)) c (uname (users s1 y)) fl (st1\<lparr>sj_net := s2\<rparr>) = Some st5"
        "sj_ok st5" and quiet5: "quiet s2 (sj_net st5)"
      using put_statuses_ok [of "st1\<lparr>sj_net := s2\<rparr>" c, OF _ _ nick(1)] by auto
    have "sjoin_nick env c ts params keep many t st = Some st5"
      using find pre y st1(1) s2(1) st5(1) by (simp add: sjoin_nick_def fl_def [symmetric] Let_def)
    moreover have "grown c ?P (sj_net st) (sj_net st5)"
      using grown_trans [OF grown_trans [OF s1(3) grown_quiet [OF st1(3)]] grown_trans [OF s2(4) grown_quiet [OF quiet5]]] .
    moreover have "is_member y c (sj_net st5)" using s2(5) quiet5 by (fastforce simp: is_member_def shape_simps quiet_def)
    moreover have "y' = y" if "introduces env (sj_net st) t y'" for y' using that find pre y by (simp add: introduces_def)
    ultimately show ?thesis using st5(2) quiet_sj [OF quiet5 s2(2,3)] by blast
  qed
qed

lemma grown_member: "grown c P s s' \<Longrightarrow> is_member y c s \<Longrightarrow> is_member y c s'"
  unfolding grown_def is_member_def by blast

lemma introduces_who: "same_who s s' \<Longrightarrow> introduces env s' t y = introduces env s t y"
  by (simp add: introduces_def find_chasing_who)

lemma sjoin_nicks_ok:
  assumes "sj_ok st" "sj_inv c (sj_net st)" "cache_ok (sj_net st)" "history_ok (sj_dir env) (sj_net st)" "length params < MODEBUFLEN"
  shows "\<exists>st'. sjoin_nicks env c ts params keep many toks st = Some st' \<and> sj_ok st' \<and> sj_inv c (sj_net st') \<and> cache_ok (sj_net st') \<and>
    grown c (\<lambda>fl. \<not> keep \<longrightarrow> fl = 0) (sj_net st) (sj_net st') \<and> (\<forall>t \<in> set toks. \<forall>y. introduces env (sj_net st) t y \<longrightarrow> is_member y c (sj_net st'))"
  using assms
proof (induction toks arbitrary: st)
  case Nil
  then show ?case using grown_quiet [OF quiet_refl] by auto
next
  case (Cons t toks)
  obtain st1 where st1: "sjoin_nick env c ts params keep many t st = Some st1" "sj_ok st1" "sj_inv c (sj_net st1)" "cache_ok (sj_net st1)"
      "grown c (\<lambda>fl. \<not> keep \<longrightarrow> fl = 0) (sj_net st) (sj_net st1)" "\<And>y. introduces env (sj_net st) t y \<Longrightarrow> is_member y c (sj_net st1)"
    using sjoin_nick_ok [OF Cons.prems] by blast
  have who: "same_who (sj_net st) (sj_net st1)" using st1(5) by (simp add: grown_def)
  obtain st2 where st2: "sjoin_nicks env c ts params keep many toks st1 = Some st2" "sj_ok st2" "sj_inv c (sj_net st2)" "cache_ok (sj_net st2)"
      "grown c (\<lambda>fl. \<not> keep \<longrightarrow> fl = 0) (sj_net st1) (sj_net st2)" "\<forall>t \<in> set toks. \<forall>y. introduces env (sj_net st1) t y \<longrightarrow> is_member y c (sj_net st2)"
    using Cons.IH [OF st1(2-4) history_ok_who [OF who Cons.prems(4)] Cons.prems(5)] by blast
  moreover have "is_member y c (sj_net st2)" if "t' \<in> set (t # toks)" "introduces env (sj_net st) t' y" for t' y
    using that st1(6) grown_member [OF st2(5)] st2(6) introduces_who [OF who] by auto
  ultimately show ?case using st1(1) grown_trans [OF st1(5) st2(5)] by auto
qed

section \<open>The whole message\<close>

lemma length_show_limit:
  assumes "n < 2 ^ 32"
  shows "length (show_limit n) \<le> 11"
proof -
  have "length (show_nat n) \<le> Suc 9" "length (show_nat (2 ^ 32 - n)) \<le> Suc 9"
    using assms by (intro length_show_nat, simp)+
  then show ?thesis by (auto simp: show_limit_def)
qed

lemma letters_length: "length (map snd (filter P chan_modes)) \<le> 13"
  using length_filter_le [of P chan_modes] by (simp add: chan_modes_def)

lemma set_final_mode_lengths:
  assumes "set_final_mode md old = (modes, params)" "length (md_key md) \<le> KEYLEN" "length (md_key old) \<le> KEYLEN" "md_limit md < 2 ^ 32"
  shows "length modes \<le> 32" "length params \<le> 84"
proof -
  show "length modes \<le> 32"
    using assms(1) letters_length [of "\<lambda>(m, l). has_flag (md_mode old) m \<and> \<not> has_flag (md_mode md) m"]
      letters_length [of "\<lambda>(m, l). has_flag (md_mode md) m \<and> \<not> has_flag (md_mode old) m"]
    by (auto simp: set_final_mode_def Let_def)
  show "length params \<le> 84"
    using assms length_show_limit [OF assms(4)] by (auto simp: set_final_mode_def Let_def KEYLEN_def)
qed

lemma channel_modes_lengths:
  assumes "channels s c = Some ch" "chan_fits ch"
  shows "\<exists>modes params. channel_modes c x s = Some (modes, params) \<and> length modes \<le> 16 \<and> length params \<le> 84"
  using assms letters_length [of "\<lambda>(m, l). has_flag (ch_mode ch) m"] length_show_limit [of "ch_limit ch"]
  by (auto simp: channel_modes_def chan_fits_def KEYLEN_def Let_def)

text \<open>The end of the message: the channel is released if it is new and nobody entered it.\<close>

definition ended :: "addr \<Rightarrow> bool \<Rightarrow> net \<Rightarrow> net \<Rightarrow> bool" where
  "ended c isnew s s' \<longleftrightarrow> (if isnew \<and> s_mem (shape_of s) c = [] then channels s' c = None \<and> (\<forall>c'. c' \<noteq> c \<longrightarrow> s_mem (shape_of s') c' = s_mem (shape_of s) c') else quiet s s')"

lemma sj_inv_populated: "sj_inv c s \<Longrightarrow> s_mem (shape_of s) c \<noteq> [] \<Longrightarrow> chan_inv s"
  unfolding sj_inv_def chan_inv_def populated_def by metis

lemma destroy_who: "destroy_channel c s = Some s' \<Longrightarrow> same_who s s'"
proof -
  assume "destroy_channel c s = Some s'"
  then obtain s1 where s1: "clear_invites c s = Some s1" "users s' = users s1" by (auto simp: destroy_channel_def split: bind_splits)
  then have "same_who s s1" using del_invites_who by (auto simp: clear_invites_def split: bind_splits)
  then show ?thesis using s1(2) by (simp add: same_who_def)
qed

lemma sjoin_finish_ok:
  assumes ok: "sj_ok st" "sj_inv c (sj_net st)" "cache_ok (sj_net st)" "isnew \<or> s_mem (shape_of (sj_net st)) c \<noteq> []"
  shows "\<exists>s'. sjoin_finish env c isnew nicks st = Some s' \<and> chan_inv s' \<and> cache_ok s' \<and> fits s' \<and> same_who (sj_net st) s' \<and> ended c isnew (sj_net st) s'"
proof -
  let ?s = "sj_net st"
  obtain ch where ch: "channels ?s c = Some ch" using ok(2) by (auto simp: sj_inv_def)
  have pos: "mpos st < length (mode_arr st)" "nicks_fit (para st)" using ok(1) nicks_fitI [of "para st"] by (auto simp: sj_ok_def MODEBUFLEN_def MAXMODEPARAMS_def)
  let ?srv = "server_label (sj_cfg env) (users ?s (sj_source env))"
  have "\<exists>st1. (if para st = [] then (if mpos st < length (mode_arr st) then Some st else None) else send_status ?srv c st) = Some st1 \<and> quiet ?s (sj_net st1)"
    using pos ch by (cases "para st = []") (auto simp: send_status_def Let_def)
  then obtain st1 where st1: "(if para st = [] then (if mpos st < length (mode_arr st) then Some st else None) else send_status ?srv c st) = Some st1"
      and quiet: "quiet ?s (sj_net st1)" by blast
  have inv1: "sj_inv c (sj_net st1)" "cache_ok (sj_net st1)" "channels (sj_net st1) c = Some ch" "shape_of (sj_net st1) = shape_of ?s" "same_who ?s (sj_net st1)"
    using quiet_sj [OF quiet ok(2,3)] quiet ch by (auto simp: quiet_def shape_of_def same_who_def)
  have mem: "s_mem (shape_of ?s) c = members ch" using ch by (simp add: shape_simps)
  show ?thesis
  proof (cases "members ch = [] \<and> isnew")
    case True
    have "net_ok (sj_net st1)" using inv1(1) by (simp add: sj_inv_def)
    from destroy_ok [OF this inv1(3)] True obtain s2 where s2: "destroy_channel c (sj_net st1) = Some s2" "net_ok s2" "s_mem (shape_of s2) = s_mem (shape_of ?s)"
        "s_name (shape_of s2) = (s_name (shape_of ?s))(c := None)"
      using inv1(4) by auto
    have "chan_inv s2" using ok(2) inv1(1) s2 plain_destroy [OF s2(1)] by (auto simp: chan_inv_def populated_def sj_inv_def)
    moreover have "cache_ok s2" using cache_le_ok [OF cache_le_destroy [OF s2(1)] inv1(2)] .
    moreover have "fits s2" using fits_destroy [OF s2(1)] inv1(1) by (simp add: sj_inv_def)
    moreover have "same_who ?s s2" using same_who_trans [OF inv1(5) destroy_who [OF s2(1)]] .
    moreover have "channels s2 c = None" using s2(4) shape_of_simps(1) [of s2 c] by simp
    ultimately show ?thesis
      using True s2(1,3) st1 inv1(3) mem unfolding sjoin_finish_def Let_def by (simp add: ended_def)
  next
    case False
    then have "s_mem (shape_of ?s) c \<noteq> []" using ok(4) mem by auto
    then have "chan_inv (sj_net st1)" using sj_inv_populated [OF inv1(1)] inv1(4) by simp
    moreover have "fits (sj_net st1)" using inv1(1) by (simp add: sj_inv_def)
    ultimately show ?thesis
      using False st1 inv1(2,3,5) quiet mem unfolding sjoin_finish_def Let_def ended_def
      by (cases "nicks = []") (auto simp: chan_inv_def send_event_def [symmetric])
  qed
qed

lemma grown_nonempty:
  assumes "grown c P s s'" "sj_inv c s" "sj_inv c s'" "s_mem (shape_of s) c \<noteq> []"
  shows "s_mem (shape_of s') c \<noteq> []"
proof -
  obtain ch ch' where ch: "channels s c = Some ch" "channels s' c = Some ch'" and ok: "net_ok s" "net_ok s'" using assms(2,3) by (auto simp: sj_inv_def)
  have "members ch \<noteq> []" using assms(4) ch(1) by (simp add: shape_simps)
  then have "hd (members ch) \<in> set (members ch)" by simp
  then obtain mb where "mships s (hd (members ch)) = Some mb" "mchan mb = c" using net_ok_members(2) [OF ok(1) ch(1)] by blast
  then have "hd (members ch) \<in> set (members ch')" using net_ok_members(2) [OF ok(2) ch(2)] assms(1) unfolding grown_def by blast
  then show ?thesis using ch(2) by (auto simp: shape_simps)
qed

lemma sjoin_body_ok:
  assumes inv: "sj_inv c s" "cache_ok s" "history_ok (sj_dir env) s" "isnew \<or> s_mem (shape_of s) c \<noteq> []"
    and len: "length (sj_modebuf env) = MODEBUFLEN" "length modes \<le> 32" "length params \<le> 84"
  shows "\<exists>s1 s'. sjoin_body env c isnew ts keep nicks modes params s = Some s' \<and> chan_inv s' \<and> cache_ok s' \<and> fits s' \<and> same_who s s' \<and>
    grown c (\<lambda>fl. \<not> keep \<longrightarrow> fl = 0) s s1 \<and> ended c isnew s1 s' \<and> (\<forall>t \<in> set (nick_words nicks). \<forall>y. introduces env s t y \<longrightarrow> is_member y c s1)"
proof -
  let ?x = "sj_source env" and ?P = "\<lambda>fl. \<not> keep \<longrightarrow> fl = (0 :: u32)"
  obtain ch where ch: "channels s c = Some ch" using inv(1) by (auto simp: sj_inv_def)
  have fit: "chan_fits ch" "user_fits (users s ?x)" using inv(1) ch by (auto simp: sj_inv_def fits_def)
  obtain arr0 where arr0: "put_text modes (sj_modebuf env) = Some arr0" "length arr0 = MODEBUFLEN" using len by (auto simp: put_text_def MODEBUFLEN_def)
  define s1 where "s1 = (if modes = [] then s
    else send_event (ChannelText c ('':'' @ server_label (sj_cfg env) (users s ?x) @ '' MODE '' @ ch_name ch @ '' '' @ modes @ '' '' @ params)) s)"
  have s1: "quiet s s1" "channels s1 c = Some ch" using ch by (auto simp: s1_def)
  have "\<exists>m p. (if deref (sj_parv env ! 3) \<noteq> CHR ''0'' \<and> keep then channel_modes c ?x s1 else Some (''0'', params)) = Some (m, p) \<and> length m \<le> 16 \<and> length p \<le> 84"
    using channel_modes_lengths [OF s1(2) fit(1), of ?x] len(3) by (cases "deref (sj_parv env ! 3) \<noteq> CHR ''0'' \<and> keep") auto
  then obtain m p where mp: "(if deref (sj_parv env ! 3) \<noteq> CHR ''0'' \<and> keep then channel_modes c ?x s1 else Some (''0'', params)) = Some (m, p)"
      "length m \<le> 16" "length p \<le> 84" by blast
  obtain arr1 where arr1: "put_text m arr0 = Some arr1" "length arr1 = MODEBUFLEN" using arr0 mp(2) by (auto simp: put_text_def MODEBUFLEN_def)
  define h where "h = sjoin_head (users s ?x) ts (ch_name ch) m p"
  have h: "length h \<le> 194" using length_sjoin_head [OF fit(2), of "ch_name ch" ts m p] fit(1) mp(2,3) by (simp add: h_def chan_fits_def)
  define st where "st = \<lparr>sj_net = s1, mode_arr = arr1[0 := CHR ''+''], mpos = 1, para = [], uid_buf = h\<rparr>"
  have put: "put_char (CHR ''+'') \<lparr>sj_net = s1, mode_arr = arr1, mpos = 0, para = [], uid_buf = h\<rparr> = Some st"
    using arr1(2) by (simp add: put_char_def st_def MODEBUFLEN_def)
  have st: "sj_ok st" "sj_inv c (sj_net st)" "cache_ok (sj_net st)" "history_ok (sj_dir env) (sj_net st)" "length p < MODEBUFLEN"
    using arr1(2) h mp(3) quiet_sj [OF s1(1) inv(1,2)] inv(3) s1(1)
    by (auto simp: st_def sj_ok_def MAXMODEPARAMS_def IRCD_BUFSIZE_def MODEBUFLEN_def history_ok_def quiet_def)
  obtain st2 where st2: "sjoin_nicks env c ts p keep (length (nick_words nicks) > 1) (nick_words nicks) st = Some st2" "sj_ok st2" "sj_inv c (sj_net st2)" "cache_ok (sj_net st2)"
      "grown c ?P s1 (sj_net st2)" "\<forall>t \<in> set (nick_words nicks). \<forall>y. introduces env s1 t y \<longrightarrow> is_member y c (sj_net st2)"
    using sjoin_nicks_ok [OF st, of ts keep "length (nick_words nicks) > 1" "nick_words nicks"] by (auto simp: st_def)
  have grown: "grown c ?P s (sj_net st2)" using grown_trans [OF grown_quiet [OF s1(1)] st2(5)] .
  have who1: "same_who s s1" "same_who s (sj_net st2)" using grown grown_quiet [OF s1(1), of c ?P] by (auto simp: grown_def)
  then have mem: "isnew \<or> s_mem (shape_of (sj_net st2)) c \<noteq> []" using inv(4) grown_nonempty [OF grown inv(1) st2(3)] by blast
  obtain s' where s': "sjoin_finish env c isnew nicks st2 = Some s'" "chan_inv s'" "cache_ok s'" "fits s'" "same_who (sj_net st2) s'" "ended c isnew (sj_net st2) s'"
    using sjoin_finish_ok [OF st2(2-4) mem] by blast
  have "sjoin_body env c isnew ts keep nicks modes params s = Some s'"
    unfolding sjoin_body_def Let_def ch Option.bind.bind_lunit arr0(1) s1_def [symmetric] mp(1) prod.case arr1(1) h_def [symmetric] put st2(1) s'(1)
    using h mp(3) by (simp add: NICKLEN_def IDLEN_def IRCD_BUFSIZE_def MODEBUFLEN_def)
  moreover have "\<forall>t \<in> set (nick_words nicks). \<forall>y. introduces env s t y \<longrightarrow> is_member y c (sj_net st2)" using st2(6) introduces_who [OF who1(1)] by simp
  ultimately show ?thesis using s'(2-4,6) same_who_trans [OF who1(2) s'(5)] grown by blast
qed

definition mode_fits :: "Mode \<Rightarrow> bool" where
  "mode_fits md \<longleftrightarrow> length (md_key md) \<le> KEYLEN \<and> md_limit md < 2 ^ 32"

lemma merge_fits: "mode_fits md \<Longrightarrow> mode_fits old \<Longrightarrow> mode_fits (merge_modes ko kn md old)"
  by (auto simp: merge_modes_def mode_fits_def strlcpy_str_def)

lemma ts_notice_quiet: "quiet s (sjoin_ts_notice env c ch isnew newts s)"
  by (simp add: sjoin_ts_notice_def Let_def)

text \<open>The modes and the creation time of the channel, before anything is lost.\<close>

lemma sj_settle:
  assumes inv: "sj_inv c s" "cache_ok s" "channels s c = Some ch" and md: "mode_fits md"
  shows "\<exists>s'. upd_channel c (\<lambda>ch. set_chan_mode md (ch\<lparr>ch_creationtime := ts\<rparr>)) s = Some s' \<and> sj_inv c s' \<and> cache_ok s' \<and> users s' = users s \<and>
    mships s' = mships s \<and> channels s' = (channels s)(c \<mapsto> set_chan_mode md (ch\<lparr>ch_creationtime := ts\<rparr>))"
proof -
  let ?f = "\<lambda>ch. set_chan_mode md (ch\<lparr>ch_creationtime := ts\<rparr>)"
  have f: "ch_name (?f ch) = ch_name ch \<and> members (?f ch) = members ch \<and> locmembers (?f ch) = locmembers ch \<and> invites (?f ch) = invites ch"
    "plain_chan ch \<Longrightarrow> plain_chan (?f ch)" "chan_fits ch \<Longrightarrow> chan_fits (?f ch)" for ch
    using md by (auto simp: set_chan_mode_def plain_chan_def chan_fits_def mode_fits_def)
  obtain s' where s': "upd_channel c ?f s = Some s'" "sj_inv c s'" "mode_frame c s s'" "mships s' = mships s"
    using sj_upd [OF inv(1) f] by auto
  have "cache_le s s'" by (rule cache_le_channel [OF s'(1)]) (simp add: set_chan_mode_def)
  then have "cache_ok s'" using cache_le_ok inv(2) by blast
  moreover have "channels s' = (channels s)(c \<mapsto> ?f ch)" using s'(1) inv(3) by (auto simp: upd_channel_def)
  ultimately show ?thesis using s' by (auto simp: mode_frame_def)
qed

lemma sjoin_apply_ok:
  assumes inv: "sj_inv c s" "cache_ok s" "history_ok (sj_dir env) s" and ch: "channels s c = Some ch" "isnew \<or> s_mem (shape_of s) c \<noteq> []"
    and env: "length (sj_modebuf env) = MODEBUFLEN" "length (sj_parv env ! 2) \<le> CHANNELLEN" "\<not> isnew \<longrightarrow> irccmp (ch_name ch) (sj_parv env ! 2) = 0"
    and md: "mode_fits md" and ts: "sjoin_ts isnew (ch_creationtime ch) (bogus_ts (sj_ignore_bogus_ts env) (ch_creationtime ch) (atol (sj_parv env ! 1))) = (ts, ko, kn)"
  defines "ch2 \<equiv> set_chan_mode (merge_modes ko kn md (chan_mode_of ch)) (ch\<lparr>ch_creationtime := ts\<rparr>)"
  shows "\<exists>s3 s4 s'. sjoin_apply env c isnew nargs md s = Some s' \<and> chan_inv s' \<and> cache_ok s' \<and> fits s' \<and> same_who s s' \<and>
    grown c (\<lambda>fl. \<not> kn \<longrightarrow> fl = 0) s3 s4 \<and> ended c isnew s4 s' \<and>
    (\<forall>t \<in> set (nick_words (sj_parv env ! (4 + nargs))). \<forall>y. introduces env s t y \<longrightarrow> is_member y c s4) \<and>
    (if ko then channels s3 = (channels s)(c \<mapsto> ch2) \<and> mships s3 = mships s
     else channels s3 c = Some (lost_topic (sj_cfg env) (lost (sj_parv env ! 2) ch2)) \<and> (\<forall>m. lost_member c (mships s m) (mships s3 m)))"
proof -
  define md1 where "md1 = merge_modes ko kn md (chan_mode_of ch)"
  obtain modes params where final: "set_final_mode md1 (chan_mode_of ch) = (modes, params)" by (cases "set_final_mode md1 (chan_mode_of ch)")
  have old: "mode_fits (chan_mode_of ch)" using inv(1) ch(1) by (auto simp: sj_inv_def fits_def chan_fits_def mode_fits_def chan_mode_of_def)
  then have md1: "mode_fits md1" using merge_fits md by (simp add: md1_def)
  have lens: "length modes \<le> 32" "length params \<le> 84" using set_final_mode_lengths [OF final] md1 old by (auto simp: mode_fits_def)
  define s1 where "s1 = sjoin_ts_notice env c ch isnew (atol (sj_parv env ! 1)) s"
  have quiet1: "quiet s s1" unfolding s1_def by (rule ts_notice_quiet)
  then have s1: "sj_inv c s1" "cache_ok s1" "channels s1 = channels s" "users s1 = users s" "mships s1 = mships s"
    using quiet_sj [OF quiet1 inv(1,2)] by (auto simp: quiet_def)
  obtain s2 where s2: "upd_channel c (\<lambda>ch. set_chan_mode md1 (ch\<lparr>ch_creationtime := ts\<rparr>)) s1 = Some s2" "sj_inv c s2" "cache_ok s2" "users s2 = users s"
      "mships s2 = mships s" "channels s2 = (channels s)(c \<mapsto> ch2)"
    using sj_settle [OF s1(1,2) _ md1, of ch ts] ch(1) s1(3-5) by (auto simp: ch2_def md1_def)
  have mem2: "s_mem (shape_of s2) c = s_mem (shape_of s) c" using ch(1) by (simp add: shape_simps s2(6) ch2_def set_chan_mode_def)
  let ?lose = "if ko then Some s2 else sjoin_lose env c isnew (ch_creationtime ch) (bogus_ts (sj_ignore_bogus_ts env) (ch_creationtime ch) (atol (sj_parv env ! 1))) s2"
  have "\<exists>s3. ?lose = Some s3 \<and> sj_inv c s3 \<and> cache_ok s3 \<and> same_who s s3 \<and> s_mem (shape_of s3) c = s_mem (shape_of s) c \<and>
    (if ko then channels s3 = (channels s)(c \<mapsto> ch2) \<and> mships s3 = mships s
     else channels s3 c = Some (lost_topic (sj_cfg env) (lost (sj_parv env ! 2) ch2)) \<and> (\<forall>m. lost_member c (mships s m) (mships s3 m)))"
  proof (cases ko)
    case True
    then show ?thesis using s2 mem2 same_who_users [OF s2(4)] by simp
  next
    case False
    then have new: "\<not> isnew" using ts by (auto simp: sjoin_ts_def split: if_splits)
    have ch2: "channels s2 c = Some ch2" "irccmp (ch_name ch2) (sj_parv env ! 2) = 0" using s2(6) env(3) new by (auto simp: ch2_def set_chan_mode_def)
    have "same_who s s2" by (rule same_who_users [OF s2(4)])
    then show ?thesis
      using sjoin_lose_ok [OF s2(2,3) ch2 env(2), of "ch_creationtime ch" "bogus_ts (sj_ignore_bogus_ts env) (ch_creationtime ch) (atol (sj_parv env ! 1))"] False new ch(1)
        same_who_trans [of s s2] s2(5)
      by (auto simp: shape_simps lost_def lost_topic_def channel_set_topic_def ch2_def set_chan_mode_def)
  qed
  then obtain s3 where s3: "?lose = Some s3" "sj_inv c s3" "cache_ok s3" "same_who s s3" "s_mem (shape_of s3) c = s_mem (shape_of s) c"
    "if ko then channels s3 = (channels s)(c \<mapsto> ch2) \<and> mships s3 = mships s
     else channels s3 c = Some (lost_topic (sj_cfg env) (lost (sj_parv env ! 2) ch2)) \<and> (\<forall>m. lost_member c (mships s m) (mships s3 m))" by blast
  have "isnew \<or> s_mem (shape_of s3) c \<noteq> []" using ch(2) s3(5) by simp
  from sjoin_body_ok [OF s3(2,3) history_ok_who [OF s3(4) inv(3)] this env(1) lens, of ts kn "sj_parv env ! (4 + nargs)"] obtain s4 s' where
    s': "sjoin_body env c isnew ts kn (sj_parv env ! (4 + nargs)) modes params s3 = Some s'" "chan_inv s'" "cache_ok s'" "fits s'" "same_who s3 s'"
      "grown c (\<lambda>fl. \<not> kn \<longrightarrow> fl = 0) s3 s4" "ended c isnew s4 s'"
      "\<forall>t \<in> set (nick_words (sj_parv env ! (4 + nargs))). \<forall>y. introduces env s3 t y \<longrightarrow> is_member y c s4" by blast
  have "sjoin_apply env c isnew nargs md s = Some s'"
    unfolding sjoin_apply_def Let_def ch(1) Option.bind.bind_lunit s1_def [symmetric] ts prod.case md1_def [symmetric] final s2(1) s3(1) s'(1) by simp
  moreover have "\<forall>t \<in> set (nick_words (sj_parv env ! (4 + nargs))). \<forall>y. introduces env s t y \<longrightarrow> is_member y c s4" using s'(8) introduces_who [OF s3(4)] by simp
  ultimately show ?thesis using s'(2-4,6,7) s3(6) same_who_trans [OF s3(4) s'(5)] by blast
qed

lemma sjoin_modes_ok:
  "5 + nargs \<le> length parv \<Longrightarrow> mode_fits md \<Longrightarrow> \<exists>r. sjoin_modes parv cs nargs md = Some r \<and>
    (\<forall>n md'. r = Some (n, md') \<longrightarrow> 5 + n \<le> length parv \<and> mode_fits md')"
proof (induction cs arbitrary: nargs md)
  case (Cons a cs)
  let ?md = "if a = CHR ''k'' then md\<lparr>md_key := strlcpy_str (parv ! (4 + nargs)) (KEYLEN + 1)\<rparr> else md\<lparr>md_limit := nat (atoi (parv ! (4 + nargs)) mod 2 ^ 32)\<rparr>"
  have "nat (v mod 2 ^ 32) < 2 ^ 32" for v :: int by (simp add: nat_less_iff)
  then have "mode_fits ?md" using Cons.prems(2) by (simp add: mode_fits_def strlcpy_str_def)
  moreover have "mode_fits (md\<lparr>md_mode := w\<rparr>)" for w using Cons.prems(2) by (simp add: mode_fits_def)
  ultimately show ?case using Cons.prems(1) Cons.IH [of "nargs + 1" ?md] Cons.IH [of nargs] by (cases "length parv < 5 + (nargs + 1)") (auto simp: Let_def)
qed simp

text \<open>What is asked of a call: the parser has counted the parameters, and nicks and strings fit.\<close>

definition sjoin_call_ok :: "sjoin_env \<Rightarrow> net \<Rightarrow> bool" where
  "sjoin_call_ok env s \<longleftrightarrow> 5 \<le> length (sj_parv env) \<and> length (sj_modebuf env) = MODEBUFLEN \<and> fits s \<and> nicks_ok s \<and> history_ok (sj_dir env) s"

lemma sjoin_channel_ok:
  assumes inv: "chan_inv s" "cache_ok s" "fits s" "nicks_ok s" and name: "check_channel_name (sj_cfg env) (sj_parv env ! 2) False"
  shows "\<exists>c isnew s1 ch. sjoin_channel env s = Some (c, isnew, s1) \<and> sj_inv c s1 \<and> cache_ok s1 \<and> users s1 = users s \<and> mships s1 = mships s \<and>
    channels s1 c = Some ch \<and> (isnew \<or> s_mem (shape_of s1) c \<noteq> []) \<and> (\<not> isnew \<longrightarrow> irccmp (ch_name ch) (sj_parv env ! 2) = 0) \<and>
    (case hash_find_channel (sj_parv env ! 2) s of None \<Rightarrow> isnew \<and> channels s c = None | Some d \<Rightarrow> \<not> isnew \<and> c = d \<and> s1 = s)"
proof -
  let ?n = "sj_parv env ! 2"
  have ok: "net_ok s" "plain_net s" "populated (shape_of s)" using inv(1) by (auto simp: chan_inv_def)
  show ?thesis
  proof (cases "hash_find_channel ?n s")
    case (Some c)
    obtain ch where ch: "channels s c = Some ch" "irccmp (ch_name ch) ?n = 0" using hash_find_channel_Some [OF Some] by blast
    moreover have "s_name (shape_of s) c \<noteq> None" using ch(1) by (simp add: shape_simps)
    then have "s_mem (shape_of s) c \<noteq> []" using ok(3) unfolding populated_def by blast
    moreover have "sj_inv c s" using ok inv(3,4) ch(1) by (simp add: sj_inv_def populated_def)
    ultimately show ?thesis using Some inv(2) by (auto simp: sjoin_channel_def)
  next
    case None
    have len: "?n \<noteq> []" "length ?n \<le> CHANNELLEN" using name by (auto simp: check_channel_name_def split: list.splits)
    then have same: "strlcpy_str ?n (CHANNELLEN + 1) = ?n" by (simp add: strlcpy_str_def)
    define c where "c = next_addr s"
    have fresh: "channels s c = None" using names_okD(4) [of "shape_of s" c] ok(1) by (auto simp: shape_ok_def shape_simps c_def)
    obtain s1 where s1: "make_channel (sj_cfg env) ?n s = Some (c, s1)" "shape_of s1 = sh_make ?n (shape_of s)" "users s1 = users s"
        "channels s1 c = Some (new_channel (CurrentTime (sj_cfg env)) ?n)"
      using make_channel_shape [of ?n s "sj_cfg env", OF len(1)] fresh unfolding same c_def by blast
    have "net_ok s1"
      unfolding s1(2) using hash_find_channel_None [OF None ok(1)] by (intro shape_make [OF ok(1)]) (auto simp: shape_simps)
    moreover have "plain_net s1" "fits s1" using plain_make_channel [OF s1(1) ok(2)] fits_make [OF s1(1) inv(3)] by auto
    moreover have "s_mem (shape_of s1) c' \<noteq> []" if "c' \<noteq> c" "s_name (shape_of s1) c' \<noteq> None" for c'
      using that ok(3) unfolding s1(2) by (auto simp: populated_def sh_make_def c_def shape_simps)
    ultimately have "sj_inv c s1" using inv(4) s1(3,4) unfolding sj_inv_def nicks_ok_def by simp
    moreover have "cache_ok s1" using cache_le_ok [OF cache_le_make [OF s1(1) ok(1)] inv(2)] .
    moreover have "mships s1 = mships s" using s1(1) by (auto simp: make_channel_def Let_def split: if_splits)
    ultimately show ?thesis using None s1(1,3,4) fresh by (auto simp: sjoin_channel_def)
  qed
qed

lemma ms_sjoin_ok:
  assumes inv: "chan_inv s" "cache_ok s" and call: "sjoin_call_ok env s"
  shows "\<exists>s'. ms_sjoin env s = Some s' \<and> chan_inv s' \<and> cache_ok s' \<and> fits s' \<and> same_who s s'"
proof -
  let ?parv = "sj_parv env" and ?u = "users s (sj_source env)"
  have env: "5 \<le> length ?parv" "length (sj_modebuf env) = MODEBUFLEN" "fits s" "nicks_ok s" "history_ok (sj_dir env) s"
    using call by (auto simp: sjoin_call_ok_def)
  have start: "mode_fits \<lparr>md_mode = 0, md_limit = 0, md_key = []\<rparr>" by (simp add: mode_fits_def)
  obtain r where r: "sjoin_modes ?parv (?parv ! 3) 0 \<lparr>md_mode = 0, md_limit = 0, md_key = []\<rparr> = Some r"
      "\<And>n md'. r = Some (n, md') \<Longrightarrow> 5 + n \<le> length ?parv \<and> mode_fits md'"
    using sjoin_modes_ok [OF _ start, of 0 ?parv "?parv ! 3"] env(1) by auto
  consider "\<not> uisserver ?u" | "uisserver ?u" "\<not> check_channel_name (sj_cfg env) (?parv ! 2) False"
    | "uisserver ?u" "check_channel_name (sj_cfg env) (?parv ! 2) False" "r = None"
    | n md where "uisserver ?u" "check_channel_name (sj_cfg env) (?parv ! 2) False" "r = Some (n, md)" by (cases r) auto
  then show ?thesis
  proof cases
    case (4 n md)
    obtain c isnew s1 ch where s1: "sjoin_channel env s = Some (c, isnew, s1)" "sj_inv c s1" "cache_ok s1" "users s1 = users s"
        "channels s1 c = Some ch" "isnew \<or> s_mem (shape_of s1) c \<noteq> []" "\<not> isnew \<longrightarrow> irccmp (ch_name ch) (?parv ! 2) = 0"
      using sjoin_channel_ok [OF inv env(3,4) 4(2)] by blast
    have hist: "history_ok (sj_dir env) s1" using env(5) s1(4) by (simp add: history_ok_def)
    have len: "length (?parv ! 2) \<le> CHANNELLEN" using 4(2) by (auto simp: check_channel_name_def split: list.splits)
    have md: "mode_fits md" using r(2) 4(3) by blast
    obtain ts ko kn where ts: "sjoin_ts isnew (ch_creationtime ch) (bogus_ts (sj_ignore_bogus_ts env) (ch_creationtime ch) (atol (?parv ! 1))) = (ts, ko, kn)"
      by (rule prod_cases3)
    obtain s' where s': "sjoin_apply env c isnew n md s1 = Some s'" "chan_inv s'" "cache_ok s'" "fits s'" "same_who s1 s'"
      using sjoin_apply_ok [OF s1(2,3) hist s1(5,6) env(2) len s1(7) md ts, of n] by blast
    have "ms_sjoin env s = Some s'" using 4 env(1) r(1) s1(1) s'(1) by (simp add: ms_sjoin_def Let_def)
    then show ?thesis using s'(2-4) same_who_trans [OF same_who_users [OF s1(4)] s'(5)] by blast
  qed (use env r inv in \<open>auto simp: ms_sjoin_def Let_def chan_inv_def\<close>)
qed

end
