(* ===== verification/ServerJoin.thy ===== *)
theory ServerJoin
  imports SjoinInv
begin

text \<open>
  The JOIN that another server sends for one of its clients, \<open>ms_join\<close> of \<open>src/modules/core/m_join.c\<close>: creation times and
  modes are settled as for SJOIN, but the masks and invitations of the side that loses stay. The file has its own
  \<open>set_final_mode\<close>; its \<open>remove_our_modes\<close> does what the one of \<open>m_sjoin.c\<close> does for members that have a name.

  \<open>parabuf\<close> is static and \<open>set_final_mode\<close> only writes it when there is an argument, so that its text is handed from one call
  to the next.
\<close>

section \<open>Definitions\<close>

text \<open>The letters of the changes, with a sign wherever the direction changes.\<close>

fun signed :: "bool option \<Rightarrow> (bool \<times> char) list \<Rightarrow> string" where
  "signed what [] = []"
| "signed what ((add, l) # cs) = (if what = Some add then [l] else [if add then CHR ''+'' else CHR ''-'', l]) @ signed (Some add) cs"

definition join_final_mode :: "Mode \<Rightarrow> Mode \<Rightarrow> string \<times> string" where
  "join_final_mode md old =
    (signed None
       (map (\<lambda>(m, l). (True, l)) (filter (\<lambda>(m, l). has_flag (md_mode md) m \<and> \<not> has_flag (md_mode old) m) chan_modes) @
        map (\<lambda>(m, l). (False, l)) (filter (\<lambda>(m, l). has_flag (md_mode old) m \<and> \<not> has_flag (md_mode md) m) chan_modes) @
        (if md_limit old \<noteq> 0 \<and> md_limit md = 0 then [(False, CHR ''l'')] else []) @
        (if md_key old \<noteq> [] \<and> md_key md = [] then [(False, CHR ''k'')] else []) @
        (if md_limit md \<noteq> 0 \<and> md_limit old \<noteq> md_limit md then [(True, CHR ''l'')] else []) @
        (if md_key md \<noteq> [] \<and> md_key old \<noteq> md_key md then [(True, CHR ''k'')] else [])),
     (if md_key old \<noteq> [] \<and> md_key md = [] then md_key old @ '' '' else []) @
     (if md_limit md \<noteq> 0 \<and> md_limit old \<noteq> md_limit md then show_limit (md_limit md) @ '' '' else []) @
     (if md_key md \<noteq> [] \<and> md_key old \<noteq> md_key md then md_key md @ '' '' else []))"

definition no_mode :: Mode where
  "no_mode = \<lparr>md_mode = 0, md_limit = 0, md_key = []\<rparr>"

definition join_lose :: "sjoin_env \<Rightarrow> addr \<Rightarrow> int \<Rightarrow> int \<Rightarrow> net \<Rightarrow> net option" where
  "join_lose env c oldts newts s = do {
     let cfg = sj_cfg env; let x = sj_source env;
     s1 \<leftarrow> remove_our_modes cfg c x s;
     ch \<leftarrow> channels s1 c;
     s2 \<leftarrow> (if ch_topic ch = [] then Some s1
            else map_option (send_event (ChannelText c ('':'' @ server_label cfg (users s1 x) @ '' TOPIC '' @ ch_name ch @ '' :'')))
                   (upd_channel c (channel_set_topic cfg [] [] 0 False) s1));
     Some (send_event (ChannelText c ('':'' @ me_name cfg @ '' NOTICE '' @ ch_name ch @ '' :*** Notice -- TS for '' @ ch_name ch @
       '' changed from '' @ show_time oldts @ '' to '' @ show_time newts)) s2)
   }"

text \<open>Everything once the channel is found or made; \<open>pb\<close> is the text of \<open>parabuf\<close>.\<close>

definition join_apply :: "sjoin_env \<Rightarrow> addr \<Rightarrow> bool \<Rightarrow> string \<Rightarrow> net \<Rightarrow> (net \<times> string) option" where
  "join_apply env c isnew pb s = do {
     ch \<leftarrow> channels s c;
     let cfg = sj_cfg env; let x = sj_source env;
     let sent_ts = atol (sj_parv env ! 1);
     let oldts = ch_creationtime ch; let old = chan_mode_of ch;
     let newts = bogus_ts (sj_ignore_bogus_ts env) oldts sent_ts;
     let s1 = sjoin_ts_notice env c ch isnew sent_ts s;
     let (ts, keep_our, keep_new) = sjoin_ts isnew oldts newts;
     let md1 = merge_modes keep_our keep_new no_mode old;
     let (modes, params) = join_final_mode md1 old;
     let pb1 = (if params = [] then pb else params);
     if length modes \<ge> MODEBUFLEN \<or> length params \<ge> MODEBUFLEN then None
     else do {
       s2 \<leftarrow> upd_channel c (\<lambda>ch. set_chan_mode md1 (ch\<lparr>ch_creationtime := ts\<rparr>)) s1;
       s3 \<leftarrow> (if keep_our then Some s2 else join_lose env c oldts newts s2);
       let s4 = (if modes = [] then s3
                 else send_event (ChannelText c ('':'' @ server_label cfg (users s3 x) @ '' MODE '' @ ch_name ch @ '' '' @ modes @ '' '' @ pb1)) s3);
       s5 \<leftarrow> sjoin_enter cfg c x 0 True s4;
       Some (send_event (ServerText x ('':'' @ uid (users s5 x) @ '' JOIN '' @ show_time ts @ '' '' @ ch_name ch @ '' +'')) s5, pb1)
     }
   }"

definition ms_join :: "sjoin_env \<Rightarrow> string \<Rightarrow> net \<Rightarrow> (net \<times> string) option" where
  "ms_join env pb s =
    (let cfg = sj_cfg env; x = sj_source env; u = users s x; parv = sj_parv env in
     if \<not> uisclient u then Some (s, pb)
     else if length parv = 2 \<and> parv ! 1 = ''0'' then map_option (\<lambda>s'. (s', pb)) (channel_do_join_0 cfg x s)
     else if length parv < 4 then Some (s, pb)
     else if \<not> check_channel_name cfg (parv ! 2) False then
       Some (send_event (OperNotice (''*** Too long or invalid channel name from '' @ uname u @ ''(via '' @ uname (users s (sj_from env x)) @ ''): '' @ parv ! 2)) s, pb)
     else do {
       (c, isnew, s1) \<leftarrow> sjoin_channel env s;
       join_apply env c isnew pb s1
     })"

section \<open>It runs to its end\<close>

lemma signed_length: "length (signed w cs) \<le> 2 * length cs"
  by (induction w cs rule: signed.induct) auto

lemma join_final_mode_lengths:
  assumes "join_final_mode md old = (modes, params)" "length (md_key md) \<le> KEYLEN" "length (md_key old) \<le> KEYLEN" "md_limit md < 2 ^ 32"
  shows "length modes < MODEBUFLEN" "length params < MODEBUFLEN"
proof -
  let ?new = "filter (\<lambda>(m, l). has_flag (md_mode md) m \<and> \<not> has_flag (md_mode old) m) chan_modes"
    and ?gone = "filter (\<lambda>(m, l). has_flag (md_mode old) m \<and> \<not> has_flag (md_mode md) m) chan_modes"
  have len: "length (filter P chan_modes) \<le> 13" for P using length_filter_le [of P chan_modes] by (simp add: chan_modes_def)
  obtain cs where cs: "modes = signed None cs" "length cs \<le> length ?new + length ?gone + 4"
    using assms(1) by (auto simp: join_final_mode_def)
  show "length modes < MODEBUFLEN" using signed_length [of None cs] cs(2) len [of "\<lambda>(m, l). has_flag (md_mode md) m \<and> \<not> has_flag (md_mode old) m"]
      len [of "\<lambda>(m, l). has_flag (md_mode old) m \<and> \<not> has_flag (md_mode md) m"] by (simp add: cs(1) MODEBUFLEN_def)
  show "length params < MODEBUFLEN"
    using assms length_show_limit [of "md_limit md"] by (auto simp: join_final_mode_def KEYLEN_def MODEBUFLEN_def)
qed

text \<open>Loss of status keeps what the memberships remember of the ban test.\<close>

lemma cached_no_status [simp]: "cached (no_status mb) = cached mb"
  by (simp add: cached_def no_status_def drop_flag_def has_flag_del_other CHFL_CHANOP_def CHFL_HALFOP_def CHFL_VOICE_def CHFL_BAN_CHECKED_def CHFL_BAN_SILENCED_def)

lemma no_status_links [simp]: "mclient (no_status mb) = mclient mb" "mchan (no_status mb) = mchan mb"
  by (simp_all add: no_status_def drop_flag_def)

lemma join_lose_ok:
  assumes inv: "sj_inv c s" "cache_ok s" and ch: "channels s c = Some ch"
  shows "\<exists>s'. join_lose env c oldts newts s = Some s' \<and> sj_inv c s' \<and> cache_ok s' \<and> users s' = users s \<and>
    channels s' c = Some (lost_topic (sj_cfg env) ch) \<and>
    (\<forall>m. mships s' m = (if in_channel c (mships s m) then map_option no_status (mships s m) else mships s m))"
proof -
  let ?cfg = "sj_cfg env" and ?x = "sj_source env"
  obtain s1 where s1: "remove_our_modes ?cfg c ?x s = Some s1" "mode_frame c s s1" "channels s1 = channels s"
      "\<forall>m. mships s1 m = (if in_channel c (mships s m) then map_option no_status (mships s m) else mships s m)"
    using remove_our_modes_ok [OF inv(1), of ?cfg ?x] by blast
  have inv1: "sj_inv c s1" using sj_frame [OF inv(1) s1(2,3)] .
  have users: "users s1 = users s" using s1(2) by (simp add: mode_frame_def)
  have "cache_ok s1"
    using inv(2) s1(3,4) users by (fastforce simp: cache_ok_def agrees_def in_channel_def split: if_splits)
  moreover obtain s2 where s2: "upd_channel c (channel_set_topic ?cfg [] [] 0 False) s1 = Some s2" "sj_inv c s2" "cache_le s1 s2" "users s2 = users s1" "mships s2 = mships s1"
      "channels s2 c = Some (channel_set_topic ?cfg [] [] 0 False ch)"
    using sj_topic [OF inv1, of ch ?cfg] ch s1(3) by auto
  ultimately show ?thesis
    using s1 s2 ch inv1 users cache_le_ok [OF s2(3)] by (cases "ch_topic ch = []") (simp_all add: join_lose_def Let_def lost_topic_def)
qed

lemma grown_new: "grown c P s s' \<Longrightarrow> mships s' m = Some mb \<Longrightarrow> mships s m = None \<Longrightarrow> mchan mb = c \<and> P (mflags mb)"
  unfolding grown_def by (metis option.distinct(1))

lemma join_apply_ok:
  assumes inv: "sj_inv c s" "cache_ok s" and ch: "channels s c = Some ch" and x: "uisclient (users s (sj_source env))"
    and ts: "sjoin_ts isnew (ch_creationtime ch) (bogus_ts (sj_ignore_bogus_ts env) (ch_creationtime ch) (atol (sj_parv env ! 1))) = (ts, ko, kn)"
  defines "ch2 \<equiv> set_chan_mode (merge_modes ko kn no_mode (chan_mode_of ch)) (ch\<lparr>ch_creationtime := ts\<rparr>)"
  shows "\<exists>s' pb' ch'. join_apply env c isnew pb s = Some (s', pb') \<and> chan_inv s' \<and> cache_ok s' \<and> fits s' \<and> same_who s s' \<and>
    channels s' c = Some ch' \<and> settled ch' = settled (if ko then ch2 else lost_topic (sj_cfg env) ch2) \<and> is_member (sj_source env) c s' \<and>
    (\<forall>m mb. mships s m = Some mb \<longrightarrow> mships s' m = Some (if ko \<or> mchan mb \<noteq> c then mb else no_status mb)) \<and>
    (\<forall>m mb. mships s' m = Some mb \<longrightarrow> mships s m = None \<longrightarrow> mchan mb = c \<and> mflags mb = 0)"
proof -
  let ?x = "sj_source env" and ?cfg = "sj_cfg env"
  define md1 where "md1 = merge_modes ko kn no_mode (chan_mode_of ch)"
  obtain modes params where final: "join_final_mode md1 (chan_mode_of ch) = (modes, params)" by (cases "join_final_mode md1 (chan_mode_of ch)")
  define pb1 where "pb1 = (if params = [] then pb else params)"
  have old: "mode_fits (chan_mode_of ch)" using inv(1) ch by (auto simp: sj_inv_def fits_def chan_fits_def mode_fits_def chan_mode_of_def)
  then have md1: "mode_fits md1" using merge_fits by (simp add: md1_def mode_fits_def no_mode_def)
  have lens: "\<not> (length modes \<ge> MODEBUFLEN \<or> length params \<ge> MODEBUFLEN)" using join_final_mode_lengths [OF final] md1 old by (auto simp: mode_fits_def)
  define s1 where "s1 = sjoin_ts_notice env c ch isnew (atol (sj_parv env ! 1)) s"
  have quiet1: "quiet s s1" unfolding s1_def by (rule ts_notice_quiet)
  then have s1: "sj_inv c s1" "cache_ok s1" "channels s1 = channels s" "users s1 = users s" "mships s1 = mships s"
    using quiet_sj [OF quiet1 inv(1,2)] by (auto simp: quiet_def)
  obtain s2 where s2: "upd_channel c (\<lambda>ch. set_chan_mode md1 (ch\<lparr>ch_creationtime := ts\<rparr>)) s1 = Some s2" "sj_inv c s2" "cache_ok s2" "users s2 = users s"
      "mships s2 = mships s" "channels s2 c = Some ch2"
    using sj_settle [OF s1(1,2) _ md1, of ch ts] ch s1(3-5) by (auto simp: ch2_def md1_def)
  let ?lose = "if ko then Some s2 else join_lose env c (ch_creationtime ch) (bogus_ts (sj_ignore_bogus_ts env) (ch_creationtime ch) (atol (sj_parv env ! 1))) s2"
  obtain s3 where s3: "?lose = Some s3" "sj_inv c s3" "cache_ok s3" "users s3 = users s" "channels s3 c = Some (if ko then ch2 else lost_topic ?cfg ch2)"
      "\<forall>m. mships s3 m = (if \<not> ko \<and> in_channel c (mships s m) then map_option no_status (mships s m) else mships s m)"
    using s2 join_lose_ok [OF s2(2,3,6), of env] by (cases ko) fastforce+
  define s4 where "s4 = (if modes = [] then s3
    else send_event (ChannelText c ('':'' @ server_label ?cfg (users s3 ?x) @ '' MODE '' @ ch_name ch @ '' '' @ modes @ '' '' @ pb1)) s3)"
  have quiet4: "quiet s3 s4" by (simp add: s4_def)
  have s4: "sj_inv c s4" "cache_ok s4" "users s4 = users s" "channels s4 = channels s3" "mships s4 = mships s3"
    using quiet_sj [OF quiet4 s3(2,3)] quiet4 s3(4) by (auto simp: quiet_def)
  obtain s5 m0 where s5: "sjoin_enter ?cfg c ?x 0 True s4 = Some s5" "sj_inv c s5" "cache_ok s5" "grown c (\<lambda>fl. fl = 0) s4 s5" "s_link (shape_of s5) m0 = Some (?x, c)"
    using sjoin_enter_ok [OF s4(1,2), of ?x 0 "\<lambda>fl. fl = 0" ?cfg True] x s4(3) by auto
  define s' where "s' = send_event (ServerText ?x ('':'' @ uid (users s5 ?x) @ '' JOIN '' @ show_time ts @ '' '' @ ch_name ch @ '' +'')) s5"
  have run: "join_apply env c isnew pb s = Some (s', pb1)"
    unfolding join_apply_def Let_def ch Option.bind.bind_lunit s1_def [symmetric] ts prod.case md1_def [symmetric] final pb1_def [symmetric] if_not_P [OF lens] s2(1) s3(1)
      s4_def [symmetric] s5(1) s'_def [symmetric] by simp
  have "m0 \<in> set (s_mem (shape_of s5) c)" using s5(2,5) links_okD(2) [of "shape_of s5" m0 c] by (auto simp: sj_inv_def shape_ok_def)
  then have "chan_inv s5" using sj_inv_populated [OF s5(2)] by force
  moreover have "fits s5" using s5(2) by (simp add: sj_inv_def)
  moreover have "same_who s s5" using s5(4) same_who_trans [OF same_who_users [OF s4(3)]] by (simp add: grown_def)
  moreover obtain ch' where "channels s5 c = Some ch'" "settled ch' = settled (if ko then ch2 else lost_topic ?cfg ch2)"
    using s5(4) s3(5) s4(4) by (auto simp: grown_def)
  moreover have "is_member ?x c s5" using s5(5) by (auto simp: is_member_def shape_simps)
  moreover have "mships s5 m = Some (if ko \<or> mchan mb \<noteq> c then mb else no_status mb)" if "mships s m = Some mb" for m mb
    using s5(4) s3(6) s4(5) that by (auto simp: grown_def in_channel_def)
  moreover have "mchan mb = c \<and> mflags mb = 0" if "mships s5 m = Some mb" "mships s m = None" for m mb
  proof -
    have "mships s4 m = None" using s3(6) s4(5) that(2) by (simp add: in_channel_def)
    then show ?thesis using grown_new [OF s5(4) that(1)] by simp
  qed
  ultimately show ?thesis using run s5(3) by (intro exI [of _ s'] exI [of _ pb1] exI [of _ ch']) (simp_all add: s'_def chan_inv_def, simp_all add: send_event_def is_member_def)
qed

lemma ms_join_ok:
  assumes inv: "chan_inv s" "cache_ok s" and fits: "fits s" "nicks_ok s"
  shows "\<exists>s' pb'. ms_join env pb s = Some (s', pb') \<and> keeps_inv s s' \<and> cache_ok s' \<and> fits s'"
proof -
  let ?parv = "sj_parv env" and ?u = "users s (sj_source env)"
  consider "\<not> uisclient ?u" | "uisclient ?u" "length ?parv = 2 \<and> ?parv ! 1 = ''0''" | "uisclient ?u" "\<not> (length ?parv = 2 \<and> ?parv ! 1 = ''0'')" "length ?parv < 4"
    | "uisclient ?u" "length ?parv \<ge> 4" "\<not> check_channel_name (sj_cfg env) (?parv ! 2) False"
    | "uisclient ?u" "length ?parv \<ge> 4" "check_channel_name (sj_cfg env) (?parv ! 2) False" by linarith
  then show ?thesis
  proof cases
    case 2
    obtain s' where s': "channel_do_join_0 (sj_cfg env) (sj_source env) s = Some s'" "keeps_inv s s'" using join_0_keeps_any [OF inv(1)] by blast
    then show ?thesis using 2 inv(2) cache_le_ok [OF cache_le_join_0 [OF s'(1)]] fits_join_0 [OF s'(1) fits(1)] by (simp add: ms_join_def)
  next
    case 5
    obtain c isnew s1 ch where s1: "sjoin_channel env s = Some (c, isnew, s1)" "sj_inv c s1" "cache_ok s1" "users s1 = users s" "channels s1 c = Some ch"
      using sjoin_channel_ok [OF inv fits 5(3)] by blast
    obtain ts ko kn where ts: "sjoin_ts isnew (ch_creationtime ch) (bogus_ts (sj_ignore_bogus_ts env) (ch_creationtime ch) (atol (?parv ! 1))) = (ts, ko, kn)"
      by (rule prod_cases3)
    obtain s' pb' where s': "join_apply env c isnew pb s1 = Some (s', pb')" "chan_inv s'" "cache_ok s'" "fits s'" "same_who s1 s'"
      using join_apply_ok [OF s1(2,3,5) _ ts, of pb] 5(1) s1(4) by auto
    have "keeps_inv s s'" using same_who_people [OF same_who_trans [OF same_who_users [OF s1(4)] s'(5)]] s'(2) inv(1) by (simp add: keeps_inv_def)
    moreover have "\<not> (length ?parv = 2 \<and> ?parv ! 1 = ''0'')" "\<not> length ?parv < 4" using 5(2) by auto
    then have "ms_join env pb s = Some (s', pb')" using 5 s1(1) s'(1) by (simp add: ms_join_def Let_def)
    ultimately show ?thesis using s'(3,4) by blast
  qed (use inv fits keeps_inv_refl [OF inv(1)] in \<open>auto simp: ms_join_def Let_def keeps_inv_send\<close>)
qed

end
