(* ===== verification/Commands.thy ===== *)
theory Commands
  imports ServerJoin
begin

text \<open>
  The handlers of JOIN, PART, KICK, TOPIC, INVITE, MODE (on channels) and TMODE under \<open>src/modules\<close>, from the check of their
  parameters to the channel operations and the lines they send. The prefix \<open>ms_\<close> marks the handler for what other servers
  send, as in the code.

  A handler gets \<open>parv\<close> as the list of the \<open>parc\<close> parameters; the NULL that ends the vector is \<open>None\<close> of \<open>parg\<close>. The
  command table guarantees a number of parameters, which theory Parse proves of the dispatcher. What \<open>flood_endgrace\<close> does
  to the counters of a connection is modelled in theory Packet; here it is an event.
\<close>

definition FLAGS_FLOODDONE :: u32 where "FLAGS_FLOODDONE = 0x2000"

record cmd_env =
  ce_cfg :: chan_config
  ce_dir :: directory
  ce_from :: "addr \<Rightarrow> addr"

definition parg :: "string list \<Rightarrow> nat \<Rightarrow> string option" where
  "parg parv i = (if i < length parv then Some (parv ! i) else None)"

definition empty_arg :: "string option \<Rightarrow> bool" where
  "empty_arg a \<longleftrightarrow> a = None \<or> a = Some []"

definition flood_endgrace :: "addr \<Rightarrow> net \<Rightarrow> net option" where
  "flood_endgrace x s =
    (if MyConnect (users s x) then Some (send_event (EndGrace x) (upd_user x (\<lambda>u. u\<lparr>uflags := add_flag (uflags u) FLAGS_FLOODDONE\<rparr>) s)) else None)"

definition end_grace :: "addr \<Rightarrow> net \<Rightarrow> net option" where
  "end_grace x s = (if has_flag (uflags (users s x)) FLAGS_FLOODDONE then Some s else flood_endgrace x s)"

definition user_nuh :: "user \<Rightarrow> string" where
  "user_nuh u = nuh_text (uname u) (uusername u) (uhost u)"

section \<open>JOIN and PART\<close>

definition m_join :: "cmd_env \<Rightarrow> addr \<Rightarrow> string list \<Rightarrow> net \<Rightarrow> net option" where
  "m_join env x parv s =
    (if empty_arg (parg parv 1) then Some (send_event (Numeric x 461 ''JOIN'') s)
     else channel_do_join (ce_cfg env) x (parv ! 1) (parg parv 2) s)"

definition m_part :: "cmd_env \<Rightarrow> addr \<Rightarrow> string list \<Rightarrow> net \<Rightarrow> net option" where
  "m_part env x parv s =
    (if empty_arg (parg parv 1) then Some (send_event (Numeric x 461 ''PART'') s)
     else do {
       s1 \<leftarrow> (if MyClient (users s x) then end_grace x s else Some s);
       channel_do_part (ce_cfg env) x (parv ! 1) (parg parv 2) s1
     })"

section \<open>KICK\<close>

definition kick_reason :: "user \<Rightarrow> string list \<Rightarrow> string" where
  "kick_reason u parv = strlcpy_str (if empty_arg (parg parv 3) then uname u else parv ! 3) (KICKLEN + 1)"

definition kick_line :: "string \<Rightarrow> string \<Rightarrow> string \<Rightarrow> string \<Rightarrow> string" where
  "kick_line source name target reason = '':'' @ source @ '' KICK '' @ name @ '' '' @ target @ '' :'' @ reason"

definition m_kick :: "cmd_env \<Rightarrow> addr \<Rightarrow> string list \<Rightarrow> net \<Rightarrow> net option" where
  "m_kick env x parv s =
    (if empty_arg (parg parv 2) then Some (send_event (Numeric x 461 ''KICK'') s)
     else do {
       s0 \<leftarrow> end_grace x s;
       (case hash_find_channel (parv ! 1) s0 of
          None \<Rightarrow> Some (send_event (Numeric x 403 (parv ! 1)) s0)
        | Some c \<Rightarrow> do {
            ch \<leftarrow> channels s0 c;
            (case find_channel_link x c s0 of
               None \<Rightarrow> Some (send_event (Numeric x 442 (ch_name ch)) s0)
             | Some m \<Rightarrow>
                 if \<not> has_member_flags (mships s0 m) (CHFL_CHANOP OR CHFL_HALFOP) then Some (send_event (Numeric x 482 (ch_name ch)) s0)
                 else (case find_chasing (ce_dir env) x (parv ! 2) s0 of
                     (None, s1) \<Rightarrow> Some s1
                   | (Some y, s1) \<Rightarrow>
                       (case find_channel_link y c s1 of
                          None \<Rightarrow> Some (send_event (Numeric x 441 (uname (users s1 y) @ '' '' @ ch_name ch)) s1)
                        | Some t \<Rightarrow>
                            if has_member_flags (mships s1 m) CHFL_HALFOP \<and> \<not> has_member_flags (mships s1 m) CHFL_CHANOP \<and>
                              has_member_flags (mships s1 t) (CHFL_CHANOP OR CHFL_HALFOP)
                            then Some (send_event (Numeric x 482 (ch_name ch)) s1)
                            else let u = users s1 x; reason = kick_reason u parv
                              in remove_user_from_channel t
                                   (send_event (ServerText x (kick_line (uid u) (ch_name ch) (uid (users s1 y)) reason))
                                     (send_event (ChannelText c (kick_line (user_nuh u) (ch_name ch) (uname (users s1 y)) reason)) s1)))))
          })
     })"

definition ms_kick :: "cmd_env \<Rightarrow> addr \<Rightarrow> string list \<Rightarrow> net \<Rightarrow> net option" where
  "ms_kick env x parv s =
    (if empty_arg (parg parv 2) then Some s
     else case hash_find_channel (parv ! 1) s of
         None \<Rightarrow> Some s
       | Some c \<Rightarrow>
           (case find_person (ce_dir env) x (parv ! 2) s of
              None \<Rightarrow> Some s
            | Some y \<Rightarrow>
                (case find_channel_link y c s of
                   None \<Rightarrow> Some s
                 | Some t \<Rightarrow> do {
                     ch \<leftarrow> channels s c;
                     let u = users s x; let reason = kick_reason u parv;
                     let source = (if uisclient u then user_nuh u else server_label (ce_cfg env) u);
                     remove_user_from_channel t
                       (send_event (ServerText x (kick_line (uid u) (ch_name ch) (uid (users s y)) reason))
                         (send_event (ChannelText c (kick_line source (ch_name ch) (uname (users s y)) reason)) s))
                   })))"

section \<open>TOPIC\<close>

definition topic_line :: "string \<Rightarrow> Channel \<Rightarrow> string" where
  "topic_line source ch = '':'' @ source @ '' TOPIC '' @ ch_name ch @ '' :'' @ ch_topic ch"

definition m_topic :: "cmd_env \<Rightarrow> addr \<Rightarrow> string list \<Rightarrow> net \<Rightarrow> net option" where
  "m_topic env x parv s =
    (if empty_arg (parg parv 1) then Some (send_event (Numeric x 461 ''TOPIC'') s)
     else do {
       s0 \<leftarrow> end_grace x s;
       (case hash_find_channel (parv ! 1) s0 of
          None \<Rightarrow> Some (send_event (Numeric x 403 (parv ! 1)) s0)
        | Some c \<Rightarrow> do {
            ch \<leftarrow> channels s0 c;
            let u = users s0 x;
            (if length parv > 2 then
               (case find_channel_link x c s0 of
                  None \<Rightarrow> Some (send_event (Numeric x 442 (ch_name ch)) s0)
                | Some m \<Rightarrow>
                    if \<not> has_flag (ch_mode ch) MODE_TOPICLIMIT \<or> has_member_flags (mships s0 m) (CHFL_CHANOP OR CHFL_HALFOP) then do {
                      s1 \<leftarrow> upd_channel c (channel_set_topic (ce_cfg env) (parv ! 2) (strlcpy_str (user_nuh u) USERHOST_REPLYLEN) (CurrentTime (ce_cfg env)) True) s0;
                      ch1 \<leftarrow> channels s1 c;
                      Some (send_event (ChannelText c (topic_line (user_nuh u) ch1)) (send_event (ServerText x (topic_line (uid u) ch1)) s1))
                    } else Some (send_event (Numeric x 482 (ch_name ch)) s0))
             else if \<not> has_flag (ch_mode ch) MODE_SECRET \<or> find_channel_link x c s0 \<noteq> None then
               (if ch_topic ch = [] then Some (send_event (Numeric x 331 (ch_name ch)) s0)
                else Some (send_event (Numeric x 333 (ch_name ch @ '' '' @ ch_topic_info ch @ '' '' @ show_time (ch_topic_time ch)))
                       (send_event (Numeric x 332 (ch_name ch @ '' '' @ ch_topic ch)) s0)))
             else Some (send_event (Numeric x 442 (ch_name ch)) s0))
          })
     })"

text \<open>The third parameter goes to \<open>strlcpy\<close> as it is: without one that is a null pointer.\<close>

definition ms_topic :: "cmd_env \<Rightarrow> addr \<Rightarrow> string list \<Rightarrow> net \<Rightarrow> net option" where
  "ms_topic env x parv s =
    (if empty_arg (parg parv 1) then Some (send_event (Numeric x 461 ''TOPIC'') s)
     else case hash_find_channel (parv ! 1) s of
         None \<Rightarrow> Some (send_event (Numeric x 403 (parv ! 1)) s)
       | Some c \<Rightarrow> do {
           let u = users s x;
           topic \<leftarrow> parg parv 2;
           s1 \<leftarrow> upd_channel c (channel_set_topic (ce_cfg env) topic
                  (strlcpy_str (if uisclient u then user_nuh u else uname u) USERHOST_REPLYLEN) (CurrentTime (ce_cfg env)) False) s;
           ch1 \<leftarrow> channels s1 c;
           let source = (if uisclient u then user_nuh u else server_label (ce_cfg env) u);
           Some (send_event (ChannelText c (topic_line source ch1)) (send_event (ServerText x (topic_line (uid u) ch1)) s1))
         })"

section \<open>INVITE\<close>

text \<open>As in the code, the grace period is ended for clients for which it has already ended.\<close>

fun list_invites :: "addr \<Rightarrow> addr list \<Rightarrow> net \<Rightarrow> net option" where
  "list_invites x [] s = Some (send_event (Numeric x 337 []) s)"
| "list_invites x (c # cs) s = do { ch \<leftarrow> channels s c; list_invites x cs (send_event (Numeric x 336 (ch_name ch)) s) }"

definition count_invite :: "chan_config \<Rightarrow> addr \<Rightarrow> net \<Rightarrow> net" where
  "count_invite cfg x s = upd_user x (\<lambda>u. u\<lparr>uinvite_last := CurrentTime cfg, uinvite_count := uinvite_count u + 1\<rparr>) s"

definition reset_invites :: "chan_config \<Rightarrow> addr \<Rightarrow> net \<Rightarrow> net" where
  "reset_invites cfg x s =
    (if uinvite_last (users s x) + invite_client_time cfg < CurrentTime cfg then upd_user x (\<lambda>u. u\<lparr>uinvite_count := 0\<rparr>) s else s)"

text \<open>The invitation reaches the client \<open>y\<close>, or the server it is on.\<close>

definition deliver_invite :: "cmd_env \<Rightarrow> addr \<Rightarrow> addr \<Rightarrow> addr \<Rightarrow> net \<Rightarrow> net option" where
  "deliver_invite env x y c s = do {
     ch \<leftarrow> channels s c;
     let u = users s x; let t = users s y;
     (if MyConnect t then do {
        let s1 = send_event (ClientText y ('':'' @ user_nuh u @ '' INVITE '' @ uname t @ '' :'' @ ch_name ch)) s;
        (if has_flag (ch_mode ch) MODE_INVITEONLY then
           add_invite (ce_cfg env) c y
             (send_event (OpsText c (''NOTICE %'' @ ch_name ch @ '' :'' @ uname u @ '' is inviting '' @ uname t @ '' to '' @ ch_name ch @ ''.'')) s1)
         else Some s1)
      }
      else if ce_from env y \<noteq> ce_from env x then
        Some (send_event (ClientText y ('':'' @ uid u @ '' INVITE '' @ uid t @ '' '' @ ch_name ch @ '' '' @ show_time (ch_creationtime ch))) s)
      else Some s)
   }"

definition m_invite :: "cmd_env \<Rightarrow> addr \<Rightarrow> string list \<Rightarrow> net \<Rightarrow> net option" where
  "m_invite env x parv s =
    (if length parv < 2 then (if MyConnect (users s x) then list_invites x (uinvited (users s x)) s else None)
     else if empty_arg (parg parv 2) then Some (send_event (Numeric x 461 ''INVITE'') s)
     else do {
       s0 \<leftarrow> (if has_flag (uflags (users s x)) FLAGS_FLOODDONE then flood_endgrace x s else Some s);
       (case find_person (ce_dir env) x (parv ! 1) s0 of
          None \<Rightarrow> Some (send_event (Numeric x 401 (parv ! 1)) s0)
        | Some y \<Rightarrow>
            (case hash_find_channel (parv ! 2) s0 of
               None \<Rightarrow> Some (send_event (Numeric x 403 (parv ! 2)) s0)
             | Some c \<Rightarrow> do {
                 ch \<leftarrow> channels s0 c;
                 (case find_channel_link x c s0 of
                    None \<Rightarrow> Some (send_event (Numeric x 442 (ch_name ch)) s0)
                  | Some m \<Rightarrow>
                      if \<not> has_member_flags (mships s0 m) (CHFL_CHANOP OR CHFL_HALFOP) then Some (send_event (Numeric x 482 (ch_name ch)) s0)
                      else if find_channel_link y c s0 \<noteq> None then Some (send_event (Numeric x 443 (uname (users s0 y) @ '' '' @ ch_name ch)) s0)
                      else if \<not> MyConnect (users s0 x) then None
                      else
                        let s1 = reset_invites (ce_cfg env) x s0 in
                        if uinvite_count (users s1 x) > invite_client_count (ce_cfg env)
                        then Some (send_event (Numeric x 715 (ch_name ch @ '' user'')) s1)
                        else
                          let s2 = count_invite (ce_cfg env) x s1; t = users s2 y;
                              s3 = send_event (Numeric x 341 (uname t @ '' '' @ ch_name ch)) s2;
                              s4 = (if uaway t \<noteq> [] then send_event (Numeric x 301 (uname t @ '' '' @ uaway t)) s3 else s3)
                          in deliver_invite env x y c s4)
               }))
     })"

definition ms_invite :: "cmd_env \<Rightarrow> addr \<Rightarrow> string list \<Rightarrow> net \<Rightarrow> net option" where
  "ms_invite env x parv s =
    (if empty_arg (parg parv 2) then Some s
     else case find_person (ce_dir env) x (parv ! 1) s of
         None \<Rightarrow> Some s
       | Some y \<Rightarrow>
           (case hash_find_channel (parv ! 2) s of
              None \<Rightarrow> Some s
            | Some c \<Rightarrow> do {
                ch \<leftarrow> channels s c;
                (if find_channel_link y c s \<noteq> None then Some s
                 else if length parv > 3 \<and> IsDigit (deref (parv ! 3)) \<and> atoi (parv ! 3) > ch_creationtime ch then Some s
                 else deliver_invite env x y c s)
              }))"

section \<open>MODE and TMODE\<close>

text \<open>\<open>m_mode\<close> for a first parameter that begins like the name of a channel.\<close>

definition m_mode_channel :: "cmd_env \<Rightarrow> addr \<Rightarrow> string list \<Rightarrow> net \<Rightarrow> net option" where
  "m_mode_channel env x parv s =
    (if empty_arg (parg parv 1) then Some (send_event (Numeric x 461 ''MODE'') s)
     else case hash_find_channel (parv ! 1) s of
         None \<Rightarrow> Some (send_event (Numeric x 403 (parv ! 1)) s)
       | Some c \<Rightarrow>
           let u = users s x in
           if length parv < 3 then do {
             ch \<leftarrow> channels s c;
             (modes, params) \<leftarrow> channel_modes c x s;
             Some (send_event (Numeric x 329 (ch_name ch @ '' '' @ show_time (ch_creationtime ch)))
                    (send_event (Numeric x 324 (ch_name ch @ '' '' @ modes @ '' '' @ params)) s))
           }
           else if uisserver u \<or> has_flag (uflags u) FLAGS_SERVICE then set_channel_mode (ce_cfg env) (ce_dir env) x c None (drop 2 parv) s
           else do {
             s0 \<leftarrow> (if MyClient u \<and> \<not> (length parv = 3 \<and> parv ! 2 = ''b'') then end_grace x s else Some s);
             set_channel_mode (ce_cfg env) (ce_dir env) x c (find_channel_link x c s) (drop 2 parv) s0
           })"

text \<open>A change that was made for a younger channel is dropped.\<close>

definition ms_tmode :: "cmd_env \<Rightarrow> addr \<Rightarrow> string list \<Rightarrow> net \<Rightarrow> net option" where
  "ms_tmode env x parv s =
    (case hash_find_channel (parv ! 2) s of
       None \<Rightarrow> Some (send_event (Numeric x 403 (parv ! 2)) s)
     | Some c \<Rightarrow> do {
         ch \<leftarrow> channels s c;
         let u = users s x;
         (if atol (parv ! 1) > ch_creationtime ch then Some s
          else set_channel_mode (ce_cfg env) (ce_dir env) x c
                 (if uisserver u \<or> has_flag (uflags u) FLAGS_SERVICE then None else find_channel_link x c s) (drop 3 parv) s)
       })"

end
