(* ===== verification/ChanSteps.thy ===== *)
theory ChanSteps
  imports Commands
begin

text \<open>
  The channel state machine: JOIN, PART, INVITE, MODE, TOPIC, SJOIN and JOIN of other servers, removals from a channel,
  sending to a channel and changes of host as steps, the invariant in every reachable state, and the properties that rest
  on it. The steps for messages and for the counters of a client make the command handlers runs of this machine.
\<close>

section \<open>The state machine\<close>

text \<open>The configuration, the time in it included, may differ from step to step; what is asked of it is that reserved
  names and their exemptions have no escapes and that a client may have an invitation at all. A MODE comes from any
  source, with masks the mask parser can read. A change of host is what \<open>user_set_hostmask\<close> does for a local client.\<close>

definition sane_config :: "chan_config \<Rightarrow> bool" where
  "sane_config cfg \<longleftrightarrow> plain_resv cfg \<and> 0 < max_channels cfg"

definition set_host :: "addr \<Rightarrow> string \<Rightarrow> net \<Rightarrow> net option" where
  "set_host x h s = clear_ban_cache_client x (upd_user x (\<lambda>u. u\<lparr>uhost := strlcpy_str h (HOSTLEN + 1)\<rparr>) s)"

inductive chan_step :: "net \<Rightarrow> net \<Rightarrow> bool" where
  step_join: "MyClient (users s x) \<Longrightarrow> sane_config cfg \<Longrightarrow> channel_do_join cfg x chans keys s = Some s' \<Longrightarrow> chan_step s s'"
| step_part: "MyClient (users s x) \<Longrightarrow> sane_config cfg \<Longrightarrow> channel_do_part cfg x chans reason s = Some s' \<Longrightarrow> chan_step s s'"
| step_invite: "MyClient (users s x) \<Longrightarrow> sane_config cfg \<Longrightarrow> channels s c \<noteq> None \<Longrightarrow> add_invite cfg c x s = Some s' \<Longrightarrow> chan_step s s'"
| step_leave: "channel_do_join_0 cfg x s = Some s' \<Longrightarrow> chan_step s s'"
| step_mode: "mode_call_ok cfg x c member parv s \<Longrightarrow> set_channel_mode cfg dir x c member parv s = Some s' \<Longrightarrow> chan_step s s'"
| step_send: "channels s c \<noteq> None \<Longrightarrow> sane_config cfg \<Longrightarrow> can_send cfg c x None message s = Some (r, s') \<Longrightarrow> chan_step s s'"
| step_sjoin: "sjoin_call_ok env s \<Longrightarrow> ms_sjoin env s = Some s' \<Longrightarrow> chan_step s s'"
| step_ts_join: "fits s \<Longrightarrow> nicks_ok s \<Longrightarrow> ms_join env pb s = Some (s', pb') \<Longrightarrow> chan_step s s'"
| step_event: "chan_step s (send_event e s)"
| step_grace: "flood_endgrace x s = Some s' \<Longrightarrow> chan_step s s'"
| step_count: "chan_step s (count_invite cfg x s)"
| step_reset: "chan_step s (reset_invites cfg x s)"
| step_topic: "upd_channel c (channel_set_topic cfg topic info topicts local) s = Some s' \<Longrightarrow> chan_step s s'"
| step_kick: "remove_user_from_channel m s = Some s' \<Longrightarrow> chan_step s s'"
| step_host: "MyClient (users s x) \<Longrightarrow> set_host x h s = Some s' \<Longrightarrow> chan_step s s'"

inductive_cases chan_stepE: "chan_step s s'"

definition start_net :: "(addr \<Rightarrow> user) \<Rightarrow> net" where
  "start_net us =
    \<lparr>channels = (\<lambda>_. None), mships = (\<lambda>_. None), users = (\<lambda>x. (us x)\<lparr>uchannel := [], uinvited := []\<rparr>),
     channel_list = [], next_addr = 0, sent = []\<rparr>"

lemma start_net_inv: "chan_inv (start_net us)"
  by (simp add: chan_inv_def shape_ok_def links_ok_def invites_ok_def names_ok_def populated_def plain_net_def start_net_def shape_simps is_local_def)

lemma start_net_cache: "cache_ok (start_net us)"
  by (simp add: cache_ok_def start_net_def)

lemma clear_loop_keeps: "clear_cache_loop ms s = Some s' \<Longrightarrow> shape_of s' = shape_of s \<and> channels s' = channels s"
proof (induction ms arbitrary: s)
  case (Cons m ms)
  then obtain mb where mb: "mships s m = Some mb" "clear_cache_loop ms (s\<lparr>mships := (mships s)(m \<mapsto> clear_cached mb)\<rparr>) = Some s'"
    by (auto simp: bind_eq_Some_conv)
  from Cons.IH [OF mb(2)] show ?case using shape_mflags [OF mb(1)] by (simp add: clear_cached_def)
qed simp

lemma set_host_keeps:
  assumes "chan_inv s" "cache_ok s" "set_host x h s = Some s'"
  shows "keeps_inv s s'" "cache_ok s'"
proof -
  let ?f = "\<lambda>u :: user. u\<lparr>uhost := strlcpy_str h (HOSTLEN + 1)\<rparr>"
  have "shape_of (upd_user x ?f s) = shape_of s" by (rule shape_upd_user_id) simp_all
  then have "shape_of s' = shape_of s" "channels s' = channels s"
    using clear_loop_keeps assms(3) by (auto simp: set_host_def clear_ban_cache_client_def upd_user_def)
  then show "keeps_inv s s'" using keeps_inv_same [OF assms(1)] by blast
  show "cache_ok s'"
    using cache_clear_client [OF assms(2), of x ?f s'] assms(1,3) by (simp add: chan_inv_def set_host_def)
qed

lemma user_note_keeps:
  assumes "chan_inv s" "cache_ok s" "users s' = (users s)(x := u)" "channels s' = channels s" "mships s' = mships s" "channel_list s' = channel_list s" "next_addr s' = next_addr s"
    "uchannel u = uchannel (users s x)" "uinvited u = uinvited (users s x)" "uip u = uip (users s x)" "uisclient u = uisclient (users s x)" "ident u = ident (users s x)"
  shows "keeps_inv s s' \<and> cache_ok s'"
proof -
  have "shape_of s' = shape_of s" using assms(3-11) by (auto simp: shape_of_def MyConnect_def fun_eq_iff)
  moreover have "cache_le s s'" using assms(3-5,12) by (auto simp: cache_le_def)
  ultimately show ?thesis using keeps_inv_same [OF assms(1)] assms(4) cache_le_ok assms(2) by blast
qed

lemma chan_step_keeps:
  "chan_step s s' \<Longrightarrow> chan_inv s \<Longrightarrow> cache_ok s \<Longrightarrow> keeps_inv s s' \<and> cache_ok s'"
proof (induction rule: chan_step.induct)
  case (step_join s x cfg chans keys s')
  then show ?case using do_join_keeps [of s x cfg chans keys] cache_le_ok [OF cache_do_join [of s x cfg chans keys s']] by (auto simp: sane_config_def)
next
  case (step_part s x cfg chans reason s')
  then show ?case using do_part_keeps [of s x cfg chans reason] cache_do_part [of s x cfg] by (auto simp: sane_config_def)
next
  case (step_invite s x cfg c s')
  then obtain ch where "channels s c = Some ch" by auto
  then show ?case using step_invite add_invite_keeps [of s x c ch cfg] cache_le_ok [OF cache_le_add_invite [of cfg c x s s']] by (auto simp: sane_config_def)
next
  case (step_leave cfg x s s')
  then show ?case using join_0_keeps_any [OF step_leave(2), of cfg x] cache_le_ok [OF cache_le_join_0 [of cfg x s s']] by auto
next
  case (step_mode cfg x c member parv s dir s')
  then have "plain_frame c s s'" using set_channel_mode_ok [OF step_mode(1), of dir] by auto
  then have "keeps_inv s s'" using step_mode(3) by (auto simp: plain_frame_def mode_frame_def keeps_inv_def chan_inv_def same_people_def)
  then show ?case using set_channel_mode_cache [OF step_mode(1,4,2)] by blast
next
  case (step_send s c cfg x message r s')
  then obtain ch where ch: "channels s c = Some ch" by auto
  have "shape_of s' = shape_of s" "channels s' = channels s"
    using can_send_ok [OF step_send(4) ch, of cfg None x message] step_send(2,3) by (auto simp: sane_config_def)
  moreover have "cache_ok s'"
    using can_send_cached [of s c ch None x cfg message] step_send ch by (auto simp: chan_inv_def)
  ultimately show ?case using keeps_inv_same [OF step_send(4)] by blast
next
  case (step_topic c cfg topic info topicts local s s')
  then obtain ch where ch: "channels s c = Some ch" by (auto simp: upd_channel_def)
  have s': "shape_of s' = shape_of s" "channels s' c = Some (channel_set_topic cfg topic info topicts local ch)"
    using shape_upd_channel_id [OF ch, of "channel_set_topic cfg topic info topicts local"] step_topic(1) by (auto simp: channel_set_topic_def)
  have "plain_net s'" using step_topic(1,2) by (auto simp: upd_channel_def chan_inv_def plain_net_def plain_chan_def channel_set_topic_def split: if_splits)
  then have "keeps_inv s s'" using step_topic(2) s'(1) by (simp add: keeps_inv_def chan_inv_def same_people_def)
  moreover have "cache_le s s'" by (rule cache_le_channel [OF step_topic(1)]) (simp add: channel_set_topic_def)
  ultimately show ?case using cache_le_ok step_topic(3) by blast
next
  case (step_sjoin env s s')
  then show ?case using ms_sjoin_ok [OF step_sjoin(3,4,1)] same_who_people [of s s'] by (auto simp: keeps_inv_def)
next
  case (step_ts_join s env pb s' pb')
  then show ?case using ms_join_ok [OF step_ts_join(4,5,1,2), of env pb] by auto
next
  case (step_event s e)
  then show ?case using keeps_inv_refl by (simp add: keeps_inv_send)
next
  case (step_grace x s s')
  then show ?case
    by (intro user_note_keeps [of s s' x "(users s x)\<lparr>uflags := add_flag (uflags (users s x)) FLAGS_FLOODDONE\<rparr>"])
      (auto simp: flood_endgrace_def upd_user_def send_event_def ident_def split: if_splits)
next
  case (step_count s cfg x)
  then show ?case
    by (intro user_note_keeps [of s _ x "(users s x)\<lparr>uinvite_last := CurrentTime cfg, uinvite_count := uinvite_count (users s x) + 1\<rparr>"])
      (auto simp: count_invite_def upd_user_def ident_def)
next
  case (step_reset s cfg x)
  have "reset_invites cfg x s = s\<lparr>users := (users s)(x := (users s x)\<lparr>uinvite_count := (if uinvite_last (users s x) + invite_client_time cfg < CurrentTime cfg then 0
      else uinvite_count (users s x))\<rparr>)\<rparr>"
    by (simp add: reset_invites_def upd_user_def)
  then show ?case using step_reset
    by (intro user_note_keeps [of s _ x "(users s x)\<lparr>uinvite_count := (if uinvite_last (users s x) + invite_client_time cfg < CurrentTime cfg then 0
      else uinvite_count (users s x))\<rparr>"]) (auto simp: ident_def)
next
  case (step_kick m s s')
  then obtain mb where "mships s m = Some mb" by (auto simp: remove_user_from_channel_def bind_eq_Some_conv)
  from remove_user_keeps [OF step_kick(2) this] show ?case using step_kick cache_le_ok [OF cache_le_remove] by auto
next
  case (step_host s x h s')
  then show ?case using set_host_keeps by blast
qed

lemma reachable_both: "chan_step\<^sup>*\<^sup>* (start_net us) s \<Longrightarrow> chan_inv s \<and> cache_ok s"
proof (induction rule: rtranclp_induct)
  case (step s s')
  then show ?case using chan_step_keeps [of s s'] by (simp add: keeps_inv_def)
qed (simp add: start_net_inv start_net_cache)

lemmas reachable_inv = reachable_both [THEN conjunct1] and reachable_cache = reachable_both [THEN conjunct2]

section \<open>Properties\<close>

lemma net_ok_invites:
  assumes "net_ok s" "channels s c = Some ch"
  shows "x \<in> set (invites ch) \<longleftrightarrow> c \<in> set (uinvited (users s x))" "distinct (invites ch)"
  using assms invites_okD(1) [of "shape_of s" c] invites_okD(3) [of "shape_of s" x c] by (auto simp: shape_ok_def shape_simps)

lemma net_ok_names:
  assumes "net_ok s"
  shows "c \<in> set (channel_list s) \<longleftrightarrow> channels s c \<noteq> None"
    "channels s c = Some ch \<Longrightarrow> channels s c' = Some ch' \<Longrightarrow> irccmp (ch_name ch) (ch_name ch') = 0 \<Longrightarrow> c = c'"
proof -
  have ok: "names_ok (shape_of s)" using assms by (simp add: shape_ok_def)
  show "c \<in> set (channel_list s) \<longleftrightarrow> channels s c \<noteq> None" using names_okD(2) [OF ok, of c] by (simp add: shape_simps)
  show "channels s c = Some ch \<Longrightarrow> channels s c' = Some ch' \<Longrightarrow> irccmp (ch_name ch) (ch_name ch') = 0 \<Longrightarrow> c = c'"
    using names_okD(5) [OF ok, of c "ch_name ch" c' "ch_name ch'"] by (simp add: shape_simps)
qed

lemma populated_members: "populated (shape_of s) \<Longrightarrow> channels s c = Some ch \<Longrightarrow> members ch \<noteq> []"
  by (fastforce simp: populated_def shape_simps)

definition linked :: "net \<Rightarrow> addr \<Rightarrow> Channel \<Rightarrow> bool" where
  "linked s c ch \<longleftrightarrow>
    members ch \<noteq> [] \<and> distinct (members ch) \<and> distinct (invites ch) \<and> c \<in> set (channel_list s) \<and>
    (\<forall>m. m \<in> set (members ch) \<longleftrightarrow> (\<exists>mb. mships s m = Some mb \<and> mchan mb = c)) \<and>
    locmembers ch = filter (\<lambda>m. \<exists>mb. mships s m = Some mb \<and> MyConnect (users s (mclient mb))) (members ch) \<and>
    (\<forall>x. x \<in> set (invites ch) \<longleftrightarrow> c \<in> set (uinvited (users s x)))"

text \<open>Two clients and a configuration for the examples.\<close>

definition joe :: user where
  "joe = \<lparr>uid = ''42XAAAAAB'', uname = ''joe'', uusername = ''j'', uhost = ''h.org'', usockhost = ''10.0.0.1'', uip = Some (V4 0x0A000001),
     uisclient = True, uisserver = False, uumodes = 0, uflags = 0, uoperflags = 0, uchannel = [], uinvited = [], uclass_max = 0, ucountry = 0,
     ujoin_leave_count = 0, uoper_warn = 0, ulast_join_time = 0, ulast_leave_time = 0, ufirsttime = 0,
     uaway = [], uinvite_last = 0, uinvite_count = 0\<rparr>"

definition ex_config :: chan_config where
  "ex_config = \<lparr>CurrentTime = 1000, joinfloodtime = 10, joinfloodcount = 18, spam_num = 5, spam_time = 60, max_channels = 25, invite_client_time = 300, invite_client_count = 10,
     disable_fake_channels = True, no_join_on_split = False, no_create_on_split = False, oper_pass_resv = True,
     anti_spam_exit_message_time = 300, max_topic_length = 160, splitmode = False, cresv_items = [],
     max_bans = 25, hide_servers = False, me_name = ''irc.example.org''\<rparr>"

definition ex_start :: net where
  "ex_start = start_net (\<lambda>x. joe\<lparr>uname := (if x = 7 then ''joe'' else ''ann'')\<rparr>)"

definition ex_net :: net where
  "ex_net = the (channel_do_join ex_config 7 ''#a,#b'' None ex_start)"

lemma ex_local: "MyClient (users ex_start x)"
  by (simp add: ex_start_def start_net_def joe_def MyClient_def MyConnect_def)

lemma ex_sane: "sane_config ex_config"
  by (simp add: sane_config_def plain_resv_def ex_config_def)

lemma ex_step: "chan_step\<^sup>*\<^sup>* ex_start ex_net"
proof -
  have inv: "chan_inv ex_start" by (simp add: ex_start_def start_net_inv)
  have "plain_resv ex_config" using ex_sane by (simp add: sane_config_def)
  from do_join_keeps [OF inv ex_local this] obtain s where "channel_do_join ex_config 7 ''#a,#b'' None ex_start = Some s" by blast
  then have "channel_do_join ex_config 7 ''#a,#b'' None ex_start = Some ex_net" by (simp add: ex_net_def)
  then show ?thesis using step_join ex_local ex_sane by blast
qed

text \<open>C1: After any sequence of JOIN, PART, INVITE, MODE, TOPIC and host changes, kicks and attempts to send, the channel state is consistent:
  every live channel has a member, lists each of its memberships exactly once, lists in \<open>locmembers\<close> exactly the local
  ones in the same order, and appears in the list of channels; a client lists exactly its own memberships and has at
  most one for a channel; invitations are recorded at both ends; no two channels have names that \<open>irccmp\<close> equates.\<close>

theorem reachable_channels_consistent:
  assumes "chan_step\<^sup>*\<^sup>* (start_net us) s"
  shows "(\<forall>c ch. channels s c = Some ch \<longrightarrow> linked s c ch) \<and>
    (\<forall>x m. m \<in> set (uchannel (users s x)) \<longleftrightarrow> (\<exists>mb. mships s m = Some mb \<and> mclient mb = x)) \<and>
    (\<forall>m m' mb mb'. mships s m = Some mb \<and> mships s m' = Some mb' \<and> mclient mb = mclient mb' \<and> mchan mb = mchan mb' \<longrightarrow> m = m') \<and>
    (\<forall>c c' ch ch'. channels s c = Some ch \<and> channels s c' = Some ch' \<and> irccmp (ch_name ch) (ch_name ch') = 0 \<longrightarrow> c = c')"
proof -
  have ok: "net_ok s" "populated (shape_of s)" using reachable_inv [OF assms] by (auto simp: chan_inv_def)
  have "linked s c ch" if "channels s c = Some ch" for c ch
    unfolding linked_def using net_ok_members [OF ok(1) that] net_ok_invites [OF ok(1) that] net_ok_names(1) [OF ok(1)]
      populated_members [OF ok(2) that] that by simp
  then show ?thesis using net_ok_user [OF ok(1)] net_ok_names(2) [OF ok(1)] by blast
qed

theorem reachable_channels_consistent_witness:
  "\<exists>ch. channels ex_net 0 = Some ch \<and> ch_name ch = ''#a'' \<and> members ch = [1] \<and> linked ex_net 0 ch"
proof -
  have "map_option (\<lambda>ch. (ch_name ch, members ch)) (channels ex_net 0) = Some (''#a'', [1])" by code_simp
  moreover have "\<forall>ch. channels ex_net 0 = Some ch \<longrightarrow> linked ex_net 0 ch"
    using reachable_channels_consistent [OF ex_step [unfolded ex_start_def]] by blast
  ultimately show ?thesis by auto
qed


lemma ex_net_local: "MyClient (users ex_net 7)" "MyClient (users ex_net 8)"
  by code_simp+


text \<open>The conditions under which \<open>can_join\<close> lets a local client into an existing channel.\<close>

definition may_join :: "user \<Rightarrow> addr \<Rightarrow> Channel \<Rightarrow> string option \<Rightarrow> bool" where
  "may_join u c ch key \<longleftrightarrow>
    (has_flag (ch_mode ch) MODE_SSLONLY \<longrightarrow> has_flag (uumodes u) UMODE_SSL) \<and>
    (has_flag (ch_mode ch) MODE_REGONLY \<longrightarrow> has_flag (uumodes u) UMODE_REGISTERED) \<and>
    (has_flag (ch_mode ch) MODE_OPERONLY \<longrightarrow> has_flag (uumodes u) UMODE_OPER) \<and>
    (has_flag (ch_mode ch) MODE_INVITEONLY \<longrightarrow> c \<in> set (uinvited u) \<or> (\<exists>b \<in> set (invexlist ch). ban_matches u b)) \<and>
    (ch_key ch \<noteq> [] \<longrightarrow> key = Some (ch_key ch)) \<and> (ch_limit ch \<noteq> 0 \<longrightarrow> length (members ch) < ch_limit ch) \<and> \<not> banned ch u"

lemmas join_errors = ERR_SSLONLYCHAN_def ERR_NEEDREGGEDNICK_def ERR_OPERONLYCHAN_def ERR_INVITEONLYCHAN_def
  ERR_BADCHANNELKEY_def ERR_CHANNELISFULL_def ERR_BANNEDFROMCHAN_def

lemma can_join_may_join:
  assumes "channels s c = Some ch" "plain_chan ch" "uip (users s x) \<noteq> None"
  shows "can_join x c key s = Some 0 \<longleftrightarrow> may_join (users s x) c ch key"
  unfolding can_join_plain [OF assms] may_join_def Let_def by (simp add: join_errors not_le)

text \<open>C3: A JOIN of one channel name changes the memberships at most by one new membership, of the joining client. If
  its channel existed before, its name is the one asked for up to case, the client satisfied every restriction
  of the channel (secure connection, registration, operator, invitation or exemption, key, limit, bans and
  exceptions), and the client was below its limit of channels.\<close>

theorem join_needs_permission:
  assumes "chan_step\<^sup>*\<^sup>* (start_net us) s" "MyClient (users s x)" "sane_config cfg"
    and r: "join_one cfg x chan key s = Some r"
    and m: "mships (end_state r) m = Some mb" "mships s m = None" and ch: "channels s (mchan mb) = Some ch"
  shows "mclient mb = x \<and> irccmp (ch_name ch) chan = 0 \<and> may_join (users s x) (mchan mb) ch key \<and>
    length (uchannel (users s x)) < (if uclass_max (users s x) \<noteq> 0 then uclass_max (users s x) else max_channels cfg)"
proof -
  have inv: "chan_inv s" using reachable_inv [OF assms(1)] .
  have "joined cfg x chan key s (end_state r)"
    using join_one_keeps [OF inv assms(2), of cfg chan key] r m assms(3) shape_of_simps(5) [of "end_state r" m] shape_of_simps(5) [of s m]
    by (auto simp: sane_config_def)
  then obtain c m' where j: "s_link (shape_of (end_state r)) = (s_link (shape_of s))(m' \<mapsto> (x, c))"
      "length (uchannel (users s x)) < (if uclass_max (users s x) \<noteq> 0 then uclass_max (users s x) else max_channels cfg)"
      "case channels s c of None \<Rightarrow> hash_find_channel chan s = None
       | Some ch \<Rightarrow> hash_find_channel chan s = Some c \<and> can_join x c key s = Some 0"
    unfolding joined_def by blast
  have "s_link (shape_of (end_state r)) m = Some (mclient mb, mchan mb)" "s_link (shape_of s) m = None" using m by (simp_all add: shape_simps)
  with j(1) have mb: "mclient mb = x" "mchan mb = c" by (auto split: if_splits)
  have c: "channels s c = Some ch" "plain_chan ch" using ch mb(2) inv by (auto simp: chan_inv_def plain_net_def)
  have "uip (users s x) \<noteq> None" using assms(2) by (simp add: MyClient_def MyConnect_def)
  from can_join_may_join [OF c this] j(3) have "may_join (users s x) c ch key" by (simp add: c(1))
  moreover have "irccmp (ch_name ch) chan = 0" using j(3) c(1) hash_find_channel_Some [of chan s c] by auto
  ultimately show ?thesis using mb j(2) by blast
qed

theorem join_needs_permission_witness:
  "(case join_one ex_config 8 ''#A'' None ex_net of None \<Rightarrow> False
    | Some r \<Rightarrow> mships (end_state r) 4 = Some \<lparr>mchan = 0, mclient = 8, mflags = 0\<rparr>) \<and>
   (case channels ex_net 0 of None \<Rightarrow> False | Some ch \<Rightarrow> may_join (users ex_net 8) 0 ch None)"
proof -
  have r: "case join_one ex_config 8 ''#A'' None ex_net of None \<Rightarrow> False
    | Some r \<Rightarrow> mships (end_state r) 4 = Some \<lparr>mchan = 0, mclient = 8, mflags = 0\<rparr>"
    by code_simp
  then obtain r' where r': "join_one ex_config 8 ''#A'' None ex_net = Some r'" "mships (end_state r') 4 = Some \<lparr>mchan = 0, mclient = 8, mflags = 0\<rparr>"
    by (auto split: option.splits)
  have "mships ex_net 4 = None" "channels ex_net 0 \<noteq> None" by code_simp+
  then obtain ch where ch: "mships ex_net 4 = None" "channels ex_net 0 = Some ch" by blast
  have "may_join (users ex_net 8) 0 ch None"
    using join_needs_permission [OF ex_step [unfolded ex_start_def] ex_net_local(2) ex_sane r'(1,2) ch(1)] ch(2) by simp
  then show ?thesis using r ch(2) by simp
qed

lemma sent_upd [simp]: "sent (upd_user x f s) = sent s"
  by (simp add: upd_user_def)

lemma sent_del_invites: "del_invites c xs s = Some s' \<Longrightarrow> sent s' = sent s"
proof (induction xs arbitrary: s)
  case (Cons x xs)
  then obtain s1 where s1: "del_invite c x s = Some s1" "del_invites c xs s1 = Some s'" by (auto split: bind_splits)
  then have "sent s1 = sent s" by (auto simp: del_invite_def upd_channel_def upd_user_def split: if_splits)
  then show ?case using Cons.IH [OF s1(2)] by simp
qed simp

lemma sent_remove_user: "remove_user_from_channel m s = Some s' \<Longrightarrow> sent s' = sent s"
  by (auto simp: remove_user_from_channel_def destroy_channel_def clear_invites_def Let_def split: bind_splits if_splits dest: sent_del_invites)

text \<open>A local client that leaves a channel with a reason has the reason shown exactly when it has been connected for
  longer than \<open>anti_spam_exit_message_time\<close>: the call of \<open>can_send\<close> in the condition has no effect on it, because
  \<open>can_send\<close> never returns 0. In particular a moderated channel, a ban or a reserved name does not suppress it.\<close>

lemma part_reason_ignores_can_send:
  assumes "chan_step\<^sup>*\<^sup>* (start_net us) s" "MyClient (users s x)" "sane_config cfg"
    and c: "hash_find_channel name s = Some c" and m: "find_channel_link x c s = Some m" and reason: "reason \<noteq> []"
  shows "\<exists>s'. channel_part_one_client cfg x name reason s = Some s' \<and>
    last (sent s') = PartMsg c x (if ufirsttime (users s x) + anti_spam_exit_message_time cfg < CurrentTime cfg then Some reason else None)"
proof -
  have inv: "chan_inv s" and cfg: "plain_resv cfg" using reachable_inv [OF assms(1)] assms(3) by (auto simp: sane_config_def)
  have my: "MyConnect (users s x)" "uisclient (users s x)" using assms(2) by (auto simp: MyClient_def)
  obtain ch where ch: "channels s c = Some ch" using hash_find_channel_Some [OF c] by blast
  obtain s1 where s1: "(if MyConnect (users s x) \<and> \<not> has_flag (uumodes (users s x)) UMODE_OPER
      then check_spambot_warning cfg x None s else Some s) = Some s1" "shape_of s1 = shape_of s" "channels s1 = channels s" "mships s1 = mships s"
    using spambot_shape [OF my(1), of cfg None] my(1) by (cases "has_flag (uumodes (users s x)) UMODE_OPER") auto
  have "net_ok s" using inv by (simp add: chan_inv_def)
  then have "mships s m \<noteq> None" using find_channel_link_iff [OF _ ch my(2), of m] m by (auto simp: shape_simps)
  moreover have "chan_inv s1" using keeps_inv_same [OF inv s1(2,3)] by (simp add: keeps_inv_def)
  ultimately obtain r s2 where s2: "can_send cfg c x (Some m) reason s1 = Some (r, s2)" "r \<noteq> 0"
    using can_send_ok [of s1 c ch cfg "Some m" x reason] ch s1(3,4) cfg by auto
  obtain s' where s': "channel_part_one_client cfg x name reason s = Some s'" using part_one_keeps [OF inv assms(2) cfg] by blast
  show ?thesis
    using s' s1(1) s2 my(1) reason by (fastforce simp: channel_part_one_client_def c m Let_def send_event_def dest!: sent_remove_user)
qed

section \<open>Strings fit in reachable states\<close>

lemma fits_set_host: "set_host x h s = Some s' \<Longrightarrow> fits s \<Longrightarrow> fits s'"
proof -
  assume a: "set_host x h s = Some s'" "fits s"
  have "fits (upd_user x (\<lambda>u. u\<lparr>uhost := strlcpy_str h (HOSTLEN + 1)\<rparr>) s)"
    using strlcpy_str_fits [of "HOSTLEN + 1" h] by (intro fits_user [OF a(2)]) (simp add: user_fits_def)
  then show ?thesis using a(1) clear_loop_fits by (fastforce simp: set_host_def clear_ban_cache_client_def intro: fits_same)
qed

lemma fits_step:
  assumes "chan_step s s'" "chan_inv s" "cache_ok s" "fits s"
  shows "fits s'"
  using assms(1)
proof cases
  case (step_sjoin env)
  then show ?thesis using ms_sjoin_ok [OF assms(2,3), of env] by auto
next
  case (step_ts_join env pb pb')
  then show ?thesis using ms_join_ok [OF assms(2,3), of env pb] by auto
next
  case (step_event e)
  then show ?thesis using assms(4) by simp
next
  case (step_grace x)
  then show ?thesis using assms(4) by (auto simp: flood_endgrace_def user_fits_def intro!: fits_user split: if_splits)
next
  case (step_count cfg x)
  then show ?thesis using assms(4) by (auto simp: count_invite_def user_fits_def intro!: fits_user)
next
  case (step_reset cfg x)
  then show ?thesis using assms(4) by (auto simp: reset_invites_def user_fits_def intro!: fits_user)
qed (use assms(4) in \<open>auto intro: fits_do_join fits_do_part fits_add_invite fits_join_0 fits_command fits_can_send fits_topic fits_remove fits_set_host\<close>)

lemma reachable_fits:
  assumes "chan_step\<^sup>*\<^sup>* (start_net us) s" "\<And>x. user_fits (us x)"
  shows "fits s"
  using assms(1)
proof (induction rule: rtranclp_induct)
  case base
  show ?case using assms(2) by (simp add: fits_def start_net_def user_fits_def)
next
  case (step s s')
  then show ?case using fits_step reachable_both [OF step(1)] by blast
qed

end
