(* ===== verification/ModeReplay.thy ===== *)
theory ModeReplay
  imports ChanSteps
begin

text \<open>
  The changes a MODE command records, carried out one after the other on the modes the channel had before, give the
  modes the channel has after the command: what is announced is what was done.
\<close>

definition mode_bit :: "char \<Rightarrow> u32 option" where
  "mode_bit c = map_of (map (\<lambda>(m, l). (l, m)) chan_modes) c"

definition text_of :: "string option \<Rightarrow> string" where
  "text_of a = (case a of None \<Rightarrow> [] | Some t \<Rightarrow> t)"

fun replay_mode :: "change \<Rightarrow> u32 \<Rightarrow> u32" where
  "replay_mode (c, a, d) m = (case mode_bit c of None \<Rightarrow> m | Some b \<Rightarrow> if d = MODE_ADD then add_flag m b else del_flag m b)"

fun replay_limit :: "change \<Rightarrow> nat \<Rightarrow> nat" where
  "replay_limit (c, a, d) l = (if c = CHR ''l'' then (if d = MODE_ADD then decimal (text_of a) else 0) else l)"

fun replay_key :: "change \<Rightarrow> string \<Rightarrow> string" where
  "replay_key (c, a, d) k = (if c = CHR ''k'' then (if d = MODE_ADD then text_of a else []) else k)"

lemma mode_bit_simps: "mode_bit (CHR ''l'') = None" "mode_bit (CHR ''k'') = None" "mode_bit NUL = None"
  by (simp_all add: mode_bit_def chan_modes_def)

text \<open>Changes that were dropped do not count.\<close>

lemma replay_shown:
  "fold replay_mode (shown cs) m = fold replay_mode cs m" "fold replay_limit (shown cs) l = fold replay_limit cs l"
  "fold replay_key (shown cs) k = fold replay_key cs k"
  by (induction cs arbitrary: m l k) (auto simp: shown_def mode_bit_simps)

definition replays :: "Channel \<Rightarrow> mode_env \<Rightarrow> mode_state \<Rightarrow> bool" where
  "replays ch0 env ms \<longleftrightarrow> (\<exists>ch. channels (mnet ms) (me_chan env) = Some ch \<and>
    ch_mode ch = fold replay_mode (map (client_change ch) (mode_changes ms)) (ch_mode ch0) \<and>
    ch_limit ch = fold replay_limit (map (client_change ch) (mode_changes ms)) (ch_limit ch0) \<and>
    ch_key ch = fold replay_key (map (client_change ch) (mode_changes ms)) (ch_key ch0) \<and>
    (\<forall>d \<in> set (mode_changes ms). arg d = ArgKey \<longrightarrow> letter d \<noteq> CHR ''l''))"

text \<open>Only the key depends on the channel whose key is shown.\<close>

lemma client_change_key: "ch_key ch' = ch_key ch \<Longrightarrow> client_change ch' = client_change ch"
  by (simp add: fun_eq_iff client_change_def arg_text_def split: change_arg.split)

lemma replay_other_key:
  "\<forall>d \<in> set cs. arg d = ArgKey \<longrightarrow> letter d \<noteq> CHR ''l'' \<Longrightarrow>
    fold replay_limit (map (client_change ch') cs) l = fold replay_limit (map (client_change ch) cs) l"
  "fold replay_mode (map (client_change ch') cs) m = fold replay_mode (map (client_change ch) cs) m"
proof (induction cs arbitrary: l m)
  case (Cons d cs)
  {
    case 1
    then have "replay_limit (client_change ch' d) l = replay_limit (client_change ch d) l"
      by (cases "arg d") (auto simp: client_change_def arg_text_def)
    then show ?case using Cons(1) 1 by simp
  next
    case 2
    show ?case using Cons(2) by (simp add: client_change_def)
  }
qed simp_all

definition same_modes :: "Channel \<Rightarrow> Channel \<Rightarrow> bool" where
  "same_modes ch ch' \<longleftrightarrow> ch_mode ch' = ch_mode ch \<and> ch_limit ch' = ch_limit ch \<and> ch_key ch' = ch_key ch"

lemma same_modes_refl [simp]: "same_modes ch ch"
  by (simp add: same_modes_def)

lemma replays_idle:
  assumes "replays ch0 env ms" "channels (mnet ms) (me_chan env) = Some ch" "channels (mnet ms') (me_chan env) = Some ch'" "same_modes ch ch'"
    and "mode_changes ms' = mode_changes ms \<or>
      (\<exists>d. mode_changes ms' = mode_changes ms @ [d] \<and> mode_bit (letter d) = None \<and> letter d \<notin> {CHR ''l'', CHR ''k''})"
  shows "replays ch0 env ms'"
  using assms client_change_key [of ch' ch] by (auto simp: replays_def same_modes_def client_change_def)

lemma replays_quiet: "replays ch0 env ms \<Longrightarrow> quietly ms ms' \<Longrightarrow> replays ch0 env ms'"
  by (auto simp: replays_def quietly_def quiet_def)

lemma replays_simple:
  assumes "replays ch0 env ms" "simple_change env dir c d ms = Some ms'" "mode_bit c = Some d"
  shows "replays ch0 env ms'"
proof -
  have c: "c \<noteq> CHR ''l''" "c \<noteq> CHR ''k''" using assms(3) mode_bit_simps by auto
  obtain ch where ch: "channels (mnet ms) (me_chan env) = Some ch" using assms(1) by (auto simp: replays_def)
  have key: "client_change (ch\<lparr>ch_mode := m\<rparr>) = client_change ch" for m by (rule client_change_key) simp
  show ?thesis
    using assms ch c key by (cases dir) (auto simp: simple_change_def Let_def set_channel_def upd_channel_def add_change_def
      replays_def client_change_def split: if_split_asm)
qed

text \<open>Dropping an earlier change of the same letter.\<close>

lemma replay_dropped:
  defines "dr c \<equiv> \<lambda>d. if letter d = c \<and> change_dir d = MODE_ADD then d\<lparr>letter := NUL\<rparr> else d"
  shows "mode_bit c = None \<Longrightarrow> fold replay_mode (map (client_change ch) (map (dr c) cs)) m = fold replay_mode (map (client_change ch) cs) m"
    "c \<noteq> CHR ''l'' \<Longrightarrow> fold replay_limit (map (client_change ch) (map (dr c) cs)) l = fold replay_limit (map (client_change ch) cs) l"
    "c \<noteq> CHR ''k'' \<Longrightarrow> fold replay_key (map (client_change ch) (map (dr c) cs)) k = fold replay_key (map (client_change ch) cs) k"
  by (induction cs arbitrary: m l k) (auto simp: dr_def client_change_def mode_bit_simps)

lemmas replay_dropped_map = replay_dropped [unfolded map_map]

lemma drop_earlier_changes: "mode_changes (drop_earlier c ms) =
    map (\<lambda>d. if letter d = c \<and> change_dir d = MODE_ADD then d\<lparr>letter := NUL\<rparr> else d) (mode_changes ms)"
  by (simp add: drop_earlier_def)

lemma replays_limit:
  assumes rep: "replays ch0 env ms" and res: "chm_limit env dir (CHR ''l'') d ms = Some ms'"
  shows "replays ch0 env ms'"
proof -
  obtain ch where ch: "channels (mnet ms) (me_chan env) = Some ch" using rep by (auto simp: replays_def)
  have key: "client_change (ch\<lparr>ch_limit := n\<rparr>) = client_change ch" for n by (rule client_change_key) simp
  have refused: "refuse err num env ms = Some ms' \<Longrightarrow> replays ch0 env ms'" for err num using replays_quiet [OF rep quietly_intros(2)] .
  have "replays ch0 env (ms\<lparr>parn := n\<rparr>)" for n using rep by (simp add: replays_def)
  moreover have "replays ch0 env ms'"
    if "Option.bind (add_change (CHR ''l'') (ArgText (show_nat n)) None MODE_ADD (drop_earlier (CHR ''l'') (ms\<lparr>parn := p\<rparr>)))
      (set_channel (me_chan env) (\<lambda>ch. ch\<lparr>ch_limit := n\<rparr>)) = Some ms'" for n p
    using that rep ch key by (auto simp: add_change_def set_channel_def upd_channel_def replays_def drop_earlier_changes replay_dropped_map mode_bit_simps
        client_change_def [of _ "\<lparr>letter = _, arg = _, change_id = _, change_dir = _\<rparr>"] arg_text_def text_of_def decimal_show_nat split: if_split_asm)
  moreover have "replays ch0 env ms'"
    if "Option.bind (set_channel (me_chan env) (\<lambda>ch. ch\<lparr>ch_limit := 0\<rparr>) ms) (add_change (CHR ''l'') NoArg None MODE_DEL) = Some ms'"
    using that rep ch key by (auto simp: add_change_def set_channel_def upd_channel_def replays_def mode_bit_simps
        client_change_def [of _ "\<lparr>letter = _, arg = _, change_id = _, change_dir = _\<rparr>"] split: if_split_asm)
  ultimately show ?thesis
    using res rep ch refused unfolding chm_limit_def Let_def by (auto split: if_split_asm)
qed

lemma replays_key:
  assumes rep: "replays ch0 env ms" and res: "chm_key env dir (CHR ''k'') d ms = Some ms'"
  shows "replays ch0 env ms'"
proof -
  obtain ch where ch: "channels (mnet ms) (me_chan env) = Some ch" "\<forall>d \<in> set (mode_changes ms). arg d = ArgKey \<longrightarrow> letter d \<noteq> CHR ''l''"
    using rep by (auto simp: replays_def)
  note other = replay_other_key(2) [of "ch\<lparr>ch_key := k\<rparr>" _ _ ch for k] replay_other_key(1) [OF ch(2), of "ch\<lparr>ch_key := k\<rparr>" _ ch for k]
  have refused: "refuse err num env ms = Some ms' \<Longrightarrow> replays ch0 env ms'" for err num using replays_quiet [OF rep quietly_intros(2)] .
  have parn: "replays ch0 env (ms\<lparr>parn := n\<rparr>)" for n using rep by (simp add: replays_def)
  moreover have add: "replays ch0 env ms'"
    if "Option.bind (set_channel (me_chan env) (\<lambda>ch. ch\<lparr>ch_key := k\<rparr>) (ms\<lparr>parn := p\<rparr>)) (\<lambda>ms2. add_change (CHR ''k'') ArgKey None MODE_ADD (drop_earlier (CHR ''k'') ms2)) = Some ms'" for k p
    using that rep ch other by (auto simp: add_change_def set_channel_def upd_channel_def replays_def drop_earlier_changes replay_dropped_map mode_bit_simps
        client_change_def [of _ "\<lparr>letter = _, arg = _, change_id = _, change_dir = _\<rparr>"] arg_text_def text_of_def split: if_split_asm)
  moreover have del: "replays ch0 env ms'"
    if "Option.bind (set_channel (me_chan env) (\<lambda>ch. ch\<lparr>ch_key := []\<rparr>) (ms\<lparr>parn := p\<rparr>)) (add_change (CHR ''k'') (ArgText ''*'') None MODE_DEL) = Some ms'" for p
    using that rep ch other by (auto simp: add_change_def set_channel_def upd_channel_def replays_def mode_bit_simps
        client_change_def [of _ "\<lparr>letter = _, arg = _, change_id = _, change_dir = _\<rparr>"] split: if_split_asm)
  moreover have "ms\<lparr>parn := parn ms\<rparr> = ms" by simp
  ultimately show ?thesis
    using res rep ch(1) refused del [of "parn ms"] del [of "parn ms + 1"] unfolding chm_key_def Let_def by (auto split: if_split_asm)
qed

text \<open>Masks and member status are not among the modes.\<close>

lemma mask_ops_modes:
  assumes "channels s c = Some ch"
  shows "add_id cfg x c b type s = Some (r, t, s') \<Longrightarrow> \<exists>ch'. channels s' c = Some ch' \<and> same_modes ch ch'"
    "del_id c b type s = Some (r, t, s') \<Longrightarrow> \<exists>ch'. channels s' c = Some ch' \<and> same_modes ch ch'"
proof -
  have list: "same_modes ch (set_mask_list type bs ch)" for bs by (simp add: same_modes_def set_mask_list_def)
  have clear: "clear_ban_cache_channel c s = Some s1 \<Longrightarrow> channels s1 = channels s" for s1
    using clear_loop_fits by (auto simp: clear_ban_cache_channel_def bind_eq_Some_conv)
  show "add_id cfg x c b type s = Some (r, t, s') \<Longrightarrow> \<exists>ch'. channels s' c = Some ch' \<and> same_modes ch ch'"
    using assms list by (auto simp: add_id_def Let_def bind_eq_Some_conv upd_channel_def split: if_split_asm prod.splits dest!: clear)
  show "del_id c b type s = Some (r, t, s') \<Longrightarrow> \<exists>ch'. channels s' c = Some ch' \<and> same_modes ch ch'"
    using assms list by (auto simp: del_id_def Let_def bind_eq_Some_conv upd_channel_def split: prod.splits option.split_asm if_split_asm dest!: clear)
qed

lemma add_change_changes: "add_change c a i dir ms = Some ms' \<Longrightarrow> mode_changes ms' = mode_changes ms @ [\<lparr>letter = c, arg = a, change_id = i, change_dir = dir\<rparr>]"
  by (auto simp: add_change_def split: if_splits)

lemma chm_mask_changes:
  assumes "chm_mask type err rpl endrpl env dir c d ms = Some ms'"
  shows "mode_changes ms' = mode_changes ms \<or> (\<exists>d. mode_changes ms' = mode_changes ms @ [d] \<and> letter d = c)"
proof (cases "dir = MODE_QUERY \<or> length (me_parv env) \<le> parn ms")
  case True
  have "quietly ms (ms_send e (list_reply (me_source env) rpl bs (ms\<lparr>errors := f\<rparr>)))" for e bs f
    by (rule quietly_trans [OF quietly_trans [OF quietly_intros(4) quietly_list_reply] quietly_intros(3)])
  then show ?thesis using True assms by (auto simp: chm_mask_def Let_def bind_eq_Some_conv quietly_def split: if_split_asm)
next
  case False
  obtain full ms1 where ms1: "count_param env ms = (full, ms1)" by fastforce
  note fields = count_param_fields [OF ms1]
  have "refuse err num env ms = Some ms' \<Longrightarrow> mode_changes ms' = mode_changes ms" for err num using quietly_intros(2) by (simp add: quietly_def)
  then show ?thesis
    using assms False ms1 fields by (auto simp: chm_mask_def Let_def bind_eq_Some_conv split: if_split_asm dest!: add_change_changes)
qed

lemma chm_status_changes:
  assumes "chm_status level flag skip_add env dir c d ms = Some ms'"
  shows "mode_changes ms' = mode_changes ms \<or> (\<exists>d. mode_changes ms' = mode_changes ms @ [d] \<and> letter d = c)"
proof -
  obtain target s where fc: "find_chasing (me_dir env) (me_source env) (me_parv env ! parn ms) (mnet ms) = (target, s)" by fastforce
  define ms1 where "ms1 = ms\<lparr>parn := Suc (parn ms), mnet := s\<rparr>"
  obtain full ms2 where ms2: "count_param env ms1 = (full, ms2)" by fastforce
  have "mode_changes ms2 = mode_changes ms" using count_param_fields(2) [OF ms2] by (simp add: ms1_def)
  moreover have "mode_changes (once err x num t ms1) = mode_changes ms" for err x num t by (simp add: once_def ms_send_def Let_def ms1_def)
  moreover have "refuse err num env ms = Some ms' \<Longrightarrow> mode_changes ms' = mode_changes ms" for err num using quietly_intros(2) by (simp add: quietly_def)
  moreover have "set_member_flags m f ms3 = Some ms' \<Longrightarrow> mode_changes ms' = mode_changes ms3" for m f ms3 by (auto simp: set_member_flags_def)
  moreover have "mode_changes ms1 = mode_changes ms" by (simp add: ms1_def)
  ultimately show ?thesis
    using assms fc ms2 unfolding chm_status_def Let_def
    by (auto simp: bind_eq_Some_conv ms1_def [symmetric] split: if_split_asm option.split_asm dest!: add_change_changes)
qed

lemma replays_masks:
  assumes rep: "replays ch0 env ms" and c: "mode_bit c = None" "c \<notin> {CHR ''l'', CHR ''k''}"
  shows "chm_mask type err rpl endrpl env dir c d ms = Some ms' \<Longrightarrow> replays ch0 env ms'"
    "chm_status level flag skip_add env dir c d ms = Some ms' \<Longrightarrow> replays ch0 env ms'"
proof -
  obtain ch where ch: "channels (mnet ms) (me_chan env) = Some ch" using rep by (auto simp: replays_def)
  show "replays ch0 env ms'" if res: "chm_mask type err rpl endrpl env dir c d ms = Some ms'"
  proof -
    have "\<exists>ch'. channels (mnet ms') (me_chan env) = Some ch' \<and> same_modes ch ch'"
      using chm_mask_outcome [OF res] mask_ops_modes [OF ch] ch by (auto simp: quiet_def)
    then show ?thesis using replays_idle [OF rep ch] chm_mask_changes [OF res] c by blast
  qed
  show "replays ch0 env ms'" if res: "chm_status level flag skip_add env dir c d ms = Some ms'"
  proof -
    have "channels (mnet ms') (me_chan env) = Some ch" using chm_status_outcome [OF res] ch by (auto simp: quiet_def)
    then show ?thesis using replays_idle [OF rep ch _ same_modes_refl] chm_status_changes [OF res] c by blast
  qed
qed

lemma ModeTable_letters:
  assumes "\<And>c d. P c chm_nosuch d" "\<And>c d. mode_bit c = Some d \<Longrightarrow> P c chm_simple d" "\<And>c d. mode_bit c = Some d \<Longrightarrow> P c chm_registered d"
    "\<And>c d. mode_bit c = Some d \<Longrightarrow> P c chm_operonly d"
    "\<And>c d f. mode_bit c = None \<Longrightarrow> c \<notin> {CHR ''l'', CHR ''k''} \<Longrightarrow> f \<in> {chm_ban, chm_except, chm_invex, chm_voice, chm_hop, chm_op} \<Longrightarrow> P c f d"
    "\<And>d. P (CHR ''l'') chm_limit d" "\<And>d. P (CHR ''k'') chm_key d"
  shows "P c (fst (ModeTable c)) (snd (ModeTable c))"
  by (simp add: ModeTable_def mode_bit_def chan_modes_def assms)

lemma replays_handler:
  assumes rep: "replays ch0 env ms" and res: "fst (ModeTable c) env dir c (snd (ModeTable c)) ms = Some ms'"
  shows "replays ch0 env ms'"
proof -
  note refused = replays_quiet [OF rep quietly_intros(2)] and told = replays_quiet [OF rep quietly_intros(1)]
  let ?P = "\<lambda>c f d. f env dir c d ms = Some ms' \<longrightarrow> replays ch0 env ms'"
  have "?P c (fst (ModeTable c)) (snd (ModeTable c))"
  proof (rule ModeTable_letters)
    show "?P c chm_nosuch d" for c d using told by (auto simp: chm_nosuch_def)
    show "?P c chm_simple d" "?P c chm_registered d" "?P c chm_operonly d" if "mode_bit c = Some d" for c d
      using refused told replays_simple [OF rep _ that] by (auto simp: chm_simple_def chm_registered_def chm_operonly_def Let_def)
    show "?P c f d" if "mode_bit c = None" "c \<notin> {CHR ''l'', CHR ''k''}" "f \<in> {chm_ban, chm_except, chm_invex, chm_voice, chm_hop, chm_op}" for c f d
      using that(3) replays_masks [OF rep that(1,2)]
      by (auto simp: chm_ban_def chm_except_def chm_invex_def chm_voice_def chm_hop_def chm_op_def)
  qed (use replays_limit [OF rep] replays_key [OF rep] in auto)
  then show ?thesis using res by blast
qed

lemma mode_loop_replays:
  assumes "mode_loop env ml dir (mode_start s) = Some ms" "channels s (me_chan env) = Some ch0"
  shows "replays ch0 env ms"
proof -
  have "True \<and> replays ch0 env ms"
    by (rule mode_loop_induct [OF assms(1), where R = "\<lambda>_ _. True" and I = "replays ch0 env"])
      (use assms(2) replays_handler in \<open>auto simp: mode_start_def replays_def\<close>)
  then show ?thesis by simp
qed

end
