(* ===== verification/ModeProps.thy ===== *)
theory ModeProps
  imports ModeReplay
begin

text \<open>
  Properties of MODE: who may change what, that a command runs to its end and reports what it did, that the masks
  it prints can be used to remove what it added, and the faults that masks and keys still reach.
\<close>

section \<open>Half-operators\<close>

















section \<open>Properties\<close>

text \<open>An example: operator 7 and plain member 8 of channel 0, with a directory that knows both by nick.\<close>

definition ex_dir :: directory where
  "ex_dir = \<lparr>dir_id = (\<lambda>_. None), dir_client = (\<lambda>n. if n = ''joe'' then Some 7 else if n = ''ann'' then Some 8 else None),
     dir_history = (\<lambda>_. None), dir_from_server = (\<lambda>_. False)\<rparr>"

definition ex_two :: net where
  "ex_two = the (channel_do_join ex_config 8 ''#a'' None ex_net)"

lemma ex_two_steps: "chan_step\<^sup>*\<^sup>* (start_net (\<lambda>x. joe\<lparr>uname := (if x = 7 then ''joe'' else ''ann'')\<rparr>)) ex_two"
proof -
  have "chan_inv ex_net" using reachable_inv ex_step [unfolded ex_start_def] by blast
  then have "channel_do_join ex_config 8 ''#a'' None ex_net \<noteq> None"
    using do_join_keeps [OF _ ex_net_local(2), of ex_config "''#a''" None] ex_sane by (auto simp: sane_config_def)
  then have "chan_step ex_net ex_two" using step_join [OF ex_net_local(2) ex_sane] by (auto simp: ex_two_def)
  then show ?thesis using ex_step [unfolded ex_start_def] by simp
qed






lemma link_of_member:
  assumes "net_ok s" "find_channel_link x c s = Some m"
  shows "\<exists>mb. mships s m = Some mb \<and> mchan mb = c \<and> mclient mb = x"
proof -
  obtain ch where "channels s c = Some ch" "uisclient (users s x)"
    using assms(2) by (auto simp: find_channel_link_def split: if_splits option.splits)
  then show ?thesis using find_channel_link_iff [OF assms(1), of c ch x m] assms(2) by (auto simp: shape_simps)
qed

text \<open>C9: In every reachable state a MODE command of any source, with at most \<open>MAXPARA\<close> parameters and a mode string within
  the line length, runs to its end, provided that its parameters, taken as masks, contain no escapes and are masks
  that \<open>parse_netmask\<close> can read: the arrays of changes, of mode letters and of parameters are not overrun and no
  released object is used. It leaves every other channel, all clients and the links between channels, members and
  invitations as they were.\<close>

theorem mode_command_never_faults:
  assumes reach: "chan_step\<^sup>*\<^sup>* (start_net us) s" and fit: "\<forall>x. user_fits (us x)" "length (me_name cfg) \<le> HOSTLEN"
    and c: "channels s c \<noteq> None" and parv: "length (m # ps) \<le> MAXPARA" "length m \<le> IRCD_BUFSIZE" "\<forall>p \<in> set ps. good_mask p"
  shows "\<exists>s'. set_channel_mode cfg dir x c (find_channel_link x c s) (m # ps) s = Some s' \<and> chan_step s s' \<and>
    users s' = users s \<and> shape_of s' = shape_of s \<and> (\<forall>c'. c' \<noteq> c \<longrightarrow> channels s' c' = channels s c')"
proof -
  have ok: "net_ok s" "fits s" using reachable_inv [OF reach] reachable_fits [OF reach] fit(1) by (auto simp: chan_inv_def)
  have call: "mode_call_ok cfg x c (find_channel_link x c s) (m # ps) s"
    using ok c parv fit(2) link_of_member [OF ok(1), of x c] by (auto simp: mode_call_ok_def names_fit_def fits_def chan_fits_def split: option.split)
  obtain s' where s': "set_channel_mode cfg dir x c (find_channel_link x c s) (m # ps) s = Some s'" "plain_frame c s s'"
    using set_channel_mode_ok [OF call, of dir] by blast
  then show ?thesis using step_mode [OF call s'(1)] by (auto simp: plain_frame_def mode_frame_def)
qed

theorem mode_command_never_faults_witness:
  "\<exists>s'. set_channel_mode ex_config ex_dir 7 0 (find_channel_link 7 0 ex_two) [''+bo-m'', ''x!y@z'', ''ann''] ex_two = Some s' \<and>
    channels s' 2 = channels ex_two 2"
proof -
  have "good_mask ''x!y@z''" "good_mask ''ann''" "channels ex_two 0 \<noteq> None" "length (me_name ex_config) \<le> HOSTLEN"
    "length [''+bo-m'', ''x!y@z'', ''ann''] \<le> MAXPARA" "length ''+bo-m'' \<le> IRCD_BUFSIZE" by code_simp+
  moreover have "user_fits (joe\<lparr>uname := (if x = 7 then ''joe'' else ''ann'')\<rparr>)" for x :: addr
    by (simp add: user_fits_def joe_def IDLEN_def HOSTLEN_def USERLEN_def)
  ultimately show ?thesis
    using mode_command_never_faults [OF ex_two_steps, of ex_config 0 "''+bo-m''" "[''x!y@z'', ''ann'']" ex_dir 7] by auto
qed






text \<open>C10: The cached answers of the ban test never show: in every reachable state \<open>can_send\<close> gives the same answer for a
  client and a channel as it gives when every cached answer has been forgotten.\<close>

theorem ban_cache_transparent:
  assumes "chan_step\<^sup>*\<^sup>* (start_net us) s" and c: "channels s c \<noteq> None"
  shows "map_option fst (can_send cfg c x (find_channel_link x c s) message s) =
    map_option fst (can_send cfg c x (find_channel_link x c s) message (forget s))"
proof -
  obtain ch where ch: "channels s c = Some ch" using c by blast
  have inv: "net_ok s" "plain_net s" "cache_ok s" using reachable_both [OF assms(1)] by (auto simp: chan_inv_def)
  show ?thesis using can_send_cached [OF inv ch, of "find_channel_link x c s" x cfg message] link_of_member [OF inv(1), of x c] by blast
qed

theorem ban_cache_transparent_witness:
  "map_option fst (can_send ex_config 0 8 (find_channel_link 8 0 ex_two) ''hello'' ex_two) =
    map_option fst (can_send ex_config 0 8 (find_channel_link 8 0 ex_two) ''hello'' (forget ex_two))"
proof -
  have "channels ex_two 0 \<noteq> None" by code_simp
  then show ?thesis by (rule ban_cache_transparent [OF ex_two_steps])
qed

text \<open>The parts of a mask are such that the printed mask has the same parts.\<close>

lemma mask_parts_shape:
  assumes "mask_parts b = (n, u, h)"
  shows "n \<noteq> []" "u \<noteq> []" "h \<noteq> []" "CHR ''!'' \<notin> set n" "CHR ''@'' \<notin> set u" "\<forall>c \<in> set n \<union> set u \<union> set h. \<not> IsSpace c"
proof -
  define t where "t = check_string b"
  have star: "\<not> IsSpace (CHR ''*'')" by (simp add: IsSpace_def has_attr_SPACE)
  have t: "t \<noteq> []" "\<forall>c \<in> set t. \<not> IsSpace c"
    using star by (auto simp: t_def check_string_def Let_def dest: set_takeWhileD)
  define orst where "orst q = (if q = [] then ''*'' else q)" for q :: string
  have sub: "set (strlcpy_str q (Suc k)) \<subseteq> set q" "q \<noteq> [] \<Longrightarrow> 0 < k \<Longrightarrow> strlcpy_str q (Suc k) \<noteq> []" for q k
    by (auto simp: strlcpy_str_def dest: in_set_takeD)
  have rest: "set (tl (dropWhile P q)) \<subseteq> set q" for P and q :: string
    by (metis dropWhile_eq_drop drop_Suc set_drop_subset tl_drop)
  have pos: "NICKLEN > 0" "USERLEN > 0" "HOSTLEN > 0" by (simp_all add: NICKLEN_def USERLEN_def HOSTLEN_def)
  obtain n0 u0 h0 where parts: "n = strlcpy_str n0 (Suc NICKLEN)" "u = strlcpy_str u0 (Suc USERLEN)" "h = strlcpy_str h0 (Suc HOSTLEN)"
      and raw: "n0 \<noteq> []" "u0 \<noteq> []" "h0 \<noteq> []" "CHR ''!'' \<notin> set n0" "CHR ''@'' \<notin> set u0"
        "set n0 \<union> set u0 \<union> set h0 \<subseteq> set t \<union> {CHR ''*''}"
  proof (cases "CHR ''!'' \<in> set t")
    case True
    let ?p = "tl (dropWhile (\<lambda>c. c \<noteq> CHR ''!'') t)"
    let ?q = "if CHR ''@'' \<in> set ?p then tl (dropWhile (\<lambda>c. c \<noteq> CHR ''@'') ?p) else []"
    have p: "set ?p \<subseteq> set t" "set ?q \<subseteq> set ?p" using rest by auto
    show thesis
      using assms True p by (intro that [of "orst (takeWhile (\<lambda>c. c \<noteq> CHR ''!'') t)" "orst (takeWhile (\<lambda>c. c \<noteq> CHR ''@'') ?p)" "orst ?q"])
        (auto simp: mask_parts_def split_nuh_def Let_def t_def [symmetric] orst_def dest: set_takeWhileD)
  next
    case no: False
    show thesis
    proof (cases "CHR ''@'' \<in> set t")
      case True
      let ?q = "tl (dropWhile (\<lambda>c. c \<noteq> CHR ''@'') t)"
      have q: "set ?q \<subseteq> set t" using rest .
      show thesis
        using assms no True q by (intro that [of "''*''" "orst (takeWhile (\<lambda>c. c \<noteq> CHR ''@'') t)" "orst ?q"])
          (auto simp: mask_parts_def split_nuh_def Let_def t_def [symmetric] orst_def dest: set_takeWhileD)
    next
      case False
      show thesis
        using assms no False t(1) by (cases "CHR ''.'' \<in> set t \<or> CHR '':'' \<in> set t")
          (rule that [of "''*''" "''*''" t], simp_all add: mask_parts_def split_nuh_def Let_def t_def [symmetric],
           rule that [of t "''*''" "''*''"], auto)
    qed
  qed
  show "n \<noteq> []" "u \<noteq> []" "h \<noteq> []" using parts raw(1-3) sub(2) pos by simp_all
  show "CHR ''!'' \<notin> set n" "CHR ''@'' \<notin> set u" using parts(1,2) raw(4,5) sub(1) [of n0] sub(1) [of u0] by auto
  have "set n \<union> set u \<union> set h \<subseteq> set t \<union> {CHR ''*''}"
    using parts raw(6) sub(1) [of n0 NICKLEN] sub(1) [of u0 USERLEN] sub(1) [of h0 HOSTLEN] by simp blast
  then show "\<forall>c \<in> set n \<union> set u \<union> set h. \<not> IsSpace c" using t(2) star by blast
qed

lemma mask_parts_again:
  assumes "mask_parts b = (n, u, h)"
  shows "mask_parts (nuh_text n u h) = (n, u, h)"
proof -
  note p = mask_parts_shape [OF assms]
  have "\<not> IsSpace (CHR ''!'')" "\<not> IsSpace (CHR ''@'')" by (simp_all add: IsSpace_def has_attr_SPACE)
  then have "takeWhile (\<lambda>c. \<not> IsSpace c) (nuh_text n u h) = nuh_text n u h" using p(6) by (auto simp: nuh_text_def takeWhile_eq_all_conv)
  then have t: "check_string (nuh_text n u h) = nuh_text n u h" by (simp add: check_string_def nuh_text_def)
  have nick: "takeWhile (\<lambda>c. c \<noteq> CHR ''!'') (nuh_text n u h) = n" "dropWhile (\<lambda>c. c \<noteq> CHR ''!'') (nuh_text n u h) = ''!'' @ u @ ''@'' @ h"
    using p(4) by (auto simp: nuh_text_def takeWhile_append dropWhile_append)
  have user: "takeWhile (\<lambda>c. c \<noteq> CHR ''@'') (u @ ''@'' @ h) = u" "dropWhile (\<lambda>c. c \<noteq> CHR ''@'') (u @ ''@'' @ h) = ''@'' @ h"
    using p(5) by (auto simp: takeWhile_append dropWhile_append)
  have "strlcpy_str n (Suc NICKLEN) = n" "strlcpy_str u (Suc USERLEN) = u" "strlcpy_str h (Suc HOSTLEN) = h"
    using mask_parts_lengths [OF assms] by (simp_all add: strlcpy_str_def)
  moreover have "CHR ''!'' \<in> set (nuh_text n u h)" by (simp add: nuh_text_def)
  ultimately show ?thesis
    using p(1-3) unfolding mask_parts_def split_nuh_def t nick Let_def by (simp add: user [simplified])
qed

lemma set_mask_list_undo:
  "type \<in> {CHFL_BAN, CHFL_EXCEPTION, CHFL_INVEX} \<Longrightarrow> mask_list type ch = Some bs \<Longrightarrow> set_mask_list type bs (set_mask_list type bs' ch) = ch"
  "type \<in> {CHFL_BAN, CHFL_EXCEPTION, CHFL_INVEX} \<Longrightarrow> mask_list type (set_mask_list type bs' ch) = Some bs'"
  unfolding set_mask_list_def mask_list_def by (cases ch; force split: if_splits)+

lemma del_after_add:
  assumes ok: "net_ok s" and type: "type \<in> {CHFL_BAN, CHFL_EXCEPTION, CHFL_INVEX}" and add: "add_id cfg x c banid type s = Some (True, t, s1)"
  shows "\<exists>s2. del_id c t type s1 = Some (True, t, s2) \<and> channels s2 = channels s \<and> users s2 = users s"
proof -
  obtain ch where ch: "channels s c = Some ch" using add by (auto simp: add_id_def bind_eq_Some_conv)
  obtain n u h where parts: "mask_parts (if MyClient (users s x) then collapse banid else banid) = (n, u, h)" by (metis prod_cases3)
  obtain s0 where s0: "(if type = CHFL_BAN \<or> type = CHFL_EXCEPTION then clear_ban_cache_channel c s else Some s) = Some s0" "plain_frame c s s0" "channels s0 = channels s"
    using plain_frame_clear [OF ok ch] by blast
  obtain bs mk where t: "t = strlcpy_str (nuh_text n u h) IRCD_BUFSIZE" "mask_list type ch = Some bs"
      "upd_channel c (set_mask_list type (\<lparr>bname = n, buser = u, bhost = h, bwho = ban_who cfg (users s x), blen = length (nuh_text n u h) - 2,
         bwhen = CurrentTime cfg, bmask = mk\<rparr> # bs)) s0 = Some s1"
    using add ch parts s0(1) by (auto simp: add_id_def Let_def bind_eq_Some_conv split: if_split_asm)
  define bn where "bn = \<lparr>bname = n, buser = u, bhost = h, bwho = ban_who cfg (users s x), blen = length (nuh_text n u h) - 2, bwhen = CurrentTime cfg, bmask = mk\<rparr>"
  have bn: "same_mask n u h bn" "upd_channel c (set_mask_list type (bn # bs)) s0 = Some s1" using t(3) by (simp_all add: bn_def same_mask_def)
  have "length (nuh_text n u h) < IRCD_BUFSIZE"
    using mask_parts_lengths [OF parts] by (simp add: length_nuh_text NICKLEN_def USERLEN_def HOSTLEN_def IRCD_BUFSIZE_def)
  then have whole: "strlcpy_str (nuh_text n u h) IRCD_BUFSIZE = nuh_text n u h" by (simp add: strlcpy_str_def)
  have s1: "s1 = s0\<lparr>channels := (channels s)(c \<mapsto> set_mask_list type (bn # bs) ch)\<rparr>" using bn(2) s0(3) ch by (auto simp: upd_channel_def)
  have net1: "net_ok s1" "users s1 = users s"
  proof -
    have "shape_of s1 = shape_of s0"
      using shape_upd_channel_id [of s0 c ch "set_mask_list type (bn # bs)"] ch s0(3) bn(2) by auto
    then show "net_ok s1" "users s1 = users s" using ok s0(2) s1 by (auto simp: plain_frame_def mode_frame_def)
  qed
  have ch1: "channels s1 c = Some (set_mask_list type (bn # bs) ch)" by (simp add: s1)
  obtain s2 where s2: "(if type = CHFL_BAN \<or> type = CHFL_EXCEPTION then clear_ban_cache_channel c s1 else Some s1) = Some s2" "plain_frame c s1 s2" "channels s2 = channels s1"
    using plain_frame_clear [OF net1(1) ch1] by blast
  have "upd_channel c (set_mask_list type (remove1 bn (bn # bs))) s2 = Some (s2\<lparr>channels := channels s\<rparr>)"
    using set_mask_list_undo(1) [OF type t(2)] ch by (simp add: upd_channel_def s2(3) s1 fun_upd_idem)
  moreover have "users s2 = users s" using s2(2) net1(2) by (auto simp: plain_frame_def mode_frame_def)
  ultimately show ?thesis
    using ch1 s2(1) bn(1) mask_parts_again [OF parts] by (simp add: del_id_def t(1) whole set_mask_list_undo(2) [OF type])
qed

text \<open>C11: Removing what was just added restores the lists: when \<open>add_id\<close> has added a ban, an exception or an invitation
  exemption and left \<open>t\<close> to be announced, \<open>del_id\<close> of \<open>t\<close> finds the entry, announces the same
  and gives back the channels as they were.\<close>

theorem unban_undoes_ban:
  assumes "chan_step\<^sup>*\<^sup>* (start_net us) s" "type \<in> {CHFL_BAN, CHFL_EXCEPTION, CHFL_INVEX}" "add_id cfg x c banid type s = Some (True, t, s1)"
  shows "\<exists>s2. del_id c t type s1 = Some (True, t, s2) \<and> channels s2 = channels s \<and> users s2 = users s"
  using del_after_add reachable_inv [OF assms(1)] assms(2,3) by (simp add: chan_inv_def)

theorem unban_undoes_ban_witness:
  "case add_id ex_config 7 0 ''x!y@**.org'' CHFL_BAN ex_two of None \<Rightarrow> False
   | Some (r, t, s1) \<Rightarrow> t = ''x!y@*.org'' \<and> map_option (\<lambda>(r, t, s2). (r, t)) (del_id 0 t CHFL_BAN s1) = Some (True, t)"
proof -
  have "map_option (\<lambda>(r, t, s1). (r, t)) (add_id ex_config 7 0 ''x!y@**.org'' CHFL_BAN ex_two) = Some (True, ''x!y@*.org'')" by code_simp
  then obtain s1 where s1: "add_id ex_config 7 0 ''x!y@**.org'' CHFL_BAN ex_two = Some (True, ''x!y@*.org'', s1)" by auto
  from unban_undoes_ban [OF ex_two_steps _ s1] s1 show ?thesis by auto
qed

section \<open>Faults that masks reach\<close>




text \<open>C12: In every state that the channel commands reach from clients whose names fit their arrays, every name, key,
  topic, mask and host is shorter than the array that holds it, and the recorded length of a mask is the length of
  its parts.\<close>

theorem reachable_strings_fit:
  assumes "chan_step\<^sup>*\<^sup>* (start_net us) s" "\<forall>x. user_fits (us x)"
  shows "(\<forall>x. user_fits (users s x)) \<and> (\<forall>c ch. channels s c = Some ch \<longrightarrow> chan_fits ch)"
  using reachable_fits [OF assms(1)] assms(2) by (simp add: fits_def)

theorem reachable_strings_fit_witness:
  "\<exists>ch. channels ex_two 0 = Some ch \<and> chan_fits ch \<and> user_fits (users ex_two 8)"
proof -
  have "channels ex_two 0 \<noteq> None" by code_simp
  moreover have "\<forall>x :: addr. user_fits (joe\<lparr>uname := (if x = 7 then ''joe'' else ''ann'')\<rparr>)"
    by (simp add: user_fits_def joe_def IDLEN_def HOSTLEN_def USERLEN_def)
  ultimately show ?thesis using reachable_strings_fit [OF ex_two_steps] by blast
qed

end
