(* ===== verification/SjoinProps.thy ===== *)
theory SjoinProps
  imports ChanSteps
begin

text \<open>
  What the message SJOIN means: the rules of the creation times, that the two sides of a link end with the same modes,
  and inputs for which the line sent on to other servers says something else than was received.
\<close>

section \<open>The rules of the creation times\<close>

lemma no_status_flags: "\<not> has_flag (mflags (no_status mb)) OPV" "\<not> has_flag (mflags (clear_cached (no_status mb))) OPV"
proof -
  have "\<not> has_flag (mflags (no_status mb)) f" if "f \<in> {CHFL_CHANOP, CHFL_HALFOP, CHFL_VOICE}" for f
    using that by (auto simp: no_status_def drop_flag_def has_flag_del_other CHFL_CHANOP_def CHFL_HALFOP_def CHFL_VOICE_def)
  then show "\<not> has_flag (mflags (no_status mb)) OPV" by (simp add: OPV_def has_flag_or)
  then show "\<not> has_flag (mflags (clear_cached (no_status mb))) OPV" by (simp add: clear_cached_opv)
qed

lemma lost_member_Some:
  assumes "lost_member c (Some mb) o'"
  shows "\<exists>mb'. o' = Some mb' \<and> mclient mb' = mclient mb \<and> mchan mb' = mchan mb \<and> (if mchan mb \<noteq> c then mb' = mb else \<not> has_flag (mflags mb') OPV)"
proof (cases "mchan mb = c")
  case True
  then have "o' = Some (no_status mb) \<or> o' = Some (clear_cached (no_status mb))" using assms by (auto simp: lost_member_def in_channel_def)
  moreover have "mclient (no_status mb) = mclient mb" "mchan (no_status mb) = mchan mb" by (simp_all add: no_status_def drop_flag_def)
  ultimately show ?thesis using True no_status_flags [of mb] by auto
next
  case False
  then show ?thesis using assms by (simp add: lost_member_def in_channel_def)
qed

lemma lost_member_None: "lost_member c None o' \<Longrightarrow> o' = None"
  by (simp add: lost_member_def in_channel_def)

definition mask_lists :: "Channel \<Rightarrow> Ban list \<times> Ban list \<times> Ban list" where
  "mask_lists ch = (banlist ch, exceptlist ch, invexlist ch)"

lemma sjoin_existing:
  assumes inv: "chan_inv s" "cache_ok s" and call: "sjoin_call_ok env s" "uisserver (users s (sj_source env))" "check_channel_name (sj_cfg env) (sj_parv env ! 2) False"
    and md: "sjoin_modes (sj_parv env) (sj_parv env ! 3) 0 no_mode = Some (Some (n, md))"
    and c: "hash_find_channel (sj_parv env ! 2) s = Some c" "channels s c = Some ch"
    and ts: "sjoin_ts False (ch_creationtime ch) (bogus_ts (sj_ignore_bogus_ts env) (ch_creationtime ch) (atol (sj_parv env ! 1))) = (ts, ko, kn)"
  shows "\<exists>s' ch'. ms_sjoin env s = Some s' \<and> channels s' c = Some ch' \<and> ch_creationtime ch' = ts \<and>
    chan_mode_of ch' = merge_modes ko kn md (chan_mode_of ch) \<and> mask_lists ch' = (if ko then mask_lists ch else ([], [], [])) \<and>
    (\<forall>t \<in> set (nick_words (sj_parv env ! (4 + n))). \<forall>y. introduces env s t y \<longrightarrow> is_member y c s') \<and>
    (\<forall>m mb. mships s m = Some mb \<longrightarrow> (\<exists>mb'. mships s' m = Some mb' \<and> mclient mb' = mclient mb \<and> mchan mb' = mchan mb \<and>
      (if ko \<or> mchan mb \<noteq> c then mb' = mb else \<not> has_flag (mflags mb') OPV))) \<and>
    (\<forall>m mb. mships s' m = Some mb \<longrightarrow> mships s m = None \<longrightarrow> mchan mb = c \<and> (\<not> kn \<longrightarrow> mflags mb = 0))"
proof -
  let ?parv = "sj_parv env"
  have env: "5 \<le> length ?parv" "length (sj_modebuf env) = MODEBUFLEN" "fits s" "nicks_ok s" "history_ok (sj_dir env) s"
    using call(1) by (auto simp: sjoin_call_ok_def)
  have start: "mode_fits no_mode" by (simp add: mode_fits_def no_mode_def)
  have md_fits: "mode_fits md" using sjoin_modes_ok [OF _ start, of 0 ?parv "?parv ! 3"] env(1) md by auto
  have s1: "sjoin_channel env s = Some (c, False, s)" "sj_inv c s" "False \<or> s_mem (shape_of s) c \<noteq> []" "\<not> False \<longrightarrow> irccmp (ch_name ch) (?parv ! 2) = 0"
    using sjoin_channel_ok [OF inv env(3,4) call(3)] c by auto
  have len: "length (?parv ! 2) \<le> CHANNELLEN" using call(3) by (auto simp: check_channel_name_def split: list.splits)
  define ch2 where "ch2 = set_chan_mode (merge_modes ko kn md (chan_mode_of ch)) (ch\<lparr>ch_creationtime := ts\<rparr>)"
  from sjoin_apply_ok [OF s1(2) inv(2) env(5) c(2) s1(3) env(2) len s1(4) md_fits ts, of n] obtain s3 s4 s' where
    s': "sjoin_apply env c False n md s = Some s'" and grown: "grown c (\<lambda>fl. \<not> kn \<longrightarrow> fl = 0) s3 s4" and ended: "ended c False s4 s'" and
    intro: "\<forall>t \<in> set (nick_words (?parv ! (4 + n))). \<forall>y. introduces env s t y \<longrightarrow> is_member y c s4" and
    res: "if ko then channels s3 = (channels s)(c \<mapsto> ch2) \<and> mships s3 = mships s
      else channels s3 c = Some (lost_topic (sj_cfg env) (lost (?parv ! 2) ch2)) \<and> (\<forall>m. lost_member c (mships s m) (mships s3 m))"
    unfolding ch2_def by blast
  have quiet: "quiet s4 s'" using ended by (simp add: ended_def)
  have run: "ms_sjoin env s = Some s'" using env(1) call(2,3) md s1(1) s' by (simp add: ms_sjoin_def Let_def no_mode_def)
  define ch3 where "ch3 = (if ko then ch2 else lost_topic (sj_cfg env) (lost (?parv ! 2) ch2))"
  have "channels s3 c = Some ch3" using res by (simp add: ch3_def split: if_splits)
  then obtain ch' where ch': "channels s' c = Some ch'" "settled ch' = settled ch3" using grown quiet by (auto simp: grown_def quiet_def)
  have "ch_creationtime ch' = ts" "chan_mode_of ch' = merge_modes ko kn md (chan_mode_of ch)" "mask_lists ch' = (if ko then mask_lists ch else ([], [], []))"
    using ch'(2) by (auto simp: settled_def ch3_def ch2_def lost_topic_def lost_def channel_set_topic_def set_chan_mode_def chan_mode_of_def mask_lists_def split: if_splits)
  moreover have "\<exists>mb'. mships s' m = Some mb' \<and> mclient mb' = mclient mb \<and> mchan mb' = mchan mb \<and> (if ko \<or> mchan mb \<noteq> c then mb' = mb else \<not> has_flag (mflags mb') OPV)"
    if mb: "mships s m = Some mb" for m mb
  proof -
    have "\<exists>mb'. mships s3 m = Some mb' \<and> mclient mb' = mclient mb \<and> mchan mb' = mchan mb \<and> (if ko \<or> mchan mb \<noteq> c then mb' = mb else \<not> has_flag (mflags mb') OPV)"
    proof (cases ko)
      case False
      then have "lost_member c (Some mb) (mships s3 m)" using res mb by metis
      from lost_member_Some [OF this] show ?thesis using False by simp
    qed (use res mb in simp)
    then show ?thesis using grown quiet by (auto simp: grown_def quiet_def)
  qed
  moreover have "mchan mb = c \<and> (\<not> kn \<longrightarrow> mflags mb = 0)" if "mships s' m = Some mb" "mships s m = None" for m mb
  proof -
    have "mships s3 m = None" using res that(2) lost_member_None [of c "mships s3 m"] by (metis (full_types))
    moreover have "mships s4 m = Some mb" using quiet that(1) by (auto simp: quiet_def)
    ultimately show ?thesis using grown_new [OF grown] by blast
  qed
  moreover have "\<forall>t \<in> set (nick_words (?parv ! (4 + n))). \<forall>y. introduces env s t y \<longrightarrow> is_member y c s'" using intro quiet by (auto simp: is_member_def quiet_def)
  ultimately show ?thesis using run ch'(1) by blast
qed

text \<open>A channel with one local member, created at 1000, and a server that introduces another client.\<close>

definition hub_users :: "addr \<Rightarrow> user" where
  "hub_users x =
    (if x = 9 then joe\<lparr>uid := ''1AA'', uname := ''hub.example.org'', uip := None, uisclient := False, uisserver := True\<rparr>
     else if x = 5 then joe\<lparr>uid := ''1AAAAAAAB'', uname := ''ann'', uip := None\<rparr> else joe)"

definition hub_dir :: directory where
  "hub_dir = \<lparr>dir_id = (\<lambda>n. if n = ''1AAAAAAAB'' then Some 5 else None), dir_client = (\<lambda>_. None), dir_history = (\<lambda>_. None), dir_from_server = (\<lambda>x. x = 9)\<rparr>"

definition hub_at :: "int \<Rightarrow> string \<Rightarrow> net" where
  "hub_at t name = the (channel_do_join (ex_config\<lparr>CurrentTime := t\<rparr>) 7 name None (start_net hub_users))"

abbreviation hub_net :: net where
  "hub_net \<equiv> hub_at 1000 ''#a''"

definition hub_sjoin :: "string list \<Rightarrow> sjoin_env" where
  "hub_sjoin parv = \<lparr>sj_cfg = ex_config, sj_dir = hub_dir, sj_from = (\<lambda>x. if x = 5 then 9 else x), sj_ignore_bogus_ts = False, sj_source = 9,
     sj_parv = ''SJOIN'' # parv, sj_modebuf = replicate MODEBUFLEN NUL\<rparr>"

lemma hub_sane: "sane_config (ex_config\<lparr>CurrentTime := t\<rparr>)" "plain_resv (ex_config\<lparr>CurrentTime := t\<rparr>)"
  by (simp_all add: sane_config_def plain_resv_def ex_config_def)

lemma hub_joined:
  shows "channel_do_join (ex_config\<lparr>CurrentTime := t\<rparr>) 7 name None (start_net hub_users) = Some (hub_at t name)"
    "keeps_inv (start_net hub_users) (hub_at t name)" "MyClient (users (start_net hub_users) 7)"
proof -
  show local: "MyClient (users (start_net hub_users) 7)" by (simp add: start_net_def hub_users_def joe_def MyClient_def MyConnect_def)
  obtain s where s: "channel_do_join (ex_config\<lparr>CurrentTime := t\<rparr>) 7 name None (start_net hub_users) = Some s" "keeps_inv (start_net hub_users) s"
    using do_join_keeps [OF start_net_inv local hub_sane(2)] by blast
  then show "channel_do_join (ex_config\<lparr>CurrentTime := t\<rparr>) 7 name None (start_net hub_users) = Some (hub_at t name)"
    "keeps_inv (start_net hub_users) (hub_at t name)" by (simp_all add: hub_at_def)
qed

lemma hub_steps: "chan_step\<^sup>*\<^sup>* (start_net hub_users) (hub_at t name)"
  using step_join [OF hub_joined(3) hub_sane(1) hub_joined(1)] by blast

lemma hub_nicks: "nicks_ok (hub_at t name)"
proof -
  let ?s = "hub_at t name"
  have "cache_le (start_net hub_users) ?s" using cache_do_join [OF start_net_inv hub_joined(3) hub_sane(2) hub_joined(1)] .
  then have "uname (users ?s x) = uname (users (start_net hub_users) x)" for x by (simp add: cache_le_def ident_def)
  moreover have "uisclient (users ?s x) = uisclient (users (start_net hub_users) x)" for x
    using hub_joined(2) [of t name] by (simp add: keeps_inv_def same_people_def shape_of_simps(9) fun_eq_iff)
  moreover have "nicks_ok (start_net hub_users)" by (simp add: nicks_ok_def start_net_def hub_users_def joe_def NICKLEN_def)
  ultimately show ?thesis by (simp add: nicks_ok_def)
qed

lemma hub_call:
  assumes "length parv \<ge> 4"
  shows "sjoin_call_ok (hub_sjoin parv) (hub_at t name)"
proof -
  have "fits (hub_at t name)" using reachable_fits [OF hub_steps] by (simp add: hub_users_def user_fits_def joe_def IDLEN_def HOSTLEN_def USERLEN_def)
  then show ?thesis using assms hub_nicks by (simp add: sjoin_call_ok_def hub_sjoin_def history_ok_def hub_dir_def)
qed

text \<open>C6: The rules of the creation times, for a channel both sides have, in every reachable state. SJOIN never faults, the
  earlier creation time stays, and every client it names behind its link becomes a member. If the message is later than the channel,
  modes, masks and all memberships of the channel stay as they are and the new members get no status. If it is
  earlier, the modes are the ones of the message, the masks are gone and the old members have lost their status. If
  the times are equal, the modes are merged, and masks and old memberships stay as they are.\<close>

theorem sjoin_timestamp_rules:
  assumes "chan_step\<^sup>*\<^sup>* (start_net us) s" "sjoin_call_ok env s" "uisserver (users s (sj_source env))" "check_channel_name (sj_cfg env) (sj_parv env ! 2) False"
    "sjoin_modes (sj_parv env) (sj_parv env ! 3) 0 \<lparr>md_mode = 0, md_limit = 0, md_key = []\<rparr> = Some (Some (n, md))"
    "hash_find_channel (sj_parv env ! 2) s = Some c" "channels s c = Some ch" "ch_creationtime ch = oldts" "oldts \<noteq> 0"
    "bogus_ts (sj_ignore_bogus_ts env) oldts (atol (sj_parv env ! 1)) = newts" "newts \<noteq> 0"
  shows "\<exists>s' ch'. ms_sjoin env s = Some s' \<and> channels s' c = Some ch' \<and> ch_creationtime ch' = min newts oldts \<and>
    (\<forall>t \<in> set (nick_words (sj_parv env ! (4 + n))). \<forall>y. introduces env s t y \<longrightarrow> is_member y c s') \<and>
    (oldts < newts \<longrightarrow> chan_mode_of ch' = chan_mode_of ch \<and> mask_lists ch' = mask_lists ch \<and> (\<forall>m mb. mships s m = Some mb \<longrightarrow> mships s' m = Some mb) \<and>
      (\<forall>m mb. mships s' m = Some mb \<longrightarrow> mships s m = None \<longrightarrow> mchan mb = c \<and> mflags mb = 0)) \<and>
    (newts < oldts \<longrightarrow> chan_mode_of ch' = md \<and> mask_lists ch' = ([], [], []) \<and>
      (\<forall>m mb. mships s m = Some mb \<longrightarrow> mchan mb = c \<longrightarrow> (\<exists>mb'. mships s' m = Some mb' \<and> mclient mb' = mclient mb \<and> \<not> has_flag (mflags mb') OPV))) \<and>
    (newts = oldts \<longrightarrow> chan_mode_of ch' = merge_modes True True md (chan_mode_of ch) \<and> mask_lists ch' = mask_lists ch \<and>
      (\<forall>m mb. mships s m = Some mb \<longrightarrow> mships s' m = Some mb))"
proof -
  note both = reachable_both [OF assms(1)]
  have md: "sjoin_modes (sj_parv env) (sj_parv env ! 3) 0 no_mode = Some (Some (n, md))" using assms(5) by (simp add: no_mode_def)
  define ko where "ko = (oldts \<le> newts)"
  define kn where "kn = (newts \<le> oldts)"
  have ts: "sjoin_ts False (ch_creationtime ch) (bogus_ts (sj_ignore_bogus_ts env) (ch_creationtime ch) (atol (sj_parv env ! 1))) = (min newts oldts, ko, kn)"
    using assms(8-11) by (auto simp: sjoin_ts_def ko_def kn_def)
  from sjoin_existing [OF both [THEN conjunct1] both [THEN conjunct2] assms(2-4) md assms(6,7) ts] obtain s' ch' where
    s': "ms_sjoin env s = Some s'" "channels s' c = Some ch'" "ch_creationtime ch' = min newts oldts" "chan_mode_of ch' = merge_modes ko kn md (chan_mode_of ch)"
      "mask_lists ch' = (if ko then mask_lists ch else ([], [], []))" "\<forall>t \<in> set (nick_words (sj_parv env ! (4 + n))). \<forall>y. introduces env s t y \<longrightarrow> is_member y c s'"
      "\<And>m mb. mships s m = Some mb \<Longrightarrow> \<exists>mb'. mships s' m = Some mb' \<and> mclient mb' = mclient mb \<and> mchan mb' = mchan mb \<and>
        (if ko \<or> mchan mb \<noteq> c then mb' = mb else \<not> has_flag (mflags mb') OPV)"
      "\<And>m mb. mships s' m = Some mb \<Longrightarrow> mships s m = None \<Longrightarrow> mchan mb = c \<and> (\<not> kn \<longrightarrow> mflags mb = 0)"
    by blast
  have kept: "mships s' m = Some mb" if "mships s m = Some mb" "oldts \<le> newts" for m mb using s'(7) [OF that(1)] that(2) by (auto simp: ko_def)
  have "chan_mode_of ch' = chan_mode_of ch" if "oldts < newts" using that s'(4) by (simp add: merge_modes_def kn_def)
  moreover have "chan_mode_of ch' = md" if "newts < oldts" using that s'(4) by (simp add: merge_modes_def kn_def ko_def)
  moreover have "mchan mb = c \<and> mflags mb = 0" if "oldts < newts" "mships s' m = Some mb" "mships s m = None" for m mb using s'(8) [OF that(2,3)] that(1) by (simp add: kn_def)
  moreover have "\<exists>mb'. mships s' m = Some mb' \<and> mclient mb' = mclient mb \<and> \<not> has_flag (mflags mb') OPV"
    if "newts < oldts" "mships s m = Some mb" "mchan mb = c" for m mb using s'(7) [OF that(2)] that(1,3) by (auto simp: ko_def)
  moreover have "chan_mode_of ch' = merge_modes True True md (chan_mode_of ch)" if "newts = oldts" using that s'(4) by (simp add: kn_def ko_def)
  moreover have "mask_lists ch' = (if oldts \<le> newts then mask_lists ch else ([], [], []))" using s'(5) by (simp add: ko_def)
  ultimately show ?thesis using s'(1-3,6) kept by (intro exI [of _ s'] exI [of _ ch']) auto
qed

theorem sjoin_timestamp_rules_witness:
  "\<exists>s' ch'. ms_sjoin (hub_sjoin [''900'', ''#A'', ''+s'', ''@1AAAAAAAB'']) hub_net = Some s' \<and> channels s' 0 = Some ch' \<and> ch_creationtime ch' = 900 \<and>
    ch_mode ch' = MODE_SECRET \<and> is_member 5 0 s'"
proof -
  let ?env = "hub_sjoin [''900'', ''#A'', ''+s'', ''@1AAAAAAAB'']" and ?ch = "the (channels hub_net 0)"
  let ?md = "\<lparr>md_mode = MODE_SECRET, md_limit = 0, md_key = []\<rparr>"
  have "channels hub_net 0 \<noteq> None" by code_simp
  then have ch: "channels hub_net 0 = Some ?ch" by auto
  have facts: "uisserver (users hub_net (sj_source ?env))" "check_channel_name (sj_cfg ?env) (sj_parv ?env ! 2) False"
    "sjoin_modes (sj_parv ?env) (sj_parv ?env ! 3) 0 \<lparr>md_mode = 0, md_limit = 0, md_key = []\<rparr> = Some (Some (0, ?md))"
    "hash_find_channel (sj_parv ?env ! 2) hub_net = Some 0" "ch_creationtime ?ch = 1000"
    "bogus_ts (sj_ignore_bogus_ts ?env) 1000 (atol (sj_parv ?env ! 1)) = 900" by code_simp+
  have intro: "''@1AAAAAAAB'' \<in> set (nick_words (sj_parv ?env ! (4 + 0)))" "introduces ?env hub_net ''@1AAAAAAAB'' 5" by code_simp+
  have call: "sjoin_call_ok ?env hub_net" by (rule hub_call) simp
  from sjoin_timestamp_rules [OF hub_steps call facts(1-4) ch facts(5) _ facts(6)] obtain s' ch' where
    "ms_sjoin ?env hub_net = Some s'" "channels s' 0 = Some ch'" "ch_creationtime ch' = 900" "chan_mode_of ch' = ?md" "is_member 5 0 s'"
    using intro by auto
  then show ?thesis by (auto simp: chan_mode_of_def)
qed

section \<open>Both sides end with the same modes\<close>

lemma number_text: "skip_sign (dropWhile IsSpace (show_nat n)) = (False, show_nat n)" "takeWhile IsDigit (show_nat n) = show_nat n"
proof -
  obtain a t where at: "show_nat n = a # t" using show_nat_nonempty [of n] by (cases "show_nat n") auto
  then have "IsDigit a" using show_nat_digits [of a n] by simp
  then have "\<not> IsSpace a" "a \<noteq> CHR ''-''" "a \<noteq> CHR ''+''" by (auto simp: IsDigit_iff IsSpace_iff)
  then show "skip_sign (dropWhile IsSpace (show_nat n)) = (False, show_nat n)" by (simp add: at skip_sign_def)
  show "takeWhile IsDigit (show_nat n) = show_nat n" using show_nat_digits by (simp add: takeWhile_eq_all_conv)
qed

lemma atol_show_time: "0 \<le> t \<Longrightarrow> t < 2 ^ 63 \<Longrightarrow> atol (show_time t) = t"
  by (simp add: atol_def show_time_def number_text decimal_show_nat)

lemma sint_mod: "sint (word_of_int v :: u32) mod 2 ^ 32 = v mod 2 ^ 32"
proof -
  have "uint (word_of_int (sint (word_of_int v :: u32)) :: u32) = uint (word_of_int v :: u32)" by simp
  then show ?thesis by (simp only: uint_word_of_int) simp
qed

lemma limit_roundtrip:
  assumes "n < 2 ^ 32"
  shows "nat (atoi (show_limit n) mod 2 ^ 32) = n"
proof (cases "n < 2 ^ 31")
  case True
  then have "atoi (show_limit n) = sint (word_of_int (int n) :: u32)"
    by (simp add: atoi_def show_limit_def number_text decimal_show_nat min_def)
  then show ?thesis using sint_mod [of "int n"] assms by simp
next
  case False
  have "dropWhile IsSpace (''-'' @ show_nat k) = ''-'' @ show_nat k" "skip_sign (''-'' @ show_nat k) = (True, show_nat k)" for k
    by (simp_all add: skip_sign_def IsSpace_iff)
  then have "atoi (show_limit n) = sint (word_of_int (- int (2 ^ 32 - n)) :: u32)"
    using False by (simp add: atoi_def show_limit_def number_text(2) decimal_show_nat max_def)
  then have "atoi (show_limit n) mod 2 ^ 32 = (- int (2 ^ 32 - n)) mod 2 ^ 32" by (simp only: sint_mod)
  also have "\<dots> = (int n + (- 1) * 2 ^ 32) mod 2 ^ 32" using assms by simp
  also have "\<dots> = int n" using assms by (simp only: mod_mult_self1) simp
  finally show ?thesis by simp
qed

text \<open>The bits that have a letter.\<close>

definition letter_bits :: u32 where
  "letter_bits = fold (\<lambda>(m, l) v. v OR m) chan_modes 0"

lemma one_bit: "w AND push_bit k 1 \<in> {0, push_bit k (1 :: u32)}"
proof (cases "bit w k")
  case True
  then have "w AND push_bit k 1 = push_bit k 1" by (intro bit_word_eqI) (auto simp: bit_simps)
  then show ?thesis by simp
next
  case False
  then have "w AND push_bit k 1 = 0" by (intro bit_word_eqI) (auto simp: bit_simps)
  then show ?thesis by simp
qed

lemma table_bit: "(m, l) \<in> set chan_modes \<Longrightarrow> w AND m \<in> {0, m}"
proof -
  assume m: "(m, l) \<in> set chan_modes"
  have "\<forall>p \<in> set chan_modes. fst p \<in> set (map (\<lambda>k. push_bit k 1) [0..<13])" by code_simp
  then obtain k where "m = push_bit k 1" using m by fastforce
  then show ?thesis using one_bit by simp
qed

lemma fold_bits:
  "\<forall>(m, l) \<in> set tab. w AND m \<in> {0, m} \<Longrightarrow> fold (\<lambda>(m, l) v. v OR m) (filter (\<lambda>(m, l). has_flag w m) tab) v = v OR (w AND fold (\<lambda>(m, l) v. v OR m) tab 0)"
proof (induction tab arbitrary: v)
  case (Cons p tab)
  obtain m l where p: "p = (m, l)" by (cases p)
  have acc: "fold (\<lambda>(m, l) v. v OR m) tab u = u OR fold (\<lambda>(m, l) v. v OR m) tab 0" for u :: u32
  proof (induction tab arbitrary: u)
    case (Cons q tab)
    show ?case using Cons [of "u OR fst q"] Cons [of "fst q"] by (simp add: case_prod_beta or.assoc)
  qed simp
  have "w AND m = (if has_flag w m then m else 0)" using Cons.prems p by (auto simp: has_flag_def)
  then show ?case
    using Cons.IH [of v] Cons.IH [of "v OR m"] Cons.prems acc [of m] by (auto simp: p bit.conj_disj_distrib or.assoc)
qed simp

lemma sjoin_modes_letters:
  "\<forall>a \<in> set cs. a \<noteq> CHR ''k'' \<and> a \<noteq> CHR ''l'' \<Longrightarrow>
    sjoin_modes parv (cs @ rest) nargs md = sjoin_modes parv rest nargs (md\<lparr>md_mode := fold (\<lambda>a v. v OR snd (ModeTable a)) cs (md_mode md)\<rparr>)"
  by (induction cs arbitrary: md) simp_all

lemma table_letters: "(m, l) \<in> set chan_modes \<Longrightarrow> snd (ModeTable l) = m \<and> l \<noteq> CHR ''k'' \<and> l \<noteq> CHR ''l''"
proof -
  have "\<forall>p \<in> set chan_modes. snd (ModeTable (snd p)) = fst p \<and> snd p \<noteq> CHR ''k'' \<and> snd p \<noteq> CHR ''l''" by code_simp
  then show "(m, l) \<in> set chan_modes \<Longrightarrow> snd (ModeTable l) = m \<and> l \<noteq> CHR ''k'' \<and> l \<noteq> CHR ''l''" by fastforce
qed

lemma fold_letters: "set tab \<subseteq> set chan_modes \<Longrightarrow> fold (\<lambda>a v. v OR snd (ModeTable a)) (map snd tab) v = fold (\<lambda>(m, l) v. v OR m) tab v"
  by (induction tab arbitrary: v) (auto dest: table_letters)

lemma nick_words_word: "w \<noteq> [] \<Longrightarrow> CHR '' '' \<notin> set w \<Longrightarrow> nick_words (w @ '' '' @ t) = w # nick_words t"
proof -
  assume w: "w \<noteq> []" "CHR '' '' \<notin> set w"
  then obtain a u where au: "w = a # u" by (cases w) auto
  have "takeWhile (\<lambda>ch. ch \<noteq> CHR '' '') (u @ '' '' @ t) = u" "dropWhile (\<lambda>ch. ch \<noteq> CHR '' '') (u @ '' '' @ t) = '' '' @ t"
    using w(2) au by (auto simp: takeWhile_append dropWhile_append)
  moreover have "nick_words ('' '' @ t) = nick_words t" by (subst (1 2) nick_words.simps) simp
  ultimately show ?thesis using w(2) au by (subst nick_words.simps) auto
qed

lemma nick_words_Nil [simp]: "nick_words [] = []"
  by (subst nick_words.simps) simp

lemma show_limit_word: "show_limit n \<noteq> []" "CHR '' '' \<notin> set (show_limit n)"
  using show_nat_nonempty show_nat_digits [of "CHR '' ''"] by (auto simp: show_limit_def IsDigit_iff)

text \<open>A channel whose modes another server can read: they have letters, and the key is one word.\<close>

definition readable :: "Channel \<Rightarrow> bool" where
  "readable ch \<longleftrightarrow> ch_mode ch AND letter_bits = ch_mode ch \<and> CHR '' '' \<notin> set (ch_key ch) \<and> mode_fits (chan_mode_of ch)"

text \<open>The parameters of a SJOIN for a channel.\<close>

definition sjoin_params :: "Channel \<Rightarrow> string \<Rightarrow> string \<Rightarrow> string \<Rightarrow> string list" where
  "sjoin_params ch modes params nicks = [''SJOIN'', show_time (ch_creationtime ch), ch_name ch, modes] @ nick_words params @ [nicks]"

lemma sjoin_modes_roundtrip:
  assumes ch: "channels s c = Some ch" "readable ch" and x: "uisserver (users s x)" and modes: "channel_modes c x s = Some (modes, params)"
  shows "\<exists>n. sjoin_modes (sjoin_params ch modes params nicks) modes 0 no_mode = Some (Some (n, chan_mode_of ch)) \<and> sjoin_params ch modes params nicks ! (4 + n) = nicks"
proof -
  let ?tab = "filter (\<lambda>(m, l). has_flag (ch_mode ch) m) chan_modes" and ?parv = "sjoin_params ch modes params nicks"
  let ?l = "if ch_limit ch \<noteq> 0 then [show_limit (ch_limit ch)] else []" and ?k = "if ch_key ch \<noteq> [] then [ch_key ch] else []"
  have written: "modes = ''+'' @ map snd ?tab @ (if ch_limit ch \<noteq> 0 then ''l'' else []) @ (if ch_key ch \<noteq> [] then ''k'' else [])"
    "params = concat (map (\<lambda>w. w @ '' '') (?l @ ?k))"
    using modes ch(1) x by (auto simp: channel_modes_def Let_def)
  have words: "nick_words params = ?l @ ?k"
    using ch(2) show_limit_word [of "ch_limit ch"] nick_words_word [of "ch_key ch" "[]"] nick_words_word [of "show_limit (ch_limit ch)"]
    by (auto simp: written(2) readable_def)
  have bits: "fold (\<lambda>(m, l) v. v OR m) ?tab 0 = ch_mode ch"
    using fold_bits [of chan_modes "ch_mode ch" 0] table_bit ch(2) by (auto simp: readable_def letter_bits_def)
  have plus: "snd (ModeTable (CHR ''+'')) = 0" by code_simp
  have letters: "sjoin_modes ?parv (map snd ?tab @ rest) 0 no_mode = sjoin_modes ?parv rest 0 (no_mode\<lparr>md_mode := ch_mode ch\<rparr>)" for rest
    using sjoin_modes_letters [of "map snd ?tab" ?parv rest 0 no_mode] table_letters fold_letters [of ?tab 0] bits by (auto simp: no_mode_def)
  have start: "sjoin_modes ?parv modes 0 no_mode =
      sjoin_modes ?parv ((if ch_limit ch \<noteq> 0 then ''l'' else []) @ (if ch_key ch \<noteq> [] then ''k'' else [])) 0 (no_mode\<lparr>md_mode := ch_mode ch\<rparr>)"
    using letters plus unfolding written(1) by (simp add: no_mode_def)
  have fit: "mode_fits (chan_mode_of ch)" using ch(2) by (simp add: readable_def)
  then have key: "strlcpy_str (ch_key ch) (KEYLEN + 1) = ch_key ch" and lim: "nat (atoi (show_limit (ch_limit ch)) mod 2 ^ 32) = ch_limit ch"
    using limit_roundtrip [of "ch_limit ch"] by (auto simp: mode_fits_def chan_mode_of_def strlcpy_str_def)
  have parv: "?parv = [''SJOIN'', show_time (ch_creationtime ch), ch_name ch, modes] @ ?l @ ?k @ [nicks]" by (simp add: sjoin_params_def words)
  show ?thesis
    unfolding start unfolding parv
    by (intro exI [of _ "length (?l @ ?k)"]) (use key lim in \<open>auto simp: no_mode_def chan_mode_of_def Let_def\<close>)
qed

lemma str_less_total: "\<not> str_less a b \<Longrightarrow> \<not> str_less b a \<Longrightarrow> a = b"
  by (induction a b rule: str_less.induct) (auto simp: not_less)

lemma str_less_asym: "str_less a b \<Longrightarrow> \<not> str_less b a"
  by (induction a b rule: str_less.induct) (auto elim: str_less.elims)

lemma merge_commutes:
  assumes "mode_fits a" "mode_fits b"
  shows "merge_modes True True a b = merge_modes True True b a"
proof -
  have "strlcpy_str (md_key m) (KEYLEN + 1) = md_key m" if "mode_fits m" for m using that by (simp add: mode_fits_def strlcpy_str_def)
  then show ?thesis using assms str_less_total [of "md_key a" "md_key b"] str_less_asym [of "md_key a" "md_key b"]
    by (auto simp: merge_modes_def or.commute)
qed

lemma ts_converge:
  assumes "sjoin_ts False t t' = (ts, ko, kn)" "sjoin_ts False t' t = (ts', ko', kn')" "mode_fits a" "mode_fits b"
  shows "ts = ts' \<and> merge_modes ko kn b a = merge_modes ko' kn' a b"
  using assms(1,2) merge_commutes [OF assms(3,4)] by (auto simp: sjoin_ts_def merge_modes_def split: if_splits)

text \<open>One side of a link: its state, its channel, and the modes it sends to the server \<open>x\<close>.\<close>

definition link_side :: "sjoin_env \<Rightarrow> net \<Rightarrow> addr \<Rightarrow> Channel \<Rightarrow> addr \<Rightarrow> string \<Rightarrow> string \<Rightarrow> bool" where
  "link_side env s c ch x modes params \<longleftrightarrow>
    channels s c = Some ch \<and> readable ch \<and> 0 \<le> ch_creationtime ch \<and> ch_creationtime ch < 2 ^ 63 \<and> channel_modes c x s = Some (modes, params) \<and>
    uisserver (users s x) \<and> sjoin_call_ok env s \<and> uisserver (users s (sj_source env))"

text \<open>C5: Two servers that have the same channel and exchange it when they link end with the same creation time, mode
  bits, limit and key, whatever these were on either side: each processes the SJOIN whose modes are the text that
  \<open>channel_modes\<close> writes on the other side. The modes must have letters and the key must be one word, and the creation times
  must not be taken for bogus.\<close>

theorem sjoin_modes_converge:
  assumes reach: "chan_step\<^sup>*\<^sup>* (start_net us) s" "chan_step\<^sup>*\<^sup>* (start_net us') s'"
    and sides: "link_side env s c ch x modes params" "link_side env' s' c' ch' x' modes' params'"
    and same: "hash_find_channel (ch_name ch') s = Some c" "hash_find_channel (ch_name ch) s' = Some c'"
    and sent: "sj_parv env = sjoin_params ch' modes' params' nicks'" "sj_parv env' = sjoin_params ch modes params nicks"
    and names: "check_channel_name (sj_cfg env) (ch_name ch') False" "check_channel_name (sj_cfg env') (ch_name ch) False"
    and times: "sj_ignore_bogus_ts env \<or> sj_ignore_bogus_ts env' \<longrightarrow> 800000000 \<le> ch_creationtime ch \<and> 800000000 \<le> ch_creationtime ch'"
  shows "\<exists>r r' d d'. ms_sjoin env s = Some r \<and> ms_sjoin env' s' = Some r' \<and> channels r c = Some d \<and> channels r' c' = Some d' \<and>
    ch_creationtime d = ch_creationtime d' \<and> chan_mode_of d = chan_mode_of d'"
proof -
  have A: "channels s c = Some ch" "readable ch" "0 \<le> ch_creationtime ch" "ch_creationtime ch < 2 ^ 63" "channel_modes c x s = Some (modes, params)"
      "uisserver (users s x)" "sjoin_call_ok env s" "uisserver (users s (sj_source env))"
    and B: "channels s' c' = Some ch'" "readable ch'" "0 \<le> ch_creationtime ch'" "ch_creationtime ch' < 2 ^ 63" "channel_modes c' x' s' = Some (modes', params')"
      "uisserver (users s' x')" "sjoin_call_ok env' s'" "uisserver (users s' (sj_source env'))"
    using sides by (auto simp: link_side_def)
  have parv: "sj_parv env ! 1 = show_time (ch_creationtime ch')" "sj_parv env ! 2 = ch_name ch'" "sj_parv env ! 3 = modes'"
      "sj_parv env' ! 1 = show_time (ch_creationtime ch)" "sj_parv env' ! 2 = ch_name ch" "sj_parv env' ! 3 = modes"
    using sent by (simp_all add: sjoin_params_def)
  obtain n' where n': "sjoin_modes (sj_parv env) (sj_parv env ! 3) 0 no_mode = Some (Some (n', chan_mode_of ch'))"
    using sjoin_modes_roundtrip [OF B(1,2,6,5)] parv(3) sent(1) by metis
  obtain n where n: "sjoin_modes (sj_parv env') (sj_parv env' ! 3) 0 no_mode = Some (Some (n, chan_mode_of ch))"
    using sjoin_modes_roundtrip [OF A(1,2,6,5)] parv(6) sent(2) by metis
  have ts: "bogus_ts (sj_ignore_bogus_ts env) (ch_creationtime ch) (atol (sj_parv env ! 1)) = ch_creationtime ch'"
      "bogus_ts (sj_ignore_bogus_ts env') (ch_creationtime ch') (atol (sj_parv env' ! 1)) = ch_creationtime ch"
    unfolding parv atol_show_time [OF A(3,4)] atol_show_time [OF B(3,4)] using times by (auto simp: bogus_ts_def)
  obtain t ko kn where t: "sjoin_ts False (ch_creationtime ch) (ch_creationtime ch') = (t, ko, kn)" by (rule prod_cases3)
  obtain t' ko' kn' where t': "sjoin_ts False (ch_creationtime ch') (ch_creationtime ch) = (t', ko', kn')" by (rule prod_cases3)
  note both = reachable_both [OF reach(1)] reachable_both [OF reach(2)]
  obtain r d where r: "ms_sjoin env s = Some r" "channels r c = Some d" "ch_creationtime d = t" "chan_mode_of d = merge_modes ko kn (chan_mode_of ch') (chan_mode_of ch)"
    using sjoin_existing [OF both(1) [THEN conjunct1] both(1) [THEN conjunct2] A(7,8) _ n' _ A(1), of t ko kn] names(1) same(1) t ts(1) parv(2) by metis
  obtain r' d' where r': "ms_sjoin env' s' = Some r'" "channels r' c' = Some d'" "ch_creationtime d' = t'" "chan_mode_of d' = merge_modes ko' kn' (chan_mode_of ch) (chan_mode_of ch')"
    using sjoin_existing [OF both(2) [THEN conjunct1] both(2) [THEN conjunct2] B(7,8) _ n _ B(1), of t' ko' kn'] names(2) same(2) t' ts(2) parv(5) by metis
  have "mode_fits (chan_mode_of ch)" "mode_fits (chan_mode_of ch')" using A(2) B(2) by (auto simp: readable_def)
  from ts_converge [OF t t' this] show ?thesis using r r' by metis
qed

theorem sjoin_modes_converge_witness:
  "\<exists>r r' d d'. ms_sjoin (hub_sjoin [''900'', ''#A'', ''+nt'', ''@1AAAAAAAB'']) hub_net = Some r \<and>
    ms_sjoin (hub_sjoin [''1000'', ''#a'', ''+nt'', ''@1AAAAAAAB'']) (hub_at 900 ''#A'') = Some r' \<and> channels r 0 = Some d \<and> channels r' 0 = Some d' \<and>
    ch_creationtime d = ch_creationtime d' \<and> chan_mode_of d = chan_mode_of d'"
proof -
  let ?env = "hub_sjoin [''900'', ''#A'', ''+nt'', ''@1AAAAAAAB'']" and ?env' = "hub_sjoin [''1000'', ''#a'', ''+nt'', ''@1AAAAAAAB'']"
  let ?ch = "the (channels hub_net 0)" and ?ch' = "the (channels (hub_at 900 ''#A'') 0)"
  have "channels hub_net 0 \<noteq> None" "channels (hub_at 900 ''#A'') 0 \<noteq> None" by code_simp+
  then have ch: "channels hub_net 0 = Some ?ch" "channels (hub_at 900 ''#A'') 0 = Some ?ch'" by auto
  have fields: "ch_limit ?ch = 0" "ch_key ?ch = []" "ch_mode ?ch AND letter_bits = ch_mode ?ch" "ch_creationtime ?ch = 1000"
    "ch_limit ?ch' = 0" "ch_key ?ch' = []" "ch_mode ?ch' AND letter_bits = ch_mode ?ch'" "ch_creationtime ?ch' = 900" by code_simp+
  have servers: "uisserver (users hub_net 9)" "uisserver (users (hub_at 900 ''#A'') 9)" by code_simp+
  have modes: "channel_modes 0 9 hub_net = Some (''+nt'', [])" "channel_modes 0 9 (hub_at 900 ''#A'') = Some (''+nt'', [])" by code_simp+
  have calls: "sjoin_call_ok ?env hub_net" "sjoin_call_ok ?env' (hub_at 900 ''#A'')" by (simp_all add: hub_call)
  have sides: "link_side ?env hub_net 0 ?ch 9 ''+nt'' []" "link_side ?env' (hub_at 900 ''#A'') 0 ?ch' 9 ''+nt'' []"
    using ch fields servers modes calls by (simp_all add: link_side_def readable_def mode_fits_def chan_mode_of_def) (simp_all add: hub_sjoin_def)
  have same: "hash_find_channel (ch_name ?ch') hub_net = Some 0" "hash_find_channel (ch_name ?ch) (hub_at 900 ''#A'') = Some 0"
    "check_channel_name (sj_cfg ?env) (ch_name ?ch') False" "check_channel_name (sj_cfg ?env') (ch_name ?ch) False" by code_simp+
  have sent: "sj_parv ?env = sjoin_params ?ch' ''+nt'' [] ''@1AAAAAAAB''" "sj_parv ?env' = sjoin_params ?ch ''+nt'' [] ''@1AAAAAAAB''" by code_simp+
  have "\<not> sj_ignore_bogus_ts ?env" "\<not> sj_ignore_bogus_ts ?env'" by code_simp+
  then show ?thesis using sjoin_modes_converge [OF hub_steps hub_steps sides same(1,2) sent same(3,4)] by auto
qed

section \<open>Any number of servers, in any order\<close>

text \<open>Merging what is received into what one has, on the values a server may have (\<open>ok\<close>): the laws make the result of many
  merges the least upper bound of what was received, so that order and repetition do not matter.\<close>

locale merging =
  fixes merge :: "'a \<Rightarrow> 'a \<Rightarrow> 'a" and ok :: "'a \<Rightarrow> bool"
  assumes closed: "ok a \<Longrightarrow> ok b \<Longrightarrow> ok (merge a b)"
    and commutes: "ok a \<Longrightarrow> ok b \<Longrightarrow> merge a b = merge b a"
    and associates: "ok a \<Longrightarrow> ok b \<Longrightarrow> ok c \<Longrightarrow> merge a (merge b c) = merge (merge a b) c"
    and repeats: "ok a \<Longrightarrow> merge a a = a"
begin

definition below :: "'a \<Rightarrow> 'a \<Rightarrow> bool" where
  "below a b \<longleftrightarrow> merge a b = b"

lemma fold_ok: "\<forall>x \<in> set xs. ok x \<Longrightarrow> ok a \<Longrightarrow> ok (fold merge xs a)"
  by (induction xs arbitrary: a) (auto simp: closed)

lemma below_trans: "below a b \<Longrightarrow> below b c \<Longrightarrow> ok a \<Longrightarrow> ok b \<Longrightarrow> ok c \<Longrightarrow> below a c"
  using associates [of a b c] by (simp add: below_def)

lemma fold_upper: "\<forall>x \<in> set xs. ok x \<Longrightarrow> ok a \<Longrightarrow> below a (fold merge xs a) \<and> (\<forall>x \<in> set xs. below x (fold merge xs a))"
proof (induction xs arbitrary: a)
  case (Cons x xs)
  have ok: "ok x" "ok (merge x a)" "\<forall>x \<in> set xs. ok x" using Cons.prems closed by auto
  note IH = Cons.IH [OF ok(3,2)] and out = fold_ok [OF ok(3,2)]
  have "merge a (merge x a) = merge x a" using commutes [OF Cons.prems(2) ok(2)] associates [OF ok(1) Cons.prems(2) Cons.prems(2)] repeats [OF Cons.prems(2)] by simp
  then have "below a (merge x a)" by (simp add: below_def)
  moreover have "below x (merge x a)" using associates [OF ok(1) ok(1) Cons.prems(2)] repeats [OF ok(1)] by (simp add: below_def)
  ultimately show ?case using IH below_trans [OF _ _ _ ok(2) out] Cons.prems(2) ok(1) by auto
qed (simp add: below_def repeats)

lemma fold_least: "\<forall>x \<in> set xs. ok x \<and> below x b \<Longrightarrow> ok a \<Longrightarrow> ok b \<Longrightarrow> below a b \<Longrightarrow> below (fold merge xs a) b"
proof (induction xs arbitrary: a)
  case (Cons x xs)
  have "below (merge x a) b" using Cons.prems associates [of x a b] by (simp add: below_def)
  then show ?case using Cons closed by simp
qed simp

lemma fold_same_values:
  assumes "\<forall>x \<in> set xs. ok x" "ok a" "\<forall>y \<in> set ys. ok y" "ok b" "insert a (set xs) = insert b (set ys)"
  shows "fold merge xs a = fold merge ys b"
proof -
  note ok = fold_ok [OF assms(1,2)] fold_ok [OF assms(3,4)] and upper = fold_upper [OF assms(1,2)] fold_upper [OF assms(3,4)]
  have all: "\<forall>x \<in> insert a (set xs). below x (fold merge xs a)" "\<forall>x \<in> insert a (set xs). below x (fold merge ys b)"
    using upper assms(5) by auto
  then have "below (fold merge xs a) (fold merge ys b)" using assms(1) by (intro fold_least [OF _ assms(2) ok(2)]) auto
  moreover have "below (fold merge ys b) (fold merge xs a)" using all(1) assms(3) unfolding assms(5) by (intro fold_least [OF _ assms(4) ok(1)]) auto
  ultimately show ?thesis using commutes [OF ok] by (simp add: below_def)
qed

end

text \<open>A creation time with the modes that go with it, and the rule by which SJOIN merges two of them.\<close>

definition timed_fits :: "int \<times> Mode \<Rightarrow> bool" where
  "timed_fits p \<longleftrightarrow> fst p \<noteq> 0 \<and> mode_fits (snd p)"

definition sjoin_merge :: "int \<times> Mode \<Rightarrow> int \<times> Mode \<Rightarrow> int \<times> Mode" where
  "sjoin_merge new old = (case sjoin_ts False (fst old) (fst new) of (ts, ko, kn) \<Rightarrow> (ts, merge_modes ko kn (snd new) (snd old)))"

lemma sjoin_merge_cases:
  assumes "timed_fits (t, a)" "timed_fits (u, b)"
  shows "sjoin_merge (t, a) (u, b) = (if t < u then (t, a) else if u < t then (u, b) else (t, merge_modes True True a b))"
  using assms by (auto simp: sjoin_merge_def sjoin_ts_def merge_modes_def timed_fits_def)

lemma str_less_trans: "str_less a b \<Longrightarrow> str_less b c \<Longrightarrow> str_less a c"
proof (induction a b arbitrary: c rule: str_less.induct)
  case (1 t)
  then show ?case by (auto elim: str_less.elims)
next
  case (3 a s b t)
  then show ?case by (cases c) auto
qed simp

lemma merge_associates:
  assumes "mode_fits a" "mode_fits b" "mode_fits c"
  shows "merge_modes True True a (merge_modes True True b c) = merge_modes True True (merge_modes True True a b) c"
proof -
  have fit: "strlcpy_str (md_key m) (KEYLEN + 1) = md_key m" if "mode_fits m" for m using that by (simp add: mode_fits_def strlcpy_str_def)
  have keys: "str_less x z \<longleftrightarrow> \<not> str_less z x \<and> x \<noteq> z" for x z using str_less_total str_less_asym by metis
  have chain: "str_less x z" if "\<not> str_less y x" "str_less y z" for x y z using that str_less_total str_less_trans by metis
  show ?thesis
    using assms fit [of a] fit [of b] fit [of c] str_less_trans [of "md_key a" "md_key b" "md_key c"]
      chain [of "md_key b" "md_key a" "md_key c"] chain [of "md_key b" "md_key c" "md_key a"]
      keys [of "md_key a" "md_key b"] keys [of "md_key a" "md_key c"]
    by (auto simp: merge_modes_def or.assoc)
qed

lemma str_less_irrefl: "\<not> str_less a a"
  using str_less_asym by blast

interpretation sjoins: merging sjoin_merge timed_fits
proof unfold_locales
  fix p q r assume p: "timed_fits p" and q: "timed_fits q"
  obtain t a u b where pq: "p = (t, a)" "q = (u, b)" by (cases p; cases q)
  note fits = p [unfolded pq] q [unfolded pq]
  show "timed_fits (sjoin_merge p q)"
    unfolding pq sjoin_merge_cases [OF fits] using fits merge_fits by (auto simp: timed_fits_def)
  show "sjoin_merge p q = sjoin_merge q p"
    unfolding pq sjoin_merge_cases [OF fits] sjoin_merge_cases [OF fits(2,1)] using fits merge_commutes by (auto simp: timed_fits_def)
  show "sjoin_merge p p = p"
    unfolding pq sjoin_merge_cases [OF fits(1,1)] by (simp add: merge_modes_def str_less_irrefl)
  assume r: "timed_fits r"
  obtain v c where vc: "r = (v, c)" by (cases r)
  have m: "timed_fits (w, merge_modes True True x y)" if "timed_fits (w, x)" "timed_fits (w, y)" for w x y using that merge_fits by (simp add: timed_fits_def)
  have assoc: "merge_modes True True a (merge_modes True True b c) = merge_modes True True (merge_modes True True a b) c"
    using fits r vc merge_associates by (simp add: timed_fits_def)
  consider "t < u" | "u < t" | "t = u" by linarith
  then show "sjoin_merge p (sjoin_merge q r) = sjoin_merge (sjoin_merge p q) r"
    using fits r m assoc unfolding pq vc by cases (auto simp: sjoin_merge_cases)
qed

text \<open>A run of the messages \<open>envs\<close>, and what each of them says of the channel \<open>c\<close> when it arrives.\<close>

fun sjoins_run :: "sjoin_env list \<Rightarrow> net \<Rightarrow> net option" where
  "sjoins_run [] s = Some s"
| "sjoins_run (env # envs) s = do { s1 \<leftarrow> ms_sjoin env s; sjoins_run envs s1 }"

definition timed_modes :: "Channel \<Rightarrow> int \<times> Mode" where
  "timed_modes ch = (ch_creationtime ch, chan_mode_of ch)"

definition carries :: "sjoin_env \<Rightarrow> addr \<Rightarrow> int \<times> Mode \<Rightarrow> net \<Rightarrow> bool" where
  "carries env c p s \<longleftrightarrow> sjoin_call_ok env s \<and> uisserver (users s (sj_source env)) \<and>
    check_channel_name (sj_cfg env) (sj_parv env ! 2) False \<and> hash_find_channel (sj_parv env ! 2) s = Some c \<and>
    map_option (map_option snd) (sjoin_modes (sj_parv env) (sj_parv env ! 3) 0 no_mode) = Some (Some (snd p)) \<and>
    atol (sj_parv env ! 1) = fst p \<and> fst p \<noteq> 0 \<and> (sj_ignore_bogus_ts env \<longrightarrow> 800000000 \<le> fst p)"

fun all_carry :: "addr \<Rightarrow> (sjoin_env \<times> int \<times> Mode) list \<Rightarrow> net \<Rightarrow> bool" where
  "all_carry c [] s = True"
| "all_carry c ((env, p) # msgs) s = (carries env c p s \<and> (case ms_sjoin env s of None \<Rightarrow> True | Some s1 \<Rightarrow> all_carry c msgs s1))"

lemma carries_step:
  assumes inv: "chan_inv s" "cache_ok s" and c: "channels s c = Some ch" "timed_fits (timed_modes ch)" and msg: "carries env c p s"
  shows "\<exists>s1 ch1. ms_sjoin env s = Some s1 \<and> chan_inv s1 \<and> cache_ok s1 \<and> channels s1 c = Some ch1 \<and>
    timed_modes ch1 = sjoin_merge p (timed_modes ch) \<and> timed_fits p"
proof -
  obtain n where call: "sjoin_call_ok env s" "uisserver (users s (sj_source env))" "check_channel_name (sj_cfg env) (sj_parv env ! 2) False"
      "hash_find_channel (sj_parv env ! 2) s = Some c" "atol (sj_parv env ! 1) = fst p" "fst p \<noteq> 0" "sj_ignore_bogus_ts env \<longrightarrow> 800000000 \<le> fst p"
    and md: "sjoin_modes (sj_parv env) (sj_parv env ! 3) 0 no_mode = Some (Some (n, snd p))"
    using msg by (auto simp: carries_def)
  have "mode_fits no_mode" by (simp add: mode_fits_def no_mode_def)
  then have p: "timed_fits p" using sjoin_modes_ok [OF _ \<open>mode_fits no_mode\<close>, of 0 "sj_parv env" "sj_parv env ! 3"] call(1,6) md by (auto simp: sjoin_call_ok_def timed_fits_def)
  have ts: "bogus_ts (sj_ignore_bogus_ts env) (ch_creationtime ch) (atol (sj_parv env ! 1)) = fst p" using call(5,7) by (auto simp: bogus_ts_def)
  obtain ts' ko kn where t: "sjoin_ts False (ch_creationtime ch) (fst p) = (ts', ko, kn)" by (rule prod_cases3)
  obtain s1 ch1 where s1: "ms_sjoin env s = Some s1" "channels s1 c = Some ch1" "ch_creationtime ch1 = ts'" "chan_mode_of ch1 = merge_modes ko kn (snd p) (chan_mode_of ch)"
    using sjoin_existing [OF inv call(1-3) md call(4) c(1), of ts' ko kn] ts t by auto
  then have "timed_modes ch1 = sjoin_merge p (timed_modes ch)" using t by (simp add: timed_modes_def sjoin_merge_def)
  then show ?thesis using ms_sjoin_ok [OF inv call(1)] s1 p by auto
qed

lemma sjoins_run_merges:
  assumes "chan_inv s" "cache_ok s" "channels s c = Some ch" "timed_fits (timed_modes ch)" "all_carry c msgs s"
  shows "(\<exists>r d. sjoins_run (map fst msgs) s = Some r \<and> channels r c = Some d \<and> timed_modes d = fold sjoin_merge (map snd msgs) (timed_modes ch)) \<and>
    (\<forall>p \<in> set (map snd msgs). timed_fits p)"
  using assms
proof (induction msgs arbitrary: s ch)
  case (Cons m msgs)
  obtain env p where m: "m = (env, p)" by (cases m)
  obtain s1 ch1 where s1: "ms_sjoin env s = Some s1" "chan_inv s1" "cache_ok s1" "channels s1 c = Some ch1" "timed_modes ch1 = sjoin_merge p (timed_modes ch)" "timed_fits p"
    using carries_step [OF Cons.prems(1-4), of env p] Cons.prems(5) m by auto
  have "timed_fits (timed_modes ch1)" using s1(5,6) sjoins.closed Cons.prems(4) by simp
  from Cons.IH [OF s1(2-4) this] show ?case using Cons.prems(5) s1 m by simp
qed simp

text \<open>C7: Whatever servers say of a channel by SJOIN, in whatever order and however often, two servers that have got the
  same creation times and modes, their own included, end with the same creation time, mode bits, limit and key. No
  message of the run faults. The times must not be zero and must not be taken for bogus.\<close>

theorem sjoin_order_irrelevant:
  assumes "chan_step\<^sup>*\<^sup>* (start_net us) s" "chan_step\<^sup>*\<^sup>* (start_net us') s'"
    and "channels s c = Some ch" "channels s' c' = Some ch'" "timed_fits (timed_modes ch)" "timed_fits (timed_modes ch')"
    and "all_carry c msgs s" "all_carry c' msgs' s'"
    and "insert (timed_modes ch) (set (map snd msgs)) = insert (timed_modes ch') (set (map snd msgs'))"
  shows "\<exists>r r' d d'. sjoins_run (map fst msgs) s = Some r \<and> sjoins_run (map fst msgs') s' = Some r' \<and>
    channels r c = Some d \<and> channels r' c' = Some d' \<and> timed_modes d = timed_modes d'"
proof -
  note both = reachable_both [OF assms(1)] reachable_both [OF assms(2)]
  note run = sjoins_run_merges [OF both(1) [THEN conjunct1] both(1) [THEN conjunct2] assms(3,5,7)]
    sjoins_run_merges [OF both(2) [THEN conjunct1] both(2) [THEN conjunct2] assms(4,6,8)]
  have "fold sjoin_merge (map snd msgs) (timed_modes ch) = fold sjoin_merge (map snd msgs') (timed_modes ch')"
    by (rule sjoins.fold_same_values [OF run(1) [THEN conjunct2] assms(5) run(2) [THEN conjunct2] assms(6,9)])
  then show ?thesis using run by metis
qed

theorem sjoin_order_irrelevant_witness:
  "\<exists>r r' d d'. sjoins_run [hub_sjoin [''900'', ''#A'', ''+nt'', ''@1AAAAAAAB'']] hub_net = Some r \<and>
    sjoins_run [hub_sjoin [''1000'', ''#a'', ''+nt'', ''@1AAAAAAAB'']] (hub_at 900 ''#A'') = Some r' \<and>
    channels r 0 = Some d \<and> channels r' 0 = Some d' \<and> timed_modes d = timed_modes d'"
proof -
  let ?env = "hub_sjoin [''900'', ''#A'', ''+nt'', ''@1AAAAAAAB'']" and ?env' = "hub_sjoin [''1000'', ''#a'', ''+nt'', ''@1AAAAAAAB'']"
  let ?ch = "the (channels hub_net 0)" and ?ch' = "the (channels (hub_at 900 ''#A'') 0)"
  let ?p = "(900, chan_mode_of ?ch')" and ?p' = "(1000, chan_mode_of ?ch)"
  have "channels hub_net 0 \<noteq> None" "channels (hub_at 900 ''#A'') 0 \<noteq> None" by code_simp+
  then have ch: "channels hub_net 0 = Some ?ch" "channels (hub_at 900 ''#A'') 0 = Some ?ch'" by auto
  have fields: "ch_limit ?ch = 0" "ch_key ?ch = []" "ch_creationtime ?ch = 1000" "ch_limit ?ch' = 0" "ch_key ?ch' = []" "ch_creationtime ?ch' = 900" by code_simp+
  have fit: "timed_fits (timed_modes ?ch)" "timed_fits (timed_modes ?ch')" using fields by (simp_all add: timed_fits_def timed_modes_def mode_fits_def chan_mode_of_def)
  have calls: "sjoin_call_ok ?env hub_net" "sjoin_call_ok ?env' (hub_at 900 ''#A'')" by (simp_all add: hub_call)
  have rest: "uisserver (users hub_net (sj_source ?env))" "check_channel_name (sj_cfg ?env) (sj_parv ?env ! 2) False" "hash_find_channel (sj_parv ?env ! 2) hub_net = Some 0"
    "map_option (map_option snd) (sjoin_modes (sj_parv ?env) (sj_parv ?env ! 3) 0 no_mode) = Some (Some (snd ?p))"
    "atol (sj_parv ?env ! 1) = 900" "\<not> sj_ignore_bogus_ts ?env" by code_simp+
  have rest': "uisserver (users (hub_at 900 ''#A'') (sj_source ?env'))" "check_channel_name (sj_cfg ?env') (sj_parv ?env' ! 2) False" "hash_find_channel (sj_parv ?env' ! 2) (hub_at 900 ''#A'') = Some 0"
    "map_option (map_option snd) (sjoin_modes (sj_parv ?env') (sj_parv ?env' ! 3) 0 no_mode) = Some (Some (snd ?p'))"
    "atol (sj_parv ?env' ! 1) = 1000" "\<not> sj_ignore_bogus_ts ?env'" by code_simp+
  have carry: "carries ?env 0 ?p hub_net" "carries ?env' 0 ?p' (hub_at 900 ''#A'')" unfolding carries_def using calls rest rest' by simp_all
  have all: "all_carry 0 [(?env, ?p)] hub_net" "all_carry 0 [(?env', ?p')] (hub_at 900 ''#A'')" using carry by (simp_all split: option.split)
  have same: "insert (timed_modes ?ch) (set (map snd [(?env, ?p)])) = insert (timed_modes ?ch') (set (map snd [(?env', ?p')]))"
    using fields(3,6) by (auto simp: timed_modes_def)
  show ?thesis using sjoin_order_irrelevant [OF hub_steps hub_steps ch fit all same] by simp
qed

end
