(* ===== verification/Whowas.thy ===== *)
theory Whowas
  imports Hash ChannelMode
begin

text \<open>
  The nickname history, \<open>src/src/whowas.c\<close>: a ring of \<open>NICKNAMEHISTORYLENGTH\<close> slots, a hash table of the slots by nick,
  and for each client the list of slots that point to it. The lists are sequences of slot numbers, as in theory
  Channel; \<open>hashv\<close> is \<open>None\<close> for a slot that was never used (-1 in the code). The history implements a list of the
  latest entries, newest first, and never keeps a pointer to a client that has gone.
\<close>

definition NICKNAMEHISTORYLENGTH :: nat where "NICKNAMEHISTORYLENGTH = 32768"
definition ACCOUNTLEN :: nat where "ACCOUNTLEN = NICKLEN"
definition HOSTIPLEN :: nat where "HOSTIPLEN = 45"
definition REALLEN :: nat where "REALLEN = 150"

record Whowas =
  hashv :: "u32 option"
  shide :: bool
  logoff :: int
  w_account :: string
  w_name :: string
  w_username :: string
  w_hostname :: string
  w_sockhost :: string
  w_realname :: string
  w_servername :: string
  online :: "addr option"

text \<open>What the history copies of a client and of its server.\<close>

record who_client =
  wc_isclient :: bool
  wc_account :: string
  wc_name :: string
  wc_username :: string
  wc_host :: string
  wc_sockhost :: string
  wc_info :: string
  wc_servname :: string
  wc_servhidden :: bool

record whowas_state =
  WHOWAS :: "nat \<Rightarrow> Whowas"
  whowas_next :: nat
  WHOWASHASH :: "u32 \<Rightarrow> nat list"
  cl_whowas :: "addr \<Rightarrow> nat list"

definition whowas_init :: "whowas_state \<Rightarrow> whowas_state" where
  "whowas_init st = st\<lparr>WHOWAS := (\<lambda>i. if i < NICKNAMEHISTORYLENGTH then (WHOWAS st i)\<lparr>hashv := None\<rparr> else WHOWAS st i)\<rparr>"

definition who_entry :: "u32 \<Rightarrow> int \<Rightarrow> addr \<Rightarrow> who_client \<Rightarrow> bool \<Rightarrow> Whowas" where
  "who_entry key now x c on =
    \<lparr>hashv = Some (strhash key (wc_name c)), shide = wc_servhidden c, logoff = now, w_account = strlcpy_str (wc_account c) (ACCOUNTLEN + 1),
     w_name = strlcpy_str (wc_name c) (NICKLEN + 1), w_username = strlcpy_str (wc_username c) (USERLEN + 1),
     w_hostname = strlcpy_str (wc_host c) (HOSTLEN + 1), w_sockhost = strlcpy_str (wc_sockhost c) (HOSTIPLEN + 1),
     w_realname = strlcpy_str (wc_info c) (REALLEN + 1), w_servername = strlcpy_str (wc_servname c) (HOSTLEN + 1),
     online = (if on then Some x else None)\<rparr>"

text \<open>Unlinking a slot that was in use.\<close>

definition unlink_slot :: "nat \<Rightarrow> whowas_state \<Rightarrow> whowas_state option" where
  "unlink_slot i st =
    (case hashv (WHOWAS st i) of
       None \<Rightarrow> Some st
     | Some h \<Rightarrow> do {
         st1 \<leftarrow> (case online (WHOWAS st i) of
                   None \<Rightarrow> Some st
                 | Some y \<Rightarrow> map_option (\<lambda>l. st\<lparr>cl_whowas := (cl_whowas st)(y := l)\<rparr>) (list_delete i (cl_whowas st y)));
         map_option (\<lambda>l. st1\<lparr>WHOWASHASH := (WHOWASHASH st1)(h := l)\<rparr>) (list_delete i (WHOWASHASH st1 h))
       })"

definition whowas_add_history :: "u32 \<Rightarrow> int \<Rightarrow> addr \<Rightarrow> who_client \<Rightarrow> bool \<Rightarrow> whowas_state \<Rightarrow> whowas_state option" where
  "whowas_add_history key now x c on st =
    (let i = whowas_next st in
     if \<not> wc_isclient c then None
     else do {
       let st1 = st\<lparr>whowas_next := (if i + 1 = NICKNAMEHISTORYLENGTH then 0 else i + 1)\<rparr>;
       st2 \<leftarrow> unlink_slot i st1;
       let e = who_entry key now x c on;
       let h = strhash key (wc_name c);
       let st3 = st2\<lparr>WHOWAS := (WHOWAS st2)(i := e)\<rparr>;
       let st4 = (if on then st3\<lparr>cl_whowas := (cl_whowas st3)(x := i # cl_whowas st3 x)\<rparr> else st3);
       Some (st4\<lparr>WHOWASHASH := (WHOWASHASH st4)(h := i # WHOWASHASH st4 h)\<rparr>)
     })"

fun off_loop :: "addr \<Rightarrow> nat list \<Rightarrow> whowas_state \<Rightarrow> whowas_state option" where
  "off_loop x [] st = Some st"
| "off_loop x (i # is') st = do {
     l \<leftarrow> list_delete i (cl_whowas st x);
     off_loop x is' (st\<lparr>WHOWAS := (WHOWAS st)(i := (WHOWAS st i)\<lparr>online := None\<rparr>), cl_whowas := (cl_whowas st)(x := l)\<rparr>)
   }"

definition whowas_off_history :: "addr \<Rightarrow> whowas_state \<Rightarrow> whowas_state option" where
  "whowas_off_history x st = off_loop x (cl_whowas st x) st"

definition whowas_get_history :: "u32 \<Rightarrow> int \<Rightarrow> string \<Rightarrow> int \<Rightarrow> whowas_state \<Rightarrow> addr option" where
  "whowas_get_history key now nick timelimit st =
    (case find (\<lambda>i. \<not> logoff (WHOWAS st i) < now - timelimit \<and> irccmp nick (w_name (WHOWAS st i)) = 0) (WHOWASHASH st (strhash key nick)) of
       None \<Rightarrow> None
     | Some i \<Rightarrow> online (WHOWAS st i))"

text \<open>The number of used slots and their size, \<open>sz\<close> being the size of one slot.\<close>

definition whowas_count_memory :: "nat \<Rightarrow> nat \<Rightarrow> nat \<Rightarrow> whowas_state \<Rightarrow> nat \<times> nat" where
  "whowas_count_memory sz cnt bytes st =
    (let n = length (filter (\<lambda>i. hashv (WHOWAS st i) \<noteq> None) [0..<NICKNAMEHISTORYLENGTH]) in (cnt + n, bytes + n * sz))"

section \<open>The order of the slots\<close>

text \<open>The \<open>m\<close> slots before \<open>n\<close> in the ring, the last used first.\<close>

definition slots :: "nat \<Rightarrow> nat \<Rightarrow> nat list" where
  "slots n m = map (\<lambda>j. (n + NICKNAMEHISTORYLENGTH - 1 - j) mod NICKNAMEHISTORYLENGTH) [0..<m]"

lemma ring_pos: "0 < NICKNAMEHISTORYLENGTH"
  by (simp add: NICKNAMEHISTORYLENGTH_def)

lemma length_slots [simp]: "length (slots n m) = m"
  by (simp add: slots_def)

lemma slots_step:
  assumes "n < NICKNAMEHISTORYLENGTH" "m < NICKNAMEHISTORYLENGTH"
  shows "slots (if n + 1 = NICKNAMEHISTORYLENGTH then 0 else n + 1) (Suc m) = n # slots n m"
proof -
  have "(if n + 1 = NICKNAMEHISTORYLENGTH then 0 else n + 1) + NICKNAMEHISTORYLENGTH - 1 - Suc j =
      (if n + 1 = NICKNAMEHISTORYLENGTH then n + NICKNAMEHISTORYLENGTH - 1 - j - NICKNAMEHISTORYLENGTH else n + NICKNAMEHISTORYLENGTH - 1 - j)"
    if "j < m" for j using assms that by auto
  moreover have "n + NICKNAMEHISTORYLENGTH - 1 - j \<ge> NICKNAMEHISTORYLENGTH" if "n + 1 = NICKNAMEHISTORYLENGTH" "j < m" for j
    using assms that by simp
  ultimately have eq: "((if n + 1 = NICKNAMEHISTORYLENGTH then 0 else n + 1) + NICKNAMEHISTORYLENGTH - 1 - Suc j) mod NICKNAMEHISTORYLENGTH =
      (n + NICKNAMEHISTORYLENGTH - 1 - j) mod NICKNAMEHISTORYLENGTH" if "j < m" for j
    using that by (simp add: le_mod_geq)
  have "((if n + 1 = NICKNAMEHISTORYLENGTH then 0 else n + 1) + NICKNAMEHISTORYLENGTH - 1 - 0) mod NICKNAMEHISTORYLENGTH = n"
    using assms(1) by auto
  then show ?thesis
    unfolding slots_def by (subst upt_conv_Cons) (use eq in \<open>auto simp: map_Suc_upt [symmetric] comp_def simp del: upt_Suc\<close>)
qed

lemma slots_distinct: "n < NICKNAMEHISTORYLENGTH \<Longrightarrow> m \<le> NICKNAMEHISTORYLENGTH \<Longrightarrow> distinct (slots n m)"
proof -
  assume a: "n < NICKNAMEHISTORYLENGTH" "m \<le> NICKNAMEHISTORYLENGTH"
  have "inj_on (\<lambda>j. (n + NICKNAMEHISTORYLENGTH - 1 - j) mod NICKNAMEHISTORYLENGTH) {0..<m}"
  proof (rule inj_onI)
    fix i j assume ij: "i \<in> {0..<m}" "j \<in> {0..<m}" and
      eq: "(n + NICKNAMEHISTORYLENGTH - 1 - i) mod NICKNAMEHISTORYLENGTH = (n + NICKNAMEHISTORYLENGTH - 1 - j) mod NICKNAMEHISTORYLENGTH"
    have m: "(n + NICKNAMEHISTORYLENGTH - 1 - k) mod NICKNAMEHISTORYLENGTH = (if k < n then n - 1 - k else n + NICKNAMEHISTORYLENGTH - 1 - k)"
      if "k < NICKNAMEHISTORYLENGTH" for k
      using a(1) that by (cases "k < n") (simp_all add: le_mod_geq)
    show "i = j" using eq ij a m [of i] m [of j] by (auto split: if_splits)
  qed
  then show ?thesis by (simp add: slots_def distinct_map)
qed

lemma slots_full: "n < NICKNAMEHISTORYLENGTH \<Longrightarrow> slots n NICKNAMEHISTORYLENGTH = slots n (NICKNAMEHISTORYLENGTH - 1) @ [n]"
proof -
  assume "n < NICKNAMEHISTORYLENGTH"
  then have "[0..<NICKNAMEHISTORYLENGTH] = [0..<NICKNAMEHISTORYLENGTH - 1] @ [NICKNAMEHISTORYLENGTH - 1]" by (metis Suc_diff_1 ring_pos upt_Suc_append zero_le)
  then show ?thesis using \<open>n < NICKNAMEHISTORYLENGTH\<close> unfolding slots_def by (simp del: upt_Suc)
qed

lemma slots_range: "i \<in> set (slots n m) \<Longrightarrow> i < NICKNAMEHISTORYLENGTH"
  using ring_pos by (auto simp: slots_def)

lemma slots_all: "n < NICKNAMEHISTORYLENGTH \<Longrightarrow> i < NICKNAMEHISTORYLENGTH \<Longrightarrow> i \<in> set (slots n NICKNAMEHISTORYLENGTH)"
proof -
  assume a: "n < NICKNAMEHISTORYLENGTH" "i < NICKNAMEHISTORYLENGTH"
  have "set (slots n NICKNAMEHISTORYLENGTH) \<subseteq> {0..<NICKNAMEHISTORYLENGTH}" using slots_range by auto
  moreover have "card (set (slots n NICKNAMEHISTORYLENGTH)) = card {0..<NICKNAMEHISTORYLENGTH}"
    using distinct_card [OF slots_distinct [OF a(1) order_refl]] by simp
  ultimately have "set (slots n NICKNAMEHISTORYLENGTH) = {0..<NICKNAMEHISTORYLENGTH}" by (intro card_subset_eq) auto
  then show ?thesis using a(2) by simp
qed

lemma slots_unwrapped: "n < NICKNAMEHISTORYLENGTH \<Longrightarrow> n \<notin> set (slots n n)"
  by (auto simp: slots_def le_mod_geq)

section \<open>The history as a list\<close>

text \<open>The entries \<open>es\<close>, newest first, are those of the last used slots; the hash table and the lists of the clients hold
  the slots in the same order.\<close>

definition hist_ok :: "u32 \<Rightarrow> whowas_state \<Rightarrow> Whowas list \<Rightarrow> bool" where
  "hist_ok key st es \<longleftrightarrow> (let ord = slots (whowas_next st) (length es) in
    whowas_next st < NICKNAMEHISTORYLENGTH \<and> length es \<le> NICKNAMEHISTORYLENGTH \<and>
    (length es < NICKNAMEHISTORYLENGTH \<longrightarrow> whowas_next st = length es) \<and> map (WHOWAS st) ord = es \<and>
    (\<forall>i < NICKNAMEHISTORYLENGTH. hashv (WHOWAS st i) = None \<longleftrightarrow> i \<notin> set ord) \<and>
    (\<forall>e \<in> set es. hashv e = Some (strhash key (w_name e))) \<and>
    (\<forall>h. WHOWASHASH st h = filter (\<lambda>i. hashv (WHOWAS st i) = Some h) ord) \<and>
    (\<forall>x. cl_whowas st x = filter (\<lambda>i. online (WHOWAS st i) = Some x) ord))"

lemma hist_okD:
  assumes "hist_ok key st es"
  shows "whowas_next st < NICKNAMEHISTORYLENGTH" "length es \<le> NICKNAMEHISTORYLENGTH" "length es < NICKNAMEHISTORYLENGTH \<Longrightarrow> whowas_next st = length es"
    "map (WHOWAS st) (slots (whowas_next st) (length es)) = es"
    "i < NICKNAMEHISTORYLENGTH \<Longrightarrow> hashv (WHOWAS st i) = None \<longleftrightarrow> i \<notin> set (slots (whowas_next st) (length es))"
    "e \<in> set es \<Longrightarrow> hashv e = Some (strhash key (w_name e))"
    "WHOWASHASH st h = filter (\<lambda>i. hashv (WHOWAS st i) = Some h) (slots (whowas_next st) (length es))"
    "cl_whowas st x = filter (\<lambda>i. online (WHOWAS st i) = Some x) (slots (whowas_next st) (length es))"
    "distinct (slots (whowas_next st) (length es))"
  using assms slots_distinct [of "whowas_next st" "length es"] unfolding hist_ok_def Let_def by blast+

text \<open>Before a slot is used again its old entry, the oldest, is taken out of the lists.\<close>

lemma unlink_ok:
  assumes ok: "hist_ok key st es"
  defines "i \<equiv> whowas_next st" and "m \<equiv> min (length es) (NICKNAMEHISTORYLENGTH - 1)"
  shows "\<exists>st'. unlink_slot i (st\<lparr>whowas_next := n\<rparr>) = Some st' \<and> WHOWAS st' = WHOWAS st \<and> whowas_next st' = n \<and>
    (\<forall>h. WHOWASHASH st' h = filter (\<lambda>j. hashv (WHOWAS st j) = Some h) (slots i m)) \<and>
    (\<forall>x. cl_whowas st' x = filter (\<lambda>j. online (WHOWAS st j) = Some x) (slots i m)) \<and>
    i \<notin> set (slots i m) \<and> map (WHOWAS st) (slots i m) = take (NICKNAMEHISTORYLENGTH - 1) es"
proof (cases "length es < NICKNAMEHISTORYLENGTH")
  case True
  note ok' = hist_okD [OF ok]
  have m: "m = length es" "i = length es" using True ok'(3) by (auto simp: m_def i_def)
  have out: "i \<notin> set (slots i m)" using slots_unwrapped [of i] ok'(1) m by (simp add: i_def)
  then have "hashv (WHOWAS st i) = None" using ok'(1,5) m by (simp add: i_def)
  then have "unlink_slot i (st\<lparr>whowas_next := n\<rparr>) = Some (st\<lparr>whowas_next := n\<rparr>)" by (simp add: unlink_slot_def)
  then show ?thesis using out ok'(4,7,8) m True by (simp add: i_def)
next
  case False
  note ok' = hist_okD [OF ok]
  have full: "length es = NICKNAMEHISTORYLENGTH" "m = NICKNAMEHISTORYLENGTH - 1" using False ok'(2) by (auto simp: m_def)
  have ord: "slots i (length es) = slots i m @ [i]" using slots_full ok'(1) full by (simp add: i_def)
  then have out: "i \<notin> set (slots i m)" using ok'(9) by (simp add: i_def)
  obtain h where h: "hashv (WHOWAS st i) = Some h" using ok'(5) [OF ok'(1)] ord by (auto simp: i_def)
  have del: "list_delete i (filter P (slots i m @ [i])) = Some (filter P (slots i m))" if "P i" for P
    using that out by (simp add: list_delete_def remove1_append)
  have skip: "filter P (slots i m @ [i]) = filter P (slots i m)" if "\<not> P i" for P using that by simp
  have hash: "list_delete i (WHOWASHASH st h) = Some (filter (\<lambda>j. hashv (WHOWAS st j) = Some h) (slots i m))"
    using del [of "\<lambda>j. hashv (WHOWAS st j) = Some h"] h ok'(7) [of h] ord by (simp add: i_def)
  have others: "WHOWASHASH st h' = filter (\<lambda>j. hashv (WHOWAS st j) = Some h') (slots i m)" if "h' \<noteq> h" for h'
    using ok'(7) [of h'] ord h that by (simp add: i_def)
  have es: "map (WHOWAS st) (slots i m) = take (NICKNAMEHISTORYLENGTH - 1) es"
  proof -
    have "es = map (WHOWAS st) (slots i m @ [i])" using ok'(4) ord by (simp add: i_def)
    then show ?thesis using full(2) by simp
  qed
  show ?thesis
  proof (cases "online (WHOWAS st i)")
    case None
    then have "cl_whowas st x = filter (\<lambda>j. online (WHOWAS st j) = Some x) (slots i m)" for x using ok'(8) [of x] ord by (simp add: i_def)
    then show ?thesis using None h hash others out es by (simp add: unlink_slot_def)
  next
    case (Some y)
    have "list_delete i (cl_whowas st y) = Some (filter (\<lambda>j. online (WHOWAS st j) = Some y) (slots i m))"
      using del [of "\<lambda>j. online (WHOWAS st j) = Some y"] Some ok'(8) [of y] ord by (simp add: i_def)
    moreover have "cl_whowas st x = filter (\<lambda>j. online (WHOWAS st j) = Some x) (slots i m)" if "x \<noteq> y" for x
      using ok'(8) [of x] ord Some that by (simp add: i_def)
    ultimately show ?thesis using Some h hash others out es by (simp add: unlink_slot_def)
  qed
qed

lemma add_history_ok:
  assumes ok: "hist_ok key st es" and c: "wc_isclient c" "length (wc_name c) \<le> NICKLEN"
  shows "\<exists>st'. whowas_add_history key now x c on st = Some st' \<and> hist_ok key st' (take NICKNAMEHISTORYLENGTH (who_entry key now x c on # es))"
proof -
  define i where "i = whowas_next st"
  define n where "n = (if i + 1 = NICKNAMEHISTORYLENGTH then 0 else i + 1)"
  define m where "m = min (length es) (NICKNAMEHISTORYLENGTH - 1)"
  define e where "e = who_entry key now x c on"
  note ok' = hist_okD [OF ok]
  obtain st2 where st2: "unlink_slot i (st\<lparr>whowas_next := n\<rparr>) = Some st2" "WHOWAS st2 = WHOWAS st" "whowas_next st2 = n"
      "\<And>h. WHOWASHASH st2 h = filter (\<lambda>j. hashv (WHOWAS st j) = Some h) (slots i m)"
      "\<And>x. cl_whowas st2 x = filter (\<lambda>j. online (WHOWAS st j) = Some x) (slots i m)"
      "i \<notin> set (slots i m)" "map (WHOWAS st) (slots i m) = take (NICKNAMEHISTORYLENGTH - 1) es"
    using unlink_ok [OF ok, of n] unfolding i_def [symmetric] m_def [symmetric] by blast
  have m: "m < NICKNAMEHISTORYLENGTH" using ring_pos by (simp add: m_def)
  have i: "i < NICKNAMEHISTORYLENGTH" using ok'(1) by (simp add: i_def)
  have ord: "slots n (Suc m) = i # slots i m" using slots_step [OF i m] by (simp add: n_def)
  have es: "take NICKNAMEHISTORYLENGTH (e # es) = e # take (NICKNAMEHISTORYLENGTH - 1) es" using ring_pos by (simp add: take_Cons')
  then have len: "length (take NICKNAMEHISTORYLENGTH (e # es)) = Suc m" by (simp add: m_def)
  define st' where "st' = st2\<lparr>WHOWAS := (WHOWAS st)(i := e), cl_whowas := (if on then (cl_whowas st2)(x := i # cl_whowas st2 x) else cl_whowas st2),
    WHOWASHASH := (WHOWASHASH st2)(strhash key (wc_name c) := i # WHOWASHASH st2 (strhash key (wc_name c)))\<rparr>"
  have add: "whowas_add_history key now x c on st = Some st'"
    unfolding whowas_add_history_def Let_def i_def [symmetric] n_def [symmetric] using c(1) st2(1,2) by (simp add: st'_def e_def)
  have entry: "hashv e = Some (strhash key (wc_name c))" "w_name e = wc_name c" "online e = (if on then Some x else None)"
    using c(2) by (simp_all add: e_def who_entry_def strlcpy_str_def)
  have same: "map (WHOWAS st') (slots i m) = map (WHOWAS st) (slots i m)" "WHOWAS st' i = e" "\<And>j. j \<in> set (slots i m) \<Longrightarrow> WHOWAS st' j = WHOWAS st j"
    using st2(6) by (auto simp: st'_def)
  have keep: "filter (\<lambda>j. P (WHOWAS st' j)) (slots i m) = filter (\<lambda>j. P (WHOWAS st j)) (slots i m)" for P
    using same(3) by (intro filter_cong) auto
  have used: "hashv (WHOWAS st' j) = None \<longleftrightarrow> j \<notin> set (slots n (Suc m))" if "j < NICKNAMEHISTORYLENGTH" for j
  proof (cases "j = i")
    case False
    have "j \<in> set (slots i (length es)) \<longleftrightarrow> j \<in> set (slots i m)"
      using False ok'(2) slots_full [OF i] by (cases "length es = NICKNAMEHISTORYLENGTH") (auto simp: m_def min_def)
    then show ?thesis using False ok'(5) [OF that] ord by (simp add: st'_def i_def [symmetric])
  qed (use entry(1) same(2) ord in simp)
  have "hist_ok key st' (take NICKNAMEHISTORYLENGTH (e # es))"
    unfolding hist_ok_def Let_def len
  proof (intro conjI allI impI ballI)
    have next_st': "whowas_next st' = n" by (simp add: st'_def st2(3))
    show "whowas_next st' < NICKNAMEHISTORYLENGTH" using i ring_pos by (auto simp: next_st' n_def)
    show "Suc m \<le> NICKNAMEHISTORYLENGTH" using m by simp
    show "whowas_next st' = Suc m" if "Suc m < NICKNAMEHISTORYLENGTH"
    proof -
      have "m = length es" "length es < NICKNAMEHISTORYLENGTH" using that by (auto simp: m_def)
      then show ?thesis using that ok'(3) by (simp add: next_st' n_def i_def)
    qed
    show "map (WHOWAS st') (slots (whowas_next st') (Suc m)) = take NICKNAMEHISTORYLENGTH (e # es)"
      by (simp only: next_st' ord es same(1,2) st2(7) list.map)
    show "hashv (WHOWAS st' j) = None \<longleftrightarrow> j \<notin> set (slots (whowas_next st') (Suc m))" if "j < NICKNAMEHISTORYLENGTH" for j
      using used [OF that] by (simp add: next_st')
    show "hashv f = Some (strhash key (w_name f))" if "f \<in> set (take NICKNAMEHISTORYLENGTH (e # es))" for f
      using that entry(1,2) ok'(6) by (auto simp: es dest: in_set_takeD)
    show "WHOWASHASH st' h = filter (\<lambda>j. hashv (WHOWAS st' j) = Some h) (slots (whowas_next st') (Suc m))" for h
      using entry(1) st2(4) same(2) by (simp add: next_st' ord keep [of "\<lambda>w. hashv w = Some h"]) (simp add: st'_def)
    show "cl_whowas st' y = filter (\<lambda>j. online (WHOWAS st' j) = Some y) (slots (whowas_next st') (Suc m))" for y
      using entry(3) st2(5) same(2) by (simp add: next_st' ord keep [of "\<lambda>w. online w = Some y"]) (simp add: st'_def)
  qed
  then show ?thesis using add by (simp add: e_def)
qed

lemma off_loop_ok:
  "distinct is' \<Longrightarrow> cl_whowas st x = is' \<Longrightarrow> \<exists>st'. off_loop x is' st = Some st' \<and> whowas_next st' = whowas_next st \<and> WHOWASHASH st' = WHOWASHASH st \<and>
    cl_whowas st' = (cl_whowas st)(x := []) \<and> (\<forall>i. WHOWAS st' i = (if i \<in> set is' then (WHOWAS st i)\<lparr>online := None\<rparr> else WHOWAS st i))"
proof (induction is' arbitrary: st)
  case Nil
  then show ?case by (auto simp: fun_upd_idem)
next
  case (Cons i is')
  define st1 where "st1 = st\<lparr>WHOWAS := (WHOWAS st)(i := (WHOWAS st i)\<lparr>online := None\<rparr>), cl_whowas := (cl_whowas st)(x := is')\<rparr>"
  have "off_loop x (i # is') st = off_loop x is' st1" using Cons.prems by (simp add: list_delete_def st1_def)
  moreover obtain st' where "off_loop x is' st1 = Some st'" "whowas_next st' = whowas_next st1" "WHOWASHASH st' = WHOWASHASH st1"
      "cl_whowas st' = (cl_whowas st1)(x := [])" "\<forall>i. WHOWAS st' i = (if i \<in> set is' then (WHOWAS st1 i)\<lparr>online := None\<rparr> else WHOWAS st1 i)"
    using Cons.IH [of st1] Cons.prems(1) by (force simp: st1_def)
  ultimately show ?case by (auto simp: st1_def)
qed

definition gone :: "addr \<Rightarrow> Whowas \<Rightarrow> Whowas" where
  "gone x e = (if online e = Some x then e\<lparr>online := None\<rparr> else e)"

lemma gone_fields [simp]: "hashv (gone x e) = hashv e" "w_name (gone x e) = w_name e" "logoff (gone x e) = logoff e"
  "online (gone x e) = Some y \<longleftrightarrow> online e = Some y \<and> y \<noteq> x"
  by (auto simp: gone_def)

lemma off_history_ok:
  assumes ok: "hist_ok key st es"
  shows "\<exists>st'. whowas_off_history x st = Some st' \<and> hist_ok key st' (map (gone x) es)"
proof -
  note ok' = hist_okD [OF ok]
  let ?ord = "slots (whowas_next st) (length es)"
  have "distinct (cl_whowas st x)" using ok'(8,9) by simp
  then obtain st' where st': "whowas_off_history x st = Some st'" "whowas_next st' = whowas_next st" "WHOWASHASH st' = WHOWASHASH st"
      "cl_whowas st' = (cl_whowas st)(x := [])" "\<And>i. WHOWAS st' i = (if i \<in> set (cl_whowas st x) then (WHOWAS st i)\<lparr>online := None\<rparr> else WHOWAS st i)"
    using off_loop_ok [of "cl_whowas st x" st x] by (auto simp: whowas_off_history_def)
  have w: "WHOWAS st' i = gone x (WHOWAS st i)" if "i \<in> set ?ord" for i using that st'(5) ok'(8) by (auto simp: gone_def)
  have h: "hashv (WHOWAS st' i) = hashv (WHOWAS st i)" for i by (simp add: st'(5))
  have "hist_ok key st' (map (gone x) es)"
    unfolding hist_ok_def Let_def length_map st'(2)
  proof (intro conjI allI impI ballI)
    show "map (WHOWAS st') ?ord = map (gone x) es"
      by (subst ok'(4) [symmetric]) (use w in \<open>simp add: comp_def\<close>)
    show "hashv e = Some (strhash key (w_name e))" if "e \<in> set (map (gone x) es)" for e using that ok'(6) by auto
    show "cl_whowas st' y = filter (\<lambda>i. online (WHOWAS st' i) = Some y) ?ord" for y
    proof -
      have "filter (\<lambda>i. online (WHOWAS st' i) = Some y) ?ord = filter (\<lambda>i. online (WHOWAS st i) = Some y \<and> y \<noteq> x) ?ord"
        using w by (intro filter_cong) auto
      then show ?thesis using ok'(8) by (simp add: st'(4))
    qed
  qed (use ok' h st'(3) in simp_all)
  then show ?thesis using st'(1) by blast
qed

section \<open>Searching\<close>

definition latest :: "string \<Rightarrow> int \<Rightarrow> Whowas list \<Rightarrow> addr option" where
  "latest nick since es = (case find (\<lambda>e. since \<le> logoff e \<and> irccmp nick (w_name e) = 0) es of None \<Rightarrow> None | Some e \<Rightarrow> online e)"

lemma find_map: "find P (map f xs) = map_option f (find (\<lambda>x. P (f x)) xs)"
  by (induction xs) auto

lemma find_filter: "find P (filter Q xs) = find (\<lambda>x. Q x \<and> P x) xs"
  by (induction xs) auto

lemma get_history_latest:
  assumes ok: "hist_ok key st es"
  shows "whowas_get_history key now nick timelimit st = latest nick (now - timelimit) es"
proof -
  let ?ord = "slots (whowas_next st) (length es)"
  have "hashv (WHOWAS st i) = Some (strhash key nick)" if "i \<in> set ?ord" "irccmp nick (w_name (WHOWAS st i)) = 0" for i
  proof -
    have "WHOWAS st i \<in> set es" using that(1) by (subst hist_okD(4) [OF ok, symmetric]) simp
    then show ?thesis using hist_okD(6) [OF ok] strhash_fold_case [OF that(2), of key] by simp
  qed
  then have "find (\<lambda>i. \<not> logoff (WHOWAS st i) < now - timelimit \<and> irccmp nick (w_name (WHOWAS st i)) = 0) (WHOWASHASH st (strhash key nick)) =
      find (\<lambda>i. now - timelimit \<le> logoff (WHOWAS st i) \<and> irccmp nick (w_name (WHOWAS st i)) = 0) ?ord"
    unfolding hist_okD(7) [OF ok] find_filter by (intro find_cong) (auto simp: not_less)
  then show ?thesis
    unfolding whowas_get_history_def latest_def by (subst hist_okD(4) [OF ok, symmetric]) (simp add: find_map option.case_eq_if option.map_sel)
qed

lemma count_memory_ok:
  assumes ok: "hist_ok key st es"
  shows "whowas_count_memory sz cnt bytes st = (cnt + length es, bytes + length es * sz)"
proof -
  let ?ord = "slots (whowas_next st) (length es)"
  have "set (filter (\<lambda>i. hashv (WHOWAS st i) \<noteq> None) [0..<NICKNAMEHISTORYLENGTH]) = set ?ord"
  proof (rule set_eqI)
    show "i \<in> set (filter (\<lambda>i. hashv (WHOWAS st i) \<noteq> None) [0..<NICKNAMEHISTORYLENGTH]) \<longleftrightarrow> i \<in> set ?ord" for i
      using hist_okD(5) [OF ok, of i] slots_range [of i] by (cases "i < NICKNAMEHISTORYLENGTH") auto
  qed
  then have "length (filter (\<lambda>i. hashv (WHOWAS st i) \<noteq> None) [0..<NICKNAMEHISTORYLENGTH]) = length ?ord"
    using distinct_card [OF hist_okD(9) [OF ok]] distinct_card [of "filter (\<lambda>i. hashv (WHOWAS st i) \<noteq> None) [0..<NICKNAMEHISTORYLENGTH]"]
    by (metis distinct_filter distinct_upt)
  then show ?thesis by (simp add: whowas_count_memory_def Let_def del: not_None_eq)
qed

section \<open>Runs\<close>

datatype who_op = AddHistory int addr who_client bool | OffHistory addr

definition who_exec :: "u32 \<Rightarrow> who_op \<Rightarrow> whowas_state \<Rightarrow> c_error + whowas_state" where
  "who_exec key op st =
    (case (case op of AddHistory now x c on \<Rightarrow> whowas_add_history key now x c on st | OffHistory x \<Rightarrow> whowas_off_history x st) of
       None \<Rightarrow> Inl AssertionFailed | Some st' \<Rightarrow> Inr st')"

text \<open>The history as it is meant: a list of the latest entries, newest first.\<close>

definition who_spec :: "u32 \<Rightarrow> who_op \<Rightarrow> Whowas list \<Rightarrow> Whowas list option" where
  "who_spec key op es =
    (case op of
       AddHistory now x c on \<Rightarrow>
         (if wc_isclient c \<and> length (wc_name c) \<le> NICKLEN then Some (take NICKNAMEHISTORYLENGTH (who_entry key now x c on # es)) else None)
     | OffHistory x \<Rightarrow> Some (map (gone x) es))"

interpretation who_run: simulation "hist_ok key" "who_exec key" "who_spec key" for key
proof unfold_locales
  fix st es op es' assume ok: "hist_ok key st es" and spec: "who_spec key op es = Some es'"
  show "\<exists>st'. who_exec key op st = Inr st' \<and> hist_ok key st' es'"
  proof (cases op)
    case (AddHistory now x c on)
    then have c: "wc_isclient c" "length (wc_name c) \<le> NICKLEN" and es': "es' = take NICKNAMEHISTORYLENGTH (who_entry key now x c on # es)"
      using spec by (auto simp: who_spec_def split: if_splits)
    show ?thesis using add_history_ok [OF ok c, of now x on] unfolding es' by (auto simp: who_exec_def AddHistory)
  next
    case (OffHistory x)
    then show ?thesis using spec off_history_ok [OF ok, of x] by (auto simp: who_exec_def who_spec_def)
  qed
qed

definition who_start :: whowas_state where
  "who_start = whowas_init \<lparr>WHOWAS = (\<lambda>_. \<lparr>hashv = Some 0, shide = False, logoff = 0, w_account = [], w_name = [], w_username = [], w_hostname = [],
     w_sockhost = [], w_realname = [], w_servername = [], online = None\<rparr>), whowas_next = 0, WHOWASHASH = (\<lambda>_. []), cl_whowas = (\<lambda>_. [])\<rparr>"

lemma who_start_ok: "hist_ok key who_start []"
  using ring_pos by (simp add: hist_ok_def who_start_def whowas_init_def slots_def)

text \<open>C26: The nickname history is a list of the latest \<open>NICKNAMEHISTORYLENGTH\<close> entries, newest first. Any sequence of nick
  changes and departures of clients, with nicks that fit, runs without a fault: no slot is unlinked from a list it is
  not in. Afterwards \<open>whowas_get_history\<close> answers with the client of the newest entry for the nick, up to case, that is
  not older than the limit, and \<open>whowas_count_memory\<close> counts the entries.\<close>

theorem whowas_history_is_bounded_list:
  assumes "run_spec (who_spec key) ops [] = Some es"
  shows "\<exists>st. run_steps (who_exec key) ops who_start = Inr st \<and> length es \<le> NICKNAMEHISTORYLENGTH \<and>
    (\<forall>now nick limit. whowas_get_history key now nick limit st =
      (case find (\<lambda>e. now - limit \<le> logoff e \<and> irccmp nick (w_name e) = 0) es of None \<Rightarrow> None | Some e \<Rightarrow> online e)) \<and>
    (\<forall>sz cnt bytes. whowas_count_memory sz cnt bytes st = (cnt + length es, bytes + length es * sz))"
proof -
  obtain st where st: "run_steps (who_exec key) ops who_start = Inr st" "hist_ok key st es"
    using who_run.run_simulates [OF who_start_ok assms] by blast
  then show ?thesis using get_history_latest [OF st(2)] count_memory_ok [OF st(2)] hist_okD(2) [OF st(2)] by (auto simp: latest_def)
qed

text \<open>Two clients: 5 changes its nick away from \<open>ann\<close>, 6 takes it and leaves.\<close>

definition ann :: who_client where
  "ann = \<lparr>wc_isclient = True, wc_account = ''*'', wc_name = ''ann'', wc_username = ''a'', wc_host = ''h.org'', wc_sockhost = ''10.0.0.2'',
     wc_info = ''Ann'', wc_servname = ''irc.example.org'', wc_servhidden = False\<rparr>"

theorem whowas_history_is_bounded_list_witness:
  "\<exists>st. run_steps (who_exec 0) [AddHistory 100 5 ann True] who_start = Inr st \<and> whowas_get_history 0 150 ''ANN'' 90 st = Some 5"
proof -
  have "irccmp ''ANN'' ''ann'' = 0" by code_simp
  then have spec: "run_spec (who_spec 0) [AddHistory 100 5 ann True] [] = Some [who_entry 0 100 5 ann True]" "irccmp ''ANN'' (w_name (who_entry 0 100 5 ann True)) = 0"
    using ring_pos by (auto simp: who_spec_def ann_def NICKLEN_def who_entry_def strlcpy_str_def take_Cons')
  from whowas_history_is_bounded_list [OF spec(1)] obtain st where "run_steps (who_exec 0) [AddHistory 100 5 ann True] who_start = Inr st"
    "whowas_get_history 0 150 ''ANN'' 90 st = (case find (\<lambda>e. 150 - 90 \<le> logoff e \<and> irccmp ''ANN'' (w_name e) = 0) [who_entry 0 100 5 ann True] of None \<Rightarrow> None | Some e \<Rightarrow> online e)"
    by blast
  then show ?thesis using spec(2) by (simp add: who_entry_def)
qed

text \<open>C27: A client that has left is never found again: after \<open>whowas_off_history\<close> for it, and any further history that does
  not record the client as online, no slot of the ring points to it and no search of the history returns it.\<close>

theorem whowas_forgets_departed_client:
  assumes "run_spec (who_spec key) (ops @ OffHistory x # later) [] = Some es" "\<forall>now c. AddHistory now x c True \<notin> set later"
  shows "\<exists>st. run_steps (who_exec key) (ops @ OffHistory x # later) who_start = Inr st \<and>
    (\<forall>i < NICKNAMEHISTORYLENGTH. hashv (WHOWAS st i) \<noteq> None \<longrightarrow> online (WHOWAS st i) \<noteq> Some x) \<and> cl_whowas st x = [] \<and>
    (\<forall>now nick limit. whowas_get_history key now nick limit st \<noteq> Some x)"
proof -
  have app: "run_spec f (xs @ ys) a = Option.bind (run_spec f xs a) (run_spec f ys)" for f :: "who_op \<Rightarrow> Whowas list \<Rightarrow> Whowas list option" and xs ys a
    by (induction xs arbitrary: a) (auto split: option.splits)
  have keep: "run_spec (who_spec key) later a = Some b \<Longrightarrow> \<forall>now c. AddHistory now x c True \<notin> set later \<Longrightarrow> \<forall>e \<in> set a. online e \<noteq> Some x \<Longrightarrow> \<forall>e \<in> set b. online e \<noteq> Some x" for a b
  proof (induction later arbitrary: a)
    case (Cons op later)
    then obtain a1 where a1: "who_spec key op a = Some a1" "run_spec (who_spec key) later a1 = Some b" by (auto split: option.splits)
    have "\<forall>e \<in> set a1. online e \<noteq> Some x"
    proof (cases op)
      case (AddHistory now y c on)
      then have "online (who_entry key now y c on) \<noteq> Some x" using Cons.prems(2) by (cases on) (auto simp: who_entry_def)
      then show ?thesis using a1(1) Cons.prems(3) by (auto simp: who_spec_def AddHistory split: if_splits dest!: in_set_takeD)
    qed (use a1(1) Cons.prems(3) in \<open>auto simp: who_spec_def\<close>)
    then show ?case using Cons.IH [OF a1(2)] Cons.prems(2) by simp
  qed simp
  obtain a where "run_spec (who_spec key) later (map (gone x) a) = Some es" using assms(1) by (auto simp: app bind_eq_Some_conv who_spec_def)
  then have none: "\<forall>e \<in> set es. online e \<noteq> Some x" by (rule keep [OF _ assms(2)]) auto
  obtain st where st: "run_steps (who_exec key) (ops @ OffHistory x # later) who_start = Inr st" "hist_ok key st es"
    using who_run.run_simulates [OF who_start_ok assms(1)] by blast
  have slot: "online (WHOWAS st i) \<noteq> Some x" if "i \<in> set (slots (whowas_next st) (length es))" for i
  proof -
    have "WHOWAS st i \<in> set es" using that by (subst hist_okD(4) [OF st(2), symmetric]) simp
    then show ?thesis using none by blast
  qed
  have "whowas_get_history key now nick limit st \<noteq> Some x" for now nick limit
    using none by (auto simp: get_history_latest [OF st(2)] latest_def find_Some_iff split: option.splits)
  moreover have "cl_whowas st x = []" using slot by (simp add: hist_okD(8) [OF st(2)] filter_empty_conv)
  moreover have "online (WHOWAS st i) \<noteq> Some x" if "i < NICKNAMEHISTORYLENGTH" "hashv (WHOWAS st i) \<noteq> None" for i
    using that(2) slot [of i] hist_okD(5) [OF st(2) that(1)] by simp
  ultimately show ?thesis using st(1) by metis
qed

theorem whowas_forgets_departed_client_witness:
  "\<exists>st. run_steps (who_exec 0) ([AddHistory 100 5 ann True] @ OffHistory 5 # [AddHistory 120 6 ann False]) who_start = Inr st \<and>
    whowas_get_history 0 150 ''ann'' 90 st \<noteq> Some 5"
proof -
  have "run_spec (who_spec 0) ([AddHistory 100 5 ann True] @ OffHistory 5 # [AddHistory 120 6 ann False]) [] \<noteq> None"
    by (simp add: who_spec_def ann_def NICKLEN_def)
  then obtain es where es: "run_spec (who_spec 0) ([AddHistory 100 5 ann True] @ OffHistory 5 # [AddHistory 120 6 ann False]) [] = Some es" by blast
  from whowas_forgets_departed_client [OF es] show ?thesis by auto
qed

end
