(* ===== verification/Spec2Isabelle.thy ===== *)
theory Spec2Isabelle
  imports Parse AddrConf ModeProps SjoinProps Whowas
begin

text \<open>
  A verification development for the IRC server ircd-hybrid.

  \<^bold>\<open>The program.\<close> The server keeps client connections and links to other servers. The read callback
  (\<open>src/src/packet.c\<close>) appends what a socket delivers to a queue of blocks (\<open>src/src/dbuf.c\<close>), takes complete lines from
  it under flood control and hands them to the parser (\<open>src/src/parse.c\<close>), which finds the sender and the command
  (hash tables of \<open>src/src/hash.c\<close>, command trie), cuts the parameters and calls a handler. The handlers of JOIN, PART,
  INVITE, TOPIC, KICK and MODE change the channels (\<open>src/src/channel.c\<close>, \<open>src/src/channel_mode.c\<close>): memberships and
  invitations, the lists of ban, exception and invitation masks, key, limit and mode bits. Other servers introduce the
  channels they have and the members behind them with SJOIN (\<open>src/modules/core/m_sjoin.c\<close>). Masks are compared with
  \<open>match\<close> (\<open>src/src/match.c\<close>) or as address prefixes (\<open>src/src/hostmask.c\<close>), which also holds the table of
  connection rules. Objects are chained with the lists of \<open>src/src/list.c\<close>. The nickname history
  (\<open>src/src/whowas.c\<close>) lets a MODE find a client by a nick it has just given up.

  \<^bold>\<open>The theories.\<close>
  \<^item> Prelude: flags of 32-bit words, C strings, faults as values (\<open>c_error\<close>), runs of operations, and the locale
    \<open>simulation\<close> of a step function and its specification; every refinement of a run below is an interpretation of it.
  \<^item> CharTable and Match: \<open>src/src/match.c\<close> and the character macros of \<open>src/include/irc_string.h\<close>. The tables are given
    entry by entry. \<open>match\<close> is a loop on pointers into the two strings; it is proved to end, to stay inside the strings
    unless the mask ends in a backslash, and to decide the wildcard semantics.
  \<^item> IrcString: \<open>src/src/irc_string.c\<close> on explicit character arrays.
  \<^item> Dlink: \<open>src/src/list.c\<close> on a heap of nodes; any run of list operations implements operations on sequences. Later
    theories therefore hold linked lists as sequences, where deleting an absent node is a fault.
  \<^item> Dbuf and Packet: \<open>src/src/dbuf.c\<close> and \<open>src/src/packet.c\<close>. A queue is a byte FIFO, the parse loops work on the stream
    of bytes, and flood control bounds what they parse.
  \<^item> Hash: the four tables of \<open>src/src/hash.c\<close> with chained objects and the user@host counters.
  \<^item> Parse: \<open>src/src/parse.c\<close>, the command trie and \<open>parse\<close> with its dispatchers.
  \<^item> Netmask and AddrConf: \<open>src/src/hostmask.c\<close>, the readers of IPv4 and IPv6 masks and the hashed table of rules.
  \<^item> Channel and ChanInv: \<open>src/src/channel.c\<close> and the reserved names of \<open>src/src/resv.c\<close>. The record \<open>net\<close> holds channels,
    memberships, clients and what was sent, and \<open>chan_inv\<close> is the invariant that ties them together.
  \<^item> ChannelMode: \<open>src/src/channel_mode.c\<close>, from \<open>add_id\<close> to \<open>set_channel_mode\<close>; ModeInv (frames and the invariant for each
    handler), ModeLines (the lines that announce changes), ModeText (their lengths), ModeReplay (reading them back),
    BanCache (the cached results of the ban test), ChanFits (strings fit their arrays) and ModeProps (the theorems on
    MODE).
  \<^item> Sjoin: \<open>src/modules/core/m_sjoin.c\<close>, the handler of SJOIN with its arrays; SjoinInv (it runs to its end and keeps the
    invariant) and SjoinProps (the rules of the creation times, and that servers end with the same modes).
  \<^item> ChanSteps: the step relation \<open>chan_step\<close> of all channel operations, those of clients and SJOIN, and its reachable states.
  \<^item> Whowas: \<open>src/src/whowas.c\<close>, a ring of slots that implements a bounded list of entries.
  \<^item> This theory: what another server reads of the lines of MODE and SJOIN, with the parser and the handlers together.

  \<^bold>\<open>The theorems.\<close> Every reachable state of the channel operations satisfies the invariant, no operation faults there,
  a member only enters a channel that admits it, and MODE is only obeyed from those who may use it. What MODE announces
  has bounded lines that read back as the changes made. Servers that have heard the same SJOINs of a channel, in any
  order, agree on its creation time and modes. The optimised structures (hash tables, trie, address table,
  list heap, block queues, history ring, cached ban results) are equivalent to plain ones. The remaining theorems give
  bounds, round trips and, where the code does something other than it means to, the exact inputs for which it does.

  \<^bold>\<open>Faults, bounds and fuel.\<close> A failed assertion, a null pointer, or an access outside an array is a value (\<open>Inl\<close> of
  \<open>c_error\<close>, or \<open>None\<close> in the channel theories), and theorems that an operation runs say that this value does not
  arise. Loops are structural recursions on the data or recursions with a proved measure, so there is no fuel: that
  \<open>match\<close>, the line loops and the walks end is the totality of their definitions. Integers have their width where the
  code computes with them (flags, hash values, addresses); counters of list lengths are natural numbers. Sizes such as
  \<open>IRCD_BUFSIZE\<close> and \<open>MAXMODEPARAMS\<close> are those of the headers.

  \<^bold>\<open>Arguments.\<close> The client directory, the configuration, \<open>crypt\<close>, the hash key, what the socket delivers and the clock are
  arguments of the definitions. What is sent is recorded in the state as a list of events.

  \<^bold>\<open>Not modelled.\<close> System calls and their event loops (\<open>s_bsd*.c\<close>, \<open>fdlist.c\<close>, \<open>listener.c\<close>, \<open>auth.c\<close>, \<open>res.c\<close>), TLS,
  the memory pools, log files and signals; reading the configuration (\<open>conf_parser.c\<close> and \<open>conf_lexer.c\<close> are generated,
  \<open>conf.c\<close> fills tables); registration of clients and servers and their removal (\<open>client.c\<close>, \<open>user.c\<close>, \<open>server.c\<close>);
  delivery to sockets (\<open>send.c\<close>); the command handlers under \<open>src/modules\<close> except for \<open>m_sjoin.c\<close> and for the channel
  operations that the others call;
  the channel fixer under \<open>src/chanfix\<close>; and \<open>src/libltdl\<close>, which is not part of the program.
\<close>

section \<open>Modes as another server reads them\<close>




end
